(* ===== verification/Prelude.thy ===== *)
theory Prelude
  imports Main "HOL-Library.AList" "HOL-Library.Multiset" "HOL-Library.Monad_Syntax"
begin

text \<open>
  Shared types and lemmas of the development.

  \<^item> \<open>exc\<close> holds the exceptions the modelled Python code raises (and \<open>OutOfFuel\<close>, the
    value of a loop whose fuel ran out: each fuelled loop comes with a lemma that its
    fuel suffices); a fallible operation returns \<open>exc + 'a\<close>.
  \<^item> A Python \<open>dict\<close> is an association list with distinct keys in insertion order:
    \<open>AList.update\<close> overwrites in place or appends, as \<open>d[k] = v\<close> does, and
    \<open>AList.delete\<close> is \<open>del d[k]\<close>.
  \<^item> A Python \<open>set\<close> is a distinct list. Python does not fix the iteration order of a
    set; theorems quantify over all lists, so they hold for every order.
  \<^item> Python strings are \<open>string\<close>; \<open>startswith\<close>, \<open>endswith\<close>, \<open>split\<close> and \<open>join\<close>
    are written out.
\<close>

section \<open>Exceptions and results\<close>

datatype exc =
    KeyError | IndexError | ValueError | TypeError | AssertionError | AttributeError
  | PolicyException | IncompleteSchemaException | StopIteration | OutOfFuel
  | CongressException | PolicyRuntimeException | DanglingReference | NotFound | DatasourceNameInUse | DatasourceCreationError
  | InvalidParamException | DuplicateTableName | NotImplementedError | BadConfig | BadRequest | DataServiceError | PlainException
  | UnboundLocalError | LazyTable | Conflict | CongressDataTypeHierarchyError

type_synonym 'a res = "exc + 'a"

definition rbind :: "'a res \<Rightarrow> ('a \<Rightarrow> 'b res) \<Rightarrow> 'b res" where
  "rbind r f = (case r of Inl e \<Rightarrow> Inl e | Inr x \<Rightarrow> f x)"

lemma rbind_simps [simp]: "rbind (Inl e) f = Inl e" "rbind (Inr x) f = f x"
  by (simp_all add: rbind_def)

lemma rbind_Inr_iff: "rbind r f = Inr y \<longleftrightarrow> (\<exists>x. r = Inr x \<and> f x = Inr y)"
  by (cases r) auto

lemma rbind_Inl_iff: "rbind r f = Inl e \<longleftrightarrow> r = Inl e \<or> (\<exists>x. r = Inr x \<and> f x = Inl e)"
  by (cases r) auto

lemma rbind_cong [fundef_cong]:
  "r = r' \<Longrightarrow> (\<And>x. r' = Inr x \<Longrightarrow> f x = g x) \<Longrightarrow> rbind r f = rbind r' g"
  by (cases r') auto

text \<open>A \<open>for\<close> loop over a list whose body may raise.\<close>

primrec for_res :: "('a \<Rightarrow> 's \<Rightarrow> 's res) \<Rightarrow> 'a list \<Rightarrow> 's \<Rightarrow> 's res" where
  "for_res f [] s = Inr s"
| "for_res f (x # xs) s = rbind (f x s) (for_res f xs)"

lemma for_res_append: "for_res f (xs @ ys) s = rbind (for_res f xs s) (for_res f ys)"
  by (induction xs arbitrary: s) (auto simp: rbind_def split: sum.splits)

lemma for_res_cong [fundef_cong]:
  "xs = ys \<Longrightarrow> s = t \<Longrightarrow> (\<And>x s. x \<in> set ys \<Longrightarrow> f x s = g x s) \<Longrightarrow> for_res f xs s = for_res g ys t"
  by (induction ys arbitrary: xs s t) (auto intro!: rbind_cong)

lemma for_res_map: "for_res f (map h xs) s = for_res (\<lambda>x. f (h x)) xs s"
  by (induction xs arbitrary: s) (auto intro: rbind_cong)

lemma for_res_nested:
  "for_res (\<lambda>(u, es). for_res (f u) es) xs s =
   for_res (\<lambda>(u, e). f u e) (concat (map (\<lambda>(u, es). map (Pair u) es) xs)) s"
  by (induction xs arbitrary: s) (auto simp: for_res_append for_res_map intro: rbind_cong)

lemma for_res_invariant:
  assumes "\<And>x s s'. x \<in> set xs \<Longrightarrow> P s \<Longrightarrow> f x s = Inr s' \<Longrightarrow> P s'" and "P s"
    and "for_res f xs s = Inr s'"
  shows "P s'"
  using assms by (induction xs arbitrary: s) (auto simp: rbind_Inr_iff)

lemma for_res_total:
  assumes "\<And>x s. x \<in> set xs \<Longrightarrow> P s \<Longrightarrow> \<exists>s'. f x s = Inr s' \<and> P s'" and "P s"
  shows "\<exists>s'. for_res f xs s = Inr s' \<and> P s'"
  using assms
proof (induction xs arbitrary: s)
  case (Cons x xs)
  then obtain s1 where "f x s = Inr s1" "P s1" by (meson list.set_intros(1))
  with Cons show ?case by auto
qed auto

text \<open>A list comprehension whose element may raise.\<close>

primrec map_res :: "('a \<Rightarrow> 'b res) \<Rightarrow> 'a list \<Rightarrow> 'b list res" where
  "map_res f [] = Inr []"
| "map_res f (x # xs) = rbind (f x) (\<lambda>y. rbind (map_res f xs) (\<lambda>ys. Inr (y # ys)))"

lemma map_res_Inr: "list_all2 (\<lambda>x y. f x = Inr y) xs ys \<Longrightarrow> map_res f xs = Inr ys"
  by (induction rule: list_all2_induct) auto

lemma map_res_cong [fundef_cong]:
  "xs = ys \<Longrightarrow> (\<And>x. x \<in> set ys \<Longrightarrow> f x = g x) \<Longrightarrow> map_res f xs = map_res g ys"
  by (induction ys arbitrary: xs) (auto intro!: rbind_cong)

text \<open>A history of operations, with the output of each.\<close>

primrec run_ops :: "('p \<Rightarrow> 's \<Rightarrow> 'o \<times> 's) \<Rightarrow> 'p list \<Rightarrow> 's \<Rightarrow> 'o list \<times> 's" where
  "run_ops f [] s = ([], s)"
| "run_ops f (p # ps) s =
     (let (out, s') = f p s; (outs, s'') = run_ops f ps s' in (out # outs, s''))"

lemma run_ops_sim:
  assumes "\<And>p s t. R s t \<Longrightarrow> fst (f p s) = fst (g p t) \<and> R (snd (f p s)) (snd (g p t))" and "R s t"
  shows "fst (run_ops f ps s) = fst (run_ops g ps t) \<and> R (snd (run_ops f ps s)) (snd (run_ops g ps t))"
  using assms(2)
proof (induction ps arbitrary: s t)
  case (Cons p ps)
  from Cons.IH [of "snd (f p s)" "snd (g p t)"] assms(1) [OF Cons.prems, of p] show ?case
    by (simp add: split_beta)
qed simp

lemma run_ops_sim_on:
  assumes "\<And>p s t. p \<in> set ps \<Longrightarrow> R s t \<Longrightarrow> fst (f p s) = fst (g p t) \<and> R (snd (f p s)) (snd (g p t))" and "R s t"
  shows "fst (run_ops f ps s) = fst (run_ops g ps t) \<and> R (snd (run_ops f ps s)) (snd (run_ops g ps t))"
  using assms
proof (induction ps arbitrary: s t)
  case (Cons p ps)
  from Cons.IH [of "snd (f p s)" "snd (g p t)"] Cons.prems(1) [OF _ Cons.prems(2), of p] Cons.prems(1) show ?case
    by (simp add: split_beta)
qed simp

text \<open>A \<open>for\<close> loop whose body may raise and keeps what it changed before.\<close>

primrec for_keep :: "('a \<Rightarrow> 's \<Rightarrow> exc option \<times> 's) \<Rightarrow> 'a list \<Rightarrow> 's \<Rightarrow> exc option \<times> 's" where
  "for_keep f [] s = (None, s)"
| "for_keep f (x # xs) s = (case f x s of (Some e, s') \<Rightarrow> (Some e, s') | (None, s') \<Rightarrow> for_keep f xs s')"

section \<open>Dictionaries\<close>

type_synonym ('k, 'v) dict = "('k \<times> 'v) list"

abbreviation dkeys :: "('k, 'v) dict \<Rightarrow> 'k list" where
  "dkeys d \<equiv> map fst d"

abbreviation dict_ok :: "('k, 'v) dict \<Rightarrow> bool" where
  "dict_ok d \<equiv> distinct (map fst d)"

lemma map_of_update [simp]: "map_of (AList.update k v d) = (map_of d)(k \<mapsto> v)"
  by (rule AList.update_conv')

lemma map_of_delete [simp]: "map_of (AList.delete k d) = (map_of d)(k := None)"
  by (rule AList.delete_conv')

lemma set_keys_update [simp]: "fst ` set (AList.update k v d) = insert k (fst ` set d)"
  by (induction d) auto

lemma keys_update: "dkeys (AList.update k v d) = (if k \<in> set (dkeys d) then dkeys d else dkeys d @ [k])"
  by (induction d) auto

lemma dict_ok_update [intro]: "dict_ok d \<Longrightarrow> dict_ok (AList.update k v d)"
  by (simp add: AList.distinct_update)

lemma dict_ok_delete [intro]: "dict_ok d \<Longrightarrow> dict_ok (AList.delete k d)"
  by (simp add: AList.distinct_delete)

lemma keys_delete: "set (dkeys (AList.delete k d)) = set (dkeys d) - {k}"
  by (induction d) auto

lemma set_keys_delete [simp]: "fst ` set (AList.delete k d) = fst ` set d - {k}"
  using keys_delete [of k d] by simp

lemma map_of_None_keys: "map_of d k = None \<longleftrightarrow> k \<notin> fst ` set d"
  by (rule map_of_eq_None_iff)

lemma map_of_Some_keys: "map_of d k = Some v \<Longrightarrow> k \<in> fst ` set d"
  by (metis map_of_eq_None_iff option.distinct(1))

lemma dom_map_of: "dom (map_of d) = fst ` set d"
  by (rule dom_map_of_conv_image_fst)

lemma dict_mem_iff: "dict_ok d \<Longrightarrow> (k, v) \<in> set d \<longleftrightarrow> map_of d k = Some v"
  by (simp add: map_of_eq_Some_iff)

lemma dict_ball_iff: "dict_ok d \<Longrightarrow> (\<forall>(k, v) \<in> set d. P k v) \<longleftrightarrow> (\<forall>k v. map_of d k = Some v \<longrightarrow> P k v)"
  by (auto dest: map_of_SomeD)

lemma map_of_filter_key:
  "map_of (filter (\<lambda>(k, v). P k) d) k = (if P k then map_of d k else None)"
  by (induction d) auto

lemma not_in_image: "k \<notin> f ` A \<Longrightarrow> y \<in> A \<Longrightarrow> f y \<noteq> k"
  by blast

lemma filter_key_id: "k \<notin> key ` set xs \<Longrightarrow> filter (\<lambda>y. key y \<noteq> k) xs = xs"
  by (induction xs) auto

section \<open>Sets as distinct lists\<close>

definition set_add :: "'a \<Rightarrow> 'a list \<Rightarrow> 'a list" where
  "set_add x xs = (if x \<in> set xs then xs else xs @ [x])"

lemma set_set_add [simp]: "set (set_add x xs) = insert x (set xs)"
  by (auto simp: set_add_def)

lemma distinct_set_add [simp]: "distinct (set_add x xs) = distinct xs"
  by (auto simp: set_add_def)

definition set_union :: "'a list \<Rightarrow> 'a list \<Rightarrow> 'a list" where
  "set_union xs ys = fold set_add ys xs"

lemma set_set_union [simp]: "set (set_union xs ys) = set xs \<union> set ys"
  unfolding set_union_def by (induction ys arbitrary: xs) auto

lemma distinct_set_union [simp]: "distinct (set_union xs ys) = distinct xs"
  unfolding set_union_def by (induction ys arbitrary: xs) auto

definition set_minus :: "'a list \<Rightarrow> 'a list \<Rightarrow> 'a list" where
  "set_minus xs ys = filter (\<lambda>x. x \<notin> set ys) xs"

lemma set_set_minus [simp]: "set (set_minus xs ys) = set xs - set ys"
  by (auto simp: set_minus_def)

section \<open>Sorting with a comparison\<close>

text \<open>
  \<open>sorted(xs)\<close> with the class's own \<open>__lt__\<close>: stable insertion. For a strict linear
  order any sorting algorithm returns this list.
\<close>

primrec insort_by :: "('a \<Rightarrow> 'a \<Rightarrow> bool) \<Rightarrow> 'a \<Rightarrow> 'a list \<Rightarrow> 'a list" where
  "insort_by lt x [] = [x]"
| "insort_by lt x (y # ys) = (if lt y x then y # insort_by lt x ys else x # y # ys)"

primrec sorted_by :: "('a \<Rightarrow> 'a \<Rightarrow> bool) \<Rightarrow> 'a list \<Rightarrow> 'a list" where
  "sorted_by lt [] = []"
| "sorted_by lt (x # xs) = insort_by lt x (sorted_by lt xs)"

lemma mset_insort_by [simp]: "mset (insort_by lt x xs) = add_mset x (mset xs)"
  by (induction xs) auto

lemma mset_sorted_by [simp]: "mset (sorted_by lt xs) = mset xs"
  by (induction xs) auto

lemma set_sorted_by [simp]: "set (sorted_by lt xs) = set xs"
  by (metis mset_sorted_by set_mset_mset)

lemma length_sorted_by [simp]: "length (sorted_by lt xs) = length xs"
  by (metis mset_sorted_by size_mset)

lemma sorted_by_key:
  assumes "\<And>x y. x \<in> set xs \<Longrightarrow> y \<in> set xs \<Longrightarrow> lt x y \<longleftrightarrow> f x < (f y :: 'b :: linorder)"
  shows "map f (sorted_by lt xs) = sort (map f xs)"
proof -
  have ins: "map f (insort_by lt x ys) = insort (f x) (map f ys)"
    if "\<And>y. y \<in> set ys \<Longrightarrow> lt y x \<longleftrightarrow> f y < f x" for x ys
    using that by (induction ys) auto
  show ?thesis using assms
  proof (induction xs)
    case (Cons x xs)
    then have "map f (sorted_by lt xs) = sort (map f xs)" by simp
    with Cons.prems ins [of "sorted_by lt xs" x] show ?case by simp
  qed simp
qed

section \<open>Strings\<close>

definition startswith :: "string \<Rightarrow> string \<Rightarrow> bool" where
  "startswith s p = (take (length p) s = p)"

definition endswith :: "string \<Rightarrow> string \<Rightarrow> bool" where
  "endswith s p = (length p \<le> length s \<and> drop (length s - length p) s = p)"

text \<open>\<open>s.split(c)\<close> for a one-character separator, and \<open>sep.join(pieces)\<close>.\<close>

fun split_on :: "char \<Rightarrow> string \<Rightarrow> string list" where
  "split_on c [] = [[]]"
| "split_on c (x # xs) =
     (if x = c then [] # split_on c xs
      else (case split_on c xs of [] \<Rightarrow> [[x]] | p # ps \<Rightarrow> (x # p) # ps))"

fun join_with :: "string \<Rightarrow> string list \<Rightarrow> string" where
  "join_with sep [] = []"
| "join_with sep [s] = s"
| "join_with sep (s # ss) = s @ sep @ join_with sep ss"

lemma split_on_not_Nil [simp]: "split_on c s \<noteq> []"
  by (cases s) (auto split: list.splits)

lemma join_split_on: "join_with [c] (split_on c s) = s"
proof (induction s)
  case (Cons x xs)
  then show ?case
    by (cases "split_on c xs"; cases "tl (split_on c xs)") (auto simp: neq_Nil_conv)
qed simp

lemma split_on_no_sep: "c \<notin> set s \<Longrightarrow> split_on c s = [s]"
  by (induction s) auto

lemma split_on_append: "c \<notin> set s \<Longrightarrow> split_on c (s @ c # t) = s # split_on c t"
  by (induction s) auto

lemma split_on_pieces: "p \<in> set (split_on c s) \<Longrightarrow> c \<notin> set p"
proof (induction s arbitrary: p)
  case (Cons x xs)
  then show ?case by (fastforce split: list.splits if_splits)
qed simp

lemma endswith_snoc [simp]: "endswith (s @ [c]) [d] = (c = d)"
  by (simp add: endswith_def)

lemma endswith_one: "endswith s [d] \<longleftrightarrow> s \<noteq> [] \<and> last s = d"
  by (cases s rule: rev_cases) (auto simp: endswith_def)

text \<open>\<open>str(n)\<close> of a non-negative integer.\<close>

fun nat_str :: "nat \<Rightarrow> string" where
  "nat_str n = (if n < 10 then [char_of (48 + n)] else nat_str (n div 10) @ [char_of (48 + n mod 10)])"

declare nat_str.simps [simp del]

end
