(* ===== verification/Syntax.thy ===== *)
theory Syntax
  imports Prelude Complex_Main "HOL-Library.Option_ord" "HOL-Library.Product_Lexorder" "HOL-Library.List_Lexorder"
    "HOL-Library.Char_ord"
begin

text \<open>
  The formulas of the policy language, from \<open>compile.py\<close>: terms (\<open>Variable\<close>,
  \<open>ObjectConstant\<close>), \<open>Fact\<close>, \<open>Tablename\<close>, \<open>Literal\<close>, \<open>Rule\<close> and \<open>Event\<close>, with their
  comparisons and the operations that build new formulas.

  Left out are the fields no comparison looks at (location, id, name, comment, original
  text) and the cached hash. Floats are rationals. The order of constants, table names and literals is
  total here, as in Python 2: \<open>None < s\<close>, and numbers before strings. In Python 3, which the package
  asks for, \<open><\<close> raises \<open>TypeError\<close> on an integer and a string and on \<open>None\<close> and a modal,
  so sorting a body that has both raises; what is shown of rules that are compared or
  sorted is for rules whose literals can be sorted.
\<close>

section \<open>Constants\<close>

datatype pyval = VStr string | VInt int | VFlt rat

datatype obj_type = FLOAT | INTEGER | STRING

text \<open>The parser and \<open>create_from_python\<close> set the \<open>type\<close> of a constant from its value.\<close>

fun val_type :: "pyval \<Rightarrow> obj_type" where
  "val_type (VStr _) = STRING"
| "val_type (VInt _) = INTEGER"
| "val_type (VFlt _) = FLOAT"

fun type_rank :: "obj_type \<Rightarrow> nat" where
  "type_rank FLOAT = 0"
| "type_rank INTEGER = 1"
| "type_rank STRING = 2"

text \<open>Python's \<open>==\<close> and \<open><\<close> on the values.\<close>

fun py_eq :: "pyval \<Rightarrow> pyval \<Rightarrow> bool" where
  "py_eq (VStr a) (VStr b) = (a = b)"
| "py_eq (VInt a) (VInt b) = (a = b)"
| "py_eq (VFlt a) (VFlt b) = (a = b)"
| "py_eq (VInt a) (VFlt b) = (of_int a = b)"
| "py_eq (VFlt a) (VInt b) = (a = of_int b)"
| "py_eq _ _ = False"

fun py_lt :: "pyval \<Rightarrow> pyval \<Rightarrow> bool" where
  "py_lt (VStr a) (VStr b) = (a < b)"
| "py_lt (VStr a) _ = False"
| "py_lt (VInt a) (VInt b) = (a < b)"
| "py_lt (VInt a) (VFlt b) = (of_int a < b)"
| "py_lt (VFlt a) (VInt b) = (a < of_int b)"
| "py_lt (VFlt a) (VFlt b) = (a < b)"
| "py_lt _ (VStr b) = True"

text \<open>\<open>ObjectConstant.__lt__\<close> on two constants: by value, then by type name.\<close>

definition const_lt :: "pyval \<Rightarrow> pyval \<Rightarrow> bool" where
  "const_lt a b = (if \<not> py_eq a b then py_lt a b else type_rank (val_type a) < type_rank (val_type b))"

text \<open>It is the lexicographic order of this key.\<close>

fun const_key :: "pyval \<Rightarrow> (bool \<times> rat) \<times> nat \<times> string" where
  "const_key (VStr s) = ((True, 0), 2, s)"
| "const_key (VInt i) = ((False, of_int i), 1, [])"
| "const_key (VFlt q) = ((False, q), 0, [])"

lemma const_key_inj: "const_key a = const_key b \<Longrightarrow> a = b"
  by (cases a; cases b) auto

lemma const_lt_key: "const_lt a b \<longleftrightarrow> const_key a < const_key b"
  by (cases a; cases b) (auto simp: const_lt_def less_prod_def)

instantiation pyval :: linorder
begin
definition "less_pyval a b = const_lt a b"
definition "less_eq_pyval a b = (const_lt a b \<or> a = (b :: pyval))"
instance
proof
  fix x y z :: pyval
  have eq: "x = y \<longleftrightarrow> const_key x = const_key y" for x y by (auto dest: const_key_inj)
  show "x < y \<longleftrightarrow> x \<le> y \<and> \<not> y \<le> x" "x \<le> x" "x \<le> y \<Longrightarrow> y \<le> z \<Longrightarrow> x \<le> z"
    "x \<le> y \<Longrightarrow> y \<le> x \<Longrightarrow> x = y" "x \<le> y \<or> y \<le> x"
    unfolding less_pyval_def less_eq_pyval_def const_lt_key eq by (auto simp del: less_prod_simp)
qed
end

section \<open>Terms\<close>

datatype trm = Variable string | ObjectConstant pyval

fun is_variable :: "trm \<Rightarrow> bool" where
  "is_variable (Variable _) = True"
| "is_variable (ObjectConstant _) = False"

text \<open>\<open>SORT_RANK\<close> puts variables before constants.\<close>

fun term_lt :: "trm \<Rightarrow> trm \<Rightarrow> bool" where
  "term_lt (Variable a) (Variable b) = (a < b)"
| "term_lt (Variable a) (ObjectConstant b) = True"
| "term_lt (ObjectConstant a) (Variable b) = False"
| "term_lt (ObjectConstant a) (ObjectConstant b) = const_lt a b"

instantiation trm :: linorder
begin
definition "less_trm a b = term_lt a b"
definition "less_eq_trm a b = (term_lt a b \<or> a = (b :: trm))"
instance
proof
  fix x y z :: trm
  show "x < y \<longleftrightarrow> x \<le> y \<and> \<not> y \<le> x"
    by (cases x; cases y) (auto simp: less_trm_def less_eq_trm_def less_pyval_def [symmetric])
  show "x \<le> x" by (simp add: less_eq_trm_def)
  show "x \<le> y \<Longrightarrow> y \<le> z \<Longrightarrow> x \<le> z"
    by (cases x; cases y; cases z) (auto simp: less_eq_trm_def less_pyval_def [symmetric])
  show "x \<le> y \<Longrightarrow> y \<le> x \<Longrightarrow> x = y"
    by (cases x; cases y) (auto simp: less_eq_trm_def less_pyval_def [symmetric])
  show "x \<le> y \<or> y \<le> x"
    by (cases x; cases y) (auto simp: less_eq_trm_def less_pyval_def [symmetric])
qed
end

text \<open>Names of columns: a position or a column name. Positions sort first.\<close>

datatype colref = ColNum int | ColName string

fun colref_lt :: "colref \<Rightarrow> colref \<Rightarrow> bool" where
  "colref_lt (ColNum a) (ColNum b) = (a < b)"
| "colref_lt (ColNum a) (ColName b) = True"
| "colref_lt (ColName a) (ColNum b) = False"
| "colref_lt (ColName a) (ColName b) = (a < b)"

instantiation colref :: linorder
begin
definition "less_colref a b = colref_lt a b"
definition "less_eq_colref a b = (colref_lt a b \<or> a = (b :: colref))"
instance
proof
  fix x y z :: colref
  show "x < y \<longleftrightarrow> x \<le> y \<and> \<not> y \<le> x" by (cases x; cases y) (auto simp: less_colref_def less_eq_colref_def)
  show "x \<le> x" by (simp add: less_eq_colref_def)
  show "x \<le> y \<Longrightarrow> y \<le> z \<Longrightarrow> x \<le> z" by (cases x; cases y; cases z) (auto simp: less_eq_colref_def)
  show "x \<le> y \<Longrightarrow> y \<le> x \<Longrightarrow> x = y" by (cases x; cases y) (auto simp: less_eq_colref_def)
  show "x \<le> y \<or> y \<le> x" by (cases x; cases y) (auto simp: less_eq_colref_def)
qed
end

section \<open>Table names\<close>

record tablename =
  tbl :: string
  service :: "string option"
  modal :: "string option"

text \<open>Python's \<open>a or b\<close> on an optional string: the empty string counts as false.\<close>

definition or_else :: "string option \<Rightarrow> string option \<Rightarrow> string option" where
  "or_else a b = (case a of None \<Rightarrow> b | Some s \<Rightarrow> if s = [] then b else a)"

definition truthy :: "string option \<Rightarrow> bool" where
  "truthy s = (s \<noteq> None \<and> s \<noteq> Some [])"

definition parse_service_table :: "string \<Rightarrow> string option \<times> string" where
  "parse_service_table t =
     (case split_on CHR '':'' t of
        [piece] \<Rightarrow> (None, piece)
      | piece # pieces \<Rightarrow> (Some piece, join_with '':'' pieces)
      | [] \<Rightarrow> (None, []))"

definition build_service_table :: "string \<Rightarrow> string \<Rightarrow> string" where
  "build_service_table s t = s @ '':'' @ t"

definition create_from_tablename :: "string \<Rightarrow> string option \<Rightarrow> bool \<Rightarrow> tablename" where
  "create_from_tablename t srv use_modules =
     (let (srv, t) = (if srv = None \<and> use_modules then parse_service_table t else (srv, t))
      in \<lparr>tbl = t, service = srv, modal = None\<rparr>)"

definition opt_pieces :: "string option list \<Rightarrow> string list" where
  "opt_pieces xs = map the (filter (\<lambda>x. x \<noteq> None) xs)"

definition global_tablename :: "string option \<Rightarrow> tablename \<Rightarrow> string" where
  "global_tablename prefix t = join_with '':'' (opt_pieces [prefix, service t, Some (tbl t)])"

definition tablename_matches :: "string option \<Rightarrow> string \<Rightarrow> string option \<Rightarrow> tablename \<Rightarrow> bool" where
  "tablename_matches srv t md self =
     (if srv = service self \<and> t = tbl self \<and> md = modal self then True
      else (let (self_service, self_table) = parse_service_table (tbl self)
            in srv = self_service \<and> t = self_table \<and> md = modal self))"

definition tablename_lt :: "tablename \<Rightarrow> tablename \<Rightarrow> bool" where
  "tablename_lt a b =
     (if modal a \<noteq> modal b then modal a < modal b
      else if service a \<noteq> service b then
        (case (service a, service b) of
           (None, _) \<Rightarrow> True
         | (_, None) \<Rightarrow> False
         | (Some x, Some y) \<Rightarrow> x < y)
      else if tbl a \<noteq> tbl b then tbl a < tbl b
      else False)"

definition tablename_same :: "string option \<Rightarrow> tablename \<Rightarrow> tablename \<Rightarrow> bool" where
  "tablename_same default_service a b =
     (if tbl a \<noteq> tbl b then False
      else if modal a \<noteq> modal b then False
      else or_else (service a) default_service = or_else (service b) default_service)"

definition tablename_str :: "tablename \<Rightarrow> string" where
  "tablename_str t = join_with '':'' (opt_pieces [modal t, service t, Some (tbl t)])"

definition tablename_name :: "string option \<Rightarrow> tablename \<Rightarrow> string" where
  "tablename_name default_service t =
     (case or_else (service t) default_service of
        None \<Rightarrow> tbl t
      | Some srv \<Rightarrow> srv @ '':'' @ tbl t)"

text \<open>The update operations return the table name and whether it is a changed copy.\<close>

definition tablename_invert_update :: "tablename \<Rightarrow> tablename \<times> bool" where
  "tablename_invert_update t =
     (if endswith (tbl t) ''+'' then (t\<lparr>tbl := butlast (tbl t) @ ''-''\<rparr>, True)
      else if endswith (tbl t) ''-'' then (t\<lparr>tbl := butlast (tbl t) @ ''+''\<rparr>, True)
      else (t, False))"

definition tablename_drop_update :: "tablename \<Rightarrow> tablename \<times> bool" where
  "tablename_drop_update t =
     (if endswith (tbl t) ''+'' \<or> endswith (tbl t) ''-'' then (t\<lparr>tbl := butlast (tbl t)\<rparr>, True)
      else (t, False))"

definition tablename_make_update :: "bool \<Rightarrow> tablename \<Rightarrow> tablename \<times> bool" where
  "tablename_make_update is_insert t =
     (if is_insert then t\<lparr>tbl := tbl t @ ''+''\<rparr> else t\<lparr>tbl := tbl t @ ''-''\<rparr>, True)"

definition tablename_is_update :: "tablename \<Rightarrow> bool" where
  "tablename_is_update t = (endswith (tbl t) ''+'' \<or> endswith (tbl t) ''-'')"

definition tablename_drop_service :: "tablename \<Rightarrow> tablename" where
  "tablename_drop_service t = t\<lparr>service := None\<rparr>"

lemma tablename_lt_key: "tablename_lt a b \<longleftrightarrow> (modal a, service a, tbl a) < (modal b, service b, tbl b)"
  by (cases "service a"; cases "service b") (auto simp: tablename_lt_def less_prod_def)

text \<open>
  Qualified table names round trip: \<open>parse_service_table\<close> splits a name at its first
  colon (the table part may contain further ones) and gives no service to a name without a
  colon, and \<open>build_service_table\<close> puts the pieces back together to the same name.
\<close>

theorem service_table_roundtrip:
  "parse_service_table s =
     (if CHR '':'' \<in> set s
      then (Some (takeWhile (\<lambda>c. c \<noteq> CHR '':'') s), tl (dropWhile (\<lambda>c. c \<noteq> CHR '':'') s))
      else (None, s)) \<and>
   (case parse_service_table s of (None, t) \<Rightarrow> t | (Some srv, t) \<Rightarrow> build_service_table srv t) = s"
proof (cases "CHR '':'' \<in> set s")
  case False
  then show ?thesis by (simp add: parse_service_table_def split_on_no_sep)
next
  case True
  then obtain a b where s: "s = a @ CHR '':'' # b" and a: "CHR '':'' \<notin> set a" by (meson split_list_first)
  obtain p ps where "split_on CHR '':'' b = p # ps" by (cases "split_on CHR '':'' b") auto
  moreover from this have "join_with '':'' (p # ps) = b" using join_split_on [of "CHR '':''" b] by simp
  ultimately have "parse_service_table s = (Some a, b)"
    using a by (simp add: parse_service_table_def s split_on_append)
  moreover have "takeWhile (\<lambda>c. c \<noteq> CHR '':'') s = a" "dropWhile (\<lambda>c. c \<noteq> CHR '':'') s = CHR '':'' # b"
    using a by (auto simp: s takeWhile_append dropWhile_append)
  ultimately show ?thesis using True by (simp add: s build_service_table_def)
qed

section \<open>Literals\<close>

record literal =
  table :: tablename
  arguments :: "trm list"
  negated :: bool
  named_arguments :: "(colref \<times> trm) list"

text \<open>\<open>Literal.__init__\<close> sorts the named arguments: numbers first, then names.\<close>

definition mk_literal :: "tablename \<Rightarrow> trm list \<Rightarrow> bool \<Rightarrow> (colref \<times> trm) list \<Rightarrow> literal" where
  "mk_literal t args neg named =
     \<lparr>table = t, arguments = args, negated = neg,
      named_arguments =
        sort (filter (\<lambda>(n, _). case n of ColNum _ \<Rightarrow> True | ColName _ \<Rightarrow> False) named) @
        sort (filter (\<lambda>(n, _). case n of ColNum _ \<Rightarrow> False | ColName _ \<Rightarrow> True) named)\<rparr>"

definition literal_of_tuple :: "string \<Rightarrow> pyval list \<Rightarrow> literal" where
  "literal_of_tuple t vs = mk_literal (create_from_tablename t None True) (map ObjectConstant vs) False []"

definition literal_lt :: "literal \<Rightarrow> literal \<Rightarrow> bool" where
  "literal_lt a b =
     (if table a \<noteq> table b then tablename_lt (table a) (table b)
      else if negated a \<noteq> negated b then negated a < negated b
      else if length (arguments a) \<noteq> length (arguments b) then length (arguments a) < length (arguments b)
      else if length (named_arguments a) \<noteq> length (named_arguments b)
        then length (named_arguments a) < length (named_arguments b)
      else arguments a < arguments b \<or> named_arguments a < named_arguments b)"

definition lit_is_atom :: "literal \<Rightarrow> bool" where
  "lit_is_atom l = (\<not> negated l)"

definition lit_variables :: "literal \<Rightarrow> trm list" where
  "lit_variables l = remdups (filter is_variable (arguments l))"

fun term_name :: "trm \<Rightarrow> string" where
  "term_name (Variable n) = n"
| "term_name (ObjectConstant _) = []"

definition lit_variable_names :: "literal \<Rightarrow> string list" where
  "lit_variable_names l = remdups (map term_name (filter is_variable (arguments l)))"

definition lit_is_ground :: "literal \<Rightarrow> bool" where
  "lit_is_ground l = list_all (\<lambda>a. \<not> is_variable a) (arguments l)"

text \<open>\<open>plug\<close> with a dictionary; its values are terms (\<open>create_from_python\<close> keeps them).\<close>

definition plug_term :: "(trm, trm) dict \<Rightarrow> trm \<Rightarrow> trm" where
  "plug_term binding arg = (case map_of binding arg of Some t \<Rightarrow> t | None \<Rightarrow> arg)"

definition lit_plug :: "(trm, trm) dict \<Rightarrow> literal \<Rightarrow> literal" where
  "lit_plug binding l = l\<lparr>arguments := map (plug_term binding) (arguments l)\<rparr>"

definition lit_complement :: "literal \<Rightarrow> literal" where
  "lit_complement l = l\<lparr>negated := \<not> negated l\<rparr>"

definition lit_make_positive :: "literal \<Rightarrow> literal" where
  "lit_make_positive l = (if negated l then l\<lparr>negated := False\<rparr> else l)"

definition lit_modify_table :: "(tablename \<Rightarrow> tablename \<times> bool) \<Rightarrow> literal \<Rightarrow> literal" where
  "lit_modify_table f l =
     (let (newtable, is_different) = f (table l)
      in if is_different then l\<lparr>table := newtable\<rparr> else l)"

definition lit_invert_update :: "literal \<Rightarrow> literal" where
  "lit_invert_update = lit_modify_table tablename_invert_update"

definition lit_drop_update :: "literal \<Rightarrow> literal" where
  "lit_drop_update = lit_modify_table tablename_drop_update"

definition lit_make_update :: "bool \<Rightarrow> literal \<Rightarrow> literal" where
  "lit_make_update is_insert = lit_modify_table (tablename_make_update is_insert)"

definition lit_is_update :: "literal \<Rightarrow> bool" where
  "lit_is_update l = tablename_is_update (table l)"

definition lit_tablename :: "string option \<Rightarrow> literal \<Rightarrow> string" where
  "lit_tablename default_service l = tablename_name default_service (table l)"

definition lit_theory_name :: "literal \<Rightarrow> string option" where
  "lit_theory_name l = service (table l)"

definition lit_drop_theory :: "literal \<Rightarrow> literal" where
  "lit_drop_theory l = l\<lparr>table := tablename_drop_service (table l)\<rparr>"

section \<open>Facts, rules and events\<close>

record fact =
  ftable :: string
  fvals :: "pyval list"

definition fact_lt :: "fact \<Rightarrow> fact \<Rightarrow> bool" where
  "fact_lt a b = (if ftable a \<noteq> ftable b then ftable a < ftable b else fvals a < fvals b)"

record rule =
  heads :: "literal list"
  body :: "literal list"

abbreviation rule_head :: "rule \<Rightarrow> literal" where
  "rule_head r \<equiv> hd (heads r)"

definition lists_lt :: "('a \<Rightarrow> 'a \<Rightarrow> bool) \<Rightarrow> 'a list \<Rightarrow> 'a list \<Rightarrow> bool" where
  "lists_lt lt xs ys = ((xs, ys) \<in> lexord {(a, b). lt a b})"

definition rule_lt :: "rule \<Rightarrow> rule \<Rightarrow> bool" where
  "rule_lt a b =
     (if length (heads a) \<noteq> length (heads b) then length (heads a) < length (heads b)
      else if length (body a) \<noteq> length (body b) then length (body a) < length (body b)
      else let x = sorted_by literal_lt (heads a); y = sorted_by literal_lt (heads b)
        in if x \<noteq> y then lists_lt literal_lt x y
           else lists_lt literal_lt (sorted_by literal_lt (body a)) (sorted_by literal_lt (body b)))"

definition rule_eq :: "rule \<Rightarrow> rule \<Rightarrow> bool" where
  "rule_eq a b =
     (length (heads a) = length (heads b) \<and> length (body a) = length (body b) \<and>
      sorted_by literal_lt (heads a) = sorted_by literal_lt (heads b) \<and>
      sorted_by literal_lt (body a) = sorted_by literal_lt (body b))"

text \<open>What rules are equal by, and hashed by.\<close>

definition rule_key :: "rule \<Rightarrow> literal list \<times> literal list" where
  "rule_key r = (sorted_by literal_lt (heads r), sorted_by literal_lt (body r))"

lemma rule_eq_key: "rule_eq a b \<longleftrightarrow> rule_key a = rule_key b"
  by (auto simp: rule_eq_def rule_key_def) (metis length_sorted_by)+

text \<open>\<open>__copy__\<close> keeps the first head only.\<close>

definition rule_copy :: "rule \<Rightarrow> rule" where
  "rule_copy r = \<lparr>heads = [rule_head r], body = body r\<rparr>"

definition rule_tablename :: "string option \<Rightarrow> rule \<Rightarrow> string" where
  "rule_tablename theory r = lit_tablename theory (rule_head r)"

definition rule_theory_name :: "rule \<Rightarrow> string option" where
  "rule_theory_name r = lit_theory_name (rule_head r)"

definition rule_drop_theory :: "rule \<Rightarrow> rule" where
  "rule_drop_theory r = r\<lparr>heads := map lit_drop_theory (heads r)\<rparr>"

definition rule_variables :: "rule \<Rightarrow> trm list" where
  "rule_variables r =
     fold (\<lambda>l vs. set_union vs (lit_variables l)) (body r)
       (fold (\<lambda>l vs. set_union vs (lit_variables l)) (heads r) [])"

definition rule_variable_names :: "rule \<Rightarrow> string list" where
  "rule_variable_names r =
     fold (\<lambda>l vs. set_union vs (lit_variable_names l)) (body r)
       (fold (\<lambda>l vs. set_union vs (lit_variable_names l)) (heads r) [])"

definition rule_plug_body :: "(trm, trm) dict \<Rightarrow> rule \<Rightarrow> literal list" where
  "rule_plug_body binding r = map (lit_plug binding) (body r)"

definition rule_plug_heads :: "(trm, trm) dict \<Rightarrow> rule \<Rightarrow> literal list" where
  "rule_plug_heads binding r = map (lit_plug binding) (heads r)"

definition rule_plug :: "(trm, trm) dict \<Rightarrow> rule \<Rightarrow> rule" where
  "rule_plug binding r = \<lparr>heads = rule_plug_heads binding r, body = rule_plug_body binding r\<rparr>"

definition rule_invert_update :: "rule \<Rightarrow> rule" where
  "rule_invert_update r = (rule_copy r)\<lparr>heads := map lit_invert_update (heads r)\<rparr>"

definition rule_drop_update :: "rule \<Rightarrow> rule" where
  "rule_drop_update r = (rule_copy r)\<lparr>heads := map lit_drop_update (heads r)\<rparr>"

definition rule_make_update :: "bool \<Rightarrow> rule \<Rightarrow> rule" where
  "rule_make_update is_insert r = (rule_copy r)\<lparr>heads := map (lit_make_update is_insert) (heads r)\<rparr>"

definition rule_is_update :: "rule \<Rightarrow> bool" where
  "rule_is_update r = lit_is_update (rule_head r)"

datatype formula = FLit literal | FRule rule | FFact fact

record event =
  formula :: formula
  is_insert :: bool
  target :: "string option"

text \<open>The type checkers.\<close>

fun is_atom :: "formula \<Rightarrow> bool" where
  "is_atom (FLit l) = (\<not> negated l)"
| "is_atom _ = False"

fun is_rule :: "formula \<Rightarrow> bool" where
  "is_rule (FRule r) = list_all lit_is_atom (heads r)"
| "is_rule _ = False"

fun is_regular_rule :: "formula \<Rightarrow> bool" where
  "is_regular_rule (FRule r) = (is_rule (FRule r) \<and> length (heads r) = 1)"
| "is_regular_rule _ = False"

fun is_atom_rule :: "formula \<Rightarrow> bool" where
  "is_atom_rule (FRule r) = (is_regular_rule (FRule r) \<and> body r = [])"
| "is_atom_rule _ = False"

definition is_atom_like :: "formula \<Rightarrow> bool" where
  "is_atom_like f = (is_atom f \<or> is_atom_rule f)"

definition is_multi_rule :: "formula \<Rightarrow> bool" where
  "is_multi_rule f = (is_rule f \<and> (case f of FRule r \<Rightarrow> length (heads r) \<noteq> 1 | _ \<Rightarrow> False))"

definition is_datalog :: "formula \<Rightarrow> bool" where
  "is_datalog f = (is_atom f \<or> is_regular_rule f)"

definition is_extended_datalog :: "formula \<Rightarrow> bool" where
  "is_extended_datalog f = (is_rule f \<or> is_atom f)"

section \<open>Equality of rules\<close>

definition named_free :: "literal list \<Rightarrow> bool" where
  "named_free ls = list_all (\<lambda>l. named_arguments l = []) ls"

definition literal_key ::
    "literal \<Rightarrow> (string option \<times> string option \<times> string) \<times> bool \<times> nat \<times> trm list" where
  "literal_key l = ((modal (table l), service (table l), tbl (table l)), negated l, length (arguments l), arguments l)"

lemma literal_lt_key:
  "named_arguments a = [] \<Longrightarrow> named_arguments b = [] \<Longrightarrow> literal_lt a b \<longleftrightarrow> literal_key a < literal_key b"
proof (cases "table a = table b")
  case False
  then have "(modal (table a), service (table a), tbl (table a)) \<noteq> (modal (table b), service (table b), tbl (table b))"
    by (auto intro: tablename.equality)
  with False show ?thesis unfolding literal_lt_def literal_key_def tablename_lt_key less_prod_def by auto
qed (auto simp: literal_lt_def literal_key_def less_prod_def)

lemma literal_key_inj:
  "named_arguments a = [] \<Longrightarrow> named_arguments b = [] \<Longrightarrow> literal_key a = literal_key b \<Longrightarrow> a = (b :: literal)"
  by (auto simp: literal_key_def intro!: literal.equality tablename.equality)

lemma sorted_literals_eq:
  assumes "named_free xs" "named_free ys"
  shows "sorted_by literal_lt xs = sorted_by literal_lt ys \<longleftrightarrow> mset xs = mset ys"
proof
  assume eq: "mset xs = mset ys"
  have k: "map literal_key (sorted_by literal_lt zs) = sort (map literal_key zs)" if "named_free zs" for zs
    using that by (intro sorted_by_key) (auto simp: named_free_def list_all_iff literal_lt_key)
  have "map literal_key (sorted_by literal_lt xs) = map literal_key (sorted_by literal_lt ys)"
    unfolding k [OF assms(1)] k [OF assms(2)] using eq by (intro properties_for_sort) (simp_all add: mset_map)
  then show "sorted_by literal_lt xs = sorted_by literal_lt ys"
    by (rule map_inj_on) (use assms in \<open>auto simp: named_free_def list_all_iff inj_on_def intro!: literal_key_inj\<close>)
qed (metis mset_sorted_by)

text \<open>Formulas for the examples below: \<open>p(x) :- q(x, 1), not r(x)\<close>.\<close>

definition tn :: "string \<Rightarrow> tablename" where
  "tn t = \<lparr>tbl = t, service = None, modal = None\<rparr>"

definition lit :: "string \<Rightarrow> trm list \<Rightarrow> literal" where
  "lit t args = \<lparr>table = tn t, arguments = args, negated = False, named_arguments = []\<rparr>"

definition rule_example :: rule where
  "rule_example = \<lparr>heads = [lit ''p'' [Variable ''x'']],
     body = [lit ''q'' [Variable ''x'', ObjectConstant (VInt 1)], lit_complement (lit ''r'' [Variable ''x''])]\<rparr>"

text \<open>
  Two rules without named arguments are equal (by \<open>__eq__\<close>, and so with equal keys in
  a set of rules) exactly when their heads and their bodies have the same literals the same
  number of times: as long as the literals can be sorted, the order in which they stand does not matter.
\<close>

lemma rule_eq_iff_mset:
  assumes "named_free (heads a)" "named_free (body a)" "named_free (heads b)" "named_free (body b)"
  shows "rule_eq a b \<longleftrightarrow> mset (heads a) = mset (heads b) \<and> mset (body a) = mset (body b)"
  using sorted_literals_eq [OF assms(1,3)] sorted_literals_eq [OF assms(2,4)]
  by (auto simp: rule_eq_def dest: mset_eq_length)

text \<open>
  With named arguments the comparison of literals is not an order: of \<open>q(2, c=1)\<close> and
  \<open>q(1, c=2)\<close> each is less than the other, because \<open>__lt__\<close> combines the positional and the
  named arguments with \<open>or\<close>. A rule with both in its body is then not equal to the same rule
  with the two literals swapped.
\<close>

theorem rule_eq_named_arguments_order:
  "let q = \<lambda>i j. (lit ''q'' [ObjectConstant (VInt i)])\<lparr>named_arguments := [(ColName ''c'', ObjectConstant (VInt j))]\<rparr>;
       h = lit ''p'' [ObjectConstant (VInt 1)] in
   literal_lt (q 2 1) (q 1 2) \<and> literal_lt (q 1 2) (q 2 1) \<and>
   \<not> rule_eq \<lparr>heads = [h], body = [q 2 1, q 1 2]\<rparr> \<lparr>heads = [h], body = [q 1 2, q 2 1]\<rparr>"
  by code_simp

section \<open>Updates of table names\<close>

text \<open>
  Update literals round trip: \<open>make_update\<close> always gives an update literal, from which
  \<open>drop_update\<close> gets the literal back and which \<open>invert_update\<close> turns into the opposite
  update; inverting twice gives back every literal, and a literal is unchanged by \<open>drop_update\<close>
  and \<open>invert_update\<close> exactly when it is not an update.
\<close>

theorem update_roundtrip:
  "lit_is_update (lit_make_update b l) \<and>
   lit_drop_update (lit_make_update b l) = l \<and>
   lit_invert_update (lit_make_update b l) = lit_make_update (\<not> b) l \<and>
   lit_invert_update (lit_invert_update l) = l \<and>
   (lit_drop_update l = l \<longleftrightarrow> \<not> lit_is_update l) \<and>
   (lit_invert_update l = l \<longleftrightarrow> \<not> lit_is_update l)"
proof -
  have neq: "butlast s \<noteq> s" if "s \<noteq> []" for s :: string
    using that by (metis append_butlast_last_id append_self_conv list.distinct(1))
  have upd: "l\<lparr>table := table l\<lparr>tbl := t\<rparr>\<rparr> = l \<longleftrightarrow> t = tbl (table l)" for t
    by (metis (no_types, lifting) literal.select_convs(1) literal.surjective literal.update_convs(1)
        tablename.select_convs(1) tablename.surjective tablename.update_convs(1))
  note defs = lit_is_update_def lit_make_update_def lit_drop_update_def lit_invert_update_def lit_modify_table_def
    tablename_is_update_def tablename_make_update_def tablename_drop_update_def tablename_invert_update_def
  have 1: "lit_is_update (lit_make_update b l)" "lit_drop_update (lit_make_update b l) = l"
    "lit_invert_update (lit_make_update b l) = lit_make_update (\<not> b) l"
    by (auto simp: defs)
  have 2: "lit_invert_update (lit_invert_update l) = l"
    by (cases "tbl (table l)" rule: rev_cases) (auto simp: defs endswith_one upd)
  have 3: "(lit_drop_update l = l) = (\<not> lit_is_update l)" "(lit_invert_update l = l) = (\<not> lit_is_update l)"
    using neq by (cases "tbl (table l)" rule: rev_cases, auto simp: defs endswith_one upd)+
  from 1 2 3 show ?thesis by blast
qed

section \<open>A fresh prefix for padding variables\<close>

lemma startswith_length: "startswith s p \<Longrightarrow> length p \<le> length s"
  by (metis startswith_def length_take min.cobounded1)

lemma startswith_append: "startswith (p @ q) p"
  by (simp add: startswith_def)

text \<open>\<open>_unused_variable_prefix\<close>: extend \<open>x_\<close> by underscores until no variable starts with it.\<close>

function unused_prefix :: "string list \<Rightarrow> string \<Rightarrow> string" where
  "unused_prefix vs prefix =
     (if list_ex (\<lambda>v. startswith v prefix) vs then unused_prefix vs (prefix @ ''_'') else prefix)"
  by auto

termination
proof (relation "measure (\<lambda>(vs, p). Suc (sum_list (map length vs)) - length p)", simp)
  fix vs p assume "list_ex (\<lambda>v. startswith v p) vs"
  then obtain v where v: "v \<in> set vs" "length p \<le> length v"
    using startswith_length by (auto simp: list_ex_iff)
  have "length v \<le> sum_list (map length vs)" using v(1) by (intro member_le_sum_list) auto
  with v(2) show "((vs, p @ ''_''), vs, p) \<in> measure (\<lambda>(vs, p). Suc (sum_list (map length vs)) - length p)"
    by simp
qed

declare unused_prefix.simps [simp del]

lemma unused_prefix_fresh: "v \<in> set vs \<Longrightarrow> \<not> startswith v (unused_prefix vs p)"
  by (induction vs p rule: unused_prefix.induct) (subst unused_prefix.simps, auto simp: list_ex_iff)

definition unused_variable_prefix :: "rule \<Rightarrow> string" where
  "unused_variable_prefix r = unused_prefix (rule_variable_names r) ''x_''"

lemma set_fold_union: "set (fold (\<lambda>l vs. set_union vs (f l)) ls vs) = set vs \<union> (\<Union>l \<in> set ls. set (f l))"
  by (induction ls arbitrary: vs) auto

lemma set_rule_variable_names:
  "set (rule_variable_names r) = {n. \<exists>l \<in> set (heads r) \<union> set (body r). Variable n \<in> set (arguments l)}"
proof -
  have "set (lit_variable_names l) = {n. Variable n \<in> set (arguments l)}" for l
    by (force simp: lit_variable_names_def elim: is_variable.elims)
  then show ?thesis by (auto simp: rule_variable_names_def set_fold_union)
qed

end
