(* ===== verification/Builtins.thy ===== *)
theory Builtins
  imports Syntax
begin

text \<open>
  \<open>builtin.CongressBuiltinCategoryMap\<close>: the registry of builtin predicates, kept as a
  dictionary from categories to lists of predicates and a dictionary from predicate names to a
  predicate and its category. The Python function that computes a builtin is an opaque tag
  of type \<open>'c\<close>. Removal while iterating over a list skips the element after a removed one, as
  it does in Python.
\<close>

declare map_of_eq_Some_iff [simp del] Some_eq_map_of_iff [simp del]

section \<open>State\<close>

record 'c pred =
  predname :: string
  predargs :: "string list"
  num_inputs :: nat
  code :: 'c

record 'c triple =
  tfunc :: string
  tnum_inputs :: nat
  tcode :: 'c

record 'c registry =
  categorydict :: "(string, 'c pred list) dict"
  preddict :: "(string, 'c pred \<times> string) dict"

definition num_outputs :: "'c pred \<Rightarrow> int" where
  "num_outputs p = int (length (predargs p)) - int (num_inputs p)"

definition nth_res :: "'a list \<Rightarrow> nat \<Rightarrow> 'a res" where
  "nth_res xs i = (if i < length xs then Inr (xs ! i) else Inl IndexError)"

definition dict_predtriple_to_pred :: "'c triple \<Rightarrow> 'c pred res" where
  "dict_predtriple_to_pred t =
     rbind (nth_res (split_on CHR ''('' (tfunc t)) 0) (\<lambda>name.
     rbind (nth_res (split_on CHR ''('' (tfunc t)) 1) (\<lambda>rest.
     rbind (nth_res (split_on CHR '')'' rest) 0) (\<lambda>args.
       Inr \<lparr>predname = name, predargs = split_on CHR '','' args, num_inputs = tnum_inputs t, code = tcode t\<rparr>)))"

section \<open>Operations\<close>

definition sync_add :: "string \<Rightarrow> 'c pred \<Rightarrow> string \<Rightarrow> 'c registry \<Rightarrow> 'c registry" where
  "sync_add name p cat R = R\<lparr>preddict := AList.update name (p, cat) (preddict R)\<rparr>"

definition sync_del :: "string \<Rightarrow> 'c registry \<Rightarrow> 'c registry" where
  "sync_del name R = R\<lparr>preddict := AList.delete name (preddict R)\<rparr>"

definition cat_preds :: "string \<Rightarrow> 'c registry \<Rightarrow> 'c pred list" where
  "cat_preds cat R = (case map_of (categorydict R) cat of None \<Rightarrow> [] | Some ps \<Rightarrow> ps)"

definition set_cat :: "string \<Rightarrow> 'c pred list \<Rightarrow> 'c registry \<Rightarrow> 'c registry" where
  "set_cat cat ps R = R\<lparr>categorydict := AList.update cat ps (categorydict R)\<rparr>"

definition append_pred :: "string \<Rightarrow> 'c pred \<Rightarrow> 'c registry \<Rightarrow> 'c registry" where
  "append_pred cat p R = sync_add (predname p) p cat (set_cat cat (cat_preds cat R @ [p]) R)"

definition builtin_is_registered :: "'c pred \<Rightarrow> 'c registry \<Rightarrow> bool" where
  "builtin_is_registered p R =
     (case map_of (preddict R) (predname p) of
        None \<Rightarrow> False
      | Some (q, _) \<Rightarrow> num_inputs q = num_inputs p)"

definition registry_init :: "(string \<times> 'c triple list) list \<Rightarrow> 'c registry res" where
  "registry_init start =
     for_res (\<lambda>(key, triples) R.
         for_res (\<lambda>t R. rbind (dict_predtriple_to_pred t) (\<lambda>p. Inr (append_pred key p R)))
           triples (set_cat key [] R))
       start \<lparr>categorydict = [], preddict = []\<rparr>"

definition add_map :: "(string \<times> 'c triple list) list \<Rightarrow> 'c registry \<Rightarrow> 'c registry res" where
  "add_map newmap R =
     for_res (\<lambda>(key, triples) R.
         for_res (\<lambda>t R. rbind (dict_predtriple_to_pred t) (\<lambda>p.
                     Inr (if builtin_is_registered p R then R else append_pred key p R)))
           triples (if map_of (categorydict R) key = None then set_cat key [] R else R))
       newmap R"

lemma cat_preds_set_cat [simp]: "cat_preds c (set_cat d ps R) = (if c = d then ps else cat_preds c R)"
  by (simp add: cat_preds_def set_cat_def)

lemma cat_preds_sync_del [simp]: "cat_preds c (sync_del n R) = cat_preds c R"
  by (simp add: cat_preds_def sync_del_def)

text \<open>\<open>for pred in preds: if ...: preds.remove(pred)\<close>, by position.\<close>

function delete_preds :: "string \<Rightarrow> nat \<Rightarrow> string \<Rightarrow> nat \<Rightarrow> 'c registry \<Rightarrow> 'c registry" where
  "delete_preds name inputs cat i R =
     (if i < length (cat_preds cat R) then
        (let p = cat_preds cat R ! i in
         if num_inputs p = inputs \<and> predname p = name then
           delete_preds name inputs cat (Suc i) (sync_del name (set_cat cat (remove1 p (cat_preds cat R)) R))
         else delete_preds name inputs cat (Suc i) R)
      else R)"
  by auto

termination
  by (relation "measure (\<lambda>(n, k, c, i, R). length (cat_preds c R) - i)") (auto simp: length_remove1)

declare delete_preds.simps [simp del]

definition delete_map :: "(string \<times> 'c triple list) list \<Rightarrow> 'c registry \<Rightarrow> 'c registry res" where
  "delete_map newmap R =
     for_res (\<lambda>(key, triples) R.
         for_res (\<lambda>t R. rbind (dict_predtriple_to_pred t) (\<lambda>p.
                     if map_of (categorydict R) key = None then Inl KeyError
                     else let R = delete_preds (predname p) (num_inputs p) key 0 R
                       in Inr (if cat_preds key R = [] then R\<lparr>categorydict := AList.delete key (categorydict R)\<rparr>
                               else R)))
           triples R)
       newmap R"

definition delete_builtin :: "string \<Rightarrow> string \<Rightarrow> nat \<Rightarrow> 'c registry \<Rightarrow> 'c registry" where
  "delete_builtin cat name inputs R =
     delete_preds name inputs cat 0 (if map_of (categorydict R) cat = None then set_cat cat [] R else R)"

definition get_category_name :: "string \<Rightarrow> nat \<Rightarrow> 'c registry \<Rightarrow> string option" where
  "get_category_name name inputs R =
     (case map_of (preddict R) name of
        Some (p, cat) \<Rightarrow> if num_inputs p = inputs then Some cat else None
      | None \<Rightarrow> None)"

definition exists_category :: "string \<Rightarrow> 'c registry \<Rightarrow> bool" where
  "exists_category cat R = (map_of (categorydict R) cat \<noteq> None)"

definition insert_category :: "string \<Rightarrow> 'c registry \<Rightarrow> 'c registry" where
  "insert_category cat R = set_cat cat [] R"

definition delete_category :: "string \<Rightarrow> 'c registry \<Rightarrow> 'c registry" where
  "delete_category cat R =
     (case map_of (categorydict R) cat of
        None \<Rightarrow> R
      | Some ps \<Rightarrow>
          let R = fold (\<lambda>p. sync_del (predname p)) ps R
          in R\<lparr>categorydict := AList.delete cat (categorydict R)\<rparr>)"

definition insert_to_category :: "string \<Rightarrow> 'c pred \<Rightarrow> 'c registry \<Rightarrow> 'c registry" where
  "insert_to_category cat p R = (if map_of (categorydict R) cat = None then R else append_pred cat p R)"

definition delete_from_category :: "string \<Rightarrow> 'c pred \<Rightarrow> 'c registry \<Rightarrow> 'c registry res" where
  "delete_from_category cat p R =
     (case map_of (categorydict R) cat of
        None \<Rightarrow> Inr R
      | Some ps \<Rightarrow>
          if p \<in> set ps then Inr (sync_del (predname p) (set_cat cat (remove1 p ps) R)) else Inl ValueError)"

definition delete_all_in_category :: "string \<Rightarrow> 'c registry \<Rightarrow> 'c registry" where
  "delete_all_in_category cat R =
     (case map_of (categorydict R) cat of
        None \<Rightarrow> R
      | Some ps \<Rightarrow> set_cat cat [] (fold (\<lambda>p. sync_del (predname p)) ps R))"

definition is_builtin :: "tablename \<Rightarrow> nat option \<Rightarrow> 'c registry \<Rightarrow> bool" where
  "is_builtin t arity R =
     (case map_of (preddict R) (tbl t) of
        None \<Rightarrow> False
      | Some (p, _) \<Rightarrow>
          (case arity of None \<Rightarrow> True | Some n \<Rightarrow> n = 0 \<or> length (predargs p) = n))"

definition lookup_builtin :: "string \<Rightarrow> 'c registry \<Rightarrow> 'c pred option" where
  "lookup_builtin t R = map_option fst (map_of (preddict R) t)"

text \<open>\<open>Literal.is_builtin\<close> and \<open>Rule.tablenames\<close>.\<close>

definition lit_is_builtin :: "'c registry \<Rightarrow> literal \<Rightarrow> bool" where
  "lit_is_builtin R l = is_builtin (table l) (Some (length (arguments l))) R"

definition rule_tablenames ::
    "'c registry \<Rightarrow> string option \<Rightarrow> bool \<Rightarrow> bool \<Rightarrow> bool \<Rightarrow> rule \<Rightarrow> string list" where
  "rule_tablenames R theory body_only include_builtin include_modal r =
     fold (\<lambda>l ts. if include_builtin \<or> \<not> lit_is_builtin R l then set_add (lit_tablename theory l) ts else ts) (body r)
       (if body_only then []
        else fold (\<lambda>l ts. if include_modal \<or> \<not> truthy (modal (table l))
                          then set_add (lit_tablename theory l) ts else ts) (heads r) [])"

section \<open>The registry of the program\<close>

text \<open>\<open>_builtin_map\<close>; the tag of the code is the predicate's name.\<close>

definition builtin_map :: "(string \<times> string triple list) list" where
  "builtin_map = [
    (''comparison'', [
       \<lparr>tfunc = ''lt(x,y)'', tnum_inputs = 2, tcode = ''lt''\<rparr>,
       \<lparr>tfunc = ''lteq(x,y)'', tnum_inputs = 2, tcode = ''lteq''\<rparr>,
       \<lparr>tfunc = ''equal(x,y)'', tnum_inputs = 2, tcode = ''equal''\<rparr>,
       \<lparr>tfunc = ''gt(x,y)'', tnum_inputs = 2, tcode = ''gt''\<rparr>,
       \<lparr>tfunc = ''gteq(x,y)'', tnum_inputs = 2, tcode = ''gteq''\<rparr>,
       \<lparr>tfunc = ''max(x,y,z)'', tnum_inputs = 2, tcode = ''max''\<rparr>]),
    (''arithmetic'', [
       \<lparr>tfunc = ''plus(x,y,z)'', tnum_inputs = 2, tcode = ''plus''\<rparr>,
       \<lparr>tfunc = ''minus(x,y,z)'', tnum_inputs = 2, tcode = ''minus''\<rparr>,
       \<lparr>tfunc = ''mul(x,y,z)'', tnum_inputs = 2, tcode = ''mul''\<rparr>,
       \<lparr>tfunc = ''div(x,y,z)'', tnum_inputs = 2, tcode = ''div''\<rparr>,
       \<lparr>tfunc = ''float(x,y)'', tnum_inputs = 1, tcode = ''float''\<rparr>,
       \<lparr>tfunc = ''int(x,y)'', tnum_inputs = 1, tcode = ''int''\<rparr>]),
    (''string'', [
       \<lparr>tfunc = ''concat(x,y,z)'', tnum_inputs = 2, tcode = ''concat''\<rparr>,
       \<lparr>tfunc = ''len(x, y)'', tnum_inputs = 1, tcode = ''len''\<rparr>]),
    (''datetime'', [
       \<lparr>tfunc = ''now(x)'', tnum_inputs = 0, tcode = ''now''\<rparr>,
       \<lparr>tfunc = ''unpack_date(x, year, month, day)'', tnum_inputs = 1, tcode = ''unpack_date''\<rparr>,
       \<lparr>tfunc = ''unpack_time(x, hours, minutes, seconds)'', tnum_inputs = 1, tcode = ''unpack_time''\<rparr>,
       \<lparr>tfunc = ''unpack_datetime(x, y, m, d, h, i, s)'', tnum_inputs = 1, tcode = ''unpack_datetime''\<rparr>,
       \<lparr>tfunc = ''pack_time(hours, minutes, seconds, result)'', tnum_inputs = 3, tcode = ''pack_time''\<rparr>,
       \<lparr>tfunc = ''pack_date(year, month, day, result)'', tnum_inputs = 3, tcode = ''pack_date''\<rparr>,
       \<lparr>tfunc = ''pack_datetime(y, m, d, h, i, s, result)'', tnum_inputs = 6, tcode = ''pack_datetime''\<rparr>,
       \<lparr>tfunc = ''extract_date(x, y)'', tnum_inputs = 1, tcode = ''extract_date''\<rparr>,
       \<lparr>tfunc = ''extract_time(x, y)'', tnum_inputs = 1, tcode = ''extract_time''\<rparr>,
       \<lparr>tfunc = ''datetime_to_seconds(x, y)'', tnum_inputs = 1, tcode = ''datetime_to_seconds''\<rparr>,
       \<lparr>tfunc = ''datetime_plus(x,y,z)'', tnum_inputs = 2, tcode = ''datetime_plus''\<rparr>,
       \<lparr>tfunc = ''datetime_minus(x,y,z)'', tnum_inputs = 2, tcode = ''datetime_minus''\<rparr>,
       \<lparr>tfunc = ''datetime_lt(x,y)'', tnum_inputs = 2, tcode = ''datetime_lt''\<rparr>,
       \<lparr>tfunc = ''datetime_lteq(x,y)'', tnum_inputs = 2, tcode = ''datetime_lteq''\<rparr>,
       \<lparr>tfunc = ''datetime_gt(x,y)'', tnum_inputs = 2, tcode = ''datetime_gt''\<rparr>,
       \<lparr>tfunc = ''datetime_gteq(x,y)'', tnum_inputs = 2, tcode = ''datetime_gteq''\<rparr>,
       \<lparr>tfunc = ''datetime_equal(x,y)'', tnum_inputs = 2, tcode = ''datetime_equal''\<rparr>]),
    (''netaddr'', [
       \<lparr>tfunc = ''ips_equal(x,y)'', tnum_inputs = 2, tcode = ''ips_equal''\<rparr>,
       \<lparr>tfunc = ''ips_lt(x,y)'', tnum_inputs = 2, tcode = ''ips_lt''\<rparr>,
       \<lparr>tfunc = ''ips_lteq(x,y)'', tnum_inputs = 2, tcode = ''ips_lteq''\<rparr>,
       \<lparr>tfunc = ''ips_gt(x,y)'', tnum_inputs = 2, tcode = ''ips_gt''\<rparr>,
       \<lparr>tfunc = ''ips_gteq(x,y)'', tnum_inputs = 2, tcode = ''ips_gteq''\<rparr>,
       \<lparr>tfunc = ''networks_equal(x,y)'', tnum_inputs = 2, tcode = ''networks_equal''\<rparr>,
       \<lparr>tfunc = ''networks_overlap(x,y)'', tnum_inputs = 2, tcode = ''networks_overlap''\<rparr>,
       \<lparr>tfunc = ''ip_in_network(x,y)'', tnum_inputs = 2, tcode = ''ip_in_network''\<rparr>]),
    (''type'', [
       \<lparr>tfunc = ''validate_int(max, min, value, result)'', tnum_inputs = 3, tcode = ''validate_int''\<rparr>,
       \<lparr>tfunc = ''validate_float(max, min, value, result)'', tnum_inputs = 3, tcode = ''validate_float''\<rparr>,
       \<lparr>tfunc = ''validate_string(regex, max_length, quotes, ignore_case, value, result)'', tnum_inputs = 5, tcode = ''validate_string''\<rparr>])]"

definition builtin_registry :: "string registry" where
  "builtin_registry = (case registry_init builtin_map of Inr R \<Rightarrow> R | Inl _ \<Rightarrow> \<lparr>categorydict = [], preddict = []\<rparr>)"

section \<open>Consistency\<close>

text \<open>Every registered name points to a predicate of that name in the category it says.\<close>

definition reg_ok :: "'c registry \<Rightarrow> bool" where
  "reg_ok R = (\<forall>n p c. map_of (preddict R) n = Some (p, c) \<longrightarrow> p \<in> set (cat_preds c R) \<and> predname p = n)"

lemma reg_okI:
  "(\<And>n p c. map_of (preddict R) n = Some (p, c) \<Longrightarrow> p \<in> set (cat_preds c R) \<and> predname p = n) \<Longrightarrow> reg_ok R"
  by (simp add: reg_ok_def)

lemma reg_okD: "reg_ok R \<Longrightarrow> map_of (preddict R) n = Some (p, c) \<Longrightarrow> p \<in> set (cat_preds c R) \<and> predname p = n"
  by (simp add: reg_ok_def)

lemma preddict_simps [simp]:
  "preddict (set_cat c ps R) = preddict R"
  "map_of (preddict (sync_del n R)) = (map_of (preddict R))(n := None)"
  "map_of (preddict (sync_add n p c R)) = (map_of (preddict R))(n \<mapsto> (p, c))"
  "cat_preds c (sync_add n p d R) = cat_preds c R"
  by (simp_all add: set_cat_def sync_del_def sync_add_def cat_preds_def)

lemma reg_ok_append [intro]: "reg_ok R \<Longrightarrow> reg_ok (append_pred c p R)"
  unfolding append_pred_def by (rule reg_okI) (auto dest: reg_okD split: if_splits)

lemma reg_ok_set_new [intro]: "reg_ok R \<Longrightarrow> map_of (categorydict R) c = None \<Longrightarrow> reg_ok (set_cat c [] R)"
  by (rule reg_okI) (force dest: reg_okD simp: cat_preds_def set_cat_def split: if_splits)

lemma reg_ok_remove:
  assumes "reg_ok R" "predname p = n"
  shows "reg_ok (sync_del n (set_cat c (remove1 p (cat_preds c R)) R))"
proof (rule reg_okI)
  fix m q d
  assume "map_of (preddict (sync_del n (set_cat c (remove1 p (cat_preds c R)) R))) m = Some (q, d)"
  then have m: "m \<noteq> n" "map_of (preddict R) m = Some (q, d)" by (auto split: if_splits)
  have q: "q \<in> set (cat_preds d R)" "predname q = m" using reg_okD [OF assms(1) m(2)] by auto
  then have "q \<noteq> p" using m(1) assms(2) by auto
  with q show "q \<in> set (cat_preds d (sync_del n (set_cat c (remove1 p (cat_preds c R)) R))) \<and> predname q = m"
    by (auto simp: in_set_remove1)
qed

lemma reg_ok_delete_preds: "reg_ok R \<Longrightarrow> reg_ok (delete_preds n k c i R)"
proof (induction n k c i R rule: delete_preds.induct)
  case (1 n k c i R)
  show ?case
    using 1 reg_ok_remove [OF 1(3), of "cat_preds c R ! i" n c]
    by (subst delete_preds.simps) (simp add: Let_def)
qed

lemma fold_sync_del:
  "map_of (preddict (fold (\<lambda>p. sync_del (predname p)) ps R)) =
     (\<lambda>n. if n \<in> predname ` set ps then None else map_of (preddict R) n)"
  "cat_preds c (fold (\<lambda>p. sync_del (predname p)) ps R) = cat_preds c R"
  "categorydict (fold (\<lambda>p. sync_del (predname p)) ps R) = categorydict R"
  by (induction ps arbitrary: R) (auto simp: sync_del_def cat_preds_def)

lemma reg_ok_drop_category:
  assumes "reg_ok R" "map_of (categorydict R) c = Some ps"
  shows "reg_ok (set_cat c [] (fold (\<lambda>p. sync_del (predname p)) ps R))"
    "reg_ok ((fold (\<lambda>p. sync_del (predname p)) ps R)\<lparr>categorydict := AList.delete c (categorydict R)\<rparr>)"
proof -
  let ?F = "fold (\<lambda>p. sync_del (predname p)) ps R"
  have ps: "cat_preds c R = ps" using assms(2) by (simp add: cat_preds_def)
  have F: "p \<in> set (cat_preds d R) \<and> predname p = n \<and> d \<noteq> c" if "map_of (preddict ?F) n = Some (p, d)" for n p d
  proof -
    have n: "n \<notin> predname ` set ps" "map_of (preddict R) n = Some (p, d)"
      using that by (auto simp: fold_sync_del split: if_splits)
    from reg_okD [OF assms(1) n(2)] n(1) ps show ?thesis by auto
  qed
  have d: "cat_preds d (?F\<lparr>categorydict := AList.delete c (categorydict R)\<rparr>) = (if d = c then [] else cat_preds d R)" for d
    by (simp add: cat_preds_def)
  show "reg_ok (set_cat c [] ?F)"
  proof (rule reg_okI)
    fix n p d assume "map_of (preddict (set_cat c [] ?F)) n = Some (p, d)"
    then have "map_of (preddict ?F) n = Some (p, d)" by (simp only: preddict_simps)
    from F [OF this] show "p \<in> set (cat_preds d (set_cat c [] ?F)) \<and> predname p = n" by (simp add: fold_sync_del(2))
  qed
  show "reg_ok (?F\<lparr>categorydict := AList.delete c (categorydict R)\<rparr>)"
  proof (rule reg_okI)
    fix n p e assume "map_of (preddict (?F\<lparr>categorydict := AList.delete c (categorydict R)\<rparr>)) n = Some (p, e)"
    then have "map_of (preddict ?F) n = Some (p, e)" by simp
    from F [OF this] show "p \<in> set (cat_preds e (?F\<lparr>categorydict := AList.delete c (categorydict R)\<rparr>)) \<and> predname p = n"
      unfolding d by simp
  qed
qed

lemma reg_ok_drop_empty:
  assumes "reg_ok R" "cat_preds c R = []"
  shows "reg_ok (R\<lparr>categorydict := AList.delete c (categorydict R)\<rparr>)"
proof (rule reg_okI)
  fix n p d assume "map_of (preddict (R\<lparr>categorydict := AList.delete c (categorydict R)\<rparr>)) n = Some (p, d)"
  then have "p \<in> set (cat_preds d R) \<and> predname p = n" using reg_okD [OF assms(1)] by simp
  moreover from this have "d \<noteq> c" using assms(2) by auto
  ultimately show "p \<in> set (cat_preds d (R\<lparr>categorydict := AList.delete c (categorydict R)\<rparr>)) \<and> predname p = n"
    by (simp add: cat_preds_def)
qed

datatype 'c reg_op =
    RAddMap "(string \<times> 'c triple list) list"
  | RDeleteMap "(string \<times> 'c triple list) list"
  | RDeleteBuiltin string string nat
  | RInsertCategory string
  | RDeleteCategory string
  | RInsertTo string "'c pred"
  | RDeleteFrom string "'c pred"
  | RDeleteAll string

text \<open>An operation on the registry; \<open>insert_category\<close> is only asked for a new category.\<close>

fun run_reg :: "'c reg_op \<Rightarrow> 'c registry \<Rightarrow> 'c registry res" where
  "run_reg (RAddMap m) R = add_map m R"
| "run_reg (RDeleteMap m) R = delete_map m R"
| "run_reg (RDeleteBuiltin c n k) R = Inr (delete_builtin c n k R)"
| "run_reg (RInsertCategory c) R = Inr (if exists_category c R then R else insert_category c R)"
| "run_reg (RDeleteCategory c) R = Inr (delete_category c R)"
| "run_reg (RInsertTo c p) R = Inr (insert_to_category c p R)"
| "run_reg (RDeleteFrom c p) R = delete_from_category c p R"
| "run_reg (RDeleteAll c) R = Inr (delete_all_in_category c R)"

lemma reg_ok_add_map:
  assumes "add_map m R = Inr R'" "reg_ok R" shows "reg_ok R'"
  using assms unfolding add_map_def
  by (elim for_res_invariant [where P = reg_ok, rotated 2])
    (auto elim!: for_res_invariant [where P = reg_ok, rotated 2] simp: rbind_Inr_iff split: if_splits)

lemma reg_ok_delete_map:
  assumes "delete_map m R = Inr R'" "reg_ok R" shows "reg_ok R'"
  using assms unfolding delete_map_def
  by (elim for_res_invariant [where P = reg_ok, rotated 2])
    (auto elim!: for_res_invariant [where P = reg_ok, rotated 2] simp: rbind_Inr_iff Let_def
      intro!: reg_ok_drop_empty reg_ok_delete_preds split: if_splits)

lemma reg_ok_init:
  assumes "registry_init start = Inr R" "dict_ok start" shows "reg_ok R"
proof -
  let ?step = "\<lambda>(key, triples) R. for_res (\<lambda>t R. rbind (dict_predtriple_to_pred t) (\<lambda>p. Inr (append_pred key p R)))
           triples (set_cat key [] R)"
  have inner: "reg_ok R2 \<and> fst ` set (categorydict R2) = fst ` set (categorydict R1)"
    if "for_res (\<lambda>t R. rbind (dict_predtriple_to_pred t) (\<lambda>p. Inr (append_pred key p R))) ts R1 = Inr R2"
      "reg_ok R1" "key \<in> fst ` set (categorydict R1)" for key ts R1 R2
    using that
  proof (induction ts arbitrary: R1)
    case (Cons t ts)
    from Cons.prems(1) obtain p where
      "for_res (\<lambda>t R. rbind (dict_predtriple_to_pred t) (\<lambda>p. Inr (append_pred key p R))) ts (append_pred key p R1) = Inr R2"
      by (auto simp: rbind_Inr_iff)
    moreover have "fst ` set (categorydict (append_pred key p R1)) = fst ` set (categorydict R1)"
      using Cons.prems(3) by (simp add: append_pred_def sync_add_def set_cat_def insert_absorb)
    ultimately show ?case using Cons.IH [of "append_pred key p R1"] Cons.prems(2,3) by auto
  qed simp
  have "reg_ok R2" if "for_res ?step xs R1 = Inr R2" "reg_ok R1" "dict_ok xs"
    "fst ` set xs \<inter> fst ` set (categorydict R1) = {}" for xs R1 R2
    using that
  proof (induction xs arbitrary: R1)
    case (Cons x xs)
    obtain key ts where x: "x = (key, ts)" by (cases x)
    obtain R3 where R3: "for_res (\<lambda>t R. rbind (dict_predtriple_to_pred t) (\<lambda>p. Inr (append_pred key p R))) ts (set_cat key [] R1) = Inr R3"
      "for_res ?step xs R3 = Inr R2" using Cons.prems(1) by (auto simp: rbind_Inr_iff x)
    have "reg_ok (set_cat key [] R1)" using Cons.prems(2,4) by (intro reg_ok_set_new) (auto simp: x map_of_None_keys)
    from inner [OF R3(1) this] have "reg_ok R3" "fst ` set (categorydict R3) = insert key (fst ` set (categorydict R1))"
      by (auto simp: set_cat_def)
    with Cons.IH [OF R3(2)] Cons.prems show ?case by (auto simp: x)
  qed simp
  from this [OF assms(1) [unfolded registry_init_def] _ assms(2)] show ?thesis by (simp add: reg_ok_def)
qed

lemma run_reg_ok:
  assumes "run_reg p R = Inr R'" "reg_ok R" shows "reg_ok R'"
proof (cases p)
  case (RDeleteCategory c)
  with assms reg_ok_drop_category(2) [OF assms(2), of c] show ?thesis
    by (auto simp: delete_category_def fold_sync_del(3) split: option.splits)
next
  case (RDeleteFrom c q)
  show ?thesis
  proof (cases "map_of (categorydict R) c")
    case (Some ps)
    then have "cat_preds c R = ps" by (simp add: cat_preds_def)
    with reg_ok_remove [OF assms(2) refl, of q c] assms RDeleteFrom Some show ?thesis
      by (auto simp: delete_from_category_def split: if_splits)
  qed (use assms RDeleteFrom in \<open>simp add: delete_from_category_def\<close>)
next
  case (RDeleteAll c)
  with assms reg_ok_drop_category(1) [OF assms(2), of c] show ?thesis
    by (auto simp: delete_all_in_category_def split: option.splits)
qed (use assms in \<open>auto simp: delete_builtin_def insert_category_def exists_category_def insert_to_category_def
      dest: reg_ok_add_map reg_ok_delete_map intro!: reg_ok_delete_preds split: option.splits if_splits\<close>)

section \<open>What a fresh registry holds\<close>

definition parse_ok :: "'c triple \<Rightarrow> bool" where
  "parse_ok t = (case dict_predtriple_to_pred t of Inl _ \<Rightarrow> False | Inr _ \<Rightarrow> True)"

definition parsed :: "'c triple \<Rightarrow> 'c pred" where
  "parsed t = projr (dict_predtriple_to_pred t)"

lemma parse_ok: "parse_ok t \<Longrightarrow> dict_predtriple_to_pred t = Inr (parsed t)"
  by (auto simp: parse_ok_def parsed_def split: sum.splits)

definition triples :: "(string \<times> 'c triple list) list \<Rightarrow> (string \<times> 'c triple) list" where
  "triples start = concat (map (\<lambda>(c, ts). map (Pair c) ts) start)"

definition reg_upd :: "string \<times> 'c triple \<Rightarrow> (string \<Rightarrow> ('c pred \<times> string) option) \<Rightarrow> string \<Rightarrow> ('c pred \<times> string) option" where
  "reg_upd x m = m(predname (parsed (snd x)) \<mapsto> (parsed (snd x), fst x))"

lemma registry_init_preds:
  assumes "list_all (\<lambda>(c, t). parse_ok t) (triples start)"
  shows "\<exists>R. registry_init start = Inr R \<and>
     map_of (preddict R) = fold reg_upd (triples start) Map.empty"
proof -
  have inner: "\<exists>R'. for_res (\<lambda>t R. rbind (dict_predtriple_to_pred t) (\<lambda>p. Inr (append_pred c p R))) ts R = Inr R' \<and>
     map_of (preddict R') = fold reg_upd (map (Pair c) ts) (map_of (preddict R))"
    if "list_all parse_ok ts" for c ts and R :: "'a registry"
    using that
  proof (induction ts arbitrary: R)
    case (Cons t ts)
    have "map_of (preddict (append_pred c (parsed t) R)) = reg_upd (c, t) (map_of (preddict R))"
      by (simp add: append_pred_def reg_upd_def)
    with Cons.IH [of "append_pred c (parsed t) R"] Cons.prems show ?case by (simp add: parse_ok)
  qed simp
  have "\<exists>R'. for_res (\<lambda>(key, triples) R. for_res (\<lambda>t R. rbind (dict_predtriple_to_pred t) (\<lambda>p. Inr (append_pred key p R)))
           triples (set_cat key [] R)) xs R = Inr R' \<and>
     map_of (preddict R') = fold reg_upd (triples xs) (map_of (preddict R))"
    if "list_all (\<lambda>(c, t). parse_ok t) (triples xs)" for xs and R :: "'a registry"
    using that
  proof (induction xs arbitrary: R)
    case (Cons x xs)
    obtain c ts where x: "x = (c, ts)" by (cases x)
    have "list_all parse_ok ts" using Cons.prems by (auto simp: triples_def x list_all_iff)
    from inner [OF this, of c "set_cat c [] R"] obtain R1 where
      R1: "for_res (\<lambda>t R. rbind (dict_predtriple_to_pred t) (\<lambda>p. Inr (append_pred c p R))) ts (set_cat c [] R) = Inr R1"
       "map_of (preddict R1) = fold reg_upd (map (Pair c) ts) (map_of (preddict R))" by auto
    have "list_all (\<lambda>(c, t). parse_ok t) (triples xs)" using Cons.prems by (simp add: triples_def)
    from Cons.IH [OF this, of R1] R1 show ?case by (auto simp: triples_def x)
  qed (simp add: triples_def)
  from this [OF assms, of "\<lparr>categorydict = [], preddict = []\<rparr>"] show ?thesis by (simp add: registry_init_def)
qed

lemma fold_upd_distinct:
  assumes "distinct (map f xs)" "x \<in> set xs" shows "fold (\<lambda>x m. m(f x \<mapsto> g x)) xs m (f x) = Some (g x)"
proof -
  have other: "k \<notin> f ` set ys \<Longrightarrow> fold (\<lambda>x m. m(f x \<mapsto> g x)) ys m k = m k" for k ys m
    by (induction ys arbitrary: m) auto
  show ?thesis using assms by (induction xs arbitrary: m) (auto simp: other)
qed

lemma registry_init_lookup:
  assumes "list_all (\<lambda>(c, t). parse_ok t) (triples start)" "distinct (map (\<lambda>(c, t). predname (parsed t)) (triples start))"
    "(c, t) \<in> set (triples start)"
  shows "\<exists>R. registry_init start = Inr R \<and> map_of (preddict R) (predname (parsed t)) = Some (parsed t, c)"
  using registry_init_preds [OF assms(1)]
    fold_upd_distinct [OF assms(2,3), of "\<lambda>(c, t). (parsed t, c)" Map.empty]
  by (auto simp: split_def reg_upd_def [abs_def])

lemma builtin_map_ok:
  "dict_ok builtin_map" "list_all (\<lambda>(c, t). parse_ok t) (triples builtin_map)"
  "distinct (map (\<lambda>(c, t). predname (parsed t)) (triples builtin_map))"
  by code_simp+

lemma builtin_registry_lookup:
  "(c, t) \<in> set (triples builtin_map) \<Longrightarrow>
     map_of (preddict builtin_registry) (predname (parsed t)) = Some (parsed t, c)"
  by (drule registry_init_lookup [OF builtin_map_ok(2,3)]) (auto simp: builtin_registry_def)

text \<open>
  The registry stays consistent: starting from the program's own builtins, after any
  history of operations that did not raise (with \<open>insert_category\<close> only called for a category
  that is not there yet), every name the registry looks up belongs to a predicate of that
  name which is listed in the category the registry says.
\<close>

theorem registry_consistent:
  "case for_res run_reg ops builtin_registry of
     Inl _ \<Rightarrow> True
   | Inr R \<Rightarrow> list_all (\<lambda>n. case map_of (preddict R) n of
         None \<Rightarrow> False
       | Some (p, c) \<Rightarrow> p \<in> set (cat_preds c R) \<and> predname p = n) (dkeys (preddict R))"
proof -
  have "reg_ok builtin_registry"
  proof (cases "registry_init builtin_map")
    case (Inr R)
    with reg_ok_init [OF Inr builtin_map_ok(1)] show ?thesis by (simp add: builtin_registry_def)
  qed (simp add: builtin_registry_def reg_ok_def)
  have "reg_ok R" if "for_res run_reg ops builtin_registry = Inr R" for R
    by (rule for_res_invariant [where P = reg_ok, OF _ \<open>reg_ok builtin_registry\<close> that]) (rule run_reg_ok)
  moreover have "map_of d n \<noteq> None" if "n \<in> set (dkeys d)" for d :: "(string, string pred \<times> string) dict" and n
    using that by (simp add: map_of_None_keys)
  ultimately show ?thesis by (fastforce simp: reg_ok_def list_all_iff split: sum.splits option.splits)
qed

text \<open>
  The program's registry: every predicate of \<open>_builtin_map\<close> is recognised with exactly
  its number of arguments, is found in its category, and its inputs are not more than its
  arguments.
\<close>

theorem builtin_registry_complete:
  "list_all (\<lambda>(cat, ts). list_all (\<lambda>t.
       case dict_predtriple_to_pred t of
         Inl _ \<Rightarrow> False
       | Inr p \<Rightarrow> lookup_builtin (predname p) builtin_registry = Some p \<and>
           get_category_name (predname p) (num_inputs p) builtin_registry = Some cat \<and>
           (\<forall>n. is_builtin (tn (predname p)) (Some (Suc n)) builtin_registry = (Suc n = length (predargs p))) \<and>
           num_inputs p \<le> length (predargs p)) ts) builtin_map"
proof -
  have le: "list_all (\<lambda>(c, t). num_inputs (parsed t) \<le> length (predargs (parsed t))) (triples builtin_map)"
    by code_simp
  have "case dict_predtriple_to_pred t of
         Inl _ \<Rightarrow> False
       | Inr p \<Rightarrow> lookup_builtin (predname p) builtin_registry = Some p \<and>
           get_category_name (predname p) (num_inputs p) builtin_registry = Some cat \<and>
           (\<forall>n. is_builtin (tn (predname p)) (Some (Suc n)) builtin_registry = (Suc n = length (predargs p))) \<and>
           num_inputs p \<le> length (predargs p)" if "(cat, t) \<in> set (triples builtin_map)" for cat t
  proof -
    have "parse_ok t" "num_inputs (parsed t) \<le> length (predargs (parsed t))"
      using that builtin_map_ok(2) le by (auto simp: list_all_iff)
    with builtin_registry_lookup [OF that] show ?thesis
      by (auto simp: parse_ok lookup_builtin_def get_category_name_def is_builtin_def tn_def)
  qed
  moreover have "(c, t) \<in> set (triples builtin_map)" if "(c, ts) \<in> set builtin_map" "t \<in> set ts" for c ts t
    using that by (force simp: triples_def)
  ultimately show ?thesis unfolding list_all_iff by blast
qed

text \<open>The predicate \<open>len\<close>, for the next examples.\<close>

lemma len_builtin:
  "map_of (preddict builtin_registry) ''len'' =
     Some (\<lparr>predname = ''len'', predargs = [''x'', '' y''], num_inputs = 1, code = ''len''\<rparr>, ''string'')"
proof -
  let ?t = "\<lparr>tfunc = ''len(x, y)'', tnum_inputs = 1, tcode = ''len''\<rparr>"
  have "(''string'', ?t) \<in> set (triples builtin_map)" by code_simp
  moreover have "parsed ?t = \<lparr>predname = ''len'', predargs = [''x'', '' y''], num_inputs = 1, code = ''len''\<rparr>"
    by code_simp
  ultimately show ?thesis using builtin_registry_lookup [of "''string''" ?t] by simp
qed

text \<open>
  \<open>insert_category\<close> of a category that exists breaks the consistency: it empties the
  category, but the names of its predicates are still looked up.
\<close>

theorem insert_category_dangling:
  "let R = insert_category ''string'' builtin_registry in
   cat_preds ''string'' R = [] \<and> is_builtin (tn ''len'') (Some 2) R \<and> get_category_name ''len'' 1 R = Some ''string''"
  by (simp add: Let_def insert_category_def is_builtin_def get_category_name_def tn_def len_builtin)

text \<open>
  Two cases where \<open>is_builtin\<close> answers yes against its description: a table of some other
  service that shares the name of a builtin, and a literal without arguments (\<open>not arity\<close>
  holds of the arity 0 as it does of \<open>None\<close>).
\<close>

theorem is_builtin_too_wide:
  "is_builtin \<lparr>tbl = ''len'', service = Some ''nova'', modal = None\<rparr> (Some 2) builtin_registry \<and>
   is_builtin (tn ''len'') (Some 0) builtin_registry \<and> \<not> is_builtin (tn ''len'') (Some 1) builtin_registry"
  by (simp add: is_builtin_def tn_def len_builtin)

end
