(* ===== verification/Schema.thy ===== *)
theory Schema
  imports Syntax
begin

text \<open>
  \<open>compile.Schema\<close>: the columns of the tables of a policy, and for a schema that is learned
  from the rules (\<open>count\<close> is a dictionary) how many formulas use each table.
  A column is given by a description \<open>(name, type, nullable)\<close> (a dictionary in the source) or
  by its name alone.
\<close>

declare map_of_eq_Some_iff [simp del] Some_eq_map_of_iff [simp del]

section \<open>State\<close>

record col_desc =
  cd_name :: string
  cd_type :: "string option"
  cd_nullable :: "bool option"

datatype col = ColDict col_desc | ColStr string

record schema =
  smap :: "(string, col list) dict"
  scount :: "(string, int) dict option"
  complete :: bool

definition schema_new :: "bool \<Rightarrow> schema" where
  "schema_new cpl = \<lparr>smap = [], scount = Some [], complete = cpl\<rparr>"

definition schema_of_dict :: "(string, col list) dict \<Rightarrow> bool \<Rightarrow> schema" where
  "schema_of_dict d cpl = \<lparr>smap = d, scount = None, complete = cpl\<rparr>"

definition schema_contains :: "string \<Rightarrow> schema \<Rightarrow> bool" where
  "schema_contains t s = (map_of (smap s) t \<noteq> None)"

definition is_col_dict :: "col \<Rightarrow> bool" where
  "is_col_dict c = (case c of ColDict _ \<Rightarrow> True | ColStr _ \<Rightarrow> False)"

text \<open>\<open>_col\<close> decides by the first column whether all are descriptions.\<close>

definition col_names :: "col list \<Rightarrow> col list res" where
  "col_names cs =
     (if cs \<noteq> [] \<and> is_col_dict (hd cs) then
        for_res (\<lambda>c ns. case c of ColDict d \<Rightarrow> Inr (ns @ [ColStr (cd_name d)]) | ColStr _ \<Rightarrow> Inl TypeError) cs []
      else Inr cs)"

text \<open>\<open>_type\<close>: the type name (\<open>Scalar\<close> when none is given) and whether it may be null.\<close>

definition col_types :: "col list \<Rightarrow> (string \<times> bool) list res" where
  "col_types cs =
     (if cs \<noteq> [] \<and> is_col_dict (hd cs) then
        for_res (\<lambda>c ts. case c of
            ColDict d \<Rightarrow> Inr (ts @ [(case cd_type d of None \<Rightarrow> ''Scalar'' | Some t \<Rightarrow> t,
                                   case cd_nullable d of None \<Rightarrow> True | Some b \<Rightarrow> b)])
          | ColStr _ \<Rightarrow> Inl AttributeError) cs []
      else Inr (map (\<lambda>_. (''Scalar'', True)) cs))"

definition schema_columns :: "string \<Rightarrow> schema \<Rightarrow> col list option res" where
  "schema_columns t s =
     (case map_of (smap s) t of
        None \<Rightarrow> Inr None
      | Some cs \<Rightarrow> rbind (col_names cs) (\<lambda>ns. Inr (Some ns)))"

definition schema_types :: "string \<Rightarrow> schema \<Rightarrow> (string \<times> bool) list option res" where
  "schema_types t s =
     (case map_of (smap s) t of
        None \<Rightarrow> Inr None
      | Some cs \<Rightarrow> rbind (col_types cs) (\<lambda>ts. Inr (Some ts)))"

definition schema_arity :: "string \<Rightarrow> schema \<Rightarrow> nat option" where
  "schema_arity t s = map_option length (map_of (smap s) t)"

section \<open>Learning the schema from formulas\<close>

record schema_change =
  sc_table :: string
  sc_cols :: "col list option"
  sc_insert :: bool
  sc_theory :: "string option"

definition generated_columns :: "nat \<Rightarrow> col list" where
  "generated_columns n = map (\<lambda>i. ColStr (''Col'' @ nat_str i)) [0..<n]"

text \<open>The table, the number of arguments and the service of what the schema is updated with.\<close>

fun schema_item :: "formula \<Rightarrow> (string \<times> nat \<times> string option) res" where
  "schema_item (FFact f) = Inr (ftable f, length (fvals f), None)"
| "schema_item (FLit l) = Inr (tbl (table l), length (arguments l), service (table l))"
| "schema_item (FRule r) = Inl PolicyException"

definition schema_update :: "formula \<Rightarrow> bool \<Rightarrow> schema \<Rightarrow> (schema_change option \<times> schema) res" where
  "schema_update item ins s =
     (case scount s of
        None \<Rightarrow> Inr (None, s)
      | Some cnt \<Rightarrow> rbind (schema_item item) (\<lambda>(t, n, th).
          if ins then
            if schema_contains t s then
              (case map_of cnt t of
                 None \<Rightarrow> Inl KeyError
               | Some c \<Rightarrow> Inr (Some \<lparr>sc_table = t, sc_cols = None, sc_insert = True, sc_theory = th\<rparr>,
                              s\<lparr>scount := Some (AList.update t (c + 1) cnt)\<rparr>))
            else
              (let cols = generated_columns n in
               Inr (Some \<lparr>sc_table = t, sc_cols = Some cols, sc_insert = True, sc_theory = th\<rparr>,
                    s\<lparr>scount := Some (AList.update t 1 cnt), smap := AList.update t cols (smap s)\<rparr>))
          else
            (case map_of (smap s) t of
               None \<Rightarrow> Inr (None, s)
             | Some cols \<Rightarrow>
                 (case map_of cnt t of
                    None \<Rightarrow> Inl KeyError
                  | Some c \<Rightarrow>
                      if c > 1 then
                        Inr (Some \<lparr>sc_table = t, sc_cols = None, sc_insert = False, sc_theory = th\<rparr>,
                             s\<lparr>scount := Some (AList.update t (c - 1) cnt)\<rparr>)
                      else
                        Inr (Some \<lparr>sc_table = t, sc_cols = Some cols, sc_insert = False, sc_theory = th\<rparr>,
                             s\<lparr>scount := Some (AList.delete t cnt), smap := AList.delete t (smap s)\<rparr>)))))"

definition schema_revert :: "schema_change option \<Rightarrow> schema \<Rightarrow> schema res" where
  "schema_revert change s =
     (case change of
        None \<Rightarrow> Inr s
      | Some ch \<Rightarrow>
          (case scount s of
             None \<Rightarrow> Inl TypeError
           | Some cnt \<Rightarrow>
               let t = sc_table ch in
               if sc_insert ch then
                 (case map_of cnt t of
                    None \<Rightarrow> Inl KeyError
                  | Some c \<Rightarrow>
                      if c > 1 then Inr (s\<lparr>scount := Some (AList.update t (c - 1) cnt)\<rparr>)
                      else if schema_contains t s then
                        Inr (s\<lparr>smap := AList.delete t (smap s), scount := Some (AList.delete t cnt)\<rparr>)
                      else Inl KeyError)
               else
                 (case map_of cnt t of
                    Some c \<Rightarrow> Inr (s\<lparr>scount := Some (AList.update t (c + 1) cnt)\<rparr>)
                  | None \<Rightarrow>
                      (case sc_cols ch of
                         None \<Rightarrow> Inl AssertionError
                       | Some cols \<Rightarrow> Inr (s\<lparr>smap := AList.update t cols (smap s),
                                              scount := Some (AList.update t 1 cnt)\<rparr>)))))"

section \<open>Positions and names of columns\<close>

definition index_of :: "'a \<Rightarrow> 'a list \<Rightarrow> nat option" where
  "index_of x xs = (if x \<in> set xs then Some (length (takeWhile (\<lambda>y. y \<noteq> x) xs)) else None)"

definition column_number :: "string \<Rightarrow> colref \<Rightarrow> schema \<Rightarrow> int option res" where
  "column_number t c s =
     rbind (schema_columns t s) (\<lambda>cols.
       case cols of
         None \<Rightarrow> Inr None
       | Some ns \<Rightarrow>
           (case c of
              ColNum i \<Rightarrow> Inr (if i > int (length ns) then None else Some i)
            | ColName n \<Rightarrow> Inr (map_option int (index_of (ColStr n) ns))))"

text \<open>Python's \<open>xs[i]\<close> on a list, with its negative indices.\<close>

definition py_nth :: "'a list \<Rightarrow> int \<Rightarrow> 'a option" where
  "py_nth xs i =
     (if 0 \<le> i \<and> i < int (length xs) then Some (xs ! nat i)
      else if i < 0 \<and> - i \<le> int (length xs) then Some (xs ! nat (int (length xs) + i))
      else None)"

text \<open>By position, the answer is the stored column, which may be a description.\<close>

definition column_name :: "string \<Rightarrow> colref \<Rightarrow> schema \<Rightarrow> col option res" where
  "column_name t c s =
     rbind (schema_columns t s) (\<lambda>cols.
       case cols of
         None \<Rightarrow> Inr None
       | Some ns \<Rightarrow>
           (case c of
              ColName n \<Rightarrow> Inr (if ColStr n \<in> set ns then Some (ColStr n) else None)
            | ColNum i \<Rightarrow> Inr (case map_of (smap s) t of None \<Rightarrow> None | Some cs \<Rightarrow> py_nth cs i)))"

definition schema_len :: "schema \<Rightarrow> nat" where
  "schema_len s = length (smap s)"

section \<open>A learned schema stands for a bag of table names\<close>

definition schema_rep :: "schema \<Rightarrow> string multiset \<Rightarrow> bool" where
  "schema_rep s M = (\<exists>cnt. scount s = Some cnt \<and>
     (\<forall>t. map_of cnt t = (if t \<in># M then Some (int (count M t)) else None)) \<and>
     (\<forall>t. schema_contains t s = (t \<in># M)))"

lemma schema_rep_new: "schema_rep (schema_new c) {#}"
  by (simp add: schema_rep_def schema_new_def schema_contains_def)

definition item_table :: "formula \<Rightarrow> string" where
  "item_table f = (case schema_item f of Inr (t, _, _) \<Rightarrow> t | Inl _ \<Rightarrow> [])"

lemma schema_update_ok:
  assumes rep: "schema_rep s M" and item: "schema_item f = Inr (t, n, th)"
  shows "\<exists>ch s'. schema_update f ins s = Inr (ch, s') \<and>
     schema_rep s' (if ins then add_mset t M else M - {#t#})"
proof -
  obtain cnt where cnt: "scount s = Some cnt"
    "\<And>u. map_of cnt u = (if u \<in># M then Some (int (count M u)) else None)" "\<And>u. schema_contains u s = (u \<in># M)"
    using rep by (auto simp: schema_rep_def)
  show ?thesis
  proof (cases "t \<in># M")
    case False
    then have "map_of (smap s) t = None" using cnt(3) [of t] by (simp add: schema_contains_def)
    with False cnt item show ?thesis
      by (auto simp: schema_update_def schema_rep_def Let_def schema_contains_def diff_single_trivial not_in_iff)
  next
    case True
    then obtain cols where cols: "map_of (smap s) t = Some cols" using cnt(3) [of t] by (auto simp: schema_contains_def)
    have one: "count M t = 1 \<Longrightarrow> t \<notin># M - {#t#}" "count M t > 1 \<Longrightarrow> t \<in># M - {#t#}" by (auto simp: not_in_iff in_diff_count)
    have other: "u \<noteq> t \<Longrightarrow> u \<in># M - {#t#} \<longleftrightarrow> u \<in># M" for u by (auto simp: in_diff_count)
    have pos: "count M t > 0" using True by simp
    show ?thesis
    proof (cases ins)
      case ins: True
      with True cnt item cols show ?thesis
        by (auto simp: schema_update_def schema_rep_def schema_contains_def)
    next
      case False
      have rem: "count M t > 1 \<Longrightarrow> u \<in># M - {#t#} \<longleftrightarrow> u \<in># M" for u using one(2) other [of u] True by (cases "u = t") auto
      with False True cnt item cols one other pos show ?thesis
        by (cases "count M t > 1") (auto simp: schema_update_def schema_rep_def schema_contains_def of_nat_diff)
    qed
  qed
qed

definition run_schema :: "formula \<times> bool \<Rightarrow> schema \<Rightarrow> exc option \<times> schema" where
  "run_schema p s = (case schema_update (fst p) (snd p) s of Inl e \<Rightarrow> (Some e, s) | Inr (_, s') \<Rightarrow> (None, s'))"

text \<open>The specification: a bag of table names; rules are refused.\<close>

definition spec_schema :: "formula \<times> bool \<Rightarrow> string multiset \<Rightarrow> exc option \<times> string multiset" where
  "spec_schema p M =
     (case fst p of
        FRule _ \<Rightarrow> (Some PolicyException, M)
      | f \<Rightarrow> (None, if snd p then add_mset (item_table f) M else M - {#item_table f#}))"

lemma run_schema_sim:
  assumes "schema_rep s M"
  shows "fst (run_schema p s) = fst (spec_schema p M) \<and> schema_rep (snd (run_schema p s)) (snd (spec_schema p M))"
proof (cases "schema_item (fst p)")
  case (Inl e)
  with assms show ?thesis
    by (cases "fst p") (auto simp: run_schema_def spec_schema_def schema_update_def schema_rep_def)
next
  case (Inr x)
  obtain t n th where x: "x = (t, n, th)" by (cases x)
  have "spec_schema p M = (None, if snd p then add_mset t M else M - {#t#})"
    using Inr by (cases "fst p") (auto simp: spec_schema_def item_table_def x)
  with schema_update_ok [OF assms Inr [unfolded x], of "snd p"] show ?thesis by (auto simp: run_schema_def)
qed

text \<open>
  C25. A learned schema refines a bag of table names: for any history of insertions and
  deletions (also of formulas that were never inserted), the only exceptions are those for
  rules, and the schema then knows exactly the tables that were inserted more often than
  deleted.
\<close>

theorem schema_refines_bag:
  "let (outs, s) = run_ops run_schema ps (schema_new c);
       (outs', M) = run_ops spec_schema ps {#}
   in outs = outs' \<and> (\<forall>t. schema_contains t s = (t \<in># M))"
proof -
  let ?i = "run_ops run_schema ps (schema_new c)" and ?s = "run_ops spec_schema ps {#}"
  have "fst ?i = fst ?s \<and> schema_rep (snd ?i) (snd ?s)"
    by (rule run_ops_sim [where R = schema_rep]) (rule run_schema_sim, assumption, rule schema_rep_new)
  then show ?thesis by (auto simp: schema_rep_def split_beta)
qed

definition schema_agree :: "schema \<Rightarrow> schema \<Rightarrow> bool" where
  "schema_agree a b = (map_of (smap a) = map_of (smap b) \<and>
     map_option map_of (scount a) = map_option map_of (scount b) \<and> complete a = complete b)"

text \<open>
  Reverting an update: for every fact or literal and every schema whose counts are
  positive and belong to the tables it knows (or that keeps no counts), \<open>update\<close> succeeds and \<open>revert\<close> of the
  change it returns gives back the same tables with the same columns and counts.
\<close>

theorem schema_revert_update:
  assumes "schema_item f = Inr x" "scount s = None \<or> (\<exists>M. schema_rep s M)"
  shows "\<exists>ch s1 s2. schema_update f ins s = Inr (ch, s1) \<and> schema_revert ch s1 = Inr s2 \<and> schema_agree s2 s"
proof (cases "scount s")
  case None
  then show ?thesis by (simp add: schema_update_def schema_revert_def schema_agree_def Let_def)
next
  case (Some cnt)
  obtain t n th where x: "x = (t, n, th)" by (cases x)
  obtain M where rep: "schema_rep s M" using assms(2) Some by auto
  then have cnt: "map_of cnt u = (if u \<in># M then Some (int (count M u)) else None)" "schema_contains u s = (u \<in># M)" for u
    using Some by (auto simp: schema_rep_def)
  show ?thesis
  proof (cases "t \<in># M")
    case False
    then have t: "map_of (smap s) t = None" "map_of cnt t = None" using cnt [of t] by (auto simp: schema_contains_def)
    show ?thesis
    proof (cases ins)
      case True
      with t Some assms(1) show ?thesis
        by (auto simp: x schema_update_def schema_revert_def schema_agree_def Let_def schema_contains_def fun_eq_iff)
    next
      case False
      with t Some assms(1) show ?thesis
        by (auto simp: x schema_update_def schema_revert_def schema_agree_def Let_def)
    qed
  next
    case True
    then obtain cols where t: "map_of (smap s) t = Some cols" "map_of cnt t = Some (int (count M t))" "count M t \<ge> 1"
      using cnt [of t] by (auto simp: schema_contains_def Suc_le_eq)
    show ?thesis
    proof (cases ins)
      case True
      with t Some assms(1) show ?thesis
        by (auto simp: x schema_update_def schema_revert_def schema_agree_def Let_def schema_contains_def fun_eq_iff)
    next
      case False
      have "int (count M t) = 1" if "\<not> count M t > 1" using that t(3) by linarith
      with False t Some assms(1) show ?thesis
        by (cases "count M t > 1")
          (auto simp: x schema_update_def schema_revert_def schema_agree_def Let_def schema_contains_def fun_eq_iff)
    qed
  qed
qed

theorem schema_revert_update_witness:
  "let f = FFact \<lparr>ftable = ''p'', fvals = [VInt 1, VInt 2]\<rparr>; s = schema_new True in
   (\<exists>x. schema_item f = Inr x) \<and>
   (\<exists>ch s1 s2. schema_update f True s = Inr (ch, s1) \<and> schema_revert ch s1 = Inr s2 \<and> schema_agree s2 s)"
proof -
  let ?f = "FFact \<lparr>ftable = ''p'', fvals = [VInt 1, VInt 2]\<rparr>"
  have f: "schema_item ?f = Inr (''p'', 2, None)" by simp
  have "\<exists>M. schema_rep (schema_new True) M" using schema_rep_new by blast
  from schema_revert_update [OF f disjI2 [OF this], of True] f show ?thesis by (simp add: Let_def)
qed

text \<open>
  Positions past the end: \<open>column_number\<close> accepts a position equal to the number of
  columns (the test is \<open>>\<close>, not \<open>>=\<close>) although no column is there, and it accepts every negative one;
  \<open>column_name\<close> of that position is unknown.
\<close>

theorem column_number_off_by_one:
  "let s = schema_of_dict [(''p'', [ColStr ''id'', ColStr ''name''])] True in
   column_number ''p'' (ColNum 2) s = Inr (Some 2) \<and> column_name ''p'' (ColNum 2) s = Inr None \<and>
   column_number ''p'' (ColNum 3) s = Inr None \<and> column_number ''p'' (ColNum (- 7)) s = Inr (Some (- 7))"
  by code_simp

end
