(* ===== verification/Safety.thy ===== *)
theory Safety
  imports Builtins Schema
begin

text \<open>
  The checks a formula must pass before it enters a policy, from \<open>compile.py\<close>: reordering
  the body so that builtins and negated literals come after what binds their variables
  (\<open>reorder_for_safety\<close>), consistency with the schemas, and the restrictions on heads and modals.

  \<open>safe_order\<close> says what a safe body is; reordering is proved to find one exactly when some
  permutation of the body is safe.
\<close>

section \<open>Reordering\<close>

text \<open>\<open>target_vars\<close>: \<open>None\<close> for a plain literal, which can come anywhere.\<close>

definition target_vars :: "'c registry \<Rightarrow> literal \<Rightarrow> string list option res" where
  "target_vars R l =
     (if negated l then Inr (Some (lit_variable_names l))
      else if lit_is_builtin R l then
        (case lookup_builtin (tbl (table l)) R of
           None \<Rightarrow> Inl AttributeError
         | Some p \<Rightarrow> Inr (Some (remdups (map term_name (filter is_variable (take (num_inputs p) (arguments l)))))))
      else Inr None)"

record reorder =
  safe_vars :: "string list"
  unsafe_literals :: "literal list"
  unsafe_variables :: "(literal, string list) dict"
  new_body :: "literal list"

definition make_safe :: "literal \<Rightarrow> reorder \<Rightarrow> reorder" where
  "make_safe l st = st\<lparr>safe_vars := set_union (safe_vars st) (lit_variable_names l), new_body := new_body st @ [l]\<rparr>"

fun find_safe :: "(literal, string list) dict \<Rightarrow> string list \<Rightarrow> literal list \<Rightarrow> literal option res" where
  "find_safe uv safe [] = Inr None"
| "find_safe uv safe (l # ls) =
     (case map_of uv l of
        None \<Rightarrow> Inl KeyError
      | Some vs \<Rightarrow> if list_all (\<lambda>v. v \<in> set safe) vs then Inr (Some l) else find_safe uv safe ls)"

lemma find_safe_mem: "find_safe uv safe ls = Inr (Some l) \<Longrightarrow> l \<in> set ls"
  by (induction ls) (auto split: option.splits if_splits)

text \<open>The \<open>while found_safe\<close> loop: take out the first literal that has become safe, start over.\<close>

function settle :: "reorder \<Rightarrow> reorder res" where
  "settle st =
     (case find_safe (unsafe_variables st) (safe_vars st) (unsafe_literals st) of
        Inl e \<Rightarrow> Inl e
      | Inr None \<Rightarrow> Inr st
      | Inr (Some l) \<Rightarrow> settle (make_safe l (st\<lparr>unsafe_literals := remove1 l (unsafe_literals st)\<rparr>)))"
  by auto

termination
  by (relation "measure (\<lambda>st. length (unsafe_literals st))")
    (auto dest!: find_safe_mem simp: make_safe_def length_remove1, metis length_pos_if_in_set diff_Suc_less One_nat_def)

declare settle.simps [simp del]

definition make_safe_plus :: "literal \<Rightarrow> reorder \<Rightarrow> reorder res" where
  "make_safe_plus l st = settle (make_safe l st)"

definition reorder_step :: "'c registry \<Rightarrow> literal \<Rightarrow> reorder \<Rightarrow> reorder res" where
  "reorder_step R l st =
     rbind (target_vars R l) (\<lambda>tv.
       case tv of
         None \<Rightarrow> make_safe_plus l st
       | Some vs \<Rightarrow>
           let new_unsafe = filter (\<lambda>v. v \<notin> set (safe_vars st)) vs
           in if new_unsafe \<noteq> [] then
                Inr (st\<lparr>unsafe_literals := unsafe_literals st @ [l],
                        unsafe_variables := AList.update l new_unsafe (unsafe_variables st)\<rparr>)
              else make_safe_plus l st)"

definition reorder_init :: reorder where
  "reorder_init = \<lparr>safe_vars = [], unsafe_literals = [], unsafe_variables = [], new_body = []\<rparr>"

text \<open>
  The code puts the new body into the rule it was given and returns that rule; here the changed rule is
  returned. A caller that goes on with its own rule uses the changed one (\<open>ordered\<close> for materialized policies).
  The check \<open>rule_body_safety\<close> changes the rule too, but only rules that pass it go on, and they are
  reordered again when they are inserted; the second time nothing changes.
\<close>

definition reorder_for_safety :: "'c registry \<Rightarrow> rule \<Rightarrow> rule res" where
  "reorder_for_safety R r =
     (if \<not> is_rule (FRule r) then Inr r
      else rbind (for_res (reorder_step R) (body r) reorder_init)
        (\<lambda>st. if unsafe_literals st \<noteq> [] then Inl PolicyException else Inr (r\<lparr>body := new_body st\<rparr>)))"

section \<open>What reordering achieves\<close>

definition lit_vars :: "literal \<Rightarrow> string set" where
  "lit_vars l = {v. Variable v \<in> set (arguments l)}"

text \<open>The variables that must be bound before the literal is evaluated.\<close>

definition needs :: "'c registry \<Rightarrow> literal \<Rightarrow> string set" where
  "needs R l =
     (if negated l then lit_vars l
      else if lit_is_builtin R l then
        (case lookup_builtin (tbl (table l)) R of
           None \<Rightarrow> {}
         | Some p \<Rightarrow> {v. Variable v \<in> set (take (num_inputs p) (arguments l))})
      else {})"

fun safe_order :: "'c registry \<Rightarrow> string set \<Rightarrow> literal list \<Rightarrow> bool" where
  "safe_order R V [] = True"
| "safe_order R V (l # ls) = (needs R l \<subseteq> V \<and> safe_order R (V \<union> lit_vars l) ls)"

lemma set_term_names: "set (map term_name (filter is_variable args)) = {v. Variable v \<in> set args}"
  by (force elim: is_variable.elims)

lemma set_lit_variable_names [simp]: "set (lit_variable_names l) = lit_vars l"
  by (simp add: lit_variable_names_def lit_vars_def set_term_names del: set_map)

lemma target_vars_needs:
  "\<exists>tv. target_vars R l = Inr tv \<and> (case tv of None \<Rightarrow> needs R l = {} | Some vs \<Rightarrow> set vs = needs R l)"
proof (cases "\<not> negated l \<and> lit_is_builtin R l")
  case True
  then obtain p where "lookup_builtin (tbl (table l)) R = Some p"
    by (auto simp: lit_is_builtin_def is_builtin_def lookup_builtin_def split: option.splits)
  with True show ?thesis by (simp add: target_vars_def needs_def set_term_names del: set_map)
qed (auto simp: target_vars_def needs_def)

lemma safe_order_append:
  "safe_order R V (xs @ ys) \<longleftrightarrow> safe_order R V xs \<and> safe_order R (V \<union> \<Union> (lit_vars ` set xs)) ys"
  by (induction xs arbitrary: V) (auto simp: Un_assoc)

lemma safe_order_mono: "safe_order R V xs \<Longrightarrow> V \<subseteq> W \<Longrightarrow> safe_order R W xs"
proof (induction xs arbitrary: V W)
  case (Cons x xs)
  then have "safe_order R (W \<union> lit_vars x) xs" by (auto intro: Cons.IH [of "V \<union> lit_vars x"])
  with Cons.prems show ?case by auto
qed simp

text \<open>What is recorded of the literals that wait, where the variables \<open>V\<close> are bound.\<close>

definition recorded :: "'c registry \<Rightarrow> (literal, string list) dict \<Rightarrow> string set \<Rightarrow> literal list \<Rightarrow> bool" where
  "recorded R uv V ls = (\<forall>u \<in> set ls. \<exists>vs. map_of uv u = Some vs \<and> set vs \<subseteq> needs R u \<and> needs R u \<subseteq> set vs \<union> V)"

lemma recorded_mono:
  "recorded R uv V ls \<Longrightarrow> V \<subseteq> W \<Longrightarrow> set ls' \<subseteq> set ls \<Longrightarrow> recorded R uv W ls'"
  unfolding recorded_def by (meson subsetD subset_trans sup.mono subset_refl)

lemma recorded_snoc:
  "recorded R uv V ls \<Longrightarrow> set vs \<subseteq> needs R l \<Longrightarrow> needs R l \<subseteq> set vs \<union> V \<Longrightarrow>
   recorded R (AList.update l vs uv) V (ls @ [l])"
  by (simp add: recorded_def)

text \<open>The state of the reordering after the literals \<open>ls\<close> of the body.\<close>

definition reorder_inv :: "'c registry \<Rightarrow> literal list \<Rightarrow> reorder \<Rightarrow> bool" where
  "reorder_inv R ls st =
     (\<Union> (lit_vars ` set (new_body st)) = set (safe_vars st) \<and>
      mset (new_body st) + mset (unsafe_literals st) = mset ls \<and>
      safe_order R {} (new_body st) \<and>
      recorded R (unsafe_variables st) (set (safe_vars st)) (unsafe_literals st))"

definition stuck :: "'c registry \<Rightarrow> reorder \<Rightarrow> bool" where
  "stuck R st = (\<forall>u \<in> set (unsafe_literals st). \<not> needs R u \<subseteq> set (safe_vars st))"

lemma find_safe_ok:
  assumes "recorded R uv (set safe) ls"
  shows "\<exists>x. find_safe uv safe ls = Inr x \<and>
     (case x of None \<Rightarrow> \<forall>u \<in> set ls. \<not> needs R u \<subseteq> set safe
      | Some l \<Rightarrow> l \<in> set ls \<and> needs R l \<subseteq> set safe)"
  using assms
proof (induction ls)
  case (Cons l ls)
  obtain vs where vs: "map_of uv l = Some vs" "set vs \<subseteq> needs R l" "needs R l \<subseteq> set vs \<union> set safe"
    using Cons.prems by (auto simp: recorded_def)
  have eq: "list_all (\<lambda>v. v \<in> set safe) vs \<longleftrightarrow> needs R l \<subseteq> set safe" using vs(2,3) by (auto simp: list_all_iff)
  show ?case
  proof (cases "needs R l \<subseteq> set safe")
    case False
    obtain x where "find_safe uv safe ls = Inr x" "case x of None \<Rightarrow> \<forall>u \<in> set ls. \<not> needs R u \<subseteq> set safe
      | Some l \<Rightarrow> l \<in> set ls \<and> needs R l \<subseteq> set safe"
      using Cons.IH recorded_mono [OF Cons.prems] by auto
    with False vs(1) eq show ?thesis by (auto split: option.splits)
  qed (use vs(1) eq in simp)
qed simp

lemma make_safe_inv:
  assumes inv: "reorder_inv R ls st" and l: "needs R l \<subseteq> set (safe_vars st)"
  shows "reorder_inv R (ls @ [l]) (make_safe l st)"
proof -
  have "safe_order R {} (new_body st @ [l])" using inv l by (simp add: reorder_inv_def safe_order_append)
  moreover have "recorded R (unsafe_variables st) (set (safe_vars st) \<union> lit_vars l) (unsafe_literals st)"
    using inv by (auto simp: reorder_inv_def intro: recorded_mono)
  ultimately show ?thesis using inv by (auto simp: reorder_inv_def make_safe_def Un_commute)
qed

lemma reorder_inv_mset: "mset ls = mset ls' \<Longrightarrow> reorder_inv R ls st \<longleftrightarrow> reorder_inv R ls' st"
  unfolding reorder_inv_def by (simp only:)

lemma reorder_inv_take_out:
  assumes inv: "reorder_inv R ls st" and l: "l \<in> set (unsafe_literals st)"
  shows "reorder_inv R (remove1 l ls) (st\<lparr>unsafe_literals := remove1 l (unsafe_literals st)\<rparr>)"
proof -
  have "mset (new_body st) + mset (unsafe_literals st) = mset ls" using inv by (simp add: reorder_inv_def)
  then have m: "mset (new_body st) + mset (remove1 l (unsafe_literals st)) = mset (remove1 l ls)"
    using l by (metis diff_union_single_conv mset_remove1 set_mset_mset)
  have "recorded R (unsafe_variables st) (set (safe_vars st)) (remove1 l (unsafe_literals st))"
    using inv by (meson reorder_inv_def recorded_mono subset_refl set_remove1_subset)
  with inv m show ?thesis by (simp add: reorder_inv_def)
qed

lemma reorder_inv_member: "reorder_inv R ls st \<Longrightarrow> l \<in> set (unsafe_literals st) \<Longrightarrow> l \<in> set ls"
  by (metis reorder_inv_def set_mset_mset union_iff)

lemma settle_ok:
  "reorder_inv R ls st \<Longrightarrow> \<exists>st'. settle st = Inr st' \<and> reorder_inv R ls st' \<and> stuck R st'"
proof (induction st rule: settle.induct)
  case (1 st)
  have uv: "recorded R (unsafe_variables st) (set (safe_vars st)) (unsafe_literals st)"
    using 1(2) by (simp add: reorder_inv_def)
  obtain x where x: "find_safe (unsafe_variables st) (safe_vars st) (unsafe_literals st) = Inr x"
    "case x of None \<Rightarrow> \<forall>u \<in> set (unsafe_literals st). \<not> needs R u \<subseteq> set (safe_vars st)
      | Some l \<Rightarrow> l \<in> set (unsafe_literals st) \<and> needs R l \<subseteq> set (safe_vars st)"
    using find_safe_ok [OF uv] by blast
  show ?case
  proof (cases x)
    case None
    then show ?thesis using x 1(2) by (subst settle.simps) (simp add: stuck_def)
  next
    case (Some l)
    let ?st = "st\<lparr>unsafe_literals := remove1 l (unsafe_literals st)\<rparr>"
    have l: "l \<in> set (unsafe_literals st)" "needs R l \<subseteq> set (safe_vars st)" using x(2) Some by simp_all
    have "reorder_inv R (remove1 l ls @ [l]) (make_safe l ?st)"
      using make_safe_inv [OF reorder_inv_take_out [OF 1(2) l(1)]] l(2) by simp
    moreover have "mset (remove1 l ls @ [l]) = mset ls"
      using reorder_inv_member [OF 1(2) l(1)] by simp
    ultimately have "reorder_inv R ls (make_safe l ?st)" using reorder_inv_mset by blast
    from 1(1) [OF x(1) Some this] x(1) Some show ?thesis by (subst settle.simps) simp
  qed
qed

lemma reorder_step_ok:
  assumes inv: "reorder_inv R ls st" and st: "stuck R st"
  shows "\<exists>st'. reorder_step R l st = Inr st' \<and> reorder_inv R (ls @ [l]) st' \<and> stuck R st'"
proof -
  obtain tv where tv: "target_vars R l = Inr tv"
    and needs: "case tv of None \<Rightarrow> needs R l = {} | Some vs \<Rightarrow> set vs = needs R l"
    using target_vars_needs by blast
  have settled: ?thesis if "reorder_step R l st = settle (make_safe l st)" "needs R l \<subseteq> set (safe_vars st)"
    using settle_ok [OF make_safe_inv [OF inv that(2)]] that(1) by simp
  show ?thesis
  proof (cases "needs R l \<subseteq> set (safe_vars st)")
    case True
    then have "reorder_step R l st = settle (make_safe l st)"
      using tv needs by (auto simp: reorder_step_def make_safe_plus_def Let_def filter_empty_conv split: option.splits)
    with True settled show ?thesis by blast
  next
    case False
    then obtain vs where vs: "tv = Some vs" "set vs = needs R l" using needs by (auto split: option.splits)
    let ?new = "filter (\<lambda>v. v \<notin> set (safe_vars st)) vs"
    have "?new \<noteq> []" using vs(2) False by (auto simp: filter_empty_conv)
    then have eq: "reorder_step R l st =
        Inr (st\<lparr>unsafe_literals := unsafe_literals st @ [l],
                unsafe_variables := AList.update l ?new (unsafe_variables st)\<rparr>)"
      using tv vs(1) by (simp add: reorder_step_def Let_def)
    have "set ?new \<subseteq> needs R l" "needs R l \<subseteq> set ?new \<union> set (safe_vars st)" using vs(2) by auto
    then have "recorded R (AList.update l ?new (unsafe_variables st)) (set (safe_vars st)) (unsafe_literals st @ [l])"
      using inv by (intro recorded_snoc) (simp_all add: reorder_inv_def)
    then show ?thesis using inv st False unfolding eq by (simp add: reorder_inv_def stuck_def)
  qed
qed

lemma reorder_loop_ok:
  assumes "reorder_inv R ls st" and "stuck R st"
  shows "\<exists>st'. for_res (reorder_step R) xs st = Inr st' \<and> reorder_inv R (ls @ xs) st' \<and> stuck R st'"
  using assms
proof (induction xs arbitrary: ls st)
  case (Cons x xs)
  then obtain st1 where st1: "reorder_step R x st = Inr st1" "reorder_inv R (ls @ [x]) st1" "stuck R st1"
    using reorder_step_ok by blast
  from Cons.IH [OF st1(2,3)] st1(1) show ?case by simp
qed simp

lemma stuck_complete:
  assumes inv: "reorder_inv R ls st" and st: "stuck R st" and ne: "unsafe_literals st \<noteq> []"
    and perm: "mset ps = mset ls"
  shows "\<not> safe_order R {} ps"
proof
  assume safe: "safe_order R {} ps"
  have new: "mset (new_body st) + mset (unsafe_literals st) = mset ps" using inv perm by (simp add: reorder_inv_def)
  have ps: "set ps = set (new_body st) \<union> set (unsafe_literals st)"
    using arg_cong [OF new, of set_mset] by simp
  let ?P = "\<lambda>l. l \<in> set (unsafe_literals st)"
  obtain l where "l \<in> set (unsafe_literals st)" using ne by (cases "unsafe_literals st") auto
  with ps have "\<exists>l \<in> set ps. ?P l" by auto
  then obtain xs u ys where split: "ps = xs @ u # ys" "?P u" "\<forall>x \<in> set xs. \<not> ?P x"
    using split_list_first_prop [of ps ?P] by blast
  have "set xs \<subseteq> set (new_body st)" using split ps by auto
  then have "\<Union> (lit_vars ` set xs) \<subseteq> set (safe_vars st)" using inv by (auto simp: reorder_inv_def)
  moreover have "needs R u \<subseteq> \<Union> (lit_vars ` set xs)" using safe split(1) by (simp add: safe_order_append)
  ultimately have "needs R u \<subseteq> set (safe_vars st)" by (rule subset_trans [rotated])
  with st split(2) show False by (simp add: stuck_def)
qed

text \<open>A body that is safe as it stands is kept as it stands.\<close>

lemma reorder_step_safe:
  assumes "unsafe_literals st = []" and "set (safe_vars st) = V" and "needs R l \<subseteq> V"
  shows "reorder_step R l st = Inr (make_safe l st)"
proof -
  obtain tv where tv: "target_vars R l = Inr tv"
    and needs: "case tv of None \<Rightarrow> needs R l = {} | Some vs \<Rightarrow> set vs = needs R l"
    using target_vars_needs by blast
  have "settle (make_safe l st) = Inr (make_safe l st)"
    using assms(1) by (subst settle.simps) (simp add: make_safe_def)
  with tv needs assms show ?thesis
    by (auto simp: reorder_step_def make_safe_plus_def Let_def filter_empty_conv split: option.splits)
qed

lemma reorder_loop_safe:
  "unsafe_literals st = [] \<Longrightarrow> safe_order R (set (safe_vars st)) xs \<Longrightarrow>
   \<exists>st'. for_res (reorder_step R) xs st = Inr st' \<and> unsafe_literals st' = [] \<and> new_body st' = new_body st @ xs"
proof (induction xs arbitrary: st)
  case (Cons x xs)
  then have step: "reorder_step R x st = Inr (make_safe x st)"
    by (intro reorder_step_safe [OF _ refl]) simp_all
  have "\<exists>st'. for_res (reorder_step R) xs (make_safe x st) = Inr st' \<and> unsafe_literals st' = [] \<and>
      new_body st' = new_body (make_safe x st) @ xs"
    using Cons.prems by (intro Cons.IH) (simp_all add: make_safe_def)
  with step show ?case by (simp add: make_safe_def)
qed simp

lemma reorder_init_ok: "reorder_inv R [] reorder_init" "stuck R reorder_init"
  by (simp_all add: reorder_inv_def stuck_def reorder_init_def recorded_def)

lemma reorder_ok:
  assumes "is_rule (FRule r)"
  shows "case reorder_for_safety R r of
      Inr r' \<Rightarrow> r' = r\<lparr>body := body r'\<rparr> \<and> mset (body r') = mset (body r) \<and> safe_order R {} (body r') \<and>
                (r' = r) = safe_order R {} (body r)
    | Inl e \<Rightarrow> e = PolicyException \<and> (\<nexists>ls. mset ls = mset (body r) \<and> safe_order R {} ls)"
proof -
  obtain st where st: "for_res (reorder_step R) (body r) reorder_init = Inr st"
    "reorder_inv R (body r) st" "stuck R st"
    using reorder_loop_ok [OF reorder_init_ok, where xs = "body r"] by auto
  show ?thesis
  proof (cases "unsafe_literals st = []")
    case True
    have "new_body st = body r" if "safe_order R {} (body r)"
      using reorder_loop_safe [where st = reorder_init and R = R and xs = "body r"] that st(1) by (simp add: reorder_init_def)
    moreover have "r\<lparr>body := new_body st\<rparr> = r \<longleftrightarrow> new_body st = body r"
      by (metis rule.select_convs(2) rule.simps(5) rule.surjective rule.update_convs(2))
    ultimately show ?thesis using st True assms by (auto simp: reorder_for_safety_def reorder_inv_def)
  next
    case False
    with st assms stuck_complete [OF st(2,3)] show ?thesis by (auto simp: reorder_for_safety_def)
  qed
qed

text \<open>
  C14. \<open>reorder_for_safety\<close> on a rule: the result has the same heads and the same literals in
  an order that binds variables before they are needed, and is the rule itself when its body is
  safe already; it raises \<open>PolicyException\<close> exactly when no order of the body is safe.
\<close>

theorem reorder_for_safety_correct:
  assumes "is_rule (FRule r)"
  shows "case reorder_for_safety R r of
      Inr r' \<Rightarrow> r' = r\<lparr>body := body r'\<rparr> \<and> mset (body r') = mset (body r) \<and> safe_order R {} (body r') \<and>
                (r' = r) = safe_order R {} (body r)
    | Inl e \<Rightarrow> e = PolicyException \<and> (\<nexists>ls. mset ls = mset (body r) \<and> safe_order R {} ls)"
  using assms by (rule reorder_ok)

definition no_builtins :: "unit registry" where
  "no_builtins = \<lparr>categorydict = [], preddict = []\<rparr>"

definition unordered_rule :: rule where
  "unordered_rule = rule_example\<lparr>body := rev (body rule_example)\<rparr>"

theorem reorder_for_safety_correct_witness:
  "is_rule (FRule unordered_rule) \<and> reorder_for_safety no_builtins unordered_rule = Inr rule_example \<and>
   mset (body rule_example) = mset (body unordered_rule) \<and> safe_order no_builtins {} (body rule_example)"
proof -
  have r: "is_rule (FRule unordered_rule)" by code_simp
  have "reorder_for_safety no_builtins unordered_rule = Inr rule_example" by code_simp
  with r reorder_for_safety_correct [OF r, of no_builtins] show ?thesis by simp
qed

lemma reorder_for_safety_total: "is_rule (FRule r) \<Longrightarrow> reorder_for_safety R r \<in> range Inr \<or> reorder_for_safety R r = Inl PolicyException"
proof -
  assume r: "is_rule (FRule r)"
  obtain st where "for_res (reorder_step R) (body r) reorder_init = Inr st"
    using reorder_loop_ok [OF reorder_init_ok, where xs = "body r"] by auto
  with r show ?thesis by (simp add: reorder_for_safety_def)
qed

lemma reorder_raises_iff:
  assumes "is_rule (FRule r)"
  shows "reorder_for_safety R r = Inl PolicyException \<longleftrightarrow> \<not> (\<exists>ls. mset ls = mset (body r) \<and> safe_order R {} ls)"
proof -
  obtain st where st: "for_res (reorder_step R) (body r) reorder_init = Inr st"
    "reorder_inv R (body r) st" "stuck R st"
    using reorder_loop_ok [OF reorder_init_ok, where xs = "body r"] by auto
  show ?thesis
  proof (cases "unsafe_literals st = []")
    case True
    then have "mset (new_body st) = mset (body r) \<and> safe_order R {} (new_body st)"
      using st(2) by (simp add: reorder_inv_def)
    with st True assms show ?thesis by (auto simp: reorder_for_safety_def)
  next
    case False
    with st assms stuck_complete [OF st(2,3)] show ?thesis by (auto simp: reorder_for_safety_def)
  qed
qed

section \<open>Schemas of policies\<close>

text \<open>What the checks read of a theory object: its schema, its kind and its name.\<close>

record policy_info =
  pi_schema :: "schema option"
  pi_kind :: string
  pi_name :: string

definition DATASOURCE_POLICY_TYPE :: string where
  "DATASOURCE_POLICY_TYPE = ''datasource''"

type_synonym theories = "(string, policy_info) dict option"

definition literal_theory :: "theories \<Rightarrow> string option \<Rightarrow> literal \<Rightarrow> policy_info option" where
  "literal_theory ths dflt l =
     (case ths of
        None \<Rightarrow> None
      | Some d \<Rightarrow> (case or_else (service (table l)) dflt of None \<Rightarrow> None | Some n \<Rightarrow> map_of d n))"

definition literal_schema :: "theories \<Rightarrow> string option \<Rightarrow> literal \<Rightarrow> schema option" where
  "literal_schema ths dflt l = Option.bind (literal_theory ths dflt l) pi_schema"

definition literal_schema_consistency :: "theories \<Rightarrow> string option \<Rightarrow> literal \<Rightarrow> exc list" where
  "literal_schema_consistency ths th l =
     (case ths of
        None \<Rightarrow> []
      | Some d \<Rightarrow>
          if length (named_arguments l) > 0 then []
          else (case or_else (service (table l)) th of
             None \<Rightarrow> []
           | Some active \<Rightarrow>
               (case map_of d active of
                  None \<Rightarrow> []
                | Some p \<Rightarrow>
                    (case pi_schema p of
                       None \<Rightarrow> []
                     | Some sch \<Rightarrow>
                         if complete sch \<and> \<not> schema_contains (tbl (table l)) sch then [PolicyException]
                         else (case schema_arity (tbl (table l)) sch of
                            None \<Rightarrow> []
                          | Some n \<Rightarrow> if length (arguments l) \<noteq> n then [PolicyException] else [])))))"

definition rule_schema_consistency :: "theories \<Rightarrow> string option \<Rightarrow> rule \<Rightarrow> exc list" where
  "rule_schema_consistency ths th r = concat (map (literal_schema_consistency ths th) (body r))"

fun schema_consistency :: "theories \<Rightarrow> string option \<Rightarrow> formula \<Rightarrow> exc list res" where
  "schema_consistency ths th (FLit l) =
     (if lit_is_atom l then Inr (literal_schema_consistency ths th l) else Inl AttributeError)"
| "schema_consistency ths th (FRule r) = Inr (rule_schema_consistency ths th r)"
| "schema_consistency ths th (FFact f) = Inl AttributeError"

definition rule_check_schema :: "theories \<Rightarrow> string option \<Rightarrow> rule \<Rightarrow> exc list" where
  "rule_check_schema ths th r =
     concat (map (literal_schema_consistency ths th) (heads r)) @
     concat (map (literal_schema_consistency ths th) (body r))"

section \<open>Errors of facts and rules\<close>

definition keywords_safety :: "'c registry \<Rightarrow> literal \<Rightarrow> exc list" where
  "keywords_safety R l = (if is_builtin (table l) None R then [PolicyException] else [])"

definition fact_has_no_theory :: "literal \<Rightarrow> exc list" where
  "fact_has_no_theory l = (case service (table l) of None \<Rightarrow> [] | Some _ \<Rightarrow> [PolicyException])"

definition fact_errors :: "'c registry \<Rightarrow> theories \<Rightarrow> string option \<Rightarrow> literal \<Rightarrow> exc list res" where
  "fact_errors R ths th l =
     (if \<not> lit_is_atom l then Inl AssertionError
      else Inr ((if lit_is_ground l then [] else [PolicyException]) @
        literal_schema_consistency ths th l @ fact_has_no_theory l @ keywords_safety R l))"

definition rule_head_safety :: "rule \<Rightarrow> exc list" where
  "rule_head_safety r =
     (let head_vars = fold (\<lambda>l vs. set_union vs (lit_variables l)) (heads r) [];
          body_vars = fold (\<lambda>l vs. set_union vs (lit_variables l)) (body r) []
      in map (\<lambda>_. PolicyException) (filter (\<lambda>v. v \<notin> set body_vars) head_vars))"

definition to_lower :: "string \<Rightarrow> string" where
  "to_lower = map (\<lambda>c. let n = (of_char c :: nat) in if 65 \<le> n \<and> n \<le> 90 then char_of (n + 32) else c)"

definition PERMITTED_MODALS :: "string list" where
  "PERMITTED_MODALS = [''execute'']"

definition rule_modal_safety :: "rule \<Rightarrow> exc list" where
  "rule_modal_safety r =
     concat (map (\<lambda>l. case modal (table l) of
        None \<Rightarrow> []
      | Some m \<Rightarrow> if to_lower m \<notin> set PERMITTED_MODALS then [PolicyException] else []) (heads r)) @
     (if list_ex (\<lambda>l. modal (table l) \<noteq> None) (heads r) \<and> length (heads r) > 1 then [PolicyException] else []) @
     concat (map (\<lambda>l. if truthy (modal (table l)) then [PolicyException] else []) (body r))"

definition rule_head_has_no_theory :: "(literal \<Rightarrow> bool) option \<Rightarrow> rule \<Rightarrow> exc list" where
  "rule_head_has_no_theory permit r =
     concat (map (\<lambda>l. if service (table l) \<noteq> None \<and> modal (table l) = None \<and>
                         (case permit of None \<Rightarrow> True | Some f \<Rightarrow> \<not> f l)
                      then [PolicyException] else []) (heads r))"

text \<open>\<open>rule_body_safety\<close> catches only \<open>PolicyException\<close>.\<close>

definition rule_body_safety :: "'c registry \<Rightarrow> rule \<Rightarrow> exc list res" where
  "rule_body_safety R r =
     (case reorder_for_safety R r of
        Inr _ \<Rightarrow> Inr []
      | Inl e \<Rightarrow> if e = PolicyException then Inr [e] else Inl e)"

definition rule_errors :: "'c registry \<Rightarrow> theories \<Rightarrow> string option \<Rightarrow> rule \<Rightarrow> exc list res" where
  "rule_errors R ths th r =
     rbind (rule_body_safety R r) (\<lambda>body_errors.
       Inr (rule_head_safety r @ body_errors @ rule_check_schema ths th r @
            rule_head_has_no_theory None r @ rule_modal_safety r @ keywords_safety R (rule_head r)))"

section \<open>Which rules are accepted\<close>

text \<open>The width the schema of its policy asks of a literal.\<close>

definition fits_schema :: "theories \<Rightarrow> string option \<Rightarrow> literal \<Rightarrow> bool" where
  "fits_schema ths th l =
     (case literal_schema ths th l of
        None \<Rightarrow> True
      | Some sch \<Rightarrow> named_arguments l \<noteq> [] \<or>
          (case map_of (smap sch) (tbl (table l)) of
             None \<Rightarrow> \<not> complete sch
           | Some cols \<Rightarrow> length (arguments l) = length cols))"

lemma literal_schema_consistency_iff: "literal_schema_consistency ths th l = [] \<longleftrightarrow> fits_schema ths th l"
  by (auto simp: literal_schema_consistency_def fits_schema_def literal_schema_def literal_theory_def
      schema_contains_def schema_arity_def split: option.splits)

lemma concat_map_Nil: "concat (map f xs) = [] \<longleftrightarrow> list_all (\<lambda>x. f x = []) xs"
  by (induction xs) auto

lemma rule_head_safety_iff:
  "rule_head_safety r = [] \<longleftrightarrow> \<Union> (lit_vars ` set (heads r)) \<subseteq> \<Union> (lit_vars ` set (body r))"
proof -
  have vars: "set (lit_variables l) = Variable ` lit_vars l" for l
    by (force simp: lit_variables_def lit_vars_def elim: is_variable.elims)
  show ?thesis
    unfolding rule_head_safety_def Let_def by (auto simp: set_fold_union vars filter_empty_conv)
qed

text \<open>
  C18. \<open>rule_errors\<close> accepts a rule exactly when every head variable occurs in the body, some
  order of the body binds the inputs of builtins and negated literals before they are
  evaluated, every literal fits the schema of its policy, only modal heads name a policy, a
  modal is \<open>execute\<close> on a single head and none is in the body, and the first head is not a builtin.
\<close>

theorem rule_errors_accepts:
  assumes "is_rule (FRule r)"
  shows "(rule_errors R ths th r = Inr []) =
    (\<Union> (lit_vars ` set (heads r)) \<subseteq> \<Union> (lit_vars ` set (body r)) \<and>
     (\<exists>ls. mset ls = mset (body r) \<and> safe_order R {} ls) \<and>
     list_all (fits_schema ths th) (heads r @ body r) \<and>
     list_all (\<lambda>l. service (table l) = None \<or> modal (table l) \<noteq> None) (heads r) \<and>
     list_all (\<lambda>l. case modal (table l) of None \<Rightarrow> True | Some m \<Rightarrow> to_lower m = ''execute'') (heads r) \<and>
     (length (heads r) \<le> 1 \<or> list_all (\<lambda>l. modal (table l) = None) (heads r)) \<and>
     list_all (\<lambda>l. modal (table l) = None \<or> modal (table l) = Some []) (body r) \<and>
     map_of (preddict R) (tbl (table (rule_head r))) = None)"
proof -
  have safety: "rule_body_safety R r = Inr [] \<and> (\<exists>ls. mset ls = mset (body r) \<and> safe_order R {} ls) \<or>
      rule_body_safety R r = Inr [PolicyException] \<and> \<not> (\<exists>ls. mset ls = mset (body r) \<and> safe_order R {} ls)"
    using reorder_for_safety_total [OF assms, of R] reorder_raises_iff [OF assms, of R]
    by (auto simp: rule_body_safety_def)
  have schema: "rule_check_schema ths th r = [] \<longleftrightarrow> list_all (fits_schema ths th) (heads r @ body r)"
    by (simp add: rule_check_schema_def concat_map_Nil literal_schema_consistency_iff del: concat_eq_Nil_conv)
  have head_theory: "rule_head_has_no_theory None r = [] \<longleftrightarrow>
      list_all (\<lambda>l. service (table l) = None \<or> modal (table l) \<noteq> None) (heads r)"
    by (auto simp: rule_head_has_no_theory_def concat_map_Nil list_all_iff simp del: concat_eq_Nil_conv)
  have modal: "rule_modal_safety r = [] \<longleftrightarrow>
     list_all (\<lambda>l. case modal (table l) of None \<Rightarrow> True | Some m \<Rightarrow> to_lower m = ''execute'') (heads r) \<and>
     (length (heads r) \<le> 1 \<or> list_all (\<lambda>l. modal (table l) = None) (heads r)) \<and>
     list_all (\<lambda>l. modal (table l) = None \<or> modal (table l) = Some []) (body r)"
    by (auto simp: rule_modal_safety_def concat_map_Nil list_all_iff list_ex_iff truthy_def
        PERMITTED_MODALS_def not_le simp del: concat_eq_Nil_conv split: option.splits if_splits)
  have keyword: "keywords_safety R (rule_head r) = [] \<longleftrightarrow> map_of (preddict R) (tbl (table (rule_head r))) = None"
    by (auto simp: keywords_safety_def is_builtin_def split: option.splits)
  show ?thesis
    using safety
  proof
    assume "rule_body_safety R r = Inr [] \<and> (\<exists>ls. mset ls = mset (body r) \<and> safe_order R {} ls)"
    then show ?thesis
      by (simp add: rule_errors_def rule_head_safety_iff schema head_theory modal keyword)
  qed (simp add: rule_errors_def)
qed

theorem rule_errors_accepts_witness:
  "is_rule (FRule unordered_rule) \<and> rule_errors no_builtins None None unordered_rule = Inr [] \<and>
   (\<exists>ls. mset ls = mset (body unordered_rule) \<and> safe_order no_builtins {} ls)"
proof -
  have r: "is_rule (FRule unordered_rule)" by code_simp
  have "rule_errors no_builtins None None unordered_rule = Inr []" by code_simp
  with r rule_errors_accepts [OF r, of no_builtins None None] show ?thesis by blast
qed

end
