(* ===== verification/Column_Refs.thy ===== *)
theory Column_Refs
  imports Safety
begin

text \<open>
  Column references, from \<open>compile.py\<close>: \<open>p(1, size=x, 3=y)\<close> gives arguments by the name or the
  number of a column of a datasource table. \<open>eliminate_column_references_and_pad_positional\<close>
  turns them into positions and fills the columns that are not given with new variables.
\<close>

declare map_of_eq_Some_iff [simp del] Some_eq_map_of_iff [simp del]

section \<open>Literals\<close>

definition err_if :: "bool \<Rightarrow> exc list" where
  "err_if b = (if b then [PolicyException] else [])"

lemma err_if_Nil [simp]: "err_if b = [] \<longleftrightarrow> \<not> b"
  by (simp add: err_if_def)

text \<open>
  One named argument: the errors found so far and the arguments by position. Looking up a
  column that is given by a description raises, since a Python dictionary is not hashable.
\<close>

definition named_arg_step ::
  "literal \<Rightarrow> schema \<Rightarrow> colref \<times> trm \<Rightarrow> exc list \<times> (int, trm) dict \<Rightarrow> (exc list \<times> (int, trm) dict) res" where
  "named_arg_step l sch = (\<lambda>(c, arg) (errs, ti).
     case c of
       ColName n \<Rightarrow>
         rbind (column_number (tbl (table l)) c sch) (\<lambda>index.
           case index of
             None \<Rightarrow> Inr (errs @ [PolicyException], ti)
           | Some i \<Rightarrow>
               Inr (errs @ err_if (i < int (length (arguments l))) @
                    err_if (ColNum i \<in> set (dkeys (named_arguments l))) @ err_if (i \<in> set (dkeys ti)),
                    AList.update i arg ti))
     | ColNum i \<Rightarrow>
         (case schema_arity (tbl (table l)) sch of
            None \<Rightarrow> Inl TypeError
          | Some n \<Rightarrow>
              rbind (column_name (tbl (table l)) c sch) (\<lambda>name.
                case name of
                  Some (ColDict _) \<Rightarrow> Inl TypeError
                | _ \<Rightarrow>
                    Inr (errs @ err_if (i \<ge> int n) @ err_if (i < int (length (arguments l))) @
                         err_if (case name of Some (ColStr s) \<Rightarrow> ColName s \<in> set (dkeys (named_arguments l)) | _ \<Rightarrow> False) @
                         err_if (i \<in> set (dkeys ti)),
                         AList.update i arg ti))))"

definition pad_positional :: "string \<Rightarrow> (int, trm) dict \<Rightarrow> nat \<Rightarrow> literal \<Rightarrow> literal" where
  "pad_positional prefix ti arity l = l\<lparr>named_arguments := [],
     arguments := arguments l @ map (\<lambda>i. case map_of ti (int i) of
        None \<Rightarrow> Variable (prefix @ nat_str i) | Some t \<Rightarrow> t) [length (arguments l)..<arity]\<rparr>"

definition lit_eliminate_column_references ::
  "theories \<Rightarrow> string option \<Rightarrow> string \<Rightarrow> literal \<Rightarrow> literal res" where
  "lit_eliminate_column_references ths dflt prefix l =
     (if length (named_arguments l) > 0 then
        (case literal_theory ths dflt l of
           None \<Rightarrow> Inl IncompleteSchemaException
         | Some p \<Rightarrow>
             (case pi_schema p of
                None \<Rightarrow> Inl IncompleteSchemaException
              | Some sch \<Rightarrow>
                  if pi_kind p \<noteq> DATASOURCE_POLICY_TYPE then Inl PolicyException
                  else (case schema_arity (tbl (table l)) sch of
                     None \<Rightarrow> Inl IncompleteSchemaException
                   | Some n \<Rightarrow>
                       rbind (for_res (named_arg_step l sch) (named_arguments l) ([], [])) (\<lambda>(errs, ti).
                         if errs \<noteq> [] then Inl PolicyException else Inr (pad_positional prefix ti n l)))))
      else
        (case literal_schema ths dflt l of
           None \<Rightarrow> Inr l
         | Some sch \<Rightarrow>
             (case schema_arity (tbl (table l)) sch of
                None \<Rightarrow> Inr l
              | Some n \<Rightarrow> Inr (pad_positional prefix [] n l))))"

section \<open>Rules\<close>

definition lit_rank :: "literal list \<Rightarrow> (literal, nat) dict" where
  "lit_rank ls = fold (\<lambda>(l, i). AList.update l i) (zip (sorted_by literal_lt ls) [0..<length ls]) []"

text \<open>The literals of a list, each with the number its new variables carry.\<close>

definition eliminate_all ::
  "theories \<Rightarrow> string option \<Rightarrow> string \<Rightarrow> (literal \<times> nat option) list \<Rightarrow> literal list res" where
  "eliminate_all ths dflt pre xs = for_res (\<lambda>(l, k) acc.
     case k of
       None \<Rightarrow> Inl KeyError
     | Some i \<Rightarrow> rbind (lit_eliminate_column_references ths dflt (pre @ nat_str i) l) (\<lambda>l'. Inr (acc @ [l']))) xs []"

definition rule_eliminate_column_references :: "theories \<Rightarrow> string option \<Rightarrow> rule \<Rightarrow> rule res" where
  "rule_eliminate_column_references ths dflt r =
     (let pre = unused_variable_prefix r
      in rbind (eliminate_all ths dflt pre (zip (heads r) (map Some [0..<length (heads r)]))) (\<lambda>hs.
         rbind (eliminate_all ths dflt pre (map (\<lambda>l. (l, map_of (lit_rank (body r)) l)) (body r))) (\<lambda>bs.
         Inr \<lparr>heads = hs, body = bs\<rparr>)))"

section \<open>Where a reference points\<close>

fun ref_pos :: "string list \<Rightarrow> colref \<Rightarrow> int option" where
  "ref_pos ns (ColNum i) = Some i"
| "ref_pos ns (ColName n) = map_option int (index_of n ns)"

definition ref_valid :: "string list \<Rightarrow> literal \<Rightarrow> colref \<Rightarrow> bool" where
  "ref_valid ns l c =
     (case ref_pos ns c of None \<Rightarrow> False | Some i \<Rightarrow> int (length (arguments l)) \<le> i \<and> i < int (length ns))"

text \<open>Every reference is to a column that is not given by position, and no two are to the same.\<close>

definition refs_ok :: "string list \<Rightarrow> literal \<Rightarrow> bool" where
  "refs_ok ns l =
     (list_all (ref_valid ns l) (dkeys (named_arguments l)) \<and>
      distinct (map (ref_pos ns) (dkeys (named_arguments l))))"

definition arg_at :: "string list \<Rightarrow> (colref \<times> trm) list \<Rightarrow> int \<Rightarrow> trm option" where
  "arg_at ns xs i = map_of (map (\<lambda>(c, t). (ref_pos ns c, t)) xs) (Some i)"

lemma index_of_map: "inj f \<Longrightarrow> index_of (f x) (map f xs) = index_of x xs"
  by (auto simp: index_of_def takeWhile_map comp_def inj_eq dest: injD)

lemma index_of_less: "index_of x xs = Some i \<Longrightarrow> i < length xs \<and> xs ! i = x"
  by (induction xs arbitrary: i) (auto simp: index_of_def split: if_splits)

lemma index_of_nth: "distinct xs \<Longrightarrow> i < length xs \<Longrightarrow> index_of (xs ! i) xs = Some i"
proof (induction xs arbitrary: i)
  case (Cons x xs)
  then show ?case
    by (cases i) (auto simp: index_of_def split: if_splits)
qed simp

lemma inj_ColStr: "inj ColStr"
  by (simp add: inj_def)

lemma col_names_ColStr [simp]: "col_names (map ColStr ns) = Inr (map ColStr ns)"
  by (cases ns) (simp_all add: col_names_def is_col_dict_def)

text \<open>What the loop has established after the named arguments \<open>xs\<close>.\<close>

definition refs_good :: "string list \<Rightarrow> literal \<Rightarrow> (colref \<times> trm) list \<Rightarrow> bool" where
  "refs_good ns l xs =
     ((\<forall>c \<in> fst ` set xs. ref_valid ns l c \<and>
        (\<forall>c' \<in> fst ` set (named_arguments l). c' \<noteq> c \<longrightarrow> ref_pos ns c' \<noteq> ref_pos ns c)) \<and>
      distinct (map (ref_pos ns) (dkeys xs)))"

definition refs_state :: "string list \<Rightarrow> literal \<Rightarrow> (colref \<times> trm) list \<Rightarrow> exc list \<times> (int, trm) dict \<Rightarrow> bool" where
  "refs_state ns l xs st = (refs_good ns l xs = (fst st = []) \<and>
     (fst st = [] \<longrightarrow> (\<forall>i. map_of (snd st) i = arg_at ns xs i)))"

definition clash_free :: "string list \<Rightarrow> literal \<Rightarrow> colref \<Rightarrow> bool" where
  "clash_free ns l c = (\<forall>c' \<in> fst ` set (named_arguments l). c' \<noteq> c \<longrightarrow> ref_pos ns c' \<noteq> ref_pos ns c)"

text \<open>
  The columns of a table, by name: all plain strings, or all described. In the second case a reference
  by number to an existing column cannot be looked up among the named arguments.
\<close>

definition columns_are :: "col list \<Rightarrow> string list \<Rightarrow> bool" where
  "columns_are cols ns = (cols = map ColStr ns \<or> (\<exists>ds. cols = map ColDict ds \<and> map cd_name ds = ns))"

definition unhashable :: "col list \<Rightarrow> colref \<Rightarrow> bool" where
  "unhashable cols c = (case c of ColName _ \<Rightarrow> False
     | ColNum i \<Rightarrow> (case py_nth cols i of Some (ColDict _) \<Rightarrow> True | _ \<Rightarrow> False))"

lemma columns_are_names:
  assumes "columns_are cols ns" shows "col_names cols = Inr (map ColStr ns)"
proof -
  have "for_res (\<lambda>c ns. case c of ColDict d \<Rightarrow> Inr (ns @ [ColStr (cd_name d)]) | ColStr _ \<Rightarrow> Inl TypeError) (map ColDict ds) acc =
      Inr (acc @ map (\<lambda>d. ColStr (cd_name d)) ds)" for ds acc
    by (induction ds arbitrary: acc) auto
  then have "col_names (map ColDict ds) = Inr (map (\<lambda>d. ColStr (cd_name d)) ds)" for ds
    by (cases ds) (simp_all add: col_names_def is_col_dict_def)
  then show ?thesis using assms by (auto simp: columns_are_def comp_def)
qed

lemma columns_are_length: "columns_are cols ns \<Longrightarrow> length cols = length ns"
  by (auto simp: columns_are_def)

lemma py_nth_map: "py_nth (map f xs) i = map_option f (py_nth xs i)"
  by (auto simp: py_nth_def nth_map)

lemma clash_free_one:
  assumes "\<And>c'. c' \<noteq> c \<and> ref_pos ns c' = ref_pos ns c \<longleftrightarrow> c' = c0"
  shows "clash_free ns l c \<longleftrightarrow> c0 \<notin> fst ` set (named_arguments l)"
proof -
  have "clash_free ns l c \<longleftrightarrow> (\<forall>c' \<in> fst ` set (named_arguments l). \<not> (c' \<noteq> c \<and> ref_pos ns c' = ref_pos ns c))"
    unfolding clash_free_def by blast
  also have "\<dots> \<longleftrightarrow> c0 \<notin> fst ` set (named_arguments l)" by (simp only: assms) blast
  finally show ?thesis .
qed

lemma clash_ColName:
  assumes "index_of n ns = Some k"
  shows "clash_free ns l (ColName n) \<longleftrightarrow> ColNum (int k) \<notin> fst ` set (named_arguments l)"
proof (rule clash_free_one)
  fix c' show "c' \<noteq> ColName n \<and> ref_pos ns c' = ref_pos ns (ColName n) \<longleftrightarrow> c' = ColNum (int k)"
    using assms by (cases c') (auto dest!: index_of_less)
qed

lemma clash_ColNum:
  assumes "distinct ns" and "k < length ns"
  shows "clash_free ns l (ColNum (int k)) \<longleftrightarrow> ColName (ns ! k) \<notin> fst ` set (named_arguments l)"
proof (rule clash_free_one)
  fix c' show "c' \<noteq> ColNum (int k) \<and> ref_pos ns c' = ref_pos ns (ColNum (int k)) \<longleftrightarrow> c' = ColName (ns ! k)"
    using index_of_nth [OF assms] by (cases c') (auto dest: index_of_less)
qed

lemma py_nth_plain:
  assumes "columns_are cols ns" "\<not> unhashable cols (ColNum i)"
  shows "py_nth cols i = map_option ColStr (py_nth ns i)"
  using assms by (auto simp: columns_are_def unhashable_def py_nth_map split: option.splits)

lemma named_arg_unhashable:
  assumes "map_of (smap sch) (tbl (table l)) = Some cols" "columns_are cols ns" "unhashable cols c"
  shows "named_arg_step l sch (c, t) st = Inl TypeError"
  using assms columns_are_names [OF assms(2)]
  by (auto simp: unhashable_def named_arg_step_def schema_arity_def column_name_def schema_columns_def
      split: colref.splits option.splits col.splits prod.splits)

lemma named_arg_step_ok:
  assumes cols: "map_of (smap sch) (tbl (table l)) = Some cols" "columns_are cols ns" and dist: "distinct ns"
    and plain: "\<not> unhashable cols c"
  shows "\<exists>es ti'. named_arg_step l sch (c, t) (errs, ti) = Inr (errs @ es, ti') \<and>
     (es = [] \<longleftrightarrow> ref_valid ns l c \<and> clash_free ns l c \<and> (\<forall>i. ref_pos ns c = Some i \<longrightarrow> i \<notin> fst ` set ti)) \<and>
     (es = [] \<longrightarrow> (\<exists>i. ref_pos ns c = Some i \<and> ti' = AList.update i t ti))"
proof (cases c)
  case (ColName n)
  have idx: "column_number (tbl (table l)) c sch = Inr (map_option int (index_of n ns))"
    using cols(1) ColName index_of_map [OF inj_ColStr, of n ns] columns_are_names [OF cols(2)]
    by (simp add: column_number_def schema_columns_def)
  show ?thesis
  proof (cases "index_of n ns")
    case None
    then show ?thesis using idx ColName by (simp add: named_arg_step_def ref_valid_def)
  next
    case (Some k)
    then have "k < length ns" by (simp add: index_of_less)
    let ?es = "err_if (int k < int (length (arguments l))) @
      err_if (ColNum (int k) \<in> set (dkeys (named_arguments l))) @ err_if (int k \<in> set (dkeys ti))"
    have "named_arg_step l sch (c, t) (errs, ti) = Inr (errs @ ?es, AList.update (int k) t ti)"
      using Some idx ColName by (simp add: named_arg_step_def)
    moreover have "?es = [] \<longleftrightarrow> ref_valid ns l c \<and> clash_free ns l c \<and> (\<forall>i. ref_pos ns c = Some i \<longrightarrow> i \<notin> fst ` set ti)"
      using Some ColName clash_ColName [OF Some, of l] \<open>k < length ns\<close>
      by (simp add: ref_valid_def not_less image_iff)
    ultimately show ?thesis using Some ColName by simp
  qed
next
  case (ColNum i)
  have ar: "schema_arity (tbl (table l)) sch = Some (length ns)"
    using cols columns_are_length [OF cols(2)] by (simp add: schema_arity_def)
  have nm: "column_name (tbl (table l)) c sch = Inr (map_option ColStr (py_nth ns i))"
    using cols(1) ColNum columns_are_names [OF cols(2)] py_nth_plain [OF cols(2)] plain
    by (simp add: column_name_def schema_columns_def)
  define es where "es = err_if (i \<ge> int (length ns)) @ err_if (i < int (length (arguments l))) @
    err_if (case py_nth ns i of Some s \<Rightarrow> ColName s \<in> set (dkeys (named_arguments l)) | None \<Rightarrow> False) @
    err_if (i \<in> set (dkeys ti))"
  have step: "named_arg_step l sch (c, t) (errs, ti) = Inr (errs @ es, AList.update i t ti)"
    using ar nm ColNum by (cases "py_nth ns i") (simp_all add: named_arg_step_def es_def)
  have es: "es = [] \<longleftrightarrow> i < int (length ns) \<and> int (length (arguments l)) \<le> i \<and>
        (case py_nth ns i of Some s \<Rightarrow> ColName s \<notin> fst ` set (named_arguments l) | None \<Rightarrow> True) \<and> i \<notin> fst ` set ti"
    by (cases "py_nth ns i") (simp_all add: es_def not_le not_less)
  show ?thesis
  proof (cases "int (length (arguments l)) \<le> i \<and> i < int (length ns)")
    case True
    then obtain k where k: "i = int k" "k < length ns" by (metis nonneg_int_cases of_nat_0_le_iff of_nat_less_iff order_trans)
    then have "py_nth ns i = Some (ns ! k)" by (simp add: py_nth_def)
    with True k clash_ColNum [OF dist k(2), of l] es ColNum
    have "es = [] \<longleftrightarrow> ref_valid ns l c \<and> clash_free ns l c \<and> i \<notin> fst ` set ti" by (simp add: ref_valid_def)
    with step ColNum show ?thesis by simp
  next
    case False
    with es ColNum have "es \<noteq> []" "\<not> ref_valid ns l c" by (auto simp: ref_valid_def)
    with step show ?thesis by simp
  qed
qed

lemma refs_good_snoc:
  assumes "dict_ok (xs @ [(c, t)])" and "set (xs @ [(c, t)]) \<subseteq> set (named_arguments l)"
  shows "refs_good ns l (xs @ [(c, t)]) \<longleftrightarrow> refs_good ns l xs \<and> ref_valid ns l c \<and> clash_free ns l c"
proof -
  have "ref_pos ns c \<notin> ref_pos ns ` fst ` set xs" if "clash_free ns l c"
  proof
    assume "ref_pos ns c \<in> ref_pos ns ` fst ` set xs"
    then obtain c' t' where c': "(c', t') \<in> set xs" "ref_pos ns c' = ref_pos ns c" by auto
    then have "c' \<noteq> c" "c' \<in> fst ` set (named_arguments l)" using assms by force+
    with that c'(2) show False by (auto simp: clash_free_def)
  qed
  then show ?thesis by (auto simp: refs_good_def clash_free_def image_image comp_def)
qed

lemma arg_at_snoc:
  assumes "ref_pos ns c = Some i" and "Some i \<notin> ref_pos ns ` fst ` set xs"
  shows "arg_at ns (xs @ [(c, t)]) j = (if j = i then Some t else arg_at ns xs j)"
proof -
  have "map_of (map (\<lambda>(c, t). (ref_pos ns c, t)) xs) (Some i) = None"
    using assms(2) by (auto simp: map_of_eq_None_iff image_image split_beta)
  with assms(1) show ?thesis by (auto simp: arg_at_def map_add_def split: option.splits)
qed

lemma refs_state_step:
  assumes cols: "map_of (smap sch) (tbl (table l)) = Some cols" "columns_are cols ns" and dist: "distinct ns"
    and plain: "\<not> unhashable cols (fst x)"
    and xs: "dict_ok (xs @ [x])" "set (xs @ [x]) \<subseteq> set (named_arguments l)"
    and st: "refs_state ns l xs st"
  shows "\<exists>st'. named_arg_step l sch x st = Inr st' \<and> refs_state ns l (xs @ [x]) st'"
proof -
  obtain c t where x: "x = (c, t)" by (cases x)
  obtain errs ti where st': "st = (errs, ti)" by (cases st)
  obtain es ti' where step: "named_arg_step l sch (c, t) (errs, ti) = Inr (errs @ es, ti')"
    "es = [] \<longleftrightarrow> ref_valid ns l c \<and> clash_free ns l c \<and> (\<forall>i. ref_pos ns c = Some i \<longrightarrow> i \<notin> fst ` set ti)"
    "es = [] \<longrightarrow> (\<exists>i. ref_pos ns c = Some i \<and> ti' = AList.update i t ti)"
    using named_arg_step_ok [OF cols dist plain [unfolded x fst_conv], of t errs ti] by (elim exE conjE) (rule that)
  have good: "refs_good ns l (xs @ [x]) \<longleftrightarrow> refs_good ns l xs \<and> ref_valid ns l c \<and> clash_free ns l c"
    using refs_good_snoc xs x by blast
  show ?thesis
  proof (cases "errs = []")
    case False
    with st st' good step(1) x show ?thesis by (simp add: refs_state_def)
  next
    case True
    then have ti: "refs_good ns l xs" "\<And>i. map_of ti i = arg_at ns xs i" using st st' by (simp_all add: refs_state_def)
    have pos: "Some i \<notin> ref_pos ns ` fst ` set xs" if cf: "clash_free ns l c" and rp: "ref_pos ns c = Some i" for i
    proof
      assume "Some i \<in> ref_pos ns ` fst ` set xs"
      then obtain y where "y \<in> set xs" "ref_pos ns (fst y) = ref_pos ns c" using rp by auto
      moreover have "fst y \<noteq> c" using xs(1) x \<open>y \<in> set xs\<close> by auto
      moreover have "fst y \<in> fst ` set (named_arguments l)" using xs(2) \<open>y \<in> set xs\<close> by auto
      ultimately show False using cf by (auto simp: clash_free_def)
    qed
    have new: "i \<notin> fst ` set ti" if "clash_free ns l c" "ref_pos ns c = Some i" for i
    proof -
      have "arg_at ns xs i = None"
        using pos [OF that] by (auto simp: arg_at_def map_of_eq_None_iff image_image split_beta)
      then show ?thesis using ti(2) [of i] by (simp add: map_of_eq_None_iff)
    qed
    have es: "es = [] \<longleftrightarrow> ref_valid ns l c \<and> clash_free ns l c" using step(2) new by blast
    have "map_of ti' j = arg_at ns (xs @ [x]) j" if "es = []" for j
    proof -
      obtain i where i: "ref_pos ns c = Some i" "ti' = AList.update i t ti" using step(3) \<open>es = []\<close> by blast
      have "clash_free ns l c" using es \<open>es = []\<close> by blast
      from arg_at_snoc [OF i(1) pos [OF this i(1)]] show ?thesis using i(2) ti(2) x by simp
    qed
    then have "refs_state ns l (xs @ [x]) (errs @ es, ti')" using good ti(1) es True by (simp add: refs_state_def)
    with step(1) x st' show ?thesis by simp
  qed
qed

lemma refs_loop:
  assumes cols: "map_of (smap sch) (tbl (table l)) = Some cols" "columns_are cols ns" and dist: "distinct ns"
    and "list_all (\<lambda>y. \<not> unhashable cols (fst y)) ys" "dict_ok (xs @ ys)" "set (xs @ ys) \<subseteq> set (named_arguments l)" "refs_state ns l xs st"
  shows "\<exists>st'. for_res (named_arg_step l sch) ys st = Inr st' \<and> refs_state ns l (xs @ ys) st'"
  using assms(4-)
proof (induction ys arbitrary: xs st)
  case (Cons y ys)
  have xs: "dict_ok (xs @ [y])" "set (xs @ [y]) \<subseteq> set (named_arguments l)" using Cons.prems by auto
  obtain st1 where st1: "named_arg_step l sch y st = Inr st1" "refs_state ns l (xs @ [y]) st1"
    using refs_state_step [OF cols dist _ xs Cons.prems(4)] Cons.prems(1) by auto
  from Cons.IH [of "xs @ [y]" st1] Cons.prems st1 show ?case by simp
qed simp

lemma refs_good_all:
  assumes "dict_ok (named_arguments l)"
  shows "refs_good ns l (named_arguments l) = refs_ok ns l"
proof -
  let ?ks = "dkeys (named_arguments l)"
  have "(\<forall>c \<in> set ?ks. \<forall>c' \<in> set ?ks. c' \<noteq> c \<longrightarrow> ref_pos ns c' \<noteq> ref_pos ns c)"
    if "distinct (map (ref_pos ns) ?ks)"
    using that by (auto simp: distinct_map inj_on_def image_iff)
  then show ?thesis by (auto simp: refs_good_def refs_ok_def list_all_iff)
qed

text \<open>The arguments of the result, column by column.\<close>

definition resolved_args :: "string list \<Rightarrow> string \<Rightarrow> literal \<Rightarrow> trm list" where
  "resolved_args ns prefix l = arguments l @
     map (\<lambda>i. case arg_at ns (named_arguments l) (int i) of None \<Rightarrow> Variable (prefix @ nat_str i) | Some t \<Rightarrow> t)
       [length (arguments l)..<length ns]"

lemma refs_loop_raises:
  assumes cols: "map_of (smap sch) (tbl (table l)) = Some cols" "columns_are cols ns" and dist: "distinct ns"
    and xs: "dict_ok (named_arguments l)" "\<exists>c \<in> set (dkeys (named_arguments l)). unhashable cols c"
  shows "for_res (named_arg_step l sch) (named_arguments l) ([], []) = Inl TypeError"
proof -
  let ?P = "\<lambda>y. \<not> unhashable cols (fst y)"
  let ?ys = "takeWhile ?P (named_arguments l)"
  have "dropWhile ?P (named_arguments l) \<noteq> []" using xs(2) by (auto simp: dropWhile_eq_Nil_conv)
  then obtain c t zs where d: "dropWhile ?P (named_arguments l) = (c, t) # zs" by (cases "dropWhile ?P (named_arguments l)") auto
  have c: "unhashable cols c" using hd_dropWhile [of ?P "named_arguments l"] d by simp
  have s: "named_arguments l = ?ys @ (c, t) # zs" using takeWhile_dropWhile_id [of ?P "named_arguments l"] d by simp
  have "refs_state ns l [] ([], [])" by (simp add: refs_state_def refs_good_def arg_at_def)
  moreover have "list_all ?P ?ys" by (auto simp: list_all_iff dest: set_takeWhileD)
  moreover have "dict_ok ?ys" using xs(1) by (subst (asm) s) simp
  ultimately obtain st where "for_res (named_arg_step l sch) ?ys ([], []) = Inr st"
    using refs_loop [OF cols dist, of ?ys "[]" "([], [])"] set_takeWhileD by fastforce
  with named_arg_unhashable [OF cols c] show ?thesis by (subst s) (simp add: for_res_append)
qed

text \<open>
  C19. A literal with named arguments over a known datasource table without repeated column names. The
  columns of the table are plain names or are all described by dictionaries. When they are described and a
  reference is by the number of an existing column (counted from the end, too, if it is negative),
  \<open>TypeError\<close> is raised. In all other cases the references are
  resolved exactly when each names or numbers an existing column that is not given by position
  and no two mean the same column; then every argument stands at its column and the
  remaining columns get variables with the prefix; otherwise \<open>PolicyException\<close> is raised.
\<close>

theorem column_references_correct:
  assumes "literal_theory ths dflt l = Some p" "pi_schema p = Some sch" "pi_kind p = DATASOURCE_POLICY_TYPE"
    and "map_of (smap sch) (tbl (table l)) = Some cols" "columns_are cols ns" "distinct ns"
    and "named_arguments l \<noteq> []" "dict_ok (named_arguments l)"
  shows "lit_eliminate_column_references ths dflt prefix l =
    (if \<exists>c \<in> set (dkeys (named_arguments l)). unhashable cols c then Inl TypeError
     else if refs_ok ns l then Inr (l\<lparr>named_arguments := [], arguments := resolved_args ns prefix l\<rparr>)
     else Inl PolicyException)"
proof (cases "\<exists>c \<in> set (dkeys (named_arguments l)). unhashable cols c")
  case True
  with refs_loop_raises [OF assms(4-6,8) True] assms show ?thesis
    by (simp add: lit_eliminate_column_references_def schema_arity_def)
next
  case False
  then have plain: "list_all (\<lambda>y. \<not> unhashable cols (fst y)) (named_arguments l)" by (auto simp: list_all_iff)
  have "refs_state ns l [] ([], [])" by (simp add: refs_state_def refs_good_def arg_at_def)
  then obtain errs ti where st: "for_res (named_arg_step l sch) (named_arguments l) ([], []) = Inr (errs, ti)"
    "refs_state ns l (named_arguments l) (errs, ti)"
    using refs_loop [OF assms(4-6) plain, of "[]" "([], [])"] assms(8) by auto
  then have "errs = [] \<longleftrightarrow> refs_ok ns l" "errs = [] \<Longrightarrow> map_of ti = arg_at ns (named_arguments l)"
    using refs_good_all [OF assms(8), of ns] by (auto simp: refs_state_def)
  with st(1) assms False columns_are_length [OF assms(5)] show ?thesis
    by (simp add: lit_eliminate_column_references_def schema_arity_def pad_positional_def resolved_args_def)
qed

definition server_info :: policy_info where
  "server_info = \<lparr>pi_schema = Some \<lparr>smap = [(''server'', map ColStr [''id'', ''name'', ''status''])], scount = None, complete = True\<rparr>,
     pi_kind = DATASOURCE_POLICY_TYPE, pi_name = ''nova''\<rparr>"

definition server_lit :: "(colref \<times> trm) list \<Rightarrow> literal" where
  "server_lit named = \<lparr>table = create_from_tablename ''nova:server'' None True, arguments = [Variable ''i''],
     negated = False, named_arguments = named\<rparr>"

definition described_info :: policy_info where
  "described_info = server_info\<lparr>pi_schema := Some \<lparr>smap = [(''server'',
     map (\<lambda>n. ColDict \<lparr>cd_name = n, cd_type = None, cd_nullable = None\<rparr>) [''id'', ''name'', ''status''])], scount = None, complete = True\<rparr>\<rparr>"

theorem column_references_correct_witness:
  "lit_eliminate_column_references (Some [(''nova'', described_info)]) None ''x_0''
     (server_lit [(ColName ''status'', ObjectConstant (VStr ''up''))]) =
   Inr ((server_lit [])\<lparr>arguments := [Variable ''i'', Variable ''x_01'', ObjectConstant (VStr ''up'')]\<rparr>)"
  (is "?lhs = Inr ?rhs")
proof -
  let ?ths = "Some [(''nova'', described_info)]" and ?l = "server_lit [(ColName ''status'', ObjectConstant (VStr ''up''))]"
  let ?ns = "[''id'', ''name'', ''status'']"
  let ?cols = "map (\<lambda>n. ColDict \<lparr>cd_name = n, cd_type = None, cd_nullable = None\<rparr>) ?ns"
  have c: "columns_are ?cols ?ns"
    unfolding columns_are_def by (intro disjI2 exI [of _ "map (\<lambda>n. \<lparr>cd_name = n, cd_type = None, cd_nullable = None\<rparr>) ?ns"]) simp
  have h: "literal_theory ?ths None ?l = Some described_info" "pi_schema described_info = Some (the (pi_schema described_info))"
    "pi_kind described_info = DATASOURCE_POLICY_TYPE"
    "map_of (smap (the (pi_schema described_info))) (tbl (table ?l)) = Some ?cols" by code_simp+
  have "distinct ?ns" "named_arguments ?l \<noteq> []" "dict_ok (named_arguments ?l)" by code_simp+
  from column_references_correct [OF h c this, of "''x_0''"]
  have "?lhs = (if refs_ok ?ns ?l then Inr (?l\<lparr>named_arguments := [], arguments := resolved_args ?ns ''x_0'' ?l\<rparr>)
     else Inl PolicyException)" by (simp add: server_lit_def unhashable_def)
  also have "\<dots> = Inr ?rhs" by code_simp
  finally show ?thesis .
qed

section \<open>The new variables of a rule\<close>

text \<open>A literal with arguments added: named ones, or variables that start with the prefix.\<close>

definition padded :: "string \<Rightarrow> literal \<Rightarrow> literal \<Rightarrow> bool" where
  "padded pre l l' = (\<exists>ts. l' = l\<lparr>named_arguments := [], arguments := arguments l @ ts\<rparr> \<and>
     (\<forall>t \<in> set ts. t \<in> snd ` set (named_arguments l) \<or> (\<exists>v. t = Variable (pre @ v))))"

lemma values_update: "x \<in> set (AList.update k v d) \<Longrightarrow> snd x = v \<or> x \<in> set d"
  by (induction d) (auto split: if_splits)

lemma col_names_errors: "col_names cs = Inl e \<Longrightarrow> e = TypeError"
proof -
  have "for_res (\<lambda>c ns. case c of ColDict d \<Rightarrow> Inr (ns @ [ColStr (cd_name d)]) | ColStr _ \<Rightarrow> Inl TypeError) cs ns = Inl e
      \<Longrightarrow> e = TypeError" for ns
    by (induction cs arbitrary: ns) (auto simp: rbind_Inl_iff split: col.splits)
  then show "col_names cs = Inl e \<Longrightarrow> e = TypeError" by (auto simp: col_names_def split: if_splits)
qed

lemma schema_columns_errors: "schema_columns t s = Inl e \<Longrightarrow> e = TypeError"
  by (auto simp: schema_columns_def rbind_Inl_iff split: option.splits dest: col_names_errors)

lemma named_arg_step_values:
  "named_arg_step l sch (c, t) (errs, ti) = Inr (errs', ti') \<Longrightarrow> snd ` set ti' \<subseteq> insert t (snd ` set ti)"
  by (auto simp: named_arg_step_def rbind_Inr_iff split: colref.splits option.splits col.splits
      dest!: values_update)

lemma named_arg_step_errors: "named_arg_step l sch x st = Inl e \<Longrightarrow> e = TypeError"
  by (auto simp: named_arg_step_def rbind_Inl_iff column_number_def column_name_def
      split: prod.splits colref.splits option.splits col.splits dest: schema_columns_errors)

lemma named_args_values:
  "for_res (named_arg_step l sch) xs (errs, ti) = Inr (errs', ti') \<Longrightarrow> snd ` set ti' \<subseteq> snd ` set xs \<union> snd ` set ti"
proof (induction xs arbitrary: errs ti)
  case (Cons x xs)
  obtain c t where x: "x = (c, t)" by (cases x)
  from Cons.prems x obtain errs1 ti1 where st: "named_arg_step l sch (c, t) (errs, ti) = Inr (errs1, ti1)"
    "for_res (named_arg_step l sch) xs (errs1, ti1) = Inr (errs', ti')" by (auto simp: rbind_Inr_iff)
  from Cons.IH [OF st(2)] named_arg_step_values [OF st(1)] x show ?case by auto
qed simp

lemma named_args_errors: "for_res (named_arg_step l sch) xs st = Inl e \<Longrightarrow> e = TypeError"
  by (induction xs arbitrary: st) (auto simp: rbind_Inl_iff dest: named_arg_step_errors)

lemma pad_positional_padded:
  "snd ` set ti \<subseteq> snd ` set (named_arguments l) \<Longrightarrow> padded pre l (pad_positional (pre @ k) ti n l)"
proof -
  assume ti: "snd ` set ti \<subseteq> snd ` set (named_arguments l)"
  have "(case map_of ti j of None \<Rightarrow> Variable ((pre @ k) @ nat_str i) | Some t \<Rightarrow> t) \<in> snd ` set (named_arguments l) \<or>
      (\<exists>v. (case map_of ti j of None \<Rightarrow> Variable ((pre @ k) @ nat_str i) | Some t \<Rightarrow> t) = Variable (pre @ v))" for i j
    using ti map_of_SomeD [THEN imageI [of _ _ snd], of ti j] by (cases "map_of ti j") auto
  note new = this
  show ?thesis
    unfolding padded_def pad_positional_def
    by (rule exI conjI refl)+ (use new in auto)
qed

lemma lit_eliminate_padded:
  "lit_eliminate_column_references ths dflt (pre @ k) l = Inr l' \<Longrightarrow> padded pre l l'"
proof -
  assume res: "lit_eliminate_column_references ths dflt (pre @ k) l = Inr l'"
  show ?thesis
  proof (cases "named_arguments l")
    case Nil
    then have "l = l\<lparr>named_arguments := [], arguments := arguments l @ []\<rparr>" by simp
    then have "padded pre l l" unfolding padded_def by (metis empty_iff list.set(1))
    with Nil res pad_positional_padded [of "[]" l pre k] show ?thesis
      by (auto simp: lit_eliminate_column_references_def split: option.splits)
  next
    case (Cons x xs)
    then have "length (named_arguments l) > 0" by simp
    with res obtain sch errs ti n where
      "for_res (named_arg_step l sch) (named_arguments l) ([], []) = Inr (errs, ti)"
      "l' = pad_positional (pre @ k) ti n l"
      by (auto simp: lit_eliminate_column_references_def rbind_Inr_iff split: option.splits if_splits)
    with named_args_values [of l sch "named_arguments l" "[]" "[]"] pad_positional_padded [of ti l pre k n]
    show ?thesis by simp
  qed
qed

lemma lit_eliminate_errors:
  "lit_eliminate_column_references ths dflt pre l = Inl e \<Longrightarrow>
   e \<in> {IncompleteSchemaException, PolicyException, TypeError}"
  by (auto simp: lit_eliminate_column_references_def rbind_Inl_iff dest: named_args_errors
      split: option.splits if_splits)

definition elim_errors :: "exc set" where
  "elim_errors = {IncompleteSchemaException, PolicyException, TypeError}"

lemma eliminate_all_padded:
  assumes "list_all (\<lambda>(l, k). k \<noteq> None) xs" and ls: "map fst xs = ls"
  shows "case eliminate_all ths dflt pre xs of Inl e \<Rightarrow> e \<in> elim_errors | Inr ls' \<Rightarrow> list_all2 (padded pre) ls ls'"
proof -
  let ?f = "\<lambda>(l, k) acc. case k of None \<Rightarrow> Inl KeyError
     | Some i \<Rightarrow> rbind (lit_eliminate_column_references ths dflt (pre @ nat_str i) l) (\<lambda>l'. Inr (acc @ [l']))"
  have "case for_res ?f xs acc of Inl e \<Rightarrow> e \<in> elim_errors
      | Inr ls \<Rightarrow> \<exists>ls'. ls = acc @ ls' \<and> list_all2 (padded pre) (map fst xs) ls'" for acc
    using assms(1)
  proof (induction xs arbitrary: acc)
    case (Cons x xs)
    then obtain l i where x: "x = (l, Some i)" by (cases x) auto
    show ?case
    proof (cases "lit_eliminate_column_references ths dflt (pre @ nat_str i) l")
      case (Inl e)
      with x lit_eliminate_errors [OF Inl] show ?thesis by (simp add: elim_errors_def)
    next
      case (Inr l')
      have xs: "list_all (\<lambda>(l, k). k \<noteq> None) xs" using Cons.prems by simp
      from Cons.IH [OF xs, of "acc @ [l']"] Inr x lit_eliminate_padded [OF Inr] show ?thesis
        by (cases "for_res ?f xs (acc @ [l'])") auto
    qed
  qed simp
  from this [of "[]"] show ?thesis unfolding eliminate_all_def ls by (cases "for_res ?f xs []") auto
qed

lemma map_of_fold_update:
  "map_of (fold (\<lambda>(l, i). AList.update l i) xs d) l \<noteq> None \<longleftrightarrow> l \<in> fst ` set xs \<or> map_of d l \<noteq> None"
proof (induction xs arbitrary: d)
  case (Cons x xs)
  show ?case by (cases x) (auto simp: Cons.IH simp del: not_None_eq)
qed simp

lemma lit_rank_total: "l \<in> set ls \<Longrightarrow> map_of (lit_rank ls) l \<noteq> None"
proof -
  have "fst ` set (zip (sorted_by literal_lt ls) [0..<length ls]) = set ls"
    by (metis length_map length_sorted_by length_upt map_fst_zip map_nth set_map set_sorted_by)
  then show "l \<in> set ls \<Longrightarrow> map_of (lit_rank ls) l \<noteq> None"
    unfolding lit_rank_def map_of_fold_update by blast
qed

text \<open>
  C34. Eliminating column references from a rule keeps its literals and their positional
  arguments and adds to each only its named arguments and variables with a prefix that no
  variable among the positional arguments of the rule has; it raises nothing but the errors of
  the schemas (every literal has a rank).
\<close>

theorem rule_padding_fresh:
  "case rule_eliminate_column_references ths dflt r of
     Inl e \<Rightarrow> e \<in> elim_errors
   | Inr r' \<Rightarrow>
       list_all2 (padded (unused_variable_prefix r)) (heads r) (heads r') \<and>
       list_all2 (padded (unused_variable_prefix r)) (body r) (body r') \<and>
       list_all (\<lambda>v. \<not> startswith v (unused_variable_prefix r)) (rule_variable_names r)"
proof -
  let ?pre = "unused_variable_prefix r"
  let ?hs = "zip (heads r) (map Some [0..<length (heads r)])"
  let ?bs = "map (\<lambda>l. (l, map_of (lit_rank (body r)) l)) (body r)"
  have "list_all (\<lambda>(l, k). k \<noteq> None) ?hs" by (auto simp: list_all_iff dest!: set_zip_rightD)
  from eliminate_all_padded [OF this _, where ths = ths and dflt = dflt and pre = ?pre]
  have hs: "case eliminate_all ths dflt ?pre ?hs of Inl e \<Rightarrow> e \<in> elim_errors | Inr ls \<Rightarrow> list_all2 (padded ?pre) (heads r) ls"
    by simp
  have "list_all (\<lambda>(l, k). k \<noteq> None) ?bs" using lit_rank_total by (auto simp: list_all_iff)
  from eliminate_all_padded [OF this _, where ths = ths and dflt = dflt and pre = ?pre]
  have bs: "case eliminate_all ths dflt ?pre ?bs of Inl e \<Rightarrow> e \<in> elim_errors | Inr ls \<Rightarrow> list_all2 (padded ?pre) (body r) ls" by (simp add: comp_def)
  have fresh: "list_all (\<lambda>v. \<not> startswith v ?pre) (rule_variable_names r)"
    unfolding list_all_iff using unused_prefix_fresh by (auto simp: unused_variable_prefix_def)
  from hs bs fresh show ?thesis
    by (cases "eliminate_all ths dflt ?pre ?hs"; cases "eliminate_all ths dflt ?pre ?bs")
      (simp_all add: rule_eliminate_column_references_def Let_def)
qed

section \<open>Clashes of new variables\<close>

definition two_tables :: "string \<Rightarrow> col list \<Rightarrow> theories" where
  "two_tables kind cols = Some [(''t'', \<lparr>pi_schema = Some \<lparr>smap = [(''p'', [ColStr ''a'']), (''q'', cols)],
     scount = None, complete = True\<rparr>, pi_kind = kind, pi_name = ''t''\<rparr>)]"

text \<open>
  Two defects of padding. The number of a head and the rank of a body literal share one name
  space, so \<open>p() :- q()\<close> over tables of one column becomes \<open>p(x_00) :- q(x_00)\<close>, a join nobody
  wrote that also hides the unsafe head; and the prefix is fresh for positional
  arguments only, so a variable of a named argument can be captured: \<open>q(b=x_00)\<close> becomes
  \<open>q(x_00, x_00)\<close>.
\<close>

theorem padding_clashes:
  "rule_eliminate_column_references (two_tables ''nonrecursive'' [ColStr ''b'']) (Some ''t'')
     \<lparr>heads = [lit ''p'' []], body = [lit ''q'' []]\<rparr> =
   Inr \<lparr>heads = [lit ''p'' [Variable ''x_00'']], body = [lit ''q'' [Variable ''x_00'']]\<rparr> \<and>
   rule_eliminate_column_references (two_tables ''datasource'' [ColStr ''a'', ColStr ''b'']) (Some ''t'')
     \<lparr>heads = [lit ''p'' [Variable ''y'']],
      body = [(lit ''q'' [])\<lparr>named_arguments := [(ColName ''b'', Variable ''x_00'')]\<rparr>, lit ''r'' [Variable ''y'']]\<rparr> =
   Inr \<lparr>heads = [lit ''p'' [Variable ''y'']],
        body = [lit ''q'' [Variable ''x_00'', Variable ''x_00''], lit ''r'' [Variable ''y'']]\<rparr>"
  by code_simp

text \<open>
  Referring to a column by number in a table whose columns are described by dictionaries (as
  those of every datasource are) raises \<open>TypeError\<close>: \<open>column_name\<close> returns the description, which
  is then looked up in the dictionary of named arguments.
\<close>

theorem column_number_of_described_table:
  "lit_eliminate_column_references
     (two_tables ''datasource'' [ColDict \<lparr>cd_name = ''a'', cd_type = None, cd_nullable = None\<rparr>]) (Some ''t'') prefix
     ((lit ''q'' [])\<lparr>named_arguments := [(ColNum 0, t)]\<rparr>) = Inl TypeError"
  by (simp add: lit_eliminate_column_references_def two_tables_def lit_def tn_def literal_theory_def or_else_def
      DATASOURCE_POLICY_TYPE_def schema_arity_def named_arg_step_def column_name_def schema_columns_def col_names_def
      is_col_dict_def py_nth_def)

end
