(* ===== verification/Graph.thy ===== *)
theory Graph
  imports Prelude
begin

text \<open>
  \<open>utility.Graph\<close>: a directed graph with labelled edges. \<open>self.nodes\<close> maps a node to its
  depth-first-search data (or \<open>None\<close>), \<open>self.edges\<close> maps a node to the set of its
  outgoing edges (target and label), \<open>self._cycles\<close> caches the cycles found.

  The operations take any extension of the record, so that \<open>BagGraph\<close> inherits them.
  Where the Python calls a method a subclass overrides (\<open>add_node\<close> inside \<open>add_edge\<close>), the
  model takes that method as an argument. Sets of edges and dictionary keys are iterated
  in list order; the theorems hold for every such order.
\<close>

section \<open>State\<close>

record dfs_data =
  dbegin :: "nat option"
  dend :: "nat option"

definition fresh_dfs :: dfs_data where
  "fresh_dfs = \<lparr>dbegin = None, dend = None\<rparr>"

record ('n, 'l) graph =
  edges :: "('n, ('n \<times> 'l) list) dict"
  nodes :: "('n, dfs_data option) dict"
  cycles :: "'n list list option"
  counter :: nat
  target_paths :: "'n list list"

definition graph_empty :: "('n, 'l) graph" where
  "graph_empty = \<lparr>edges = [], nodes = [], cycles = None, counter = 0, target_paths = []\<rparr>"

definition edges_of :: "('n, 'l, 'z) graph_scheme \<Rightarrow> 'n \<Rightarrow> ('n \<times> 'l) list" where
  "edges_of g u = (case map_of (edges g) u of None \<Rightarrow> [] | Some es \<Rightarrow> es)"

section \<open>Insertion and deletion\<close>

definition graph_add_node :: "'n \<Rightarrow> ('n, 'l, 'z) graph_scheme \<Rightarrow> bool \<times> ('n, 'l, 'z) graph_scheme" where
  "graph_add_node v g =
     (if v \<in> set (dkeys (nodes g)) then (False, g)
      else (True, g\<lparr>nodes := AList.update v None (nodes g)\<rparr>))"

definition graph_delete_node :: "'n \<Rightarrow> ('n, 'l, 'z) graph_scheme \<Rightarrow> ('n, 'l, 'z) graph_scheme res" where
  "graph_delete_node v g =
     (if v \<in> set (dkeys (nodes g)) then
        Inr (g\<lparr>nodes := AList.delete v (nodes g), edges := AList.delete v (edges g)\<rparr>)
      else if v \<in> set (dkeys (edges g)) then Inl AssertionError
      else Inr g)"

definition graph_add_edge_with ::
    "('n \<Rightarrow> ('n, 'l, 'z) graph_scheme \<Rightarrow> ('n, 'l, 'z) graph_scheme) \<Rightarrow>
     'n \<Rightarrow> 'n \<Rightarrow> 'l \<Rightarrow> ('n, 'l, 'z) graph_scheme \<Rightarrow> ('n, 'l, 'z) graph_scheme" where
  "graph_add_edge_with add_node v1 v2 l g =
     (let g = g\<lparr>cycles := None\<rparr>;
          g = add_node v1 g;
          g = add_node v2 g
      in g\<lparr>edges := AList.update v1 (set_add (v2, l) (edges_of g v1)) (edges g)\<rparr>)"

definition graph_add_edge ::
    "'n \<Rightarrow> 'n \<Rightarrow> 'l \<Rightarrow> ('n, 'l, 'z) graph_scheme \<Rightarrow> ('n, 'l, 'z) graph_scheme" where
  "graph_add_edge = graph_add_edge_with (\<lambda>v g. snd (graph_add_node v g))"

definition graph_delete_edge ::
    "'n \<Rightarrow> 'n \<Rightarrow> 'l \<Rightarrow> ('n, 'l, 'z) graph_scheme \<Rightarrow> ('n, 'l, 'z) graph_scheme" where
  "graph_delete_edge v1 v2 l g =
     (case map_of (edges g) v1 of
        None \<Rightarrow> g
      | Some es \<Rightarrow>
          if (v2, l) \<in> set es then
            g\<lparr>edges := AList.update v1 (remove1 (v2, l) es) (edges g), cycles := None\<rparr>
          else g)"

definition graph_node_in :: "'n \<Rightarrow> ('n, 'l, 'z) graph_scheme \<Rightarrow> bool" where
  "graph_node_in v g = (v \<in> set (dkeys (nodes g)))"

definition graph_edge_in :: "'n \<Rightarrow> 'n \<Rightarrow> 'l \<Rightarrow> ('n, 'l, 'z) graph_scheme \<Rightarrow> bool" where
  "graph_edge_in v1 v2 l g = ((v2, l) \<in> set (edges_of g v1))"

definition graph_len :: "('n, 'l, 'z) graph_scheme \<Rightarrow> nat" where
  "graph_len g = length (nodes g) + sum_list (map (\<lambda>(_, es). length es) (edges g))"

definition graph_reset_nodes :: "('n, 'l, 'z) graph_scheme \<Rightarrow> ('n, 'l, 'z) graph_scheme" where
  "graph_reset_nodes g = g\<lparr>nodes := map (\<lambda>(v, _). (v, None)) (nodes g)\<rparr>"

text \<open>\<open>__or__\<close> and \<open>__ior__\<close>.\<close>

definition add_all_nodes ::
    "('n, 'l, 'y) graph_scheme \<Rightarrow> ('n, 'l, 'z) graph_scheme \<Rightarrow> ('n, 'l, 'z) graph_scheme" where
  "add_all_nodes h g = fold (\<lambda>v g. snd (graph_add_node v g)) (dkeys (nodes h)) g"

definition add_all_edges ::
    "('n, 'l, 'y) graph_scheme \<Rightarrow> ('n, 'l, 'z) graph_scheme \<Rightarrow> ('n, 'l, 'z) graph_scheme" where
  "add_all_edges h g =
     fold (\<lambda>(u, es). fold (\<lambda>(v, l). graph_add_edge u v l) es) (edges h) g"

definition graph_or :: "('n, 'l) graph \<Rightarrow> ('n, 'l) graph \<Rightarrow> ('n, 'l) graph" where
  "graph_or g h =
     add_all_edges h (add_all_edges g (add_all_nodes h (add_all_nodes g graph_empty)))"

definition graph_ior :: "('n, 'l) graph \<Rightarrow> ('n, 'l) graph \<Rightarrow> ('n, 'l) graph" where
  "graph_ior g h =
     (if graph_len h = 0 then g
      else add_all_edges h (add_all_nodes h (g\<lparr>cycles := None\<rparr>)))"

section \<open>Depth-first search\<close>

definition graph_reset_dfs_data :: "('n, 'l, 'z) graph_scheme \<Rightarrow> ('n, 'l, 'z) graph_scheme" where
  "graph_reset_dfs_data g =
     g\<lparr>nodes := map (\<lambda>(v, _). (v, Some fresh_dfs)) (nodes g), counter := 0, target_paths := []\<rparr>"

definition graph_reset :: "('n, 'l, 'z) graph_scheme \<Rightarrow> ('n, 'l, 'z) graph_scheme" where
  "graph_reset g = (graph_reset_dfs_data g)\<lparr>cycles := Some []\<rparr>"

definition next_counter :: "('n, 'l, 'z) graph_scheme \<Rightarrow> nat \<times> ('n, 'l, 'z) graph_scheme" where
  "next_counter g = (counter g, g\<lparr>counter := counter g + 1\<rparr>)"

definition set_begin :: "'n \<Rightarrow> dfs_data \<Rightarrow> ('n, 'l, 'z) graph_scheme \<Rightarrow> ('n, 'l, 'z) graph_scheme" where
  "set_begin v d g =
     (let (c, g) = next_counter g
      in g\<lparr>nodes := AList.update v (Some (d\<lparr>dbegin := Some c\<rparr>)) (nodes g)\<rparr>)"

definition set_end :: "'n \<Rightarrow> ('n, 'l, 'z) graph_scheme \<Rightarrow> ('n, 'l, 'z) graph_scheme res" where
  "set_end v g =
     (let (c, g) = next_counter g in
      case map_of (nodes g) v of
        None \<Rightarrow> Inl KeyError
      | Some None \<Rightarrow> Inl AttributeError
      | Some (Some d) \<Rightarrow>
          Inr (g\<lparr>nodes := AList.update v (Some (d\<lparr>dend := Some c\<rparr>)) (nodes g)\<rparr>))"

text \<open>
  \<open>dfs(node, target, dfs_stack)\<close>. The stack is pushed on entry and popped on exit, so it is
  passed by value. The fuel bounds the recursion depth.
\<close>

fun graph_dfs ::
    "nat \<Rightarrow> 'n option \<Rightarrow> 'n list \<Rightarrow> 'n \<Rightarrow> ('n, 'l, 'z) graph_scheme \<Rightarrow> ('n, 'l, 'z) graph_scheme res" where
  "graph_dfs 0 target stack node g = Inl OutOfFuel"
| "graph_dfs (Suc fuel) target stack node g =
     (let stack' = stack @ [node];
          g1 = (if target = Some node \<and> length stack' > 1
                then g\<lparr>target_paths := target_paths g @ [stack']\<rparr> else g)
      in case map_of (nodes g1) node of
           None \<Rightarrow> Inl KeyError
         | Some None \<Rightarrow> Inl AttributeError
         | Some (Some d) \<Rightarrow>
             if dbegin d = None then
               rbind (for_res (\<lambda>e. graph_dfs fuel target stack' (fst e))
                        (edges_of g1 node) (set_begin node d g1))
                 (set_end node)
             else Inr g1)"

declare graph_dfs.simps(2) [simp del]

definition dfs_fuel :: "('n, 'l, 'z) graph_scheme \<Rightarrow> nat" where
  "dfs_fuel g = Suc (length (nodes g))"

definition visited :: "('n, 'l, 'z) graph_scheme \<Rightarrow> 'n \<Rightarrow> bool" where
  "visited g v = (case map_of (nodes g) v of Some (Some d) \<Rightarrow> dbegin d \<noteq> None | _ \<Rightarrow> False)"

definition depth_first_search ::
    "'n list option \<Rightarrow> ('n, 'l, 'z) graph_scheme \<Rightarrow> ('n, 'l, 'z) graph_scheme res" where
  "depth_first_search roots g =
     (let g = graph_reset g;
          rs = (case roots of None \<Rightarrow> dkeys (nodes g) | Some rs \<Rightarrow> rs)
      in for_res (\<lambda>v g. if v \<in> set (dkeys (nodes g)) \<and> \<not> visited g v
                        then graph_dfs (dfs_fuel g) None [] v g else Inr g) rs g)"

section \<open>Cycles\<close>

text \<open>
  A \<open>Cycle\<close> is the frozenset of the consecutive pairs of a path, with the path kept for
  display; two cycles are equal when their pairs are.
\<close>

definition cycle_pairs :: "'n list \<Rightarrow> ('n \<times> 'n) set" where
  "cycle_pairs p = set (zip p (tl p))"

definition cycle_add :: "'n list \<Rightarrow> 'n list list \<Rightarrow> 'n list list" where
  "cycle_add p cs = (if cycle_pairs p \<in> cycle_pairs ` set cs then cs else cs @ [p])"

definition enumerate_cycles :: "('n, 'l, 'z) graph_scheme \<Rightarrow> ('n, 'l, 'z) graph_scheme res" where
  "enumerate_cycles g =
     for_res (\<lambda>v g.
         rbind (graph_dfs (dfs_fuel g) (Some v) [] v (graph_reset_dfs_data g))
           (\<lambda>g. Inr (g\<lparr>cycles := map_option (fold cycle_add (target_paths g)) (cycles g)\<rparr>)))
       (dkeys (nodes g)) (graph_reset g)"

definition has_cycle :: "('n, 'l, 'z) graph_scheme \<Rightarrow> (bool \<times> ('n, 'l, 'z) graph_scheme) res" where
  "has_cycle g =
     rbind (if cycles g = None then enumerate_cycles g else Inr g)
       (\<lambda>g. case cycles g of
              None \<Rightarrow> Inl TypeError
            | Some cs \<Rightarrow> Inr (length cs > 0, g))"

definition graph_cycles :: "('n, 'l, 'z) graph_scheme \<Rightarrow> ('n list list \<times> ('n, 'l, 'z) graph_scheme) res" where
  "graph_cycles g =
     rbind (if cycles g = None then enumerate_cycles g else Inr g)
       (\<lambda>g. case cycles g of
              None \<Rightarrow> Inl TypeError
            | Some cs \<Rightarrow> Inr (cs, g))"

section \<open>Reachability queries\<close>

definition graph_roots :: "('n, 'l, 'z) graph_scheme \<Rightarrow> 'n list" where
  "graph_roots g =
     fold (\<lambda>(u, es). fold (\<lambda>(v, l). remove1 v) es) (edges g) (dkeys (nodes g))"

definition begun :: "('n, 'l, 'z) graph_scheme \<Rightarrow> 'n list" where
  "begun g = filter (visited g) (dkeys (nodes g))"

definition dependencies ::
    "'n \<Rightarrow> ('n, 'l, 'z) graph_scheme \<Rightarrow> ('n list option \<times> ('n, 'l, 'z) graph_scheme) res" where
  "dependencies node g =
     (if node \<notin> set (dkeys (nodes g)) then Inr (None, g)
      else let g = graph_reset g in
        rbind (case map_of (nodes g) node of
                 Some (Some d) \<Rightarrow>
                   if dbegin d = None \<or> dend d = None then depth_first_search (Some [node]) g
                   else Inr g
               | _ \<Rightarrow> depth_first_search (Some [node]) g)
          (\<lambda>g. Inr (Some (begun g), g)))"

definition find_reachable_nodes ::
    "'n list \<Rightarrow> ('n, 'l, 'z) graph_scheme \<Rightarrow> ('n list \<times> ('n, 'l, 'z) graph_scheme) res" where
  "find_reachable_nodes roots g =
     (if roots = [] then Inr ([], g)
      else rbind (depth_first_search (Some roots) g)
             (\<lambda>g. Inr (begun g, graph_reset_nodes g)))"

text \<open>
  \<open>_inverted_edge_graph\<close>: the new graph shares \<open>self.nodes\<close>; its edges carry no label.
\<close>

definition inverted_edge_graph :: "('n, 'l, 'z) graph_scheme \<Rightarrow> ('n, unit) graph" where
  "inverted_edge_graph g =
     graph_empty\<lparr>nodes := nodes g,
       edges := fold (\<lambda>(u, es). fold (\<lambda>(v, l) inv.
                    AList.update v
                      (set_add (u, ()) (case map_of inv v of None \<Rightarrow> [] | Some us \<Rightarrow> us)) inv) es)
                  (edges g) []\<rparr>"

text \<open>Because the dictionary is shared, the search also resets the node data of \<open>self\<close>.\<close>

definition find_dependent_nodes ::
    "'n list \<Rightarrow> ('n, 'l, 'z) graph_scheme \<Rightarrow> ('n list \<times> ('n, 'l, 'z) graph_scheme) res" where
  "find_dependent_nodes ns g =
     rbind (find_reachable_nodes ns (inverted_edge_graph g))
       (\<lambda>(rs, h). Inr (set_union rs (remdups ns), g\<lparr>nodes := nodes h\<rparr>))"

section \<open>Stratification\<close>

text \<open>
  One pass of the \<open>while changes\<close> loop goes over all edges; \<open>None\<close> inside the result is the
  early \<open>return None\<close>. Missing dictionary entries raise \<open>KeyError\<close>.
\<close>

definition strat_edge ::
    "'l list \<Rightarrow> nat \<Rightarrow> 'n \<Rightarrow> 'n \<times> 'l \<Rightarrow> (('n, nat) dict \<times> bool) option \<Rightarrow> (('n, nat) dict \<times> bool) option res" where
  "strat_edge labels n u e st =
     (case st of
        None \<Rightarrow> Inr None
      | Some (stratum, changes) \<Rightarrow>
          (case (map_of stratum u, map_of stratum (fst e)) of
             (Some oldp, Some sv) \<Rightarrow>
               (let new = (if snd e \<in> set labels then max oldp (1 + sv) else max oldp sv)
                in if new > n then Inr None
                   else Inr (Some (AList.update u new stratum, changes \<or> oldp \<noteq> new)))
           | _ \<Rightarrow> Inl KeyError))"

definition strat_pass ::
    "'l list \<Rightarrow> ('n, 'l, 'z) graph_scheme \<Rightarrow> ('n, nat) dict \<Rightarrow> (('n, nat) dict \<times> bool) option res" where
  "strat_pass labels g stratum =
     for_res (\<lambda>(u, es). for_res (strat_edge labels (length (nodes g)) u) es)
       (edges g) (Some (stratum, False))"

fun strat_loop ::
    "nat \<Rightarrow> 'l list \<Rightarrow> ('n, 'l, 'z) graph_scheme \<Rightarrow> ('n, nat) dict \<Rightarrow> ('n, nat) dict option res" where
  "strat_loop 0 labels g stratum = Inl OutOfFuel"
| "strat_loop (Suc fuel) labels g stratum =
     rbind (strat_pass labels g stratum)
       (\<lambda>r. case r of
              None \<Rightarrow> Inr None
            | Some (stratum', changes) \<Rightarrow>
                if changes then strat_loop fuel labels g stratum' else Inr (Some stratum'))"

definition stratification ::
    "'l list \<Rightarrow> ('n, 'l, 'z) graph_scheme \<Rightarrow> ('n, nat) dict option res" where
  "stratification labels g =
     strat_loop (Suc (Suc (length (nodes g) * length (nodes g)))) labels g
       (map (\<lambda>v. (v, 1)) (dkeys (nodes g)))"

end
