(* ===== verification/Graph_Reach.thy ===== *)
theory Graph_Reach
  imports Graph
begin

text \<open>
  Correctness of the graph algorithms: depth-first search visits exactly the reachable
  nodes, records a path to its target exactly when one exists, never runs out of fuel and
  raises no exception on a well-formed graph; \<open>has_cycle\<close>, \<open>cycles\<close>, \<open>dependencies\<close>,
  \<open>find_reachable_nodes\<close> and \<open>find_dependent_nodes\<close> answer accordingly.
\<close>

section \<open>Well-formed graphs and their edge relation\<close>

definition edge_rel :: "('n, 'l, 'z) graph_scheme \<Rightarrow> ('n \<times> 'n) set" where
  "edge_rel g = {(u, v). \<exists>l. (v, l) \<in> set (edges_of g u)}"

definition node_set :: "('n, 'l, 'z) graph_scheme \<Rightarrow> 'n set" where
  "node_set g = set (dkeys (nodes g))"

definition graph_wf :: "('n, 'l, 'z) graph_scheme \<Rightarrow> bool" where
  "graph_wf g = (dict_ok (nodes g) \<and> dict_ok (edges g) \<and>
     (\<forall>(u, es) \<in> set (edges g). u \<in> node_set g \<and> distinct es \<and> fst ` set es \<subseteq> node_set g))"

lemma edges_of_mem: "es \<noteq> [] \<Longrightarrow> edges_of g u = es \<Longrightarrow> (u, es) \<in> set (edges g)"
  by (auto simp: edges_of_def split: option.splits dest: map_of_SomeD)

lemma edges_ofI: "dict_ok (edges g) \<Longrightarrow> (u, es) \<in> set (edges g) \<Longrightarrow> edges_of g u = es"
  by (simp add: edges_of_def)

lemma edge_relI: "(v, l) \<in> set (edges_of g u) \<Longrightarrow> (u, v) \<in> edge_rel g"
  by (auto simp: edge_rel_def)

lemma edge_rel_nodes:
  assumes "graph_wf g" "(u, v) \<in> edge_rel g" shows "u \<in> node_set g" "v \<in> node_set g"
proof -
  obtain l where "(v, l) \<in> set (edges_of g u)" using assms(2) by (auto simp: edge_rel_def)
  moreover from this have "(u, edges_of g u) \<in> set (edges g)" by (intro edges_of_mem) auto
  ultimately show "u \<in> node_set g" "v \<in> node_set g"
    using assms(1) by (force simp: graph_wf_def)+
qed

lemma rtrancl_nodes: "graph_wf g \<Longrightarrow> (u, v) \<in> (edge_rel g)\<^sup>* \<Longrightarrow> u \<in> node_set g \<Longrightarrow> v \<in> node_set g"
  by (metis edge_rel_nodes(2) rtranclE)

lemma finite_node_set [simp]: "finite (node_set g)"
  by (simp add: node_set_def)

lemma reach_in_closed: "S \<subseteq> X \<Longrightarrow> r `` X \<subseteq> X \<Longrightarrow> r\<^sup>* `` S \<subseteq> X"
proof
  fix y assume S: "S \<subseteq> X" and c: "r `` X \<subseteq> X" and "y \<in> r\<^sup>* `` S"
  then obtain x where "(x, y) \<in> r\<^sup>*" "x \<in> X" by blast
  then show "y \<in> X" by induction (use c in blast)+
qed

section \<open>What one search establishes\<close>

definition vis :: "('n, 'l, 'z) graph_scheme \<Rightarrow> 'n set" where
  "vis g = {v. visited g v}"

definition ready :: "('n, 'l, 'z) graph_scheme \<Rightarrow> bool" where
  "ready g = (graph_wf g \<and> (\<forall>v \<in> node_set g. \<exists>d. map_of (nodes g) v = Some (Some d)))"

text \<open>A walk along edges, as the list of its nodes.\<close>

fun walk :: "('n \<times> 'n) set \<Rightarrow> 'n list \<Rightarrow> bool" where
  "walk E [] = False"
| "walk E [x] = True"
| "walk E (x # y # xs) = ((x, y) \<in> E \<and> walk E (y # xs))"

lemma walk_rtrancl: "walk E xs \<Longrightarrow> (hd xs, last xs) \<in> E\<^sup>*"
  by (induction E xs rule: walk.induct) (auto intro: converse_rtrancl_into_rtrancl)

lemma walk_trancl: "walk E xs \<Longrightarrow> length xs > 1 \<Longrightarrow> (hd xs, last xs) \<in> E\<^sup>+"
  by (cases "(E, xs)" rule: walk.cases) (auto dest: walk_rtrancl intro: rtrancl_into_trancl2)

lemma walk_snoc: "walk E xs \<Longrightarrow> (last xs, y) \<in> E \<Longrightarrow> walk E (xs @ [y])"
  by (induction E xs rule: walk.induct) auto

text \<open>The parts of the state a search leaves alone.\<close>

definition same_graph :: "('n, 'l, 'z) graph_scheme \<Rightarrow> ('n, 'l, 'z) graph_scheme \<Rightarrow> bool" where
  "same_graph g g' = (edges g' = edges g \<and> cycles g' = cycles g \<and>
     dkeys (nodes g') = dkeys (nodes g) \<and> graph.more g' = graph.more g)"

lemma same_graph_refl [simp]: "same_graph g g"
  by (simp add: same_graph_def)

lemma same_graph_trans: "same_graph g h \<Longrightarrow> same_graph h k \<Longrightarrow> same_graph g k"
  by (simp add: same_graph_def)

lemma same_graph_simps:
  assumes "same_graph g g'"
  shows "edge_rel g' = edge_rel g" "node_set g' = node_set g" "graph_wf g' = graph_wf g"
    "edges_of g' = edges_of g" "length (nodes g') = length (nodes g)"
proof -
  have e: "edges g' = edges g" and n: "dkeys (nodes g') = dkeys (nodes g)"
    using assms by (auto simp: same_graph_def)
  show eo: "edges_of g' = edges_of g" by (simp add: edges_of_def e fun_eq_iff)
  show "edge_rel g' = edge_rel g" by (simp add: edge_rel_def eo)
  show ns: "node_set g' = node_set g" by (simp only: node_set_def n)
  show "graph_wf g' = graph_wf g" by (simp only: graph_wf_def e n ns)
  show "length (nodes g') = length (nodes g)" using n by (metis length_map)
qed

text \<open>
  \<open>dfs_done t ns stack g g'\<close>: from \<open>g\<close>, searching the nodes \<open>ns\<close> in turn for target \<open>t\<close>
  below the stack \<open>stack\<close> may lead to \<open>g'\<close>: only nodes reachable from \<open>ns\<close> are added, every
  added node is fully explored, and a path is recorded exactly when the target is met.
\<close>

definition new_hits :: "'n option \<Rightarrow> 'n list \<Rightarrow> 'n list \<Rightarrow> ('n, 'l, 'z) graph_scheme \<Rightarrow> ('n, 'l, 'z) graph_scheme \<Rightarrow> bool" where
  "new_hits t ns stack g g' =
     (\<exists>x. t = Some x \<and> ((\<exists>u \<in> vis g' - vis g. (u, x) \<in> edge_rel g) \<or> (x \<in> set ns \<and> stack \<noteq> [])))"

definition dfs_done :: "'n option \<Rightarrow> 'n list \<Rightarrow> 'n list \<Rightarrow> ('n, 'l, 'z) graph_scheme \<Rightarrow> ('n, 'l, 'z) graph_scheme \<Rightarrow> bool" where
  "dfs_done t ns stack g g' =
     (same_graph g g' \<and> ready g' \<and> vis g \<subseteq> vis g' \<and> set ns \<subseteq> vis g' \<and>
      vis g' \<subseteq> vis g \<union> (edge_rel g)\<^sup>* `` set ns \<and>
      (\<forall>u \<in> vis g' - vis g. edge_rel g `` {u} \<subseteq> vis g') \<and>
      (\<exists>ps. target_paths g' = target_paths g @ ps \<and>
         (\<forall>p \<in> set ps. \<exists>q. p = stack @ q \<and> q \<noteq> [] \<and> hd q \<in> set ns \<and> t = Some (last q) \<and>
                          walk (edge_rel g) q \<and> length p > 1) \<and>
         (new_hits t ns stack g g' \<longrightarrow> ps \<noteq> [])))"

lemma dfs_done_Nil: "ready g \<Longrightarrow> dfs_done t [] stack g g"
  by (simp add: dfs_done_def new_hits_def)

lemma dfs_done_seq:
  assumes 1: "dfs_done t ns stack g h" and 2: "dfs_done t ms stack h k"
  shows "dfs_done t (ns @ ms) stack g k"
proof -
  have s1: "same_graph g h" and s2: "same_graph h k" using 1 2 by (auto simp: dfs_done_def)
  note e = same_graph_simps(1) [OF s1]
  obtain ps where ps: "target_paths h = target_paths g @ ps"
      "\<forall>p \<in> set ps. \<exists>q. p = stack @ q \<and> q \<noteq> [] \<and> hd q \<in> set ns \<and> t = Some (last q) \<and>
                          walk (edge_rel g) q \<and> length p > 1"
      "new_hits t ns stack g h \<longrightarrow> ps \<noteq> []" using 1 by (auto simp: dfs_done_def)
  obtain qs where qs: "target_paths k = target_paths h @ qs"
      "\<forall>p \<in> set qs. \<exists>q. p = stack @ q \<and> q \<noteq> [] \<and> hd q \<in> set ms \<and> t = Some (last q) \<and>
                          walk (edge_rel g) q \<and> length p > 1"
      "new_hits t ms stack h k \<longrightarrow> qs \<noteq> []" using 2 e by (auto simp: dfs_done_def)
  have "new_hits t (ns @ ms) stack g k \<longrightarrow> new_hits t ns stack g h \<or> new_hits t ms stack h k"
    by (simp add: new_hits_def e) blast
  then have "new_hits t (ns @ ms) stack g k \<longrightarrow> ps @ qs \<noteq> []" using ps(3) qs(3) by auto
  moreover have "\<forall>p \<in> set (ps @ qs). \<exists>q. p = stack @ q \<and> q \<noteq> [] \<and> hd q \<in> set (ns @ ms) \<and>
        t = Some (last q) \<and> walk (edge_rel g) q \<and> length p > 1"
    using ps(2) qs(2) by (fastforce simp: ball_Un)
  ultimately have paths: "\<exists>rs. target_paths k = target_paths g @ rs \<and>
         (\<forall>p \<in> set rs. \<exists>q. p = stack @ q \<and> q \<noteq> [] \<and> hd q \<in> set (ns @ ms) \<and> t = Some (last q) \<and>
                          walk (edge_rel g) q \<and> length p > 1) \<and>
         (new_hits t (ns @ ms) stack g k \<longrightarrow> rs \<noteq> [])"
    using ps(1) qs(1) by (intro exI [of _ "ps @ qs"]) simp
  have v1: "vis g \<subseteq> vis h" "set ns \<subseteq> vis h" "\<forall>u \<in> vis h - vis g. edge_rel g `` {u} \<subseteq> vis h"
      "vis h \<subseteq> vis g \<union> (edge_rel g)\<^sup>* `` set ns"
    and v2: "vis h \<subseteq> vis k" "set ms \<subseteq> vis k" "\<forall>u \<in> vis k - vis h. edge_rel g `` {u} \<subseteq> vis k"
      "vis k \<subseteq> vis h \<union> (edge_rel g)\<^sup>* `` set ms"
    using 1 2 by (simp_all add: dfs_done_def e)
  have "u \<in> vis k - vis g \<Longrightarrow> edge_rel g `` {u} \<subseteq> vis k" for u
    using v1(3) v2(1,3) by (cases "u \<in> vis h") blast+
  then have v: "vis g \<subseteq> vis k" "set (ns @ ms) \<subseteq> vis k" "\<forall>u \<in> vis k - vis g. edge_rel g `` {u} \<subseteq> vis k"
    using v1(1,2) v2(1,2) by auto
  have "vis k \<subseteq> vis g \<union> (edge_rel g)\<^sup>* `` set (ns @ ms)"
    using v1(4) v2(4) by (simp add: Image_Un) blast
  then show ?thesis
    using v paths 2 same_graph_trans [OF s1 s2] unfolding dfs_done_def by blast
qed

section \<open>The search terminates and establishes it\<close>

lemma cycles_frame [simp]:
  "node_set (g\<lparr>cycles := c\<rparr>) = node_set g" "edge_rel (g\<lparr>cycles := c\<rparr>) = edge_rel g"
  "vis (g\<lparr>cycles := c\<rparr>) = vis g" "ready (g\<lparr>cycles := c\<rparr>) = ready g"
  "graph_wf (g\<lparr>cycles := c\<rparr>) = graph_wf g"
  by (simp_all add: node_set_def edge_rel_def edges_of_def vis_def visited_def ready_def graph_wf_def)

lemma same_graph_update:
  "v \<in> node_set g \<Longrightarrow> same_graph g (g\<lparr>counter := c, nodes := AList.update v x (nodes g)\<rparr>)"
  by (simp add: same_graph_def keys_update node_set_def)

lemma same_graph_paths [simp]: "same_graph g (g\<lparr>target_paths := ps\<rparr>)"
  by (simp add: same_graph_def)

lemma vis_paths [simp]: "vis (g\<lparr>target_paths := ps\<rparr>) = vis g"
  by (simp add: vis_def visited_def)

lemma ready_paths [simp]: "ready (g\<lparr>target_paths := ps\<rparr>) = ready g"
  by (simp add: ready_def graph_wf_def node_set_def)

lemma ready_update:
  assumes "ready g" "v \<in> node_set g"
  shows "ready (g\<lparr>counter := c, nodes := AList.update v (Some d) (nodes g)\<rparr>)"
  using assms same_graph_simps [OF same_graph_update [OF assms(2), where x = "Some d" and c = c]]
  by (auto simp: ready_def)

lemma vis_update:
  "vis (g\<lparr>counter := c, nodes := AList.update v (Some d) (nodes g)\<rparr>) =
     (if dbegin d = None then vis g - {v} else insert v (vis g))"
  by (auto simp: vis_def visited_def split: if_splits)

lemma set_begin_props:
  assumes "ready g" "v \<in> node_set g"
  shows "same_graph g (set_begin v d g)" "ready (set_begin v d g)"
    "vis (set_begin v d g) = insert v (vis g)" "target_paths (set_begin v d g) = target_paths g"
  using same_graph_update [OF assms(2)] ready_update [OF assms] vis_update [where v = v and g = g]
  by (simp_all add: set_begin_def next_counter_def)

lemma set_end_props:
  assumes "ready g" "v \<in> vis g" "v \<in> node_set g"
  shows "\<exists>g'. set_end v g = Inr g' \<and> same_graph g g' \<and> ready g' \<and> vis g' = vis g \<and>
           target_paths g' = target_paths g"
proof -
  obtain d where d: "map_of (nodes g) v = Some (Some d)" using assms(1,3) by (auto simp: ready_def)
  then have "dbegin d \<noteq> None" using assms(2) by (simp add: vis_def visited_def)
  then show ?thesis
    using d same_graph_update [OF assms(3)] ready_update [OF assms(1,3)] vis_update [where v = v and g = g] assms(2)
    by (auto simp: set_end_def next_counter_def insert_absorb)
qed

lemma dfs_loop:
  fixes g :: "('n, 'l, 'z) graph_scheme"
  assumes step: "\<And>n (h :: ('n, 'l, 'z) graph_scheme). ready h \<Longrightarrow> n \<in> node_set h \<Longrightarrow> card (node_set h - vis h) < fuel \<Longrightarrow>
      \<exists>h'. graph_dfs fuel t stack n h = Inr h' \<and> dfs_done t [n] stack h h'"
    and "ready g" "fst ` set es \<subseteq> node_set g" "card (node_set g - vis g) < fuel"
  shows "\<exists>g'. for_res (\<lambda>e. graph_dfs fuel t stack (fst e)) es g = Inr g' \<and>
              dfs_done t (map fst es) stack g g'"
  using assms(2-)
proof (induction es arbitrary: g)
  case Nil
  then show ?case by (simp add: dfs_done_Nil)
next
  case (Cons e es)
  obtain h where h: "graph_dfs fuel t stack (fst e) g = Inr h" and d: "dfs_done t [fst e] stack g h"
    using step [where h = g and n = "fst e"] Cons.prems by auto
  have s: "same_graph g h" and r: "ready h" and v: "vis g \<subseteq> vis h" using d by (auto simp: dfs_done_def)
  have "card (node_set h - vis h) \<le> card (node_set g - vis g)"
    using v same_graph_simps(2) [OF s] by (intro card_mono) auto
  then obtain k where "for_res (\<lambda>e. graph_dfs fuel t stack (fst e)) es h = Inr k"
      "dfs_done t (map fst es) stack h k"
    using Cons.IH [OF r] Cons.prems same_graph_simps(2) [OF s] by auto
  with h dfs_done_seq [OF d, of "map fst es" k] show ?case by auto
qed

lemma dfs_done_visited:
  assumes "ready g" "v \<in> vis g"
    and g': "g' = (if t = Some v \<and> stack \<noteq> [] then g\<lparr>target_paths := target_paths g @ [stack @ [v]]\<rparr> else g)"
  shows "dfs_done t [v] stack g g'"
proof -
  let ?ps = "if t = Some v \<and> stack \<noteq> [] then [stack @ [v]] else []"
  have ps: "target_paths g' = target_paths g @ ?ps" by (simp add: g')
  have fr: "same_graph g g'" "vis g' = vis g" "ready g'" using assms by (auto simp: g')
  show ?thesis unfolding dfs_done_def ps
    using fr assms(2) by (auto simp: new_hits_def intro!: exI [of _ ?ps])
qed

lemma dfs_done_node:
  assumes r: "ready g" and v: "v \<in> node_set g" and new: "v \<notin> vis g"
    and s2: "same_graph g g2" and v2: "vis g2 = insert v (vis g)"
    and p2: "target_paths g2 = target_paths g @ (if t = Some v \<and> stack \<noteq> [] then [stack @ [v]] else [])"
    and es: "es = edges_of g v"
    and d: "dfs_done t (map fst es) (stack @ [v]) g2 g3"
    and s4: "same_graph g3 g4" "ready g4" "vis g4 = vis g3" "target_paths g4 = target_paths g3"
  shows "dfs_done t [v] stack g g4"
proof -
  note e = same_graph_simps(1) [OF s2]
  let ?E = "edge_rel g"
  have succ: "fst ` set es = ?E `` {v}" by (force simp: es edge_rel_def)
  obtain ps where ps: "target_paths g3 = target_paths g2 @ ps"
      "\<forall>p \<in> set ps. \<exists>q. p = (stack @ [v]) @ q \<and> q \<noteq> [] \<and> hd q \<in> set (map fst es) \<and> t = Some (last q) \<and>
                          walk ?E q \<and> length p > 1"
      "new_hits t (map fst es) (stack @ [v]) g2 g3 \<longrightarrow> ps \<noteq> []"
    using d e by (auto simp: dfs_done_def)
  let ?p0 = "if t = Some v \<and> stack \<noteq> [] then [stack @ [v]] else []"
  have paths: "\<exists>q. p = stack @ q \<and> q \<noteq> [] \<and> hd q \<in> set [v] \<and> t = Some (last q) \<and>
                   walk ?E q \<and> length p > 1" if "p \<in> set (?p0 @ ps)" for p
  proof (cases "p \<in> set ps")
    case True
    then obtain q where q: "p = stack @ v # q" "q \<noteq> []" "hd q \<in> fst ` set es" "t = Some (last q)" "walk ?E q"
      using ps(2) by force
    then have "walk ?E (v # q)" using succ by (cases q) auto
    with q show ?thesis by (intro exI [of _ "v # q"]) auto
  next
    case False
    with that show ?thesis by (intro exI [of _ "[v]"]) (auto split: if_splits)
  qed
  have hits: "?p0 @ ps \<noteq> []" if nh: "new_hits t [v] stack g g4"
  proof -
    obtain x where x: "t = Some x" and
      "(\<exists>u \<in> vis g4 - vis g. (u, x) \<in> ?E) \<or> (x = v \<and> stack \<noteq> [])" using nh by (auto simp: new_hits_def)
    then consider "x = v" "stack \<noteq> []" | u where "u \<in> vis g4 - vis g" "(u, x) \<in> ?E" by blast
    then show ?thesis
    proof cases
      case 1
      with x show ?thesis by simp
    next
      case (2 u)
      have "new_hits t (map fst es) (stack @ [v]) g2 g3"
      proof (cases "u = v")
        case True
        then have "x \<in> fst ` set es" using 2 succ by auto
        with x show ?thesis by (auto simp: new_hits_def)
      next
        case False
        with 2 x show ?thesis by (auto simp: new_hits_def e s4 v2)
      qed
      with ps(3) show ?thesis by simp
    qed
  qed
  have P: "\<exists>rs. target_paths g4 = target_paths g @ rs \<and>
       (\<forall>p \<in> set rs. \<exists>q. p = stack @ q \<and> q \<noteq> [] \<and> hd q \<in> set [v] \<and> t = Some (last q) \<and>
                        walk ?E q \<and> length p > 1) \<and> (new_hits t [v] stack g g4 \<longrightarrow> rs \<noteq> [])"
    using paths hits ps(1) p2 s4 by (intro exI [of _ "?p0 @ ps"]) auto
  have V: "vis g \<subseteq> vis g4" "v \<in> vis g4" using d v2 s4 by (auto simp: dfs_done_def)
  have "vis g3 \<subseteq> insert v (vis g) \<union> ?E\<^sup>* `` (?E `` {v})"
    using d succ by (simp add: dfs_done_def v2 e)
  then have R: "vis g4 \<subseteq> vis g \<union> ?E\<^sup>* `` {v}"
    using s4 by (auto intro: converse_rtrancl_into_rtrancl)
  have "?E `` {v} \<subseteq> vis g3" using d succ by (simp add: dfs_done_def)
  then have C: "\<forall>u \<in> vis g4 - vis g. ?E `` {u} \<subseteq> vis g4"
    using d s4 by (auto simp: dfs_done_def v2 e)
  have "same_graph g2 g3" using d by (simp add: dfs_done_def)
  then have S: "same_graph g g4" using s2 s4(1) same_graph_trans by blast
  show ?thesis unfolding dfs_done_def using P V R C S s4(2) by simp
qed

lemma graph_dfs_done:
  "ready g \<Longrightarrow> v \<in> node_set g \<Longrightarrow> card (node_set g - vis g) < fuel \<Longrightarrow>
   \<exists>g'. graph_dfs fuel t stack v g = Inr g' \<and> dfs_done t [v] stack g g'"
proof (induction fuel arbitrary: v stack g)
  case (Suc fuel)
  let ?st = "stack @ [v]"
  define g1 where "g1 = (if t = Some v \<and> length ?st > 1 then g\<lparr>target_paths := target_paths g @ [?st]\<rparr> else g)"
  have unf: "graph_dfs (Suc fuel) t stack v g =
      (case map_of (nodes g1) v of
           None \<Rightarrow> Inl KeyError
         | Some None \<Rightarrow> Inl AttributeError
         | Some (Some d) \<Rightarrow>
             if dbegin d = None then
               rbind (for_res (\<lambda>e. graph_dfs fuel t ?st (fst e)) (edges_of g1 v) (set_begin v d g1)) (set_end v)
             else Inr g1)"
    by (simp only: graph_dfs.simps Let_def g1_def)
  obtain d where d: "map_of (nodes g) v = Some (Some d)" using Suc.prems by (auto simp: ready_def)
  have d1: "map_of (nodes g1) v = Some (Some d)" using d by (simp add: g1_def)
  have r1: "ready g1" and v1: "v \<in> node_set g1" using Suc.prems by (auto simp: node_set_def g1_def)
  have sg: "same_graph g g1" and vg: "vis g1 = vis g" by (simp_all add: g1_def)
  show ?case
  proof (cases "dbegin d = None")
    case False
    then have "v \<in> vis g" using d by (simp add: vis_def visited_def)
    then have "dfs_done t [v] stack g g1" using Suc.prems(1) by (intro dfs_done_visited) (auto simp: g1_def)
    with False d1 show ?thesis by (auto simp: unf)
  next
    case True
    then have new: "v \<notin> vis g" using d by (simp add: vis_def visited_def)
    let ?g2 = "set_begin v d g1" and ?es = "edges_of g1 v"
    note b = set_begin_props [OF r1 v1, of d]
    have es: "?es = edges_of g v" using same_graph_simps(4) [OF sg] by simp
    have s2: "same_graph g ?g2" using b(1) sg same_graph_trans by blast
    have v2: "vis ?g2 = insert v (vis g)" using b(3) vg by simp
    have sub: "fst ` set ?es \<subseteq> node_set ?g2"
      using Suc.prems(1) edge_rel_nodes(2) [of g v] same_graph_simps(2) [OF s2]
      by (force simp: es ready_def intro: edge_relI)
    have "node_set ?g2 - vis ?g2 = (node_set g - vis g) - {v}"
      using v2 same_graph_simps(2) [OF s2] by auto
    moreover have "v \<in> node_set g - vis g" using Suc.prems(2) new by simp
    ultimately have "card (node_set ?g2 - vis ?g2) < card (node_set g - vis g)"
      by (metis card_Diff1_less finite_Diff finite_node_set)
    then have "card (node_set ?g2 - vis ?g2) < fuel" using Suc.prems(3) by simp
    then obtain g3 where g3: "for_res (\<lambda>e. graph_dfs fuel t ?st (fst e)) ?es ?g2 = Inr g3"
        and done3: "dfs_done t (map fst ?es) ?st ?g2 g3"
      using dfs_loop [of fuel t ?st, OF Suc.IH b(2) sub] by blast
    have "ready g3" "v \<in> vis g3" "v \<in> node_set g3"
      using done3 v2 Suc.prems(2) same_graph_simps(2) [OF s2]
        same_graph_simps(2) [of ?g2 g3] by (auto simp: dfs_done_def)
    from set_end_props [OF this] obtain g4 where g4: "set_end v g3 = Inr g4" "same_graph g3 g4" "ready g4"
        "vis g4 = vis g3" "target_paths g4 = target_paths g3" by auto
    have "graph_dfs (Suc fuel) t stack v g = Inr g4"
      using True d1 g3 g4(1) by (simp add: unf)
    moreover have "dfs_done t [v] stack g g4"
      by (rule dfs_done_node [OF Suc.prems(1,2) new s2 v2 _ es done3 g4(2-5)]) (simp only: b(4), simp add: g1_def)
    ultimately show ?thesis by blast
  qed
qed simp

section \<open>Searches from a fresh state\<close>

lemma keys_reset [simp]: "dkeys (nodes (graph_reset_dfs_data g)) = dkeys (nodes g)"
  by (simp add: graph_reset_dfs_data_def comp_def split_def)

lemma edges_reset [simp]: "edges (graph_reset_dfs_data g) = edges g"
  by (simp add: graph_reset_dfs_data_def)

lemma wf_keys_edges:
  "dkeys (nodes g') = dkeys (nodes g) \<Longrightarrow> edges g' = edges g \<Longrightarrow> graph_wf g' = graph_wf g"
  by (simp only: graph_wf_def node_set_def)

lemma rel_edges: "edges g' = edges g \<Longrightarrow> edge_rel g' = edge_rel g"
  by (simp add: edge_rel_def edges_of_def)

lemma nodes_keys: "dkeys (nodes g') = dkeys (nodes g) \<Longrightarrow> node_set g' = node_set g"
  by (simp only: node_set_def)

lemma map_of_reset:
  "v \<in> set (dkeys d) \<Longrightarrow> map_of (map (\<lambda>(v, _). (v, x)) d) v = Some x"
  by (induction d) auto

lemma ready_reset:
  assumes "graph_wf g"
  shows "ready (graph_reset_dfs_data g)" "vis (graph_reset_dfs_data g) = {}"
    "target_paths (graph_reset_dfs_data g) = []" "node_set (graph_reset_dfs_data g) = node_set g"
    "edge_rel (graph_reset_dfs_data g) = edge_rel g"
proof -
  let ?r = "graph_reset_dfs_data g"
  have ns: "node_set ?r = node_set g" by (rule nodes_keys) (rule keys_reset)
  have get: "map_of (nodes ?r) v = (if v \<in> node_set g then Some (Some fresh_dfs) else None)" for v
  proof (cases "v \<in> node_set g")
    case True
    then show ?thesis by (simp add: graph_reset_dfs_data_def map_of_reset node_set_def del: list.set_map)
  next
    case False
    then have "v \<notin> node_set ?r" unfolding ns .
    then have "v \<notin> fst ` set (nodes ?r)" by (simp only: node_set_def set_map simp_thms)
    with False show ?thesis by (simp add: map_of_None_keys)
  qed
  show "ready ?r" using assms get ns wf_keys_edges [OF keys_reset edges_reset, of g] by (simp add: ready_def)
  show "vis ?r = {}" by (auto simp: vis_def visited_def get fresh_dfs_def split: if_splits)
  show "target_paths ?r = []" by (simp add: graph_reset_dfs_data_def)
  show "node_set ?r = node_set g" by (rule ns)
  show "edge_rel ?r = edge_rel g" by (rule rel_edges) simp
qed

lemma length_nodes: "graph_wf g \<Longrightarrow> length (nodes g) = card (node_set g)"
  by (metis distinct_card graph_wf_def length_map node_set_def)

lemma fuel_enough: "graph_wf g \<Longrightarrow> card (node_set g - vis g) < dfs_fuel g"
  by (simp add: dfs_fuel_def length_nodes card_mono less_Suc_eq_le)

lemma closed_visits_reachable:
  assumes "vis g = {}" "dfs_done t ns stack g g'" "set ns \<subseteq> node_set g"
  shows "vis g' = (edge_rel g)\<^sup>* `` set ns"
proof
  have c: "\<forall>u \<in> vis g'. edge_rel g `` {u} \<subseteq> vis g'" and i: "set ns \<subseteq> vis g'"
    and u: "vis g' \<subseteq> (edge_rel g)\<^sup>* `` set ns"
    using assms by (auto simp: dfs_done_def)
  show "vis g' \<subseteq> (edge_rel g)\<^sup>* `` set ns" by (rule u)
  show "(edge_rel g)\<^sup>* `` set ns \<subseteq> vis g'"
  proof (rule reach_in_closed)
    show "set ns \<subseteq> vis g'" by (rule i)
    show "edge_rel g `` vis g' \<subseteq> vis g'" using c by blast
  qed
qed

text \<open>A search for its own start node records a path exactly when the node lies on a cycle.\<close>

lemma self_search:
  assumes wf: "graph_wf g" and v: "v \<in> node_set g"
  shows "\<exists>g'. graph_dfs (dfs_fuel g) (Some v) [] v (graph_reset_dfs_data g) = Inr g' \<and>
     same_graph (graph_reset_dfs_data g) g' \<and>
     (target_paths g' \<noteq> [] \<longleftrightarrow> (v, v) \<in> (edge_rel g)\<^sup>+) \<and>
     (\<forall>p \<in> set (target_paths g'). hd p = v \<and> last p = v \<and> walk (edge_rel g) p \<and> length p > 1)"
proof -
  let ?r = "graph_reset_dfs_data g"
  note r = ready_reset [OF wf]
  have "dfs_fuel ?r = dfs_fuel g" by (simp add: dfs_fuel_def graph_reset_dfs_data_def)
  moreover have "graph_wf ?r" using r(1) by (simp add: ready_def)
  ultimately have "card (node_set ?r - vis ?r) < dfs_fuel g" using fuel_enough [of ?r] by simp
  then obtain g' where g': "graph_dfs (dfs_fuel g) (Some v) [] v ?r = Inr g'" "dfs_done (Some v) [v] [] ?r g'"
    using graph_dfs_done [OF r(1)] v r(4) by blast
  then obtain ps where ps: "target_paths g' = ps"
      "\<forall>p \<in> set ps. p \<noteq> [] \<and> hd p = v \<and> v = last p \<and> walk (edge_rel g) p \<and> length p > 1"
      "new_hits (Some v) [v] [] ?r g' \<longrightarrow> ps \<noteq> []"
    using r(3,5) by (auto simp: dfs_done_def)
  have "vis g' = (edge_rel g)\<^sup>* `` {v}"
    using closed_visits_reachable [OF r(2) g'(2)] v r(4,5) by simp
  then have "(v, v) \<in> (edge_rel g)\<^sup>+ \<Longrightarrow> ps \<noteq> []"
    using ps(3) r(2,5) by (auto simp: new_hits_def dest!: tranclD2)
  moreover have "ps \<noteq> [] \<Longrightarrow> (v, v) \<in> (edge_rel g)\<^sup>+"
    using ps(2) walk_trancl [of "edge_rel g" "hd ps"] by (cases ps) fastforce+
  moreover have "same_graph ?r g'" using g'(2) by (simp add: dfs_done_def)
  ultimately show ?thesis using g'(1) ps by auto
qed

section \<open>Cycle detection\<close>

text \<open>
  \<open>enumerate_cycles\<close>: the cycle list is nonempty exactly when some node reaches itself, and
  each listed cycle is a closed walk of the graph.
\<close>

definition real_cycles :: "('n \<times> 'n) set \<Rightarrow> 'n list list \<Rightarrow> bool" where
  "real_cycles E cs = (\<forall>p \<in> set cs. hd p = last p \<and> walk E p \<and> length p > 1)"

lemma fold_cycle_add_subset: "set (fold cycle_add ps cs) \<subseteq> set cs \<union> set ps"
proof (induction ps arbitrary: cs)
  case (Cons p ps)
  have "set (cycle_add p cs) \<subseteq> insert p (set cs)" by (auto simp: cycle_add_def)
  with Cons.IH [of "cycle_add p cs"] show ?case by auto
qed simp

lemma fold_cycle_add_Nil: "fold cycle_add ps cs = [] \<longleftrightarrow> cs = [] \<and> ps = []"
  by (induction ps arbitrary: cs) (auto simp: cycle_add_def)

definition enum_step :: "'n \<Rightarrow> ('n, 'l, 'z) graph_scheme \<Rightarrow> ('n, 'l, 'z) graph_scheme res" where
  "enum_step v g = rbind (graph_dfs (dfs_fuel g) (Some v) [] v (graph_reset_dfs_data g))
           (\<lambda>g. Inr (g\<lparr>cycles := map_option (fold cycle_add (target_paths g)) (cycles g)\<rparr>))"

lemma enum_loop:
  assumes "graph_wf g" "set vs \<subseteq> node_set g" "cycles g = Some cs" "real_cycles (edge_rel g) cs"
  shows "\<exists>g' cs'. for_res enum_step vs g = Inr g' \<and> cycles g' = Some cs' \<and> edges g' = edges g \<and>
           dkeys (nodes g') = dkeys (nodes g) \<and> graph.more g' = graph.more g \<and>
           real_cycles (edge_rel g) cs' \<and>
           (cs' = [] \<longleftrightarrow> cs = [] \<and> (\<forall>v \<in> set vs. (v, v) \<notin> (edge_rel g)\<^sup>+))"
  using assms
proof (induction vs arbitrary: g cs)
  case (Cons v vs)
  let ?E = "edge_rel g"
  obtain h where h: "graph_dfs (dfs_fuel g) (Some v) [] v (graph_reset_dfs_data g) = Inr h"
      "same_graph (graph_reset_dfs_data g) h" "target_paths h \<noteq> [] \<longleftrightarrow> (v, v) \<in> ?E\<^sup>+"
      "\<forall>p \<in> set (target_paths h). hd p = v \<and> last p = v \<and> walk ?E p \<and> length p > 1"
    using self_search [OF Cons.prems(1), of v] Cons.prems(2) by auto
  let ?cs = "fold cycle_add (target_paths h) cs"
  let ?h = "h\<lparr>cycles := Some ?cs\<rparr>"
  have frame: "edges ?h = edges g" "dkeys (nodes ?h) = dkeys (nodes g)" "graph.more ?h = graph.more g"
      "cycles h = Some cs"
    using h(2) Cons.prems(3) by (simp_all add: same_graph_def graph_reset_dfs_data_def comp_def split_def)
  note E = rel_edges [OF frame(1)]
  have rc: "real_cycles ?E ?cs"
    using fold_cycle_add_subset [of "target_paths h" cs] h(4) Cons.prems(4)
    by (auto simp: real_cycles_def subset_iff)
  have step: "enum_step v g = Inr ?h" using h(1) frame(4) by (simp add: enum_step_def)
  have "graph_wf ?h" "set vs \<subseteq> node_set ?h"
    using wf_keys_edges [OF frame(2,1)] nodes_keys [OF frame(2)] Cons.prems(1,2) by auto
  then obtain k cs' where k: "for_res enum_step vs ?h = Inr k" "cycles k = Some cs'" "edges k = edges g"
      "dkeys (nodes k) = dkeys (nodes g)" "graph.more k = graph.more g" "real_cycles ?E cs'"
      "cs' = [] \<longleftrightarrow> ?cs = [] \<and> (\<forall>v \<in> set vs. (v, v) \<notin> ?E\<^sup>+)"
    using Cons.IH [of ?h ?cs] rc frame E by auto
  have "cs' = [] \<longleftrightarrow> cs = [] \<and> (\<forall>u \<in> set (v # vs). (u, u) \<notin> ?E\<^sup>+)"
    using k(7) h(3) by (auto simp: fold_cycle_add_Nil)
  with k step show ?case by (intro exI [of _ k] exI [of _ cs']) simp
qed auto

lemma enumerate_cycles_ok:
  assumes wf: "graph_wf g"
  shows "\<exists>g' cs. enumerate_cycles g = Inr g' \<and> cycles g' = Some cs \<and> edges g' = edges g \<and>
           dkeys (nodes g') = dkeys (nodes g) \<and> graph.more g' = graph.more g \<and>
           real_cycles (edge_rel g) cs \<and> (cs \<noteq> [] \<longleftrightarrow> (\<exists>v. (v, v) \<in> (edge_rel g)\<^sup>+))"
proof -
  let ?r = "graph_reset g"
  have fr: "edges ?r = edges g" "dkeys (nodes ?r) = dkeys (nodes g)" "graph.more ?r = graph.more g"
    "cycles ?r = Some []"
    by (simp_all add: graph_reset_def graph_reset_dfs_data_def comp_def split_def)
  have "enumerate_cycles g = for_res enum_step (dkeys (nodes g)) ?r"
    by (simp add: enumerate_cycles_def enum_step_def [abs_def])
  moreover have "(v, v) \<in> (edge_rel g)\<^sup>+ \<Longrightarrow> v \<in> set (dkeys (nodes g))" for v
    using edge_rel_nodes(2) [OF wf] by (auto simp: node_set_def dest!: tranclD2)
  ultimately show ?thesis
    using enum_loop [of ?r "dkeys (nodes g)" "[]"] wf fr rel_edges [OF fr(1)] wf_keys_edges [OF fr(2,1)]
    by (fastforce simp: real_cycles_def node_set_def)
qed

text \<open>The cache holds what an enumeration would find.\<close>

definition cache_ok :: "('n, 'l, 'z) graph_scheme \<Rightarrow> bool" where
  "cache_ok g = (\<forall>cs. cycles g = Some cs \<longrightarrow>
     real_cycles (edge_rel g) cs \<and> (cs \<noteq> [] \<longleftrightarrow> (\<exists>v. (v, v) \<in> (edge_rel g)\<^sup>+)))"

lemma graph_cycles_ok:
  assumes "graph_wf g" "cache_ok g"
  shows "\<exists>cs g'. graph_cycles g = Inr (cs, g') \<and> has_cycle g = Inr (cs \<noteq> [], g') \<and> cache_ok g' \<and>
           edges g' = edges g \<and> dkeys (nodes g') = dkeys (nodes g) \<and> graph.more g' = graph.more g \<and>
           real_cycles (edge_rel g) cs \<and> (cs \<noteq> [] \<longleftrightarrow> (\<exists>v. (v, v) \<in> (edge_rel g)\<^sup>+))"
proof (cases "cycles g")
  case None
  obtain h cs where h: "enumerate_cycles g = Inr h" "cycles h = Some cs" "edges h = edges g"
     "dkeys (nodes h) = dkeys (nodes g)" "graph.more h = graph.more g"
     "real_cycles (edge_rel g) cs" "cs \<noteq> [] \<longleftrightarrow> (\<exists>v. (v, v) \<in> (edge_rel g)\<^sup>+)"
    using enumerate_cycles_ok [OF assms(1)] by blast
  have "cache_ok h" using h by (simp add: cache_ok_def rel_edges [OF h(3)])
  with h None show ?thesis
    by (intro exI [of _ cs] exI [of _ h]) (simp add: graph_cycles_def has_cycle_def)
next
  case (Some cs)
  with assms(2) show ?thesis
    by (intro exI [of _ cs] exI [of _ g]) (simp add: graph_cycles_def has_cycle_def cache_ok_def)
qed

section \<open>Reachability queries\<close>

lemma dfs_roots_loop:
  fixes g :: "('n, 'l, 'z) graph_scheme"
  assumes "ready g"
  shows "\<exists>g'. for_res (\<lambda>v g. if v \<in> set (dkeys (nodes g)) \<and> \<not> visited g v
                        then graph_dfs (dfs_fuel g) None [] v g else Inr g) rs g = Inr g' \<and>
              dfs_done None (filter (\<lambda>v. v \<in> node_set g) rs) [] g g'"
  using assms
proof (induction rs arbitrary: g)
  case Nil
  then show ?case by (simp add: dfs_done_Nil)
next
  case (Cons v rs)
  have "\<exists>h. (if v \<in> set (dkeys (nodes g)) \<and> \<not> visited g v
                        then graph_dfs (dfs_fuel g) None [] v g else Inr g) = Inr h \<and>
             dfs_done None (if v \<in> node_set g then [v] else []) [] g h"
  proof (cases "v \<in> node_set g \<and> v \<notin> vis g")
    case True
    then show ?thesis
      using graph_dfs_done [OF Cons.prems, of v "dfs_fuel g" None "[]"] fuel_enough [of g] Cons.prems
      by (auto simp: ready_def node_set_def vis_def)
  next
    case False
    then show ?thesis
      using Cons.prems dfs_done_visited [OF Cons.prems, of v g None "[]"] dfs_done_Nil [OF Cons.prems]
      by (auto simp: node_set_def vis_def)
  qed
  then obtain h where h: "(if v \<in> set (dkeys (nodes g)) \<and> \<not> visited g v
                        then graph_dfs (dfs_fuel g) None [] v g else Inr g) = Inr h"
    and d: "dfs_done None (if v \<in> node_set g then [v] else []) [] g h" by blast
  have s: "same_graph g h" and r: "ready h" using d by (auto simp: dfs_done_def)
  obtain k where "for_res (\<lambda>v g. if v \<in> set (dkeys (nodes g)) \<and> \<not> visited g v
                        then graph_dfs (dfs_fuel g) None [] v g else Inr g) rs h = Inr k"
      "dfs_done None (filter (\<lambda>v. v \<in> node_set g) rs) [] h k"
    using Cons.IH [OF r] same_graph_simps(2) [OF s] by auto
  with h dfs_done_seq [OF d this(2)] show ?case by auto
qed

lemma depth_first_search_ok:
  assumes wf: "graph_wf g"
  shows "\<exists>g'. depth_first_search (Some rs) g = Inr g' \<and> edges g' = edges g \<and>
     dkeys (nodes g') = dkeys (nodes g) \<and> cycles g' = Some [] \<and> graph.more g' = graph.more g \<and>
     vis g' = (edge_rel g)\<^sup>* `` (set rs \<inter> node_set g)"
proof -
  let ?r = "graph_reset g"
  have eq: "node_set ?r = node_set g" "edge_rel ?r = edge_rel g" "vis ?r = {}" "ready ?r"
    using ready_reset [OF wf]
    by (simp_all add: graph_reset_def)
  obtain g' where g': "depth_first_search (Some rs) g = Inr g'"
      "dfs_done None (filter (\<lambda>v. v \<in> node_set g) rs) [] ?r g'"
    using dfs_roots_loop [OF eq(4), of rs] eq(1) by (auto simp: depth_first_search_def Let_def)
  have "vis g' = (edge_rel g)\<^sup>* `` (set rs \<inter> node_set g)"
    using closed_visits_reachable [OF eq(3) g'(2)] eq(1,2) by (simp add: Int_def conj_commute)
  then show ?thesis
    using g' by (auto simp: dfs_done_def same_graph_def graph_reset_def graph_reset_dfs_data_def
        comp_def split_def)
qed

lemma set_begun: "set (begun g) = vis g \<inter> node_set g"
  by (auto simp: begun_def vis_def node_set_def)

lemma reach_in_nodes: "graph_wf g \<Longrightarrow> (edge_rel g)\<^sup>* `` (A \<inter> node_set g) \<subseteq> node_set g"
  by (auto intro: rtrancl_nodes)

text \<open>
  \<open>find_reachable_nodes\<close> returns the nodes reachable from the given roots. It leaves the
  edges alone, but resets the cycle cache to "no cycles".
\<close>

lemma find_reachable_nodes_ok:
  assumes wf: "graph_wf g"
  shows "\<exists>rs g'. find_reachable_nodes roots g = Inr (rs, g') \<and> edges g' = edges g \<and>
     dkeys (nodes g') = dkeys (nodes g) \<and> graph.more g' = graph.more g \<and>
     set rs = (edge_rel g)\<^sup>* `` (set roots \<inter> node_set g)"
proof (cases "roots = []")
  case False
  obtain h where h: "depth_first_search (Some roots) g = Inr h" "edges h = edges g"
     "dkeys (nodes h) = dkeys (nodes g)" "graph.more h = graph.more g"
     "vis h = (edge_rel g)\<^sup>* `` (set roots \<inter> node_set g)"
    using depth_first_search_ok [OF wf] by blast
  have "set (begun h) = (edge_rel g)\<^sup>* `` (set roots \<inter> node_set g)"
    using reach_in_nodes [OF wf] by (auto simp: set_begun nodes_keys [OF h(3)] h(5))
  with h False show ?thesis
    by (simp add: find_reachable_nodes_def graph_reset_nodes_def comp_def split_def)
qed (simp add: find_reachable_nodes_def)

lemma dependencies_ok:
  assumes wf: "graph_wf g"
  shows "\<exists>r g'. dependencies v g = Inr (r, g') \<and> edges g' = edges g \<and>
     dkeys (nodes g') = dkeys (nodes g) \<and> graph.more g' = graph.more g \<and>
     (if v \<in> node_set g then \<exists>ds. r = Some ds \<and> set ds = (edge_rel g)\<^sup>* `` {v} else r = None)"
proof (cases "v \<in> node_set g")
  case True
  let ?r = "graph_reset g"
  have fr: "edges ?r = edges g" "dkeys (nodes ?r) = dkeys (nodes g)" "graph.more ?r = graph.more g"
    by (simp_all add: graph_reset_def graph_reset_dfs_data_def comp_def split_def)
  have wf': "graph_wf ?r" using wf wf_keys_edges [OF fr(2,1)] by simp
  obtain h where h: "depth_first_search (Some [v]) ?r = Inr h" "edges h = edges g"
     "dkeys (nodes h) = dkeys (nodes g)" "graph.more h = graph.more g"
     "vis h = (edge_rel g)\<^sup>* `` ({v} \<inter> node_set g)"
    using depth_first_search_ok [OF wf', of "[v]"] fr rel_edges [OF fr(1)] nodes_keys [OF fr(2)] by auto
  have "map_of (nodes ?r) v = Some (Some fresh_dfs)"
    using True by (simp add: graph_reset_def graph_reset_dfs_data_def map_of_reset node_set_def del: list.set_map)
  then have "dependencies v g = Inr (Some (begun h), h)"
    using True h(1) by (simp add: dependencies_def node_set_def fresh_dfs_def)
  moreover have "set (begun h) = (edge_rel g)\<^sup>* `` {v}"
    using reach_in_nodes [OF wf, of "{v}"] True by (auto simp: set_begun nodes_keys [OF h(3)] h(5))
  ultimately show ?thesis using h True by auto
qed (simp add: dependencies_def node_set_def)

section \<open>The inverted graph\<close>

definition inv_add :: "'n \<times> 'n \<Rightarrow> ('n, ('n \<times> unit) list) dict \<Rightarrow> ('n, ('n \<times> unit) list) dict" where
  "inv_add e iv = AList.update (snd e)
     (set_add (fst e, ()) (case map_of iv (snd e) of None \<Rightarrow> [] | Some us \<Rightarrow> us)) iv"

definition inv_ok :: "'n set \<Rightarrow> ('n \<times> 'n) set \<Rightarrow> ('n, ('n \<times> unit) list) dict \<Rightarrow> bool" where
  "inv_ok N E iv = (dict_ok iv \<and>
     (\<forall>v us. map_of iv v = Some us \<longrightarrow> v \<in> N \<and> distinct us \<and> fst ` set us \<subseteq> N) \<and>
     (\<forall>u v. (u, v) \<in> E \<longleftrightarrow> (\<exists>us. map_of iv v = Some us \<and> (u, ()) \<in> set us)))"

lemma inv_add_ok:
  assumes "inv_ok N E iv" "u \<in> N" "v \<in> N"
  shows "inv_ok N (insert (u, v) E) (inv_add (u, v) iv)"
proof -
  let ?us = "set_add (u, ()) (case map_of iv v of None \<Rightarrow> [] | Some us \<Rightarrow> us)"
  have us: "distinct ?us" "(a, ()) \<in> set ?us \<longleftrightarrow> a = u \<or> (a, v) \<in> E" for a
    using assms by (auto simp: inv_ok_def split: option.splits)
  have "fst ` set ?us \<subseteq> N"
    using assms by (cases "map_of iv v") (simp_all add: inv_ok_def del: map_of_eq_Some_iff)
  note us = us this
  have "inv_add (u, v) iv = AList.update v ?us iv" by (simp add: inv_add_def)
  then show ?thesis using assms us by (simp add: inv_ok_def dict_ok_update)
qed

definition edge_list :: "('n, 'l, 'z) graph_scheme \<Rightarrow> ('n \<times> 'n) list" where
  "edge_list g = concat (map (\<lambda>(u, es). map (\<lambda>(v, l). (u, v)) es) (edges g))"

lemma set_edge_list: "graph_wf g \<Longrightarrow> set (edge_list g) = edge_rel g"
  by (force simp: edge_list_def edge_rel_def edges_of_def graph_wf_def split: option.splits dest: map_of_SomeD)

lemma inverted_edges:
  "edges (inverted_edge_graph g) = fold inv_add (edge_list g) []"
proof -
  have inner: "fold (\<lambda>(v, l) iv. AList.update v
          (set_add (u, ()) (case map_of iv v of None \<Rightarrow> [] | Some us \<Rightarrow> us)) iv) es iv =
        fold inv_add (map (\<lambda>(v, l). (u, v)) es) iv" for u :: 'a and es :: "('a \<times> 'b) list" and iv
    by (induction es arbitrary: iv) (auto simp: inv_add_def)
  have "fold (\<lambda>(u, es). fold (\<lambda>(v, l) iv. AList.update v
          (set_add (u, ()) (case map_of iv v of None \<Rightarrow> [] | Some us \<Rightarrow> us)) iv) es) es' iv =
        fold inv_add (concat (map (\<lambda>(u, es). map (\<lambda>(v, l). (u, v)) es) es')) iv"
    for es' :: "('a, ('a \<times> 'b) list) dict" and iv
    by (induction es' arbitrary: iv) (auto simp: inner)
  then show ?thesis by (simp add: inverted_edge_graph_def edge_list_def)
qed

lemma fold_inv_add_ok:
  "inv_ok N E iv \<Longrightarrow> set es \<subseteq> N \<times> N \<Longrightarrow> inv_ok N (E \<union> set es) (fold inv_add es iv)"
proof (induction es arbitrary: E iv)
  case (Cons e es)
  then have "inv_ok N (insert e E) (inv_add e iv)" using inv_add_ok [of N E iv "fst e" "snd e"] by auto
  from Cons.IH [OF this] Cons.prems show ?case by (simp add: Un_commute)
qed simp

lemma inverted_edge_graph_ok:
  assumes wf: "graph_wf g"
  shows "graph_wf (inverted_edge_graph g)" "edge_rel (inverted_edge_graph g) = (edge_rel g)\<inverse>"
    "nodes (inverted_edge_graph g) = nodes g"
proof -
  let ?i = "inverted_edge_graph g"
  show nodes: "nodes ?i = nodes g" by (simp add: inverted_edge_graph_def)
  have "inv_ok (node_set g) ({} \<union> set (edge_list g)) (fold inv_add (edge_list g) [])"
    using edge_rel_nodes [OF wf] by (intro fold_inv_add_ok) (auto simp: inv_ok_def set_edge_list [OF wf])
  then have ok: "inv_ok (node_set g) (edge_rel g) (edges ?i)"
    by (simp add: inverted_edges set_edge_list [OF wf])
  show "graph_wf ?i"
    using wf ok by (simp add: graph_wf_def nodes node_set_def inv_ok_def dict_ball_iff)
  show "edge_rel ?i = (edge_rel g)\<inverse>"
    using ok by (auto simp: edge_rel_def edges_of_def inv_ok_def split: option.splits)
qed

text \<open>
  \<open>find_dependent_nodes\<close> returns the given nodes and every node from which one of them is
  reachable.
\<close>

lemma find_dependent_nodes_ok:
  assumes wf: "graph_wf g"
  shows "\<exists>rs g'. find_dependent_nodes ns g = Inr (rs, g') \<and> edges g' = edges g \<and>
     dkeys (nodes g') = dkeys (nodes g) \<and> cycles g' = cycles g \<and> graph.more g' = graph.more g \<and>
     set rs = set ns \<union> {u. \<exists>v \<in> set ns. (u, v) \<in> (edge_rel g)\<^sup>*}"
proof -
  note i = inverted_edge_graph_ok [OF wf]
  obtain rs h where h: "find_reachable_nodes ns (inverted_edge_graph g) = Inr (rs, h)"
      "dkeys (nodes h) = dkeys (nodes g)"
      "set rs = ((edge_rel g)\<inverse>)\<^sup>* `` (set ns \<inter> node_set g)"
    using find_reachable_nodes_ok [OF i(1), of ns] i(2,3) by (auto simp: node_set_def)
  have "v \<in> node_set g" if "(u, v) \<in> (edge_rel g)\<^sup>*" "u \<noteq> v" for u v
    using that edge_rel_nodes(2) [OF wf] by (auto elim: rtranclE)
  then have "set rs \<union> set ns = set ns \<union> {u. \<exists>v \<in> set ns. (u, v) \<in> (edge_rel g)\<^sup>*}"
    unfolding h(3) by (auto simp: rtrancl_converse)
  with h show ?thesis by (auto simp: find_dependent_nodes_def)
qed

section \<open>The properties\<close>

text \<open>The cycle p, q with an edge from r into it and an unconnected node.\<close>

definition reach_example :: "(string, bool) graph" where
  "reach_example = snd (graph_add_node ''s''
     (graph_add_edge ''r'' ''p'' False (graph_add_edge ''q'' ''p'' True (graph_add_edge ''p'' ''q'' False graph_empty))))"

text \<open>
  C16. Cycle detection is right: on a well-formed graph whose cycle cache is empty or correct,
  \<open>has_cycle\<close> returns without error; its answer says whether some node reaches itself by one
  or more edges, the answer stays the same when it is asked again, and every cycle that
  \<open>cycles\<close> lists is a closed walk along edges of the graph.
\<close>

theorem has_cycle_correct:
  assumes "graph_wf g" "cycles g = None \<or> cache_ok g"
  shows "\<exists>cs g'. graph_cycles g = Inr (cs, g') \<and>
           has_cycle g = Inr (\<exists>v. (v, v) \<in> (edge_rel g)\<^sup>+, g') \<and>
           has_cycle g' = Inr (\<exists>v. (v, v) \<in> (edge_rel g)\<^sup>+, g') \<and>
           edges g' = edges g \<and> dkeys (nodes g') = dkeys (nodes g) \<and>
           real_cycles (edge_rel g) cs"
proof -
  have ok: "cache_ok g" using assms(2) by (auto simp: cache_ok_def)
  from graph_cycles_ok [OF assms(1) ok] obtain cs g' where
    g': "graph_cycles g = Inr (cs, g')" "has_cycle g = Inr (cs \<noteq> [], g')" "edges g' = edges g"
      "dkeys (nodes g') = dkeys (nodes g)" "real_cycles (edge_rel g) cs"
      "(\<exists>v. (v, v) \<in> (edge_rel g)\<^sup>+) \<longleftrightarrow> cs \<noteq> []"
    by blast
  have "cycles g' = Some cs"
    using g'(1) by (cases "cycles g'") (auto simp: graph_cycles_def rbind_Inr_iff split: option.splits)
  then have "has_cycle g' = Inr (cs \<noteq> [], g')" by (simp add: has_cycle_def)
  then show ?thesis
    by (intro exI [of _ cs] exI [of _ g']) (simp only: g' simp_thms)
qed

theorem has_cycle_correct_witness:
  "graph_wf reach_example \<and> cycles reach_example = None \<and>
   map_sum id fst (has_cycle reach_example) = Inr True \<and> (\<exists>v. (v, v) \<in> (edge_rel reach_example)\<^sup>+)"
proof -
  have wf: "graph_wf reach_example" and n: "cycles reach_example = None"
    and t: "map_sum id fst (has_cycle reach_example) = Inr True" by code_simp+
  from has_cycle_correct [OF wf disjI1 [OF n]] have "\<exists>v. (v, v) \<in> (edge_rel reach_example)\<^sup>+"
    using t by (auto simp: prod_eq_iff)
  with wf n t show ?thesis by blast
qed

text \<open>
  C32. Reachability queries are right: on a well-formed graph, for every list of nodes,
  \<open>find_reachable_nodes\<close> returns exactly the nodes reachable from them,
  \<open>find_dependent_nodes\<close> exactly them and the nodes that reach one of them, and
  \<open>dependencies\<close> of a node what it reaches, or \<open>None\<close> for a node that is not in the graph;
  none of the three raises or changes the edges.
\<close>

theorem reachability_correct:
  assumes wf: "graph_wf g"
  shows "\<exists>rs g1 ds g2 r g3.
     find_reachable_nodes vs g = Inr (rs, g1) \<and> set rs = (edge_rel g)\<^sup>* `` (set vs \<inter> node_set g) \<and>
     find_dependent_nodes vs g = Inr (ds, g2) \<and>
     set ds = set vs \<union> {u. \<exists>v \<in> set vs. (u, v) \<in> (edge_rel g)\<^sup>*} \<and>
     dependencies v g = Inr (r, g3) \<and>
     map_option set r = (if v \<in> node_set g then Some ((edge_rel g)\<^sup>* `` {v}) else None) \<and>
     edges g1 = edges g \<and> edges g2 = edges g \<and> edges g3 = edges g"
proof -
  obtain rs g1 where "find_reachable_nodes vs g = Inr (rs, g1)" "edges g1 = edges g"
    "set rs = (edge_rel g)\<^sup>* `` (set vs \<inter> node_set g)"
    using find_reachable_nodes_ok [OF wf, of vs] by blast
  moreover obtain ds g2 where "find_dependent_nodes vs g = Inr (ds, g2)" "edges g2 = edges g"
    "set ds = set vs \<union> {u. \<exists>v \<in> set vs. (u, v) \<in> (edge_rel g)\<^sup>*}"
    using find_dependent_nodes_ok [OF wf, of vs] by blast
  moreover obtain r g3 where "dependencies v g = Inr (r, g3)" "edges g3 = edges g"
    "if v \<in> node_set g then \<exists>ds. r = Some ds \<and> set ds = (edge_rel g)\<^sup>* `` {v} else r = None"
    using dependencies_ok [OF wf, of v] by blast
  ultimately show ?thesis by (cases "v \<in> node_set g") auto
qed

theorem reachability_correct_witness:
  "graph_wf reach_example \<and> find_dependent_nodes [''q''] reach_example \<noteq> Inl KeyError \<and>
   (''r'', ''q'') \<in> (edge_rel reach_example)\<^sup>*"
proof -
  have wf: "graph_wf reach_example" by code_simp
  have d: "map_sum id (set \<circ> fst) (find_dependent_nodes [''q''] reach_example) = Inr {''p'', ''q'', ''r''}"
    by code_simp
  from reachability_correct [OF wf, of "[''q'']"] obtain ds g2 where
    ds: "find_dependent_nodes [''q''] reach_example = Inr (ds, g2)"
      "set ds = set [''q''] \<union> {u. \<exists>v \<in> set [''q'']. (u, v) \<in> (edge_rel reach_example)\<^sup>*}" by blast
  have "set ds = {''p'', ''q'', ''r''}" using d unfolding ds(1) by simp
  then have "''r'' \<in> set ds" "''r'' \<notin> set [''q'']" by simp_all
  then have "(''r'', ''q'') \<in> (edge_rel reach_example)\<^sup>*" unfolding ds(2) by simp
  with wf ds(1) show ?thesis by simp
qed

text \<open>
  A reachability query spoils a later cycle query: \<open>dependencies\<close> resets the cycle cache
  to the empty set (not to \<open>None\<close>), so \<open>has_cycle\<close>, which is true of this graph, answers
  false after \<open>dependencies\<close> was called.
\<close>

theorem dependencies_spoil_has_cycle:
  "map_sum id fst (has_cycle reach_example) = Inr True \<and>
   rbind (dependencies ''s'' reach_example) (\<lambda>(_, g). map_sum id fst (has_cycle g)) = Inr False"
  by code_simp

text \<open>
  \<open>Graph.delete_node\<close> leaves the edges that point to the deleted node, so the next
  cycle search follows such an edge to a node that is gone and raises \<open>KeyError\<close>.
\<close>

theorem delete_node_dangling_edge:
  "rbind (graph_delete_node ''q'' reach_example) (\<lambda>g. map_sum id fst (has_cycle g)) = Inl KeyError"
  by code_simp

end
