(* ===== verification/Bag_Graph.thy ===== *)
theory Bag_Graph
  imports Graph_Reach
begin

text \<open>
  \<open>utility.BagGraph\<close>: a graph that counts how often each node and edge was inserted and
  drops one only when it was deleted as often. Adding an edge also inserts both ends.

  \<open>bag_rep g N Ed\<close> relates a bag graph to what it stands for: a multiset \<open>N\<close> of node
  insertions and a multiset \<open>Ed\<close> of edges. Each operation is proved to implement the
  corresponding multiset operation, and \<open>bag_graph\<close> is the contract the dependency graph of
  the policy rules relies on.
\<close>

declare map_of_eq_Some_iff [simp del] Some_eq_map_of_iff [simp del]

section \<open>State and operations\<close>

record ('n, 'l) bag_graph = "('n, 'l) graph" +
  node_refcounts :: "('n, nat) dict"
  edge_refcounts :: "('n \<times> 'n \<times> 'l, nat) dict"

definition bag_empty :: "('n, 'l) bag_graph" where
  "bag_empty = graph.extend graph_empty (bag_graph.fields [] [])"

definition incr :: "'k \<Rightarrow> ('k, nat) dict \<Rightarrow> ('k, nat) dict" where
  "incr k d = (case map_of d k of Some c \<Rightarrow> AList.update k (c + 1) d | None \<Rightarrow> AList.update k 1 d)"

definition bag_add_node :: "'n \<Rightarrow> ('n, 'l, 'z) bag_graph_scheme \<Rightarrow> ('n, 'l, 'z) bag_graph_scheme" where
  "bag_add_node v g =
     (let g = snd (graph_add_node v g)
      in g\<lparr>node_refcounts := incr v (node_refcounts g)\<rparr>)"

text \<open>Counts in the dictionary are positive (part of \<open>bag_rep\<close>), so the subtraction is exact.\<close>

definition bag_delete_node :: "'n \<Rightarrow> ('n, 'l, 'z) bag_graph_scheme \<Rightarrow> ('n, 'l, 'z) bag_graph_scheme res" where
  "bag_delete_node v g =
     (case map_of (node_refcounts g) v of
        None \<Rightarrow> Inr g
      | Some c \<Rightarrow>
          let g = g\<lparr>node_refcounts := AList.update v (c - 1) (node_refcounts g)\<rparr> in
          if c - 1 = 0 then
            rbind (graph_delete_node v g)
              (\<lambda>g. Inr (g\<lparr>node_refcounts := AList.delete v (node_refcounts g)\<rparr>))
          else Inr g)"

definition bag_add_edge ::
    "'n \<Rightarrow> 'n \<Rightarrow> 'l \<Rightarrow> ('n, 'l, 'z) bag_graph_scheme \<Rightarrow> ('n, 'l, 'z) bag_graph_scheme" where
  "bag_add_edge v1 v2 l g =
     (let g = graph_add_edge_with bag_add_node v1 v2 l g
      in g\<lparr>edge_refcounts := incr (v1, v2, l) (edge_refcounts g)\<rparr>)"

definition bag_delete_edge ::
    "'n \<Rightarrow> 'n \<Rightarrow> 'l \<Rightarrow> ('n, 'l, 'z) bag_graph_scheme \<Rightarrow> ('n, 'l, 'z) bag_graph_scheme res" where
  "bag_delete_edge v1 v2 l g =
     (if map_of (edge_refcounts g) (v1, v2, l) = None then Inr g
      else rbind (bag_delete_node v1 g) (\<lambda>g. rbind (bag_delete_node v2 g) (\<lambda>g.
        case map_of (edge_refcounts g) (v1, v2, l) of
          None \<Rightarrow> Inl KeyError
        | Some c \<Rightarrow>
            let g = g\<lparr>edge_refcounts := AList.update (v1, v2, l) (c - 1) (edge_refcounts g)\<rparr> in
            if c - 1 = 0 then
              (let g = graph_delete_edge v1 v2 l g
               in Inr (g\<lparr>edge_refcounts := AList.delete (v1, v2, l) (edge_refcounts g)\<rparr>))
            else Inr g)))"

definition bag_node_in :: "'n \<Rightarrow> ('n, 'l, 'z) bag_graph_scheme \<Rightarrow> bool" where
  "bag_node_in v g = (map_of (node_refcounts g) v \<noteq> None)"

definition bag_edge_in :: "'n \<Rightarrow> 'n \<Rightarrow> 'l \<Rightarrow> ('n, 'l, 'z) bag_graph_scheme \<Rightarrow> bool" where
  "bag_edge_in v1 v2 l g = (map_of (edge_refcounts g) (v1, v2, l) \<noteq> None)"

definition node_count :: "'n \<Rightarrow> ('n, 'l, 'z) bag_graph_scheme \<Rightarrow> nat" where
  "node_count v g = (case map_of (node_refcounts g) v of Some c \<Rightarrow> c | None \<Rightarrow> 0)"

definition edge_count :: "'n \<Rightarrow> 'n \<Rightarrow> 'l \<Rightarrow> ('n, 'l, 'z) bag_graph_scheme \<Rightarrow> nat" where
  "edge_count v1 v2 l g = (case map_of (edge_refcounts g) (v1, v2, l) of Some c \<Rightarrow> c | None \<Rightarrow> 0)"

definition bag_len :: "('n, 'l, 'z) bag_graph_scheme \<Rightarrow> nat" where
  "bag_len g = sum_list (map snd (node_refcounts g)) + sum_list (map snd (edge_refcounts g))"

section \<open>What a bag graph stands for\<close>

definition incid :: "'n \<Rightarrow> 'n \<times> 'n \<times> 'l \<Rightarrow> nat" where
  "incid n e = (if fst e = n then 1 else 0) + (if fst (snd e) = n then 1 else 0)"

definition tot :: "'n multiset \<Rightarrow> ('n \<times> 'n \<times> 'l) multiset \<Rightarrow> 'n \<Rightarrow> nat" where
  "tot N Ed n = count N n + sum_mset (image_mset (incid n) Ed)"

definition opt_pos :: "nat \<Rightarrow> nat option" where
  "opt_pos c = (if c = 0 then None else Some c)"

definition bag_rep :: "('n, 'l, 'z) bag_graph_scheme \<Rightarrow> 'n multiset \<Rightarrow> ('n \<times> 'n \<times> 'l) multiset \<Rightarrow> bool" where
  "bag_rep g N Ed =
     (dict_ok (nodes g) \<and> dict_ok (edges g) \<and> dict_ok (node_refcounts g) \<and> dict_ok (edge_refcounts g) \<and>
      (\<forall>n. map_of (node_refcounts g) n = opt_pos (tot N Ed n)) \<and>
      (\<forall>e. map_of (edge_refcounts g) e = opt_pos (count Ed e)) \<and>
      (\<forall>n. n \<in> node_set g \<longleftrightarrow> tot N Ed n \<noteq> 0) \<and>
      fst ` set (edges g) \<subseteq> node_set g \<and>
      (\<forall>u. distinct (edges_of g u) \<and> set (edges_of g u) = {(v, l). (u, v, l) \<in># Ed}))"

lemma edges_of_cycles [simp]: "edges_of (g\<lparr>cycles := c\<rparr>) = edges_of g"
  by (simp add: edges_of_def fun_eq_iff)

lemma bag_rep_cycles [simp]: "bag_rep (g\<lparr>cycles := c\<rparr>) N Ed = bag_rep g N Ed"
  by (simp add: bag_rep_def)

lemma opt_pos_simps [simp]: "opt_pos 0 = None" "opt_pos (Suc n) = Some (Suc n)"
  by (simp_all add: opt_pos_def)

lemma opt_pos_cases: "(opt_pos c = None) = (c = 0)" "(opt_pos c = Some d) = (c = d \<and> c \<noteq> 0)"
  by (auto simp: opt_pos_def)

lemma opt_pos_count [simp]: "(case opt_pos c of None \<Rightarrow> 0 | Some d \<Rightarrow> d) = c"
  by (simp add: opt_pos_def)

lemma bag_rep_refs:
  assumes "bag_rep g N Ed"
  shows "map_of (node_refcounts g) n = opt_pos (tot N Ed n)"
    "map_of (edge_refcounts g) e = opt_pos (count Ed e)"
  using assms unfolding bag_rep_def by blast+

lemma tot_add_node: "tot (add_mset v N) Ed n = tot N Ed n + (if n = v then 1 else 0)"
  by (simp add: tot_def)

lemma tot_add_edge: "tot N (add_mset e Ed) n = tot N Ed n + incid n e"
  by (simp add: tot_def)

lemma tot_edge: "e \<in># Ed \<Longrightarrow> incid n e \<le> tot N Ed n"
proof -
  assume "e \<in># Ed"
  then obtain Ed' where "Ed = add_mset e Ed'" by (metis insert_DiffM)
  then show ?thesis by (simp add: tot_add_edge)
qed

lemma tot_ends: "(u, v, l) \<in># Ed \<Longrightarrow> tot N Ed u \<noteq> 0" "(u, v, l) \<in># Ed \<Longrightarrow> tot N Ed v \<noteq> 0"
  using tot_edge [of "(u, v, l)" Ed u N] tot_edge [of "(u, v, l)" Ed v N] by (auto simp: incid_def)

lemma bag_rep_wf:
  assumes "bag_rep g N Ed"
  shows "graph_wf g" "edge_rel g = {(u, v). \<exists>l. (u, v, l) \<in># Ed}" "node_set g = {n. tot N Ed n \<noteq> 0}"
proof -
  have ok: "dict_ok (edges g)" "fst ` set (edges g) \<subseteq> node_set g"
    and es: "distinct (edges_of g u)" "set (edges_of g u) = {(v, l). (u, v, l) \<in># Ed}" for u
    using assms by (auto simp: bag_rep_def)
  show ns: "node_set g = {n. tot N Ed n \<noteq> 0}" using assms by (auto simp: bag_rep_def)
  have "u \<in> node_set g \<and> distinct es \<and> fst ` set es \<subseteq> node_set g" if "map_of (edges g) u = Some es" for u es
  proof -
    have "es = edges_of g u" using that by (simp add: edges_of_def)
    then show ?thesis using es [of u] ok that tot_ends [of u _ _ Ed N]
      by (auto simp: ns dest!: map_of_Some_keys)
  qed
  then show "graph_wf g" using assms by (simp add: graph_wf_def bag_rep_def dict_ball_iff)
  show "edge_rel g = {(u, v). \<exists>l. (u, v, l) \<in># Ed}" by (auto simp: edge_rel_def es)
qed

lemma bag_rep_counts:
  assumes "bag_rep g N Ed"
  shows "node_count n g = tot N Ed n" "edge_count u v l g = count Ed (u, v, l)"
    "bag_edge_in u v l g \<longleftrightarrow> (u, v, l) \<in># Ed" "bag_node_in n g \<longleftrightarrow> tot N Ed n \<noteq> 0"
  using assms by (auto simp: bag_rep_def node_count_def edge_count_def bag_edge_in_def bag_node_in_def opt_pos_cases)

lemma bag_rep_empty: "bag_rep bag_empty {#} {#}"
  by (simp add: bag_rep_def bag_empty_def graph.defs bag_graph.defs graph_empty_def tot_def node_set_def
      edges_of_def)

lemma map_of_incr: "map_of (incr k d) = (map_of d)(k \<mapsto> (case map_of d k of None \<Rightarrow> 1 | Some c \<Rightarrow> c + 1))"
  by (simp add: incr_def split: option.splits)

lemma dict_ok_incr [intro]: "dict_ok d \<Longrightarrow> dict_ok (incr k d)"
  by (auto simp: incr_def split: option.splits)

lemma incr_opt_pos:
  "map_of d k = opt_pos c \<Longrightarrow> map_of (incr k d) j = (if j = k then Some (c + 1) else map_of d j)"
  by (simp add: map_of_incr opt_pos_def split: if_splits)

section \<open>The operations implement the multiset operations\<close>

lemma bag_add_node_frame:
  "edges (bag_add_node v g) = edges g" "cycles (bag_add_node v g) = cycles g"
  "edge_refcounts (bag_add_node v g) = edge_refcounts g"
  "node_refcounts (bag_add_node v g) = incr v (node_refcounts g)"
  "node_set (bag_add_node v g) = insert v (node_set g)"
  "dict_ok (nodes g) \<Longrightarrow> dict_ok (nodes (bag_add_node v g))"
  by (auto simp: bag_add_node_def graph_add_node_def Let_def node_set_def)

lemma edges_of_cong: "edges g = edges h \<Longrightarrow> edges_of g = edges_of h"
  by (simp add: edges_of_def fun_eq_iff)

lemma bag_add_node_rep:
  assumes "bag_rep g N Ed" shows "bag_rep (bag_add_node v g) (add_mset v N) Ed"
proof -
  note f = bag_add_node_frame [where v = v and g = g]
  have "map_of (incr v (node_refcounts g)) n = opt_pos (tot (add_mset v N) Ed n)" for n
    using assms incr_opt_pos [of "node_refcounts g" v "tot N Ed v" n] by (auto simp: bag_rep_def tot_add_node)
  then show ?thesis using assms
    unfolding bag_rep_def f(1-5) edges_of_cong [OF f(1)] by (auto simp: tot_add_node f(6))
qed

text \<open>A deletion of a node that is present, on the level of the dictionaries.\<close>

lemma bag_delete_node_raw:
  assumes c: "map_of (node_refcounts g) v = Some c" and v: "v \<in> node_set g"
  shows "\<exists>g'. bag_delete_node v g = Inr g' \<and> edge_refcounts g' = edge_refcounts g \<and>
     (dict_ok (nodes g) \<longrightarrow> dict_ok (nodes g')) \<and> (dict_ok (edges g) \<longrightarrow> dict_ok (edges g')) \<and>
     (dict_ok (node_refcounts g) \<longrightarrow> dict_ok (node_refcounts g')) \<and>
     map_of (node_refcounts g') = (map_of (node_refcounts g))(v := opt_pos (c - 1)) \<and>
     node_set g' = (if c - 1 = 0 then node_set g - {v} else node_set g) \<and>
     fst ` set (edges g') = (if c - 1 = 0 then fst ` set (edges g) - {v} else fst ` set (edges g)) \<and>
     edges_of g' = (if c - 1 = 0 then (edges_of g)(v := []) else edges_of g) \<and> cycles g' = cycles g"
proof (cases "c - 1 = 0")
  case True
  then show ?thesis
    using c v by (auto simp: bag_delete_node_def graph_delete_node_def node_set_def edges_of_def Let_def
        dict_ok_update dict_ok_delete fun_eq_iff)
next
  case False
  then show ?thesis
    using c v by (auto simp: bag_delete_node_def node_set_def edges_of_def Let_def opt_pos_def)
qed

lemma bag_delete_node_rep:
  assumes rep: "bag_rep g (add_mset v N) Ed"
  shows "\<exists>g'. bag_delete_node v g = Inr g' \<and> bag_rep g' N Ed \<and> cycles g' = cycles g"
proof -
  have "map_of (node_refcounts g) v = Some (tot N Ed v + 1)" "v \<in> node_set g"
    using rep by (auto simp: bag_rep_def tot_add_node)
  from bag_delete_node_raw [OF this] obtain g' where g': "bag_delete_node v g = Inr g'"
     "edge_refcounts g' = edge_refcounts g"
     "dict_ok (nodes g) \<longrightarrow> dict_ok (nodes g')" "dict_ok (edges g) \<longrightarrow> dict_ok (edges g')"
     "dict_ok (node_refcounts g) \<longrightarrow> dict_ok (node_refcounts g')"
     "map_of (node_refcounts g') = (map_of (node_refcounts g))(v := opt_pos (tot N Ed v))"
     "node_set g' = (if tot N Ed v = 0 then node_set g - {v} else node_set g)"
     "fst ` set (edges g') = (if tot N Ed v = 0 then fst ` set (edges g) - {v} else fst ` set (edges g))"
     "edges_of g' = (if tot N Ed v = 0 then (edges_of g)(v := []) else edges_of g)" "cycles g' = cycles g"
    by auto
  have none: "tot N Ed v = 0 \<Longrightarrow> (v, w, l) \<notin># Ed" for w l using tot_ends by metis
  have "bag_rep g' N Ed" unfolding bag_rep_def g'(6) g'(7) g'(8) g'(9)
    using rep none g'(2-5) by (auto simp: bag_rep_def tot_add_node)
  with g' show ?thesis by blast
qed

lemma bag_delete_node_absent: "bag_rep g N Ed \<Longrightarrow> tot N Ed v = 0 \<Longrightarrow> bag_delete_node v g = Inr g"
  by (simp add: bag_delete_node_def bag_rep_def)

lemma bag_add_edge_rep:
  assumes rep: "bag_rep g N Ed"
  shows "bag_rep (bag_add_edge u v l g) N (add_mset (u, v, l) Ed)" "cycles (bag_add_edge u v l g) = None"
proof -
  let ?e = "(u, v, l)"
  let ?h = "bag_add_node v (bag_add_node u (g\<lparr>cycles := None\<rparr>))"
  let ?r = "bag_add_edge u v l g"
  have "bag_rep (g\<lparr>cycles := None\<rparr>) N Ed" using rep by simp
  then have h: "bag_rep ?h (add_mset v (add_mset u N)) Ed" by (intro bag_add_node_rep)
  have tot: "tot (add_mset v (add_mset u N)) Ed n = tot N (add_mset ?e Ed) n" for n
    by (auto simp: tot_add_node tot_add_edge incid_def)
  have r: "nodes ?r = nodes ?h" "edges ?r = AList.update u (set_add (v, l) (edges_of ?h u)) (edges ?h)"
    "node_refcounts ?r = node_refcounts ?h" "edge_refcounts ?r = incr ?e (edge_refcounts ?h)"
    by (simp_all add: bag_add_edge_def graph_add_edge_with_def Let_def)
  have eo: "edges_of ?r = (edges_of ?h)(u := set_add (v, l) (edges_of ?h u))"
    by (simp add: edges_of_def fun_eq_iff r)
  have er: "map_of (incr ?e (edge_refcounts ?h)) e = opt_pos (count (add_mset ?e Ed) e)" for e
    using bag_rep_refs(2) [OF h] by (cases "e = ?e") (simp_all add: map_of_incr opt_pos_def)
  have ns: "node_set ?r = node_set ?h" by (simp only: node_set_def r)
  have u: "u \<in> node_set ?h" by (simp add: bag_add_node_frame)
  show "bag_rep ?r N (add_mset ?e Ed)"
    unfolding bag_rep_def ns eo unfolding r
    using h tot er u by (auto simp: bag_rep_def dict_ok_update dict_ok_incr)
  show "cycles ?r = None"
    by (simp add: bag_add_edge_def graph_add_edge_with_def bag_add_node_frame Let_def)
qed

lemma graph_delete_edge_raw:
  assumes "dict_ok (edges g)"
  shows "nodes (graph_delete_edge u v l g) = nodes g" "dict_ok (edges (graph_delete_edge u v l g))"
    "fst ` set (edges (graph_delete_edge u v l g)) = fst ` set (edges g)"
    "edges_of (graph_delete_edge u v l g) = (edges_of g)(u := remove1 (v, l) (edges_of g u))"
    "node_refcounts (graph_delete_edge u v l g) = node_refcounts g"
    "edge_refcounts (graph_delete_edge u v l g) = edge_refcounts g"
  using assms
  by (auto simp: graph_delete_edge_def edges_of_def fun_eq_iff remove1_idem insert_absorb dict_ok_update
      dest: map_of_Some_keys split: option.splits)

text \<open>
  Deleting an edge that is present: its ends lose one insertion each, and one copy of the edge
  goes. A node that loses its last insertion takes its (by then empty or about to be emptied)
  outgoing edges with it.
\<close>

lemma bag_delete_edge_rep:
  assumes rep: "bag_rep g N (add_mset (u, v, l) Ed)"
  shows "\<exists>g'. bag_delete_edge u v l g = Inr g' \<and> bag_rep g' N Ed"
proof -
  let ?e = "(u, v, l)"
  let ?T = "tot N Ed"
  have full: "tot N (add_mset ?e Ed) n = ?T n + incid n ?e" for n by (rule tot_add_edge)
  have nr: "map_of (node_refcounts g) n = opt_pos (?T n + incid n ?e)" for n
    using rep full by (simp add: bag_rep_def)
  have ns: "n \<in> node_set g \<longleftrightarrow> ?T n + incid n ?e \<noteq> 0" for n
    using rep full by (simp add: bag_rep_def)
  have ok: "dict_ok (nodes g)" "dict_ok (edges g)" "dict_ok (node_refcounts g)" "dict_ok (edge_refcounts g)"
      "fst ` set (edges g) \<subseteq> node_set g"
    and es: "distinct (edges_of g w)" "set (edges_of g w) = {(v', l'). (w, v', l') \<in># add_mset ?e Ed}"
    for w using rep by (auto simp: bag_rep_def)
  note er = bag_rep_refs(2) [OF rep]
  have "map_of (node_refcounts g) u = Some (?T u + incid u ?e)" "u \<in> node_set g"
    using nr [of u] ns [of u] by (simp_all add: incid_def opt_pos_def)
  from bag_delete_node_raw [OF this] obtain g1 where g1: "bag_delete_node u g = Inr g1"
     "edge_refcounts g1 = edge_refcounts g" "dict_ok (nodes g1)" "dict_ok (edges g1)" "dict_ok (node_refcounts g1)"
     "map_of (node_refcounts g1) = (map_of (node_refcounts g))(u := opt_pos (?T u + incid u ?e - 1))"
     "node_set g1 = (if ?T u + incid u ?e - 1 = 0 then node_set g - {u} else node_set g)"
     "fst ` set (edges g1) = (if ?T u + incid u ?e - 1 = 0 then fst ` set (edges g) - {u} else fst ` set (edges g))"
     "edges_of g1 = (if ?T u + incid u ?e - 1 = 0 then (edges_of g)(u := []) else edges_of g)"
    using ok by blast
  let ?c = "if u = v then ?T u + 1 else ?T v + incid v ?e"
  have "map_of (node_refcounts g1) v = Some ?c" "v \<in> node_set g1"
    using nr [of v] ns [of v] by (auto simp: g1 incid_def opt_pos_def)
  from bag_delete_node_raw [OF this] obtain g2 where g2: "bag_delete_node v g1 = Inr g2"
     "edge_refcounts g2 = edge_refcounts g1" "dict_ok (nodes g2)" "dict_ok (edges g2)" "dict_ok (node_refcounts g2)"
     "map_of (node_refcounts g2) = (map_of (node_refcounts g1))(v := opt_pos (?c - 1))"
     "node_set g2 = (if ?c - 1 = 0 then node_set g1 - {v} else node_set g1)"
     "fst ` set (edges g2) = (if ?c - 1 = 0 then fst ` set (edges g1) - {v} else fst ` set (edges g1))"
     "edges_of g2 = (if ?c - 1 = 0 then (edges_of g1)(v := []) else edges_of g1)"
    using g1 by blast
  have nr2: "map_of (node_refcounts g2) n = opt_pos (?T n)" for n
    using nr [of n] by (auto simp: g2(6) g1(6) incid_def)
  have ns2: "n \<in> node_set g2 \<longleftrightarrow> ?T n \<noteq> 0" for n
    using ns [of n] by (auto simp: g2(7) g1(7) incid_def)
  have eo2: "edges_of g2 w = (if ?T w = 0 then [] else edges_of g w)" for w
  proof (cases "w = u \<or> w = v")
    case True
    then show ?thesis by (auto simp: g2(9) g1(9) incid_def)
  next
    case False
    then have "?T w = 0 \<Longrightarrow> edges_of g w = []"
      using es(2) [of w] tot_ends(1) [of w _ _ Ed N] by (cases "edges_of g w") force+
    with False show ?thesis by (auto simp: g2(9) g1(9))
  qed
  have ek2: "fst ` set (edges g2) \<subseteq> node_set g2"
    using ok(5) ns2 ns by (auto simp: g2(7,8) g1(7,8))
  have er2: "map_of (edge_refcounts g2) ?e = Some (count Ed ?e + 1)" using er [of ?e] by (simp add: g2 g1)
  have none: "?T w = 0 \<Longrightarrow> (w, v', l') \<notin># Ed" for w v' l' using tot_ends by metis
  let ?r = "edge_refcounts g"
  let ?g3 = "g2\<lparr>edge_refcounts := AList.update ?e (count Ed ?e) ?r\<rparr>"
  have present: "map_of ?r ?e \<noteq> None" using er [of ?e] by simp
  show ?thesis
  proof (cases "count Ed ?e = 0")
    case False
    have "bag_delete_edge u v l g = Inr ?g3"
      using False g1(1) g2(1) er2 present
      by (simp add: bag_delete_edge_def g2(2) g1(2) Let_def not_in_iff [symmetric])
    moreover have "bag_rep ?g3 N Ed"
    proof -
      have eo: "edges_of ?g3 = edges_of g2" by (rule edges_of_cong) simp
      have ns3: "node_set ?g3 = node_set g2" by (simp add: node_set_def)
      have s2: "set (edges_of g2 w) = {(v', l'). (w, v', l') \<in># Ed}" "distinct (edges_of g2 w)" for w
        using es [of w] none [of w] False by (auto simp: eo2 not_in_iff)
      have "map_of (AList.update ?e (count Ed ?e) ?r) e = opt_pos (count Ed e)" for e
        using er [of e] False by (cases "e = ?e") (simp_all add: opt_pos_def)
      then show ?thesis
        unfolding bag_rep_def eo ns3 using g2(3-5) ok(4) nr2 ns2 ek2 s2
        by (simp add: dict_ok_update)
    qed
    ultimately show ?thesis by blast
  next
    case True
    define g3 where "g3 = g2\<lparr>edge_refcounts := AList.update ?e 0 ?r\<rparr>"
    define h where "h = graph_delete_edge u v l g3"
    define g4 where "g4 = h\<lparr>edge_refcounts := AList.delete ?e (edge_refcounts h)\<rparr>"
    have d: "bag_delete_edge u v l g = Inr g4"
      using True g1(1) g2(1) er2 present
      by (simp add: bag_delete_edge_def g2(2) g1(2) Let_def g4_def h_def g3_def)
    have g3: "edges_of g3 = edges_of g2" "edges g3 = edges g2" "nodes g3 = nodes g2"
      "node_refcounts g3 = node_refcounts g2" "edge_refcounts g3 = AList.update ?e 0 ?r"
      by (simp_all add: g3_def edges_of_def fun_eq_iff)
    have g4: "nodes g4 = nodes h" "edges g4 = edges h" "node_refcounts g4 = node_refcounts h"
      "edge_refcounts g4 = AList.delete ?e (edge_refcounts h)" "edges_of g4 = edges_of h"
      by (simp_all add: g4_def edges_of_def fun_eq_iff)
    have raw: "nodes h = nodes g2" "dict_ok (edges h)" "fst ` set (edges h) = fst ` set (edges g2)"
      "edges_of h = (edges_of g2)(u := remove1 (v, l) (edges_of g2 u))"
      "node_refcounts h = node_refcounts g2" "edge_refcounts h = AList.update ?e 0 ?r"
      using graph_delete_edge_raw [where g = g3 and u = u and v = v and l = l] g2(4) by (simp_all add: h_def g3)
    have nin: "?e \<notin># Ed" using True by (simp add: not_in_iff)
    have eo4: "edges_of g4 = (edges_of g2)(u := remove1 (v, l) (edges_of g2 u))" by (simp add: g4 raw)
    have s4: "set (edges_of g4 w) = {(v', l'). (w, v', l') \<in># Ed}" "distinct (edges_of g4 w)" for w
      using es [of w] none [of w] nin by (auto simp: eo4 eo2 set_remove1_eq)
    have "map_of (edge_refcounts g4) e = opt_pos (count Ed e)" for e
      using er [of e] True by (cases "e = ?e") (simp_all add: g4 raw)
    then have "bag_rep g4 N Ed"
      unfolding bag_rep_def using g2(3-5) ok(4) nr2 ns2 ek2 s4
      by (simp add: g4 raw node_set_def dict_ok_update dict_ok_delete)
    with d show ?thesis by blast
  qed
qed

lemma bag_delete_edge_absent: "bag_rep g N Ed \<Longrightarrow> (u, v, l) \<notin># Ed \<Longrightarrow> bag_delete_edge u v l g = Inr g"
  by (simp add: bag_delete_edge_def bag_rep_def not_in_iff)

section \<open>The contract of a counted graph\<close>

text \<open>
  What the dependency graph of the policy rules asks of its base class: there is a
  representation relation under which adding puts one copy in and deleting takes one copy out
  and does not fail.
\<close>

locale counted_graph =
  fixes add_node :: "'n \<Rightarrow> 'g \<Rightarrow> 'g"
    and del_node :: "'n \<Rightarrow> 'g \<Rightarrow> 'g res"
    and add_edge :: "'n \<Rightarrow> 'n \<Rightarrow> 'l \<Rightarrow> 'g \<Rightarrow> 'g"
    and del_edge :: "'n \<Rightarrow> 'n \<Rightarrow> 'l \<Rightarrow> 'g \<Rightarrow> 'g res"
    and rep :: "'g \<Rightarrow> 'n multiset \<Rightarrow> ('n \<times> 'n \<times> 'l) multiset \<Rightarrow> bool"
  assumes add_node: "rep g N Ed \<Longrightarrow> rep (add_node v g) (add_mset v N) Ed"
    and add_edge: "rep g N Ed \<Longrightarrow> rep (add_edge u v l g) N (add_mset (u, v, l) Ed)"
    and del_node: "rep g (add_mset v N) Ed \<Longrightarrow> \<exists>g'. del_node v g = Inr g' \<and> rep g' N Ed"
    and del_edge: "rep g N (add_mset (u, v, l) Ed) \<Longrightarrow> \<exists>g'. del_edge u v l g = Inr g' \<and> rep g' N Ed"
begin

lemma add_nodes: "rep g N Ed \<Longrightarrow> rep (fold add_node vs g) (mset vs + N) Ed"
proof (induction vs arbitrary: g N)
  case (Cons v vs)
  from Cons.IH [OF add_node [OF Cons.prems, of v]] show ?case by simp
qed simp

lemma add_edges: "rep g N Ed \<Longrightarrow> rep (fold (\<lambda>(u, v, l). add_edge u v l) es g) N (mset es + Ed)"
proof (induction es arbitrary: g Ed)
  case (Cons e es)
  obtain u v l where "e = (u, v, l)" by (cases e) auto
  with Cons.IH [OF add_edge [OF Cons.prems, of u v l]] show ?case by simp
qed simp

lemma del_nodes: "rep g (mset vs + N) Ed \<Longrightarrow> \<exists>g'. for_res del_node vs g = Inr g' \<and> rep g' N Ed"
proof (induction vs arbitrary: g)
  case (Cons v vs)
  obtain h where "del_node v g = Inr h" "rep h (mset vs + N) Ed" using del_node Cons.prems by force
  with Cons.IH show ?case by simp
qed simp

lemma del_edges:
  "rep g N (mset es + Ed) \<Longrightarrow> \<exists>g'. for_res (\<lambda>(u, v, l). del_edge u v l) es g = Inr g' \<and> rep g' N Ed"
proof (induction es arbitrary: g)
  case (Cons e es)
  obtain u v l where e: "e = (u, v, l)" by (cases e) auto
  obtain h where "del_edge u v l g = Inr h" "rep h N (mset es + Ed)"
    using del_edge [of g N u v l] Cons.prems by (force simp: e)
  with Cons.IH show ?case by (simp add: e)
qed simp

end

interpretation bag: counted_graph bag_add_node bag_delete_node bag_add_edge bag_delete_edge bag_rep
  by unfold_locales
    (blast intro: bag_add_node_rep bag_add_edge_rep(1) dest: bag_delete_node_rep bag_delete_edge_rep)+

section \<open>Histories of insertions and deletions\<close>

datatype ('n, 'l) edge_op = AddE 'n 'n 'l | DelE 'n 'n 'l

fun run_edge_op :: "('n, 'l) edge_op \<Rightarrow> ('n, 'l) bag_graph \<Rightarrow> ('n, 'l) bag_graph res" where
  "run_edge_op (AddE u v l) g = Inr (bag_add_edge u v l g)"
| "run_edge_op (DelE u v l) g = bag_delete_edge u v l g"

text \<open>The specification: a bag of edges.\<close>

fun spec_edge_op :: "('n, 'l) edge_op \<Rightarrow> ('n \<times> 'n \<times> 'l) multiset \<Rightarrow> ('n \<times> 'n \<times> 'l) multiset" where
  "spec_edge_op (AddE u v l) Ed = add_mset (u, v, l) Ed"
| "spec_edge_op (DelE u v l) Ed = Ed - {#(u, v, l)#}"

lemma run_edge_op_rep:
  assumes "bag_rep g {#} Ed"
  shows "\<exists>g'. run_edge_op p g = Inr g' \<and> bag_rep g' {#} (spec_edge_op p Ed)"
proof (cases p)
  case (AddE u v l)
  then show ?thesis using bag_add_edge_rep(1) [OF assms] by simp
next
  case (DelE u v l)
  then show ?thesis
    using bag_delete_edge_rep [of g "{#}" u v l "Ed - {#(u, v, l)#}"] bag_delete_edge_absent [of g "{#}" Ed u v l] assms
    by (cases "(u, v, l) \<in># Ed") (simp_all add: diff_single_trivial)
qed

lemma run_edge_ops_rep:
  "bag_rep g {#} Ed \<Longrightarrow> \<exists>g'. for_res run_edge_op ps g = Inr g' \<and> bag_rep g' {#} (fold spec_edge_op ps Ed)"
proof (induction ps arbitrary: g Ed)
  case (Cons p ps)
  obtain h where "run_edge_op p g = Inr h" "bag_rep h {#} (spec_edge_op p Ed)"
    using run_edge_op_rep [OF Cons.prems] by blast
  with Cons.IH show ?case by simp
qed simp

text \<open>
  C30. A bag graph refines a bag of edges: after any history of edge insertions and deletions
  (also of edges that are not there), starting from the empty graph, no operation has raised,
  every edge is counted as often as the bag holds it, the graph has exactly the edges of the
  bag, its nodes are exactly the ends of those edges, and it is well formed.
\<close>

theorem bag_graph_refines_multiset:
  "\<exists>g. for_res run_edge_op ps bag_empty = Inr g \<and> graph_wf g \<and>
       (\<forall>u v l. edge_count u v l g = count (fold spec_edge_op ps {#}) (u, v, l)) \<and>
       (\<forall>u v l. graph_edge_in u v l g = ((u, v, l) \<in># fold spec_edge_op ps {#})) \<and>
       (\<forall>n. graph_node_in n g = (\<exists>e \<in># fold spec_edge_op ps {#}. incid n e \<noteq> 0))"
proof -
  let ?Ed = "fold spec_edge_op ps {#}"
  obtain g where g: "for_res run_edge_op ps bag_empty = Inr g" and rep: "bag_rep g {#} ?Ed"
    using run_edge_ops_rep [OF bag_rep_empty] by blast
  have "graph_edge_in u v l g = ((u, v, l) \<in># ?Ed)" for u v l
    using rep by (simp add: graph_edge_in_def bag_rep_def)
  moreover have "graph_node_in n g = (\<exists>e \<in># ?Ed. incid n e \<noteq> 0)" for n
    using bag_rep_wf(3) [OF rep] by (simp add: graph_node_in_def node_set_def tot_def set_eq_iff)
  ultimately show ?thesis using g bag_rep_wf(1) [OF rep] bag_rep_counts(2) [OF rep] by blast
qed

text \<open>
  Deleting does not always clear the cached cycles: add a self loop, ask for cycles, delete
  the loop. The graph has neither edges nor nodes left, and \<open>has_cycle\<close> still answers true:
  \<open>BagGraph.delete_edge\<close> first deletes the node (and with it the node's edge set), and then
  \<open>Graph.delete_edge\<close> takes the \<open>KeyError\<close> path, which skips \<open>_cycles = None\<close>.
\<close>

theorem bag_has_cycle_stale:
  "rbind (has_cycle (bag_add_edge (0::nat) 0 () bag_empty)) (\<lambda>(_, g).
     rbind (bag_delete_edge 0 0 () g) (\<lambda>g.
     rbind (has_cycle g) (\<lambda>(b, g). Inr (nodes g, edges g, b)))) = Inr ([], [], True)"
  by code_simp

end
