(* ===== verification/Modal_Index.thy ===== *)
theory Modal_Index
  imports Prelude
begin

text \<open>
  \<open>analysis.ModalIndex\<close>: a dictionary from a modal (such as \<open>execute\<close>) to a dictionary that
  counts, for each table, the rules whose head uses the table with that modal.

  \<open>__iadd__\<close> stores the inner dictionary of the other index without copying it, so the
  two indices share it afterwards. The inner dictionaries are therefore cells of an explicit
  store: an index maps a modal to the address of its inner dictionary.
\<close>

declare map_of_eq_Some_iff [simp del] Some_eq_map_of_iff [simp del]

section \<open>State and operations\<close>

record mstore =
  cell :: "nat \<Rightarrow> (string, int) dict"
  brk :: nat

type_synonym modal_index = "(string, nat) dict"

definition set_cell :: "nat \<Rightarrow> (string, int) dict \<Rightarrow> mstore \<Rightarrow> mstore" where
  "set_cell r d h = h\<lparr>cell := (cell h)(r := d)\<rparr>"

definition mstore_empty :: mstore where
  "mstore_empty = \<lparr>cell = (\<lambda>_. []), brk = 0\<rparr>"

definition modal_add :: "string \<Rightarrow> string \<Rightarrow> mstore \<times> modal_index \<Rightarrow> mstore \<times> modal_index" where
  "modal_add m t = (\<lambda>(h, ix).
     let (h, ix) = (case map_of ix m of
           Some _ \<Rightarrow> (h, ix)
         | None \<Rightarrow> ((set_cell (brk h) [] h)\<lparr>brk := brk h + 1\<rparr>, AList.update m (brk h) ix))
     in case map_of ix m of
          None \<Rightarrow> (h, ix)
        | Some r \<Rightarrow>
            let d = cell h r;
                d = (if map_of d t = None then AList.update t 0 d else d)
            in (set_cell r (AList.update t (the (map_of d t) + 1) d) h, ix))"

definition modal_clean_up :: "string \<times> string \<Rightarrow> mstore \<times> modal_index \<Rightarrow> (mstore \<times> modal_index) res" where
  "modal_clean_up mt hix =
     (let (m, t) = mt; (h, ix) = hix in
      case map_of ix m of
        None \<Rightarrow> Inl KeyError
      | Some r \<Rightarrow>
          (case map_of (cell h r) t of
             None \<Rightarrow> Inl KeyError
           | Some c \<Rightarrow>
               let h = (if c \<le> 0 then set_cell r (AList.delete t (cell h r)) h else h)
               in Inr (h, if cell h r = [] then AList.delete m ix else ix)))"

definition modal_remove :: "string \<Rightarrow> string \<Rightarrow> mstore \<times> modal_index \<Rightarrow> (mstore \<times> modal_index) res" where
  "modal_remove m t = (\<lambda>(h, ix).
     case map_of ix m of
       None \<Rightarrow> Inl KeyError
     | Some r \<Rightarrow>
         (case map_of (cell h r) t of
            None \<Rightarrow> Inl KeyError
          | Some c \<Rightarrow>
              modal_clean_up (m, t) (set_cell r (AList.update t (c - 1) (cell h r)) h, ix)))"

definition modal_modals :: "modal_index \<Rightarrow> string list" where
  "modal_modals ix = dkeys ix"

definition modal_tables :: "string \<Rightarrow> mstore \<Rightarrow> modal_index \<Rightarrow> string list" where
  "modal_tables m h ix = (case map_of ix m of None \<Rightarrow> [] | Some r \<Rightarrow> dkeys (cell h r))"

text \<open>One table of \<open>self.index[modal]\<close> in the double loop of \<open>__isub__\<close>.\<close>

definition modal_sub_table ::
    "nat \<Rightarrow> nat \<Rightarrow> string \<Rightarrow> string \<Rightarrow> mstore \<times> (string \<times> string) list \<Rightarrow> mstore \<times> (string \<times> string) list" where
  "modal_sub_table r ro m t = (\<lambda>(h, changes).
     case (map_of (cell h r) t, map_of (cell h ro) t) of
       (Some c, Some co) \<Rightarrow> (set_cell r (AList.update t (c - co) (cell h r)) h, changes @ [(m, t)])
     | _ \<Rightarrow> (h, changes))"

definition modal_isub :: "modal_index \<Rightarrow> mstore \<times> modal_index \<Rightarrow> (mstore \<times> modal_index) res" where
  "modal_isub other = (\<lambda>(h, ix).
     let (h, changes) =
       fold (\<lambda>(m, r) (h, changes).
               case map_of other m of
                 None \<Rightarrow> (h, changes)
               | Some ro \<Rightarrow> fold (modal_sub_table r ro m) (dkeys (cell h r)) (h, changes))
         ix (h, [])
     in for_res modal_clean_up changes (h, ix))"

definition modal_add_table :: "nat \<Rightarrow> nat \<Rightarrow> string \<Rightarrow> mstore \<Rightarrow> mstore" where
  "modal_add_table r ro t h =
     (case map_of (cell h ro) t of
        None \<Rightarrow> h
      | Some co \<Rightarrow>
          (case map_of (cell h r) t of
             None \<Rightarrow> set_cell r (AList.update t co (cell h r)) h
           | Some c \<Rightarrow> set_cell r (AList.update t (c + co) (cell h r)) h))"

definition modal_iadd :: "modal_index \<Rightarrow> mstore \<times> modal_index \<Rightarrow> mstore \<times> modal_index" where
  "modal_iadd other hix =
     fold (\<lambda>(m, ro) (h, ix).
             case map_of ix m of
               None \<Rightarrow> (h, AList.update m ro ix)
             | Some r \<Rightarrow> (fold (modal_add_table r ro) (dkeys (cell h ro)) h, ix))
       other hix"

definition modal_in :: "string \<Rightarrow> modal_index \<Rightarrow> bool" where
  "modal_in m ix = (map_of ix m \<noteq> None)"

text \<open>\<open>__copy__\<close> makes deep copies of the inner dictionaries.\<close>

definition modal_copy :: "mstore \<Rightarrow> modal_index \<Rightarrow> mstore \<times> modal_index" where
  "modal_copy h ix =
     fold (\<lambda>(m, r) (h, new). ((set_cell (brk h) (cell h r) h)\<lparr>brk := brk h + 1\<rparr>, new @ [(m, brk h)]))
       ix (h, [])"

section \<open>What an index stands for\<close>

definition mcount :: "mstore \<Rightarrow> modal_index \<Rightarrow> string \<Rightarrow> string \<Rightarrow> int" where
  "mcount h ix m t =
     (case map_of ix m of None \<Rightarrow> 0 | Some r \<Rightarrow> (case map_of (cell h r) t of None \<Rightarrow> 0 | Some c \<Rightarrow> c))"

definition refs :: "modal_index \<Rightarrow> nat set" where
  "refs ix = snd ` set ix"

definition modal_wf0 :: "mstore \<Rightarrow> modal_index \<Rightarrow> bool" where
  "modal_wf0 h ix = (dict_ok ix \<and> distinct (map snd ix) \<and>
     (\<forall>r \<in> refs ix. r < brk h \<and> dict_ok (cell h r) \<and> cell h r \<noteq> []))"

definition modal_wf :: "mstore \<Rightarrow> modal_index \<Rightarrow> bool" where
  "modal_wf h ix = (modal_wf0 h ix \<and> (\<forall>r \<in> refs ix. \<forall>t c. map_of (cell h r) t = Some c \<longrightarrow> 0 < c))"

lemma set_cell_simps [simp]:
  "cell (set_cell r d h) = (cell h)(r := d)" "brk (set_cell r d h) = brk h"
  by (simp_all add: set_cell_def)

lemma refsI: "map_of ix m = Some r \<Longrightarrow> r \<in> refs ix"
  by (force simp: refs_def dest: map_of_SomeD)

lemma refs_Some: "dict_ok ix \<Longrightarrow> r \<in> refs ix \<Longrightarrow> \<exists>m. map_of ix m = Some r"
proof -
  assume ok: "dict_ok ix" and "r \<in> refs ix"
  then obtain m where "(m, r) \<in> set ix" unfolding refs_def by force
  with ok show ?thesis by (auto simp only: dict_mem_iff)
qed

lemma refs_inj:
  assumes "distinct (map snd ix)" "map_of ix m = Some r" "map_of ix n = Some r" shows "m = n"
  using assms map_of_SomeD [OF assms(2)] map_of_SomeD [OF assms(3)]
  by (metis distinct_map inj_onD prod.inject snd_conv)

lemma refs_delete: "refs (AList.delete m ix) \<subseteq> refs ix"
  by (auto simp: refs_def AList.delete_eq)

lemma distinct_snd_delete: "distinct (map snd ix) \<Longrightarrow> distinct (map snd (AList.delete m ix))"
  by (simp add: AList.delete_eq distinct_map_filter)

lemma modal_wf_pos:
  "modal_wf h ix \<Longrightarrow> map_of ix m = Some r \<Longrightarrow> map_of (cell h r) t = Some c \<Longrightarrow> 0 < c"
  using refsI [of ix m r] by (simp add: modal_wf_def)

lemma mcount_pos_iff:
  assumes "modal_wf h ix" shows "t \<in> set (modal_tables m h ix) \<longleftrightarrow> 0 < mcount h ix m t"
proof (cases "map_of ix m")
  case None
  then show ?thesis by (simp add: modal_tables_def mcount_def)
next
  case (Some r)
  show ?thesis
  proof (cases "map_of (cell h r) t")
    case None
    with Some show ?thesis by (simp add: modal_tables_def mcount_def map_of_None_keys [symmetric])
  next
    case (Some c)
    with \<open>map_of ix m = Some r\<close> modal_wf_pos [OF assms] map_of_Some_keys [OF Some] show ?thesis
      by (simp add: modal_tables_def mcount_def)
  qed
qed

lemma mcount_nonneg: "modal_wf h ix \<Longrightarrow> 0 \<le> mcount h ix m t"
  by (auto simp: mcount_def dest: modal_wf_pos split: option.splits)

lemma modal_wf_empty: "modal_wf h []"
  by (simp add: modal_wf_def modal_wf0_def refs_def)

lemma mcount_empty [simp]: "mcount h [] m t = 0"
  by (simp add: mcount_def)

section \<open>Insertion\<close>

text \<open>An index whose cells another index does not reach can be changed without it noticing.\<close>

lemma mcount_cong: "(\<And>r. r \<in> refs ix \<Longrightarrow> cell h' r = cell h r) \<Longrightarrow> mcount h' ix = mcount h ix"
  by (auto simp: mcount_def fun_eq_iff dest: refsI split: option.splits)

lemma modal_wf_cong:
  "(\<And>r. r \<in> refs ix \<Longrightarrow> cell h' r = cell h r) \<Longrightarrow> brk h \<le> brk h' \<Longrightarrow> modal_wf h ix \<Longrightarrow> modal_wf h' ix"
  by (force simp: modal_wf_def modal_wf0_def)

lemma update_new: "map_of d k = None \<Longrightarrow> AList.update k v d = d @ [(k, v)]"
  by (induction d) (auto split: if_splits)

lemma modal_wf_set_cell:
  assumes "modal_wf h ix" "dict_ok d" "d \<noteq> []" "\<And>t c. map_of d t = Some c \<Longrightarrow> 0 < c"
  shows "modal_wf (set_cell r d h) ix"
  using assms by (simp add: modal_wf_def modal_wf0_def)

lemma mcount_set_cell:
  assumes "modal_wf0 h ix" "map_of ix m = Some r"
  shows "mcount (set_cell r d h) ix n t =
    (if n = m then (case map_of d t of None \<Rightarrow> 0 | Some c \<Rightarrow> c) else mcount h ix n t)"
proof (cases "map_of ix n")
  case None
  with assms(2) show ?thesis by (auto simp: mcount_def)
next
  case (Some r')
  with assms refs_inj [of ix n r m] show ?thesis by (cases "n = m") (auto simp: mcount_def modal_wf0_def)
qed

lemma update_nonempty [simp]: "AList.update t v d \<noteq> []"
  by (cases d) auto

lemma update_again [simp]: "AList.update t v (AList.update t w d) = AList.update t v d"
  by (induction d) auto

lemma modal_add_ok:
  assumes wf: "modal_wf h ix" and eq: "modal_add m t (h, ix) = (h', ix')"
  shows "modal_wf h' ix'" "mcount h' ix' n u = mcount h ix n u + (if n = m \<and> u = t then 1 else 0)"
    "refs ix' \<subseteq> refs ix \<union> {brk h}" "brk h \<le> brk h'" "\<And>r. r \<notin> refs ix' \<Longrightarrow> cell h' r = cell h r"
proof -
  have "modal_wf h' ix' \<and> mcount h' ix' n u = mcount h ix n u + (if n = m \<and> u = t then 1 else 0) \<and>
    refs ix' \<subseteq> refs ix \<union> {brk h} \<and> brk h \<le> brk h' \<and> (\<forall>r. r \<notin> refs ix' \<longrightarrow> cell h' r = cell h r)"
  proof (cases "map_of ix m")
    case (Some r)
    let ?c = "case map_of (cell h r) t of None \<Rightarrow> 0 | Some c \<Rightarrow> c"
    let ?d = "AList.update t (?c + 1) (cell h r)"
    have h': "h' = set_cell r ?d h" "ix' = ix"
      using eq Some by (auto simp: modal_add_def Let_def split: option.splits)
    have "0 \<le> ?c" using modal_wf_pos [OF wf Some] by (auto split: option.splits intro: less_imp_le)
    then have "0 < c" if "map_of ?d u = Some c" for u c
      using that modal_wf_pos [OF wf Some, of u c] by (simp split: if_splits)
    moreover have "dict_ok (cell h r)" using wf refsI [OF Some] by (simp add: modal_wf_def modal_wf0_def)
    ultimately have "modal_wf h' ix'" unfolding h' by (intro modal_wf_set_cell wf) (auto intro: dict_ok_update)
    moreover have "mcount h' ix' n u = mcount h ix n u + (if n = m \<and> u = t then 1 else 0)"
      using mcount_set_cell [OF _ Some, of h ?d n u] wf Some
      by (auto simp: h' modal_wf_def mcount_def split: option.splits)
    ultimately show ?thesis using refsI [OF Some] by (auto simp: h')
  next
    case None
    let ?h = "h\<lparr>brk := brk h + 1\<rparr>"
    have new: "brk h \<notin> refs ix" using wf by (auto simp: modal_wf_def modal_wf0_def)
    have h': "h' = set_cell (brk h) [(t, 1)] ?h" "ix' = AList.update m (brk h) ix"
      using eq None by (auto simp: modal_add_def Let_def set_cell_def)
    note up = update_new [OF None, of "brk h"]
    have "modal_wf h' ix'"
      using wf new None by (auto simp: h' modal_wf_def modal_wf0_def up refs_def map_of_None_keys split: if_splits)
    moreover have "mcount h' ix' n u = mcount h ix n u + (if n = m \<and> u = t then 1 else 0)"
      using None new by (auto simp: h' mcount_def dest: refsI split: option.splits)
    ultimately show ?thesis by (auto simp: h' up refs_def)
  qed
  then show "modal_wf h' ix'" "mcount h' ix' n u = mcount h ix n u + (if n = m \<and> u = t then 1 else 0)"
    "refs ix' \<subseteq> refs ix \<union> {brk h}" "brk h \<le> brk h'" "\<And>r. r \<notin> refs ix' \<Longrightarrow> cell h' r = cell h r" by blast+
qed

section \<open>Subtraction\<close>

definition same_outside :: "nat set \<Rightarrow> mstore \<Rightarrow> mstore \<Rightarrow> bool" where
  "same_outside R h h' = (brk h' = brk h \<and> (\<forall>r. r \<notin> R \<longrightarrow> cell h' r = cell h r))"

lemma same_outside_refl [simp]: "same_outside R h h"
  by (simp add: same_outside_def)

lemma same_outside_trans:
  "same_outside R h h' \<Longrightarrow> same_outside S h' h'' \<Longrightarrow> S \<subseteq> R \<Longrightarrow> same_outside R h h''"
  by (auto simp: same_outside_def)

lemma same_outside_set_cell [simp]: "r \<in> R \<Longrightarrow> same_outside R h (set_cell r d h)"
  by (simp add: same_outside_def)

text \<open>Entries whose count was lowered and that \<open>_clean_up\<close> still has to look at.\<close>

definition pending :: "mstore \<Rightarrow> modal_index \<Rightarrow> (string \<times> string) list \<Rightarrow> bool" where
  "pending h ix cs = (modal_wf0 h ix \<and> distinct cs \<and>
     (\<forall>m t. (m, t) \<in> set cs \<longrightarrow> (\<exists>r c. map_of ix m = Some r \<and> map_of (cell h r) t = Some c)) \<and>
     (\<forall>m r t c. map_of ix m = Some r \<longrightarrow> map_of (cell h r) t = Some c \<longrightarrow> (m, t) \<notin> set cs \<longrightarrow> 0 < c))"

lemma dict_Nil_iff: "d = [] \<longleftrightarrow> map_of d = Map.empty"
  by simp

lemma clean_up_step:
  assumes p: "pending h ix ((m, t) # cs)"
  shows "\<exists>h' ix'. modal_clean_up (m, t) (h, ix) = Inr (h', ix') \<and> pending h' ix' cs \<and>
     (\<forall>n u. mcount h' ix' n u = (if n = m \<and> u = t then max 0 (mcount h ix m t) else mcount h ix n u)) \<and>
     same_outside (refs ix) h h' \<and> refs ix' \<subseteq> refs ix"
proof -
  have wf0: "modal_wf0 h ix" and dist: "distinct ((m, t) # cs)"
    and pk: "\<And>n u. (n, u) \<in> set ((m, t) # cs) \<Longrightarrow> \<exists>r c. map_of ix n = Some r \<and> map_of (cell h r) u = Some c"
    and pp: "\<And>n r u c. map_of ix n = Some r \<Longrightarrow> map_of (cell h r) u = Some c \<Longrightarrow>
               (n, u) \<notin> set ((m, t) # cs) \<Longrightarrow> 0 < c"
    using p unfolding pending_def by blast+
  obtain r c where r: "map_of ix m = Some r" and c: "map_of (cell h r) t = Some c"
    using pk [of m t] by auto
  note ri = refs_inj [OF conjunct1 [OF conjunct2 [OF wf0 [unfolded modal_wf0_def]]]]
  have rr: "r \<in> refs ix" using r by (rule refsI)
  show ?thesis
  proof (cases "c \<le> 0")
    case False
    have "0 < c'" if "map_of ix n = Some r'" "map_of (cell h r') u = Some c'" "(n, u) \<notin> set cs" for n r' u c'
      using pp [OF that(1,2)] that r c False by (cases "(n, u) = (m, t)") auto
    then have "pending h ix cs" using wf0 dist pk unfolding pending_def by (metis distinct.simps(2) list.set_intros(2))
    moreover have "mcount h ix m t = c" using r c by (simp add: mcount_def)
    moreover have "cell h r \<noteq> []" using wf0 rr by (simp add: modal_wf0_def)
    ultimately show ?thesis using r c False by (intro exI [of _ h] exI [of _ ix]) (auto simp: modal_clean_up_def)
  next
    case True
    let ?d = "AList.delete t (cell h r)"
    define h1 where "h1 = set_cell r ?d h"
    have mc: "mcount h1 ix n u = (if n = m \<and> u = t then 0 else mcount h ix n u)" for n u
      using mcount_set_cell [OF wf0 r, of ?d n u] r by (auto simp: h1_def mcount_def)
    have z: "max 0 (mcount h ix m t) = 0" using True r c by (simp add: mcount_def)
    have cells: "map_of (cell h1 r') u = (if r' = r \<and> u = t then None else map_of (cell h r') u)" for r' u
      by (auto simp: h1_def)
    have so: "same_outside (refs ix) h h1" using rr by (simp add: h1_def)
    show ?thesis
    proof (cases "?d = []")
      case False
      have "modal_wf0 h1 ix" using wf0 False by (auto simp: modal_wf0_def h1_def intro: dict_ok_delete)
      moreover have "\<exists>r' c'. map_of ix n = Some r' \<and> map_of (cell h1 r') u = Some c'" if nu: "(n, u) \<in> set cs" for n u
      proof -
        obtain r' c' where "map_of ix n = Some r'" "map_of (cell h r') u = Some c'" using pk [OF list.set_intros(2) [OF nu]] by blast
        with nu dist ri [OF r] show ?thesis by (auto simp: cells)
      qed
      moreover have "0 < c'"
        if "map_of ix n = Some r'" "map_of (cell h1 r') u = Some c'" "(n, u) \<notin> set cs" for n r' u c'
        using pp [of n r' u c'] that r by (cases "n = m \<and> u = t") (auto simp: cells split: if_splits)
      ultimately have "pending h1 ix cs" using dist unfolding pending_def by (metis distinct.simps(2))
      moreover have "modal_clean_up (m, t) (h, ix) = Inr (h1, ix)"
        using r c True False by (simp add: modal_clean_up_def h1_def)
      moreover have "mcount h1 ix n u = (if n = m \<and> u = t then max 0 (mcount h ix m t) else mcount h ix n u)" for n u
        using mc z by simp
      ultimately show ?thesis using so by blast
    next
      case e: True
      let ?ix = "AList.delete m ix"
      have none: "map_of (cell h1 r) u = None" for u using e by (simp add: h1_def)
      have "r \<notin> refs ?ix"
      proof
        assume "r \<in> refs ?ix"
        then obtain n where n: "(n, r) \<in> set ix" "n \<noteq> m" by (auto simp: refs_def AList.delete_eq)
        have "dict_ok ix" using wf0 by (simp add: modal_wf0_def)
        with n(1) have "map_of ix n = Some r" by (simp only: dict_mem_iff)
        from ri [OF r this] n(2) show False by simp
      qed
      then have "modal_wf0 h1 ?ix"
        using wf0 refs_delete [of m ix]
        by (auto simp: modal_wf0_def h1_def dict_ok_delete distinct_snd_delete)
      moreover have "n \<noteq> m" if "(n, u) \<in> set cs" for n u
      proof
        assume "n = m"
        with that r dist pk [of n u] have "u \<noteq> t" "map_of (cell h r) u \<noteq> None" by auto
        with none [of u] show False by (simp add: cells)
      qed
      then have "\<exists>r' c'. map_of ?ix n = Some r' \<and> map_of (cell h1 r') u = Some c'" if "(n, u) \<in> set cs" for n u
        using pk [of n u] that ri [OF r, of n] by (fastforce simp: cells)
      moreover have "0 < c'"
        if "map_of ?ix n = Some r'" "map_of (cell h1 r') u = Some c'" "(n, u) \<notin> set cs" for n r' u c'
        using pp [of n r' u c'] that by (auto simp: cells split: if_splits)
      ultimately have "pending h1 ?ix cs" using dist unfolding pending_def by (metis distinct.simps(2))
      moreover have "mcount h1 ?ix n u = mcount h1 ix n u" for n u
        using none r by (simp add: mcount_def)
      then have "mcount h1 ?ix n u = (if n = m \<and> u = t then max 0 (mcount h ix m t) else mcount h ix n u)" for n u
        using mc z by simp
      moreover have "modal_clean_up (m, t) (h, ix) = Inr (h1, ?ix)"
        using r c True e by (simp add: modal_clean_up_def h1_def)
      ultimately show ?thesis using so refs_delete by blast
    qed
  qed
qed

lemma clean_ups:
  "pending h ix cs \<Longrightarrow> \<exists>h' ix'. for_res modal_clean_up cs (h, ix) = Inr (h', ix') \<and> modal_wf h' ix' \<and>
     (\<forall>n u. mcount h' ix' n u = max 0 (mcount h ix n u)) \<and> same_outside (refs ix) h h' \<and> refs ix' \<subseteq> refs ix"
proof (induction cs arbitrary: h ix)
  case Nil
  have "0 < c" if r: "r \<in> refs ix" "map_of (cell h r) t = Some c" for r t c
  proof -
    have "dict_ok ix" using Nil by (simp add: pending_def modal_wf0_def)
    then obtain m where "map_of ix m = Some r" using refs_Some r(1) by blast
    with r(2) Nil show ?thesis unfolding pending_def by (metis empty_iff empty_set)
  qed
  then have "modal_wf h ix" using Nil by (auto simp: modal_wf_def pending_def)
  with mcount_nonneg [OF this] show ?case by simp
next
  case (Cons mt cs)
  obtain m t where mt: "mt = (m, t)" by (cases mt)
  obtain h1 ix1 where 1: "modal_clean_up (m, t) (h, ix) = Inr (h1, ix1)" "pending h1 ix1 cs"
     "\<forall>n u. mcount h1 ix1 n u = (if n = m \<and> u = t then max 0 (mcount h ix m t) else mcount h ix n u)"
     "same_outside (refs ix) h h1" "refs ix1 \<subseteq> refs ix"
    using clean_up_step [OF Cons.prems [unfolded mt]] by blast
  from Cons.IH [OF 1(2)] obtain h2 ix2 where 2: "for_res modal_clean_up cs (h1, ix1) = Inr (h2, ix2)"
     "modal_wf h2 ix2" "\<forall>n u. mcount h2 ix2 n u = max 0 (mcount h1 ix1 n u)"
     "same_outside (refs ix1) h1 h2" "refs ix2 \<subseteq> refs ix1" by blast
  have "mcount h2 ix2 n u = max 0 (mcount h ix n u)" for n u using 1(3) 2(3) by simp
  moreover have "for_res modal_clean_up (mt # cs) (h, ix) = Inr (h2, ix2)" using 1(1) 2(1) by (simp add: mt)
  ultimately show ?case using 2(2) same_outside_trans [OF 1(4) 2(4) 1(5)] 1(5) 2(5) by blast
qed

definition minus_opt :: "int option \<Rightarrow> int option \<Rightarrow> int option" where
  "minus_opt c co = (case (c, co) of (Some c, Some co) \<Rightarrow> Some (c - co) | _ \<Rightarrow> c)"

lemma sub_tables:
  assumes "r \<noteq> ro" "distinct ts" "set ts \<subseteq> fst ` set (cell h r)"
  shows "\<exists>d. fold (modal_sub_table r ro m) ts (h, ch) =
       (set_cell r d h, ch @ map (Pair m) (filter (\<lambda>t. map_of (cell h ro) t \<noteq> None) ts)) \<and>
     dkeys d = dkeys (cell h r) \<and>
     (\<forall>t. map_of d t = (if t \<in> set ts then minus_opt (map_of (cell h r) t) (map_of (cell h ro) t)
                        else map_of (cell h r) t))"
  using assms
proof (induction ts arbitrary: h ch)
  case Nil
  have "set_cell r (cell h r) h = h" by (simp add: set_cell_def)
  then show ?case by (intro exI [of _ "cell h r"]) simp
next
  case (Cons t ts)
  obtain c where c: "map_of (cell h r) t = Some c" using Cons.prems(3)
    by (cases "map_of (cell h r) t") (auto simp: map_of_None_keys)
  define h1 where "h1 = fst (modal_sub_table r ro m t (h, ch))"
  define ch1 where "ch1 = snd (modal_sub_table r ro m t (h, ch))"
  have step: "modal_sub_table r ro m t (h, ch) = (h1, ch1)" by (simp add: h1_def ch1_def)
  have ch1: "ch1 = ch @ map (Pair m) (filter (\<lambda>t. map_of (cell h ro) t \<noteq> None) [t])"
    and keys: "dkeys (cell h1 r) = dkeys (cell h r)" and ro: "cell h1 ro = cell h ro"
    and upd: "set_cell r d h1 = set_cell r d h"
    and get: "map_of (cell h1 r) = (map_of (cell h r))(t := minus_opt (Some c) (map_of (cell h ro) t))" for d
    using c Cons.prems(1) map_of_Some_keys [OF c]
    by (auto simp: h1_def ch1_def modal_sub_table_def minus_opt_def keys_update set_cell_def split: option.splits)
  have "set ts \<subseteq> fst ` set (cell h1 r)" using Cons.prems(3) arg_cong [OF keys, of set] by auto
  from Cons.IH [OF Cons.prems(1) _ this, of ch1] Cons.prems(2) obtain d where
    d: "fold (modal_sub_table r ro m) ts (h1, ch1) =
         (set_cell r d h1, ch1 @ map (Pair m) (filter (\<lambda>t. map_of (cell h1 ro) t \<noteq> None) ts))"
      "dkeys d = dkeys (cell h1 r)"
      "\<forall>u. map_of d u = (if u \<in> set ts then minus_opt (map_of (cell h1 r) u) (map_of (cell h1 ro) u)
                        else map_of (cell h1 r) u)" by auto
  show ?case
    using d Cons.prems(2) c by (intro exI [of _ d]) (auto simp: step ch1 upd keys ro get)
qed

definition modal_sub_modal ::
    "modal_index \<Rightarrow> string \<times> nat \<Rightarrow> mstore \<times> (string \<times> string) list \<Rightarrow> mstore \<times> (string \<times> string) list" where
  "modal_sub_modal other = (\<lambda>(m, r) (h, changes).
     case map_of other m of
       None \<Rightarrow> (h, changes)
     | Some ro \<Rightarrow> fold (modal_sub_table r ro m) (dkeys (cell h r)) (h, changes))"

definition other_opt :: "mstore \<Rightarrow> modal_index \<Rightarrow> string \<Rightarrow> string \<Rightarrow> int option" where
  "other_opt h other m t = (case map_of other m of None \<Rightarrow> None | Some ro \<Rightarrow> map_of (cell h ro) t)"

lemma sub_modal_step:
  assumes "r \<notin> refs other" "dict_ok (cell h r)"
  shows "\<exists>d ts. modal_sub_modal other (m, r) (h, ch) = (set_cell r d h, ch @ map (Pair m) ts) \<and> distinct ts \<and>
     dkeys d = dkeys (cell h r) \<and>
     (\<forall>t. t \<in> set ts \<longleftrightarrow> map_of (cell h r) t \<noteq> None \<and> other_opt h other m t \<noteq> None) \<and>
     (\<forall>t. map_of d t = minus_opt (map_of (cell h r) t) (other_opt h other m t))"
proof (cases "map_of other m")
  case None
  then show ?thesis
    by (intro exI [of _ "cell h r"] exI [of _ "[]"])
      (auto simp: modal_sub_modal_def set_cell_def other_opt_def minus_opt_def split: option.splits)
next
  case (Some ro)
  then have "r \<noteq> ro" using assms(1) refsI by metis
  moreover have "set (dkeys (cell h r)) \<subseteq> fst ` set (cell h r)" by simp
  note sub_tables [OF calculation assms(2) this, of m ch]
  then
  obtain d where d: "fold (modal_sub_table r ro m) (dkeys (cell h r)) (h, ch) =
       (set_cell r d h, ch @ map (Pair m) (filter (\<lambda>t. map_of (cell h ro) t \<noteq> None) (dkeys (cell h r))))"
     "dkeys d = dkeys (cell h r)"
     "\<forall>t. map_of d t = (if t \<in> set (dkeys (cell h r)) then minus_opt (map_of (cell h r) t) (map_of (cell h ro) t)
                        else map_of (cell h r) t)" by blast
  have "map_of d t = minus_opt (map_of (cell h r) t) (other_opt h other m t)" for t
  proof (cases "t \<in> set (dkeys (cell h r))")
    case False
    then have "map_of (cell h r) t = None" by (simp add: map_of_None_keys)
    with d(3) False show ?thesis by (simp add: minus_opt_def)
  qed (use d(3) Some in \<open>simp add: other_opt_def\<close>)
  then show ?thesis using d(1,2) Some assms(2)
    by (intro exI [of _ d] exI [of _ "filter (\<lambda>t. map_of (cell h ro) t \<noteq> None) (dkeys (cell h r))"])
      (auto simp: modal_sub_modal_def other_opt_def map_of_None_keys [symmetric] simp del: map_of_eq_None_iff
        dest: map_of_Some_keys)
qed

text \<open>What the double loop leaves: the counts are lowered, the lowered entries are listed.\<close>

lemma sub_modals:
  assumes "dict_ok L" "distinct (map snd L)" "refs L \<inter> refs other = {}" "\<And>r. r \<in> refs L \<Longrightarrow> dict_ok (cell h r)"
    "distinct ch" "\<And>m t. (m, t) \<in> set ch \<Longrightarrow> m \<notin> fst ` set L"
  shows "\<exists>h' ch'. fold (modal_sub_modal other) L (h, ch) = (h', ch @ ch') \<and> same_outside (refs L) h h' \<and>
     distinct (ch @ ch') \<and>
     (\<forall>m r. (m, r) \<in> set L \<longrightarrow> dkeys (cell h' r) = dkeys (cell h r) \<and>
        (\<forall>t. (m, t) \<in> set ch' \<longleftrightarrow> map_of (cell h r) t \<noteq> None \<and> other_opt h other m t \<noteq> None) \<and>
        (\<forall>t. map_of (cell h' r) t = minus_opt (map_of (cell h r) t) (other_opt h other m t))) \<and>
     (\<forall>m t. (m, t) \<in> set ch' \<longrightarrow> m \<in> fst ` set L)"
  using assms
proof (induction L arbitrary: h ch)
  case (Cons x L)
  obtain m r where x: "x = (m, r)" by (cases x)
  have r: "r \<notin> refs other" "r \<notin> refs L" "r \<in> refs (x # L)" "dict_ok (cell h r)" "refs L \<subseteq> refs (x # L)"
    using Cons.prems by (auto simp: x refs_def)
  from sub_modal_step [OF r(1,4), of m ch] obtain d ts where
    d: "modal_sub_modal other (m, r) (h, ch) = (set_cell r d h, ch @ map (Pair m) ts)" "distinct ts"
     "dkeys d = dkeys (cell h r)"
     "\<forall>t. t \<in> set ts \<longleftrightarrow> map_of (cell h r) t \<noteq> None \<and> other_opt h other m t \<noteq> None"
     "\<forall>t. map_of d t = minus_opt (map_of (cell h r) t) (other_opt h other m t)" by blast
  let ?h = "set_cell r d h" and ?ch = "ch @ map (Pair m) ts"
  have oo: "other_opt ?h other n t = other_opt h other n t" for n t
    using r(1) by (auto simp: other_opt_def dest: refsI split: option.splits)
  have "distinct ?ch" using Cons.prems(5,6) d(2) by (fastforce simp: x distinct_map inj_on_def)
  moreover have "n \<notin> fst ` set L" if "(n, t) \<in> set ?ch" for n t
    using that Cons.prems(1) Cons.prems(6) [of n t] by (auto simp: x)
  moreover have "dict_ok (cell ?h r')" if "r' \<in> refs L" for r'
    using that Cons.prems(4) r by auto
  moreover have "dict_ok L" "distinct (map snd L)" "refs L \<inter> refs other = {}"
    using Cons.prems(1-3) r(5) by (auto simp: x)
  ultimately have "\<exists>h' ch'. fold (modal_sub_modal other) L (?h, ?ch) = (h', ?ch @ ch') \<and>
     same_outside (refs L) ?h h' \<and> distinct (?ch @ ch') \<and>
     (\<forall>n r. (n, r) \<in> set L \<longrightarrow> dkeys (cell h' r) = dkeys (cell ?h r) \<and>
        (\<forall>t. (n, t) \<in> set ch' \<longleftrightarrow> map_of (cell ?h r) t \<noteq> None \<and> other_opt ?h other n t \<noteq> None) \<and>
        (\<forall>t. map_of (cell h' r) t = minus_opt (map_of (cell ?h r) t) (other_opt ?h other n t))) \<and>
     (\<forall>n t. (n, t) \<in> set ch' \<longrightarrow> n \<in> fst ` set L)"
    by (intro Cons.IH) blast+
  then obtain h' ch' where
    h': "fold (modal_sub_modal other) L (?h, ?ch) = (h', ?ch @ ch')" "same_outside (refs L) ?h h'" "distinct (?ch @ ch')"
     "\<forall>n r. (n, r) \<in> set L \<longrightarrow> dkeys (cell h' r) = dkeys (cell ?h r) \<and>
        (\<forall>t. (n, t) \<in> set ch' \<longleftrightarrow> map_of (cell ?h r) t \<noteq> None \<and> other_opt ?h other n t \<noteq> None) \<and>
        (\<forall>t. map_of (cell h' r) t = minus_opt (map_of (cell ?h r) t) (other_opt ?h other n t))"
     "\<forall>n t. (n, t) \<in> set ch' \<longrightarrow> n \<in> fst ` set L"
    by blast
  have new: "cell h' r = d" using h'(2) r(2) by (simp add: same_outside_def)
  have rest: "r' \<noteq> r" "n \<noteq> m" if "(n, r') \<in> set L" for n r'
    using that Cons.prems(1) r(2) by (force simp: x refs_def)+
  have notm: "(m, t) \<notin> set ch'" for t using h'(5) Cons.prems(1) by (auto simp: x)
  show ?case
  proof (intro exI [of _ h'] exI [of _ "map (Pair m) ts @ ch'"] conjI allI impI)
    show "fold (modal_sub_modal other) (x # L) (h, ch) = (h', ch @ map (Pair m) ts @ ch')"
      using d(1) h'(1) by (simp add: x)
    show "same_outside (refs (x # L)) h h'"
      using same_outside_trans [OF same_outside_set_cell [OF r(3)] h'(2) r(5)] .
    show "distinct (ch @ map (Pair m) ts @ ch')" using h'(3) by simp
  next
    fix n r' assume "(n, r') \<in> set (x # L)"
    then consider "n = m" "r' = r" | "(n, r') \<in> set L" by (auto simp: x)
    then have "dkeys (cell h' r') = dkeys (cell h r') \<and>
      (\<forall>t. (n, t) \<in> set (map (Pair m) ts @ ch') \<longleftrightarrow> map_of (cell h r') t \<noteq> None \<and> other_opt h other n t \<noteq> None) \<and>
      (\<forall>t. map_of (cell h' r') t = minus_opt (map_of (cell h r') t) (other_opt h other n t))"
    proof cases
      case 1
      have "(m, t) \<in> set (map (Pair m) ts @ ch') \<longleftrightarrow> t \<in> set ts" for t using notm by auto
      with 1 new d(3-5) show ?thesis by simp
    next
      case 2
      have "(n, t) \<in> set (map (Pair m) ts @ ch') \<longleftrightarrow> (n, t) \<in> set ch'" for t using rest [OF 2] by auto
      with 2 h'(4) rest [OF 2] oo show ?thesis by simp
    qed
    then show "dkeys (cell h' r') = dkeys (cell h r')"
      "(n, t) \<in> set (map (Pair m) ts @ ch') \<longleftrightarrow> map_of (cell h r') t \<noteq> None \<and> other_opt h other n t \<noteq> None"
      "map_of (cell h' r') t = minus_opt (map_of (cell h r') t) (other_opt h other n t)" for t by blast+
  next
    fix n t assume "(n, t) \<in> set (map (Pair m) ts @ ch')"
    then show "n \<in> fst ` set (x # L)" using h'(5) by (auto simp: x)
  qed
qed auto

lemma modal_isub_ok:
  assumes wf: "modal_wf h ix" "modal_wf h other" and sep: "refs ix \<inter> refs other = {}"
  shows "\<exists>h' ix'. modal_isub other (h, ix) = Inr (h', ix') \<and> modal_wf h' ix' \<and>
     (\<forall>m t. mcount h' ix' m t = max 0 (mcount h ix m t - mcount h other m t)) \<and>
     same_outside (refs ix) h h' \<and> refs ix' \<subseteq> refs ix"
proof -
  have wf0: "modal_wf0 h ix" using wf(1) by (simp add: modal_wf_def)
  then have ok: "dict_ok ix" "distinct (map snd ix)" "\<And>r. r \<in> refs ix \<Longrightarrow> dict_ok (cell h r)"
    by (auto simp: modal_wf0_def)
  obtain h1 ch where f: "fold (modal_sub_modal other) ix (h, []) = (h1, ch)"
    and so: "same_outside (refs ix) h h1" and dist: "distinct ch"
    and all: "\<forall>m r. (m, r) \<in> set ix \<longrightarrow> dkeys (cell h1 r) = dkeys (cell h r) \<and>
        (\<forall>t. (m, t) \<in> set ch \<longleftrightarrow> map_of (cell h r) t \<noteq> None \<and> other_opt h other m t \<noteq> None) \<and>
        (\<forall>t. map_of (cell h1 r) t = minus_opt (map_of (cell h r) t) (other_opt h other m t))"
    and ks: "\<forall>m t. (m, t) \<in> set ch \<longrightarrow> m \<in> fst ` set ix"
    using sub_modals [OF ok(1,2) sep ok(3), of "[]"] by auto
  have get: "dkeys (cell h1 r) = dkeys (cell h r)"
     "(m, t) \<in> set ch \<longleftrightarrow> map_of (cell h r) t \<noteq> None \<and> other_opt h other m t \<noteq> None"
     "map_of (cell h1 r) t = minus_opt (map_of (cell h r) t) (other_opt h other m t)"
    if "map_of ix m = Some r" for m r t
    using all map_of_SomeD [OF that] by blast+
  have "\<exists>m. map_of ix m = Some r" if "r \<in> refs ix" for r
    using refs_Some [OF ok(1) that] .
  then have wf1: "modal_wf0 h1 ix"
    unfolding modal_wf0_def
  proof (intro conjI ballI)
    fix r assume r: "r \<in> refs ix"
    then have "dkeys (cell h1 r) = dkeys (cell h r)" using \<open>\<And>r. r \<in> refs ix \<Longrightarrow> \<exists>m. map_of ix m = Some r\<close> get(1) by blast
    moreover from this have "cell h1 r = [] \<longleftrightarrow> cell h r = []" by (metis map_is_Nil_conv)
    ultimately show "dict_ok (cell h1 r)" "cell h1 r \<noteq> []" "r < brk h1"
      using wf0 so r by (simp_all add: modal_wf0_def same_outside_def)
  qed (rule ok)+
  have "\<exists>r c. map_of ix m = Some r \<and> map_of (cell h1 r) t = Some c" if mt: "(m, t) \<in> set ch" for m t
  proof -
    have "m \<in> fst ` set ix" using ks mt by blast
    then obtain r where r: "map_of ix m = Some r" by (cases "map_of ix m") (auto simp: map_of_None_keys)
    with get(2,3) [OF r] mt show ?thesis by (auto simp: minus_opt_def)
  qed
  moreover have "0 < c" if r: "map_of ix m = Some r" and c: "map_of (cell h1 r) t = Some c" and n: "(m, t) \<notin> set ch"
    for m r t c
  proof -
    have "map_of (cell h r) t = Some c" using get(2,3) [OF r] c n by (auto simp: minus_opt_def split: option.splits)
    then show ?thesis by (rule modal_wf_pos [OF wf(1) r])
  qed
  ultimately have "pending h1 ix ch" using wf1 dist unfolding pending_def by blast
  from clean_ups [OF this] obtain h' ix' where h': "for_res modal_clean_up ch (h1, ix) = Inr (h', ix')"
    "modal_wf h' ix'" "\<forall>m t. mcount h' ix' m t = max 0 (mcount h1 ix m t)" "same_outside (refs ix) h1 h'"
    "refs ix' \<subseteq> refs ix" by blast
  have "max 0 (mcount h1 ix m t) = max 0 (mcount h ix m t - mcount h other m t)" for m t
  proof (cases "map_of ix m")
    case None
    then show ?thesis using mcount_nonneg [OF wf(2), of m t] by (simp add: mcount_def)
  next
    case (Some r)
    have "mcount h other m t = (case other_opt h other m t of None \<Rightarrow> 0 | Some c \<Rightarrow> c)"
      by (simp add: mcount_def other_opt_def split: option.splits)
    moreover have "mcount h1 ix m t = (case minus_opt (map_of (cell h r) t) (other_opt h other m t) of None \<Rightarrow> 0 | Some c \<Rightarrow> c)"
      "mcount h ix m t = (case map_of (cell h r) t of None \<Rightarrow> 0 | Some c \<Rightarrow> c)"
      using Some get(3) [OF Some] by (simp_all add: mcount_def)
    ultimately show ?thesis using mcount_nonneg [OF wf(2), of m t]
      by (auto simp: minus_opt_def split: option.splits)
  qed
  moreover have "modal_isub other (h, ix) = Inr (h', ix')"
    using f h'(1) by (simp add: modal_isub_def modal_sub_modal_def [abs_def] split_beta)
  ultimately show ?thesis using h' same_outside_trans [OF so h'(4)] by (metis order.refl)
qed

section \<open>Addition\<close>

definition plus_opt :: "int option \<Rightarrow> int option \<Rightarrow> int option" where
  "plus_opt c co = (case co of None \<Rightarrow> c | Some co \<Rightarrow> Some ((case c of None \<Rightarrow> 0 | Some c \<Rightarrow> c) + co))"

lemma add_tables:
  assumes "r \<noteq> ro" "distinct ts"
  shows "\<exists>d. fold (modal_add_table r ro) ts h = set_cell r d h \<and> (dict_ok (cell h r) \<longrightarrow> dict_ok d) \<and>
     (cell h r \<noteq> [] \<longrightarrow> d \<noteq> []) \<and>
     (\<forall>t. map_of d t = (if t \<in> set ts then plus_opt (map_of (cell h r) t) (map_of (cell h ro) t)
                        else map_of (cell h r) t))"
  using assms
proof (induction ts arbitrary: h)
  case Nil
  have "set_cell r (cell h r) h = h" by (simp add: set_cell_def)
  then show ?case by (intro exI [of _ "cell h r"]) simp
next
  case (Cons t ts)
  define h1 where "h1 = modal_add_table r ro t h"
  have h1: "cell h1 ro = cell h ro" "set_cell r d h1 = set_cell r d h"
    "dict_ok (cell h r) \<Longrightarrow> dict_ok (cell h1 r)" "cell h r \<noteq> [] \<Longrightarrow> cell h1 r \<noteq> []"
    "map_of (cell h1 r) = (map_of (cell h r))(t := plus_opt (map_of (cell h r) t) (map_of (cell h ro) t))" for d
    using Cons.prems(1)
    by (auto simp: h1_def modal_add_table_def plus_opt_def set_cell_def intro: dict_ok_update split: option.splits)
  from Cons.IH [OF Cons.prems(1), of h1] Cons.prems(2) obtain d where
    d: "fold (modal_add_table r ro) ts h1 = set_cell r d h1" "dict_ok (cell h1 r) \<longrightarrow> dict_ok d"
      "cell h1 r \<noteq> [] \<longrightarrow> d \<noteq> []"
      "\<forall>u. map_of d u = (if u \<in> set ts then plus_opt (map_of (cell h1 r) u) (map_of (cell h1 ro) u)
                        else map_of (cell h1 r) u)" by auto
  show ?case
    using d h1 Cons.prems(2) by (intro exI [of _ d]) (auto simp: h1_def [symmetric])
qed

definition modal_add_modal :: "string \<times> nat \<Rightarrow> mstore \<times> modal_index \<Rightarrow> mstore \<times> modal_index" where
  "modal_add_modal = (\<lambda>(m, ro) (h, ix).
     case map_of ix m of
       None \<Rightarrow> (h, AList.update m ro ix)
     | Some r \<Rightarrow> (fold (modal_add_table r ro) (dkeys (cell h ro)) h, ix))"

lemma add_modal_step:
  assumes wf: "modal_wf h ix" "modal_wf h [(m, ro)]" and ro: "ro \<notin> refs ix"
  shows "\<exists>h' ix'. modal_add_modal (m, ro) (h, ix) = (h', ix') \<and> modal_wf h' ix' \<and>
     (\<forall>n t. mcount h' ix' n t = mcount h ix n t + mcount h [(m, ro)] n t) \<and>
     same_outside (refs ix) h h' \<and> refs ix' \<subseteq> insert ro (refs ix)"
proof (cases "map_of ix m")
  case None
  note up = update_new [OF None, of ro]
  have "modal_wf h (AList.update m ro ix)"
    using wf ro None unfolding up by (auto simp: modal_wf_def modal_wf0_def refs_def map_of_None_keys)
  moreover have "mcount h (AList.update m ro ix) n t = mcount h ix n t + mcount h [(m, ro)] n t" for n t
    using None by (auto simp: mcount_def)
  ultimately show ?thesis using None by (auto simp: modal_add_modal_def up refs_def)
next
  case (Some r)
  have r: "r \<in> refs ix" "r \<noteq> ro" using refsI [OF Some] ro by auto
  have ok: "dict_ok (cell h ro)" "modal_wf0 h ix" "dict_ok (cell h r)" "cell h r \<noteq> []"
    using wf r(1) by (auto simp: modal_wf_def modal_wf0_def refs_def)
  from add_tables [OF r(2) ok(1), of h] obtain d where
    d: "fold (modal_add_table r ro) (dkeys (cell h ro)) h = set_cell r d h" "dict_ok d" "d \<noteq> []"
      "\<And>t. map_of d t = (if t \<in> set (dkeys (cell h ro)) then plus_opt (map_of (cell h r) t) (map_of (cell h ro) t)
                        else map_of (cell h r) t)" using ok by blast
  have d': "map_of d t = plus_opt (map_of (cell h r) t) (map_of (cell h ro) t)" for t
  proof (cases "t \<in> set (dkeys (cell h ro))")
    case False
    then have "map_of (cell h ro) t = None" by (simp add: map_of_None_keys)
    with d(4) False show ?thesis by (simp add: plus_opt_def)
  qed (use d(4) in simp)
  have pr: "map_of (cell h r) t = Some c \<Longrightarrow> 0 < c" for t c by (rule modal_wf_pos [OF wf(1) Some])
  have pro: "map_of (cell h ro) t = Some c \<Longrightarrow> 0 < c" for t c using modal_wf_pos [OF wf(2), of m ro] by simp
  have "0 < c" if "map_of d t = Some c" for t c
    using that pr [of t] pro [of t]
    by (cases "map_of (cell h r) t"; cases "map_of (cell h ro) t") (auto simp: d' plus_opt_def)
  then have "modal_wf (set_cell r d h) ix" by (intro modal_wf_set_cell wf d(2,3))
  moreover have "mcount (set_cell r d h) ix n t = mcount h ix n t + mcount h [(m, ro)] n t" for n t
  proof (cases "n = m")
    case True
    then show ?thesis unfolding mcount_set_cell [OF ok(2) Some] using Some
      by (simp add: d' plus_opt_def mcount_def split: option.splits)
  next
    case False
    then show ?thesis unfolding mcount_set_cell [OF ok(2) Some] by (simp add: mcount_def)
  qed
  ultimately show ?thesis using Some d(1) r(1) by (auto simp: modal_add_modal_def)
qed

lemma modal_wf_Cons: "modal_wf h (x # L) \<Longrightarrow> modal_wf h [x] \<and> modal_wf h L"
  by (auto simp: modal_wf_def modal_wf0_def refs_def)

lemma modal_iadd_ok:
  assumes "modal_wf h ix" "modal_wf h other" "refs ix \<inter> refs other = {}"
  shows "\<exists>h' ix'. modal_iadd other (h, ix) = (h', ix') \<and> modal_wf h' ix' \<and>
     (\<forall>m t. mcount h' ix' m t = mcount h ix m t + mcount h other m t) \<and>
     same_outside (refs ix \<union> refs other) h h' \<and> refs ix' \<subseteq> refs ix \<union> refs other"
proof -
  have "\<exists>h' ix'. fold modal_add_modal other (h, ix) = (h', ix') \<and> modal_wf h' ix' \<and>
     (\<forall>m t. mcount h' ix' m t = mcount h ix m t + mcount h other m t) \<and>
     same_outside (refs ix \<union> refs other) h h' \<and> refs ix' \<subseteq> refs ix \<union> refs other"
    using assms
  proof (induction other arbitrary: h ix)
    case (Cons x L)
    obtain m ro where x: "x = (m, ro)" by (cases x)
    have ro: "ro \<notin> refs ix" "ro \<notin> refs L" "m \<notin> fst ` set L" "refs L \<inter> refs ix = {}"
      using Cons.prems(2,3) by (auto simp: x refs_def modal_wf_def modal_wf0_def)
    note wfs = modal_wf_Cons [OF Cons.prems(2)]
    from add_modal_step [OF Cons.prems(1) conjunct1 [OF wfs, unfolded x] ro(1)] obtain h1 ix1 where
      1: "modal_add_modal (m, ro) (h, ix) = (h1, ix1)" "modal_wf h1 ix1"
       "\<forall>n t. mcount h1 ix1 n t = mcount h ix n t + mcount h [(m, ro)] n t"
       "same_outside (refs ix) h h1" "refs ix1 \<subseteq> insert ro (refs ix)" by blast
    have eq: "cell h1 r = cell h r" if "r \<in> refs L" for r
      using 1(4) that ro(4) by (auto simp: same_outside_def)
    have "modal_wf h1 L"
      using wfs 1(4) by (intro modal_wf_cong [of L h1 h] eq) (auto simp: same_outside_def)
    moreover have "refs ix1 \<inter> refs L = {}" using 1(5) ro by blast
    ultimately obtain h2 ix2 where
      2: "fold modal_add_modal L (h1, ix1) = (h2, ix2)" "modal_wf h2 ix2"
       "\<forall>m t. mcount h2 ix2 m t = mcount h1 ix1 m t + mcount h1 L m t" "same_outside (refs ix1 \<union> refs L) h1 h2" "refs ix2 \<subseteq> refs ix1 \<union> refs L"
      using Cons.IH [OF 1(2)] by blast
    have "mcount h1 L = mcount h L" by (rule mcount_cong) (rule eq)
    moreover have "mcount h (x # L) n t = mcount h [(m, ro)] n t + mcount h L n t" for n t
      using ro(3) by (auto simp: x mcount_def map_of_None_keys [symmetric] simp del: map_of_eq_None_iff)
    ultimately have "mcount h2 ix2 n t = mcount h ix n t + mcount h (x # L) n t" for n t
      using 1(3) 2(3) by simp
    moreover have sub: "refs ix1 \<union> refs L \<subseteq> refs ix \<union> refs (x # L)" using 1(5) by (auto simp: refs_def x)
    then have "same_outside (refs ix \<union> refs (x # L)) h h2"
      using 1(4) 2(4) unfolding same_outside_def by (metis UnI1 subsetD)
    ultimately show ?case using 1(1) 2(1,2,5) sub by (auto simp: x)
  qed auto
  then show ?thesis by (simp add: modal_iadd_def modal_add_modal_def [abs_def])
qed

section \<open>Histories\<close>

lemma modal_remove_ok:
  assumes wf: "modal_wf h ix"
  shows "if 0 < mcount h ix m t
    then \<exists>h' ix'. modal_remove m t (h, ix) = Inr (h', ix') \<and> modal_wf h' ix' \<and>
      (\<forall>n u. mcount h' ix' n u = mcount h ix n u - (if n = m \<and> u = t then 1 else 0))
    else modal_remove m t (h, ix) = Inl KeyError"
proof (cases "map_of ix m")
  case None
  then show ?thesis by (simp add: mcount_def modal_remove_def)
next
  case (Some r)
  show ?thesis
  proof (cases "map_of (cell h r) t")
    case None
    with Some show ?thesis by (simp add: mcount_def modal_remove_def)
  next
    case c: (Some c)
    have pos: "0 < c" by (rule modal_wf_pos [OF wf Some c])
    have mc: "mcount h ix m t = c" using Some c by (simp add: mcount_def)
    have wf0: "modal_wf0 h ix" using wf by (simp add: modal_wf_def)
    let ?d = "AList.update t (c - 1) (cell h r)"
    let ?h = "set_cell r ?d h"
    have "modal_wf0 ?h ix" using wf0 by (auto simp: modal_wf0_def intro: dict_ok_update)
    moreover have "0 < c'" if "map_of ix n = Some r'" "map_of (cell ?h r') u = Some c'" "(n, u) \<notin> set [(m, t)]" for n r' u c'
      using that modal_wf_pos [OF wf that(1), of u c'] refs_inj [of ix n r m] Some wf0
      by (auto simp: modal_wf0_def split: if_splits)
    ultimately have "pending ?h ix [(m, t)]" using Some unfolding pending_def by auto
    from clean_ups [OF this] obtain h' ix' where h': "modal_clean_up (m, t) (?h, ix) = Inr (h', ix')" "modal_wf h' ix'"
      "\<forall>n u. mcount h' ix' n u = max 0 (mcount ?h ix n u)" by (auto simp: rbind_Inr_iff)
    have "mcount h' ix' n u = mcount h ix n u - (if n = m \<and> u = t then 1 else 0)" for n u
    proof (cases "n = m \<and> u = t")
      case True
      then show ?thesis using h'(3) pos mc by (simp add: mcount_set_cell [OF wf0 Some])
    next
      case False
      then have "mcount ?h ix n u = mcount h ix n u"
        unfolding mcount_set_cell [OF wf0 Some] using Some by (cases "n = m") (simp_all add: mcount_def)
      with False h'(3) mcount_nonneg [OF wf, of n u] show ?thesis by simp
    qed
    with h' Some c pos mc show ?thesis by (simp add: modal_remove_def)
  qed
qed

datatype modal_op = MAdd string string | MRemove string string

fun run_modal :: "modal_op \<Rightarrow> mstore \<times> modal_index \<Rightarrow> exc option \<times> mstore \<times> modal_index" where
  "run_modal (MAdd m t) s = (None, modal_add m t s)"
| "run_modal (MRemove m t) s = (case modal_remove m t s of Inl e \<Rightarrow> (Some e, s) | Inr s' \<Rightarrow> (None, s'))"

fun spec_modal :: "modal_op \<Rightarrow> (string \<times> string) multiset \<Rightarrow> exc option \<times> (string \<times> string) multiset" where
  "spec_modal (MAdd m t) M = (None, add_mset (m, t) M)"
| "spec_modal (MRemove m t) M = (if (m, t) \<in># M then (None, M - {#(m, t)#}) else (Some KeyError, M))"

definition modal_rep :: "mstore \<times> modal_index \<Rightarrow> (string \<times> string) multiset \<Rightarrow> bool" where
  "modal_rep s M = (modal_wf (fst s) (snd s) \<and> (\<forall>m t. mcount (fst s) (snd s) m t = int (count M (m, t))))"

lemma run_modal_sim:
  assumes "modal_rep s M"
  shows "fst (run_modal p s) = fst (spec_modal p M) \<and>
         modal_rep (snd (run_modal p s)) (snd (spec_modal p M))"
proof (cases p)
  case (MAdd m t)
  obtain h ix where s: "s = (h, ix)" by (cases s)
  obtain h' ix' where "modal_add m t (h, ix) = (h', ix')" by force
  with modal_add_ok(1,2) [OF _ this] assms MAdd s show ?thesis by (auto simp: modal_rep_def)
next
  case (MRemove m t)
  obtain h ix where s: "s = (h, ix)" by (cases s)
  have "(0 < mcount h ix m t) = ((m, t) \<in># M)" using assms s by (simp add: modal_rep_def)
  with modal_remove_ok [of h ix m t] assms MRemove s show ?thesis
    by (cases "(m, t) \<in># M") (auto simp: modal_rep_def of_nat_diff Suc_leI)
qed

lemma modal_rep_tables:
  assumes "modal_rep (h, ix) M"
  shows "set (modal_tables m h ix) = {t. (m, t) \<in># M}" "modal_in m ix \<longleftrightarrow> (\<exists>t. (m, t) \<in># M)"
proof -
  have wf: "modal_wf h ix" using assms by (simp add: modal_rep_def)
  show t: "set (modal_tables m h ix) = {t. (m, t) \<in># M}"
    using mcount_pos_iff [OF wf] assms by (auto simp: modal_rep_def)
  have "modal_in m ix \<longleftrightarrow> set (modal_tables m h ix) \<noteq> {}"
    using wf refsI [of ix m]
    by (cases "map_of ix m") (auto simp: modal_in_def modal_tables_def modal_wf_def modal_wf0_def)
  then show "modal_in m ix \<longleftrightarrow> (\<exists>t. (m, t) \<in># M)" by (auto simp: t)
qed

text \<open>
  C31. The modal index refines a bag of pairs of a modal and a table: any history of \<open>add\<close> and
  \<open>remove\<close> raises \<open>KeyError\<close> exactly for the removals of a pair that is not there, and
  afterwards \<open>tables\<close> of a modal lists exactly the tables the bag holds with it and a modal is
  in the index exactly when it has a table.
\<close>

theorem modal_index_refines_bag:
  "let (outs, h, ix) = run_ops run_modal ps (mstore_empty, []);
       (outs', M) = run_ops spec_modal ps {#}
   in outs = outs' \<and> (\<forall>m. set (modal_tables m h ix) = {t. (m, t) \<in># M}) \<and>
      (\<forall>m. modal_in m ix = (\<exists>t. (m, t) \<in># M))"
proof -
  let ?i = "run_ops run_modal ps (mstore_empty, [])" and ?s = "run_ops spec_modal ps {#}"
  have "fst ?i = fst ?s \<and> modal_rep (snd ?i) (snd ?s)"
    by (rule run_ops_sim [where R = modal_rep]) (rule run_modal_sim, assumption, simp add: modal_rep_def modal_wf_empty)
  then show ?thesis
    using modal_rep_tables [of "fst (snd ?i)" "snd (snd ?i)" "snd ?s"] by (simp add: split_beta)
qed

text \<open>
  The sharing matters: an index holds \<open>execute\<close>/\<open>p\<close>; a batch removes it, adds a new rule's
  index with \<open>execute\<close>/\<open>q\<close>, and is then undone with the same two change indices. Because \<open>+=\<close>
  adopted the inner dictionary of the new rule's index, putting \<open>p\<close> back also puts it into that
  index, and subtracting it removes both: \<open>p\<close> is lost. Had the index been copied when it was added,
  the undo would give back \<open>p\<close>.
\<close>

theorem modal_undo_loses_entry:
  "let (h, old) = modal_add ''execute'' ''p'' (mstore_empty, []);
       (h, old') = modal_add ''execute'' ''p'' (h, []);
       (h, new) = modal_add ''execute'' ''q'' (h, []);
       (hc, new') = modal_copy h new;
       tables = map_sum id (\<lambda>(h, ix). modal_tables ''execute'' h ix)
   in modal_tables ''execute'' h old = [''p''] \<and>
      tables (rbind (modal_isub old' (h, old)) (\<lambda>s. modal_isub new (modal_iadd old' (modal_iadd new s)))) = Inr [] \<and>
      tables (rbind (modal_isub old' (hc, old)) (\<lambda>s. modal_isub new (modal_iadd old' (modal_iadd new' s)))) = Inr [''p'']"
  by code_simp

end
