(* ===== verification/Stratify.thy ===== *)
theory Stratify
  imports Graph_Reach
begin

text \<open>
  \<open>Graph.stratification\<close>: the loop ends within its fuel, computes the least stratification
  and answers \<open>None\<close> exactly when a cycle runs through one of the given labels.
\<close>

section \<open>Stratifications\<close>

definition weight :: "'l list \<Rightarrow> 'l \<Rightarrow> nat" where
  "weight labels l = (if l \<in> set labels then 1 else 0)"

definition stratifies :: "'l list \<Rightarrow> ('n, 'l, 'z) graph_scheme \<Rightarrow> ('n \<Rightarrow> nat) \<Rightarrow> bool" where
  "stratifies labels g s =
     ((\<forall>v \<in> node_set g. 1 \<le> s v) \<and>
      (\<forall>u v l. (v, l) \<in> set (edges_of g u) \<longrightarrow> s v + weight labels l \<le> s u))"

definition label_cycle :: "'l list \<Rightarrow> ('n, 'l, 'z) graph_scheme \<Rightarrow> bool" where
  "label_cycle labels g =
     (\<exists>u v l. (v, l) \<in> set (edges_of g u) \<and> l \<in> set labels \<and> (v, u) \<in> (edge_rel g)\<^sup>*)"

lemma stratifies_mono: "(u, v) \<in> (edge_rel g)\<^sup>* \<Longrightarrow> stratifies labels g s \<Longrightarrow> s v \<le> s u"
proof (induction rule: rtrancl_induct)
  case (step v w)
  then obtain l where "(w, l) \<in> set (edges_of g v)" by (auto simp: edge_rel_def)
  then have "s w + weight labels l \<le> s v" using step.prems by (simp add: stratifies_def)
  with step show ?case by simp
qed simp

lemma stratifies_no_label_cycle: "stratifies labels g s \<Longrightarrow> \<not> label_cycle labels g"
proof
  assume s: "stratifies labels g s" and "label_cycle labels g"
  then obtain u v l where e: "(v, l) \<in> set (edges_of g u)" "l \<in> set labels" "(v, u) \<in> (edge_rel g)\<^sup>*"
    by (auto simp: label_cycle_def)
  from s e(1,2) have "s v + 1 \<le> s u" by (force simp: stratifies_def weight_def)
  with stratifies_mono [OF e(3) s] show False by simp
qed

text \<open>Without such a cycle, counting the labelled edges ahead of a node stratifies the graph.\<close>

definition edges_ahead :: "'l list \<Rightarrow> ('n, 'l, 'z) graph_scheme \<Rightarrow> 'n \<Rightarrow> ('n \<times> 'n) set" where
  "edges_ahead labels g u =
     {(x, y). (u, x) \<in> (edge_rel g)\<^sup>* \<and> (\<exists>l \<in> set labels. (y, l) \<in> set (edges_of g x))}"

lemma finite_edges_ahead: "graph_wf g \<Longrightarrow> finite (edges_ahead labels g u)"
  by (rule finite_subset [of _ "node_set g \<times> node_set g"])
    (auto simp: edges_ahead_def intro: edge_relI edge_rel_nodes)

lemma no_label_cycle_stratifies:
  assumes wf: "graph_wf g" and nc: "\<not> label_cycle labels g"
  shows "stratifies labels g (\<lambda>u. Suc (card (edges_ahead labels g u)))"
proof -
  have "card (edges_ahead labels g v) + weight labels l \<le> card (edges_ahead labels g u)"
    if e: "(v, l) \<in> set (edges_of g u)" for u v l
  proof -
    let ?A = "edges_ahead labels g"
    have sub: "?A v \<subseteq> ?A u"
      using edge_relI [OF e] by (auto simp: edges_ahead_def intro: converse_rtrancl_into_rtrancl)
    show ?thesis
    proof (cases "l \<in> set labels")
      case True
      then have "(u, v) \<in> ?A u" "(u, v) \<notin> ?A v"
        using e nc by (auto simp: edges_ahead_def label_cycle_def)
      then have "?A v \<subset> ?A u" using sub by blast
      then have "card (?A v) < card (?A u)" by (rule psubset_card_mono [OF finite_edges_ahead [OF wf]])
      with True show ?thesis by (simp add: weight_def)
    next
      case False
      with sub show ?thesis by (simp add: weight_def card_mono finite_edges_ahead [OF wf])
    qed
  qed
  then show ?thesis by (simp add: stratifies_def)
qed

text \<open>Renumbering the strata in use bounds a stratification by the number of nodes.\<close>

lemma stratifies_bounded:
  assumes wf: "graph_wf g" and s: "stratifies labels g s"
  shows "\<exists>s'. stratifies labels g s' \<and> (\<forall>v \<in> node_set g. s' v \<le> card (node_set g))"
proof -
  let ?S = "\<lambda>v. {s m | m. m \<in> node_set g \<and> s m \<le> s v}"
  have fin: "finite (?S v)" for v by (simp add: finite_image_set)
  have "stratifies labels g (\<lambda>v. card (?S v))" unfolding stratifies_def
  proof (intro conjI ballI allI impI)
    fix v assume "v \<in> node_set g"
    then have "?S v \<noteq> {}" by blast
    then show "1 \<le> card (?S v)" using fin by (simp add: Suc_le_eq card_gt_0_iff)
  next
    fix u v l assume e: "(v, l) \<in> set (edges_of g u)"
    then have le: "s v + weight labels l \<le> s u" using s by (auto simp: stratifies_def)
    have u: "u \<in> node_set g" using edge_rel_nodes [OF wf edge_relI [OF e]] by simp
    have sub: "?S v \<subseteq> ?S u" using le by auto
    show "card (?S v) + weight labels l \<le> card (?S u)"
    proof (cases "l \<in> set labels")
      case True
      then have "s u \<in> ?S u" "s u \<notin> ?S v" using le u by (auto simp: weight_def)
      then have "?S v \<subset> ?S u" using sub by blast
      then have "card (?S v) < card (?S u)" by (rule psubset_card_mono [OF fin])
      then show ?thesis using True by (simp add: weight_def)
    next
      case False
      then show ?thesis using sub by (simp add: weight_def card_mono fin)
    qed
  qed
  moreover have "card (?S v) \<le> card (node_set g)" for v
  proof -
    have "?S v \<subseteq> s ` node_set g" by auto
    then have "card (?S v) \<le> card (s ` node_set g)" by (simp add: card_mono)
    also have "\<dots> \<le> card (node_set g)" by (simp add: card_image_le)
    finally show ?thesis .
  qed
  ultimately show ?thesis by blast
qed

section \<open>One pass over the edges\<close>

definition flat_edges :: "('n, 'l, 'z) graph_scheme \<Rightarrow> ('n \<times> 'n \<times> 'l) list" where
  "flat_edges g = concat (map (\<lambda>(u, es). map (Pair u) es) (edges g))"

lemma strat_pass_flat:
  "strat_pass labels g st =
     for_res (\<lambda>(u, e). strat_edge labels (length (nodes g)) u e) (flat_edges g) (Some (st, False))"
  by (simp add: strat_pass_def flat_edges_def for_res_nested)

lemma flat_edges_mem:
  "graph_wf g \<Longrightarrow> (u, v, l) \<in> set (flat_edges g) \<longleftrightarrow> (v, l) \<in> set (edges_of g u)"
  by (force simp: flat_edges_def graph_wf_def edges_of_def split: option.splits dest: map_of_SomeD)

definition lookup0 :: "('n, nat) dict \<Rightarrow> 'n \<Rightarrow> nat" where
  "lookup0 st v = (case map_of st v of None \<Rightarrow> 0 | Some s \<Rightarrow> s)"

definition strat_inv :: "'l list \<Rightarrow> ('n, 'l, 'z) graph_scheme \<Rightarrow> ('n, nat) dict \<Rightarrow> bool" where
  "strat_inv labels g st =
     (dkeys st = dkeys (nodes g) \<and>
      (\<forall>v \<in> node_set g. 1 \<le> lookup0 st v \<and> lookup0 st v \<le> card (node_set g)) \<and>
      (\<forall>s. stratifies labels g s \<longrightarrow> (\<forall>v \<in> node_set g. lookup0 st v \<le> s v)))"

definition strat_sum :: "('n, 'l, 'z) graph_scheme \<Rightarrow> ('n, nat) dict \<Rightarrow> nat" where
  "strat_sum g st = sum (lookup0 st) (node_set g)"

lemma strat_inv_get:
  assumes "strat_inv labels g st" "v \<in> node_set g" shows "map_of st v = Some (lookup0 st v)"
proof -
  have "v \<in> fst ` set st"
    using assms by (metis list.set_map node_set_def strat_inv_def)
  then show ?thesis by (cases "map_of st v") (auto simp: lookup0_def map_of_None_keys)
qed

lemma lookup0_update [simp]: "lookup0 (AList.update u x st) v = (if v = u then x else lookup0 st v)"
  by (simp add: lookup0_def)

lemma strat_edge_cases:
  assumes wf: "graph_wf g" and inv: "strat_inv labels g st" and e: "(v, l) \<in> set (edges_of g u)"
  defines "new \<equiv> max (lookup0 st u) (lookup0 st v + weight labels l)"
  shows "strat_edge labels (length (nodes g)) u (v, l) (Some (st, ch)) =
           (if new > card (node_set g) then Inr None
            else Inr (Some (AList.update u new st, ch \<or> lookup0 st u \<noteq> new)))"
    and "\<And>s. stratifies labels g s \<Longrightarrow> new \<le> s u"
    and "new \<le> card (node_set g) \<Longrightarrow> strat_inv labels g (AList.update u new st)"
    and "new \<noteq> lookup0 st u \<Longrightarrow> strat_sum g st < strat_sum g (AList.update u new st)"
proof -
  have n: "u \<in> node_set g" "v \<in> node_set g" using edge_rel_nodes [OF wf edge_relI [OF e]] by auto
  show "strat_edge labels (length (nodes g)) u (v, l) (Some (st, ch)) =
           (if new > card (node_set g) then Inr None
            else Inr (Some (AList.update u new st, ch \<or> lookup0 st u \<noteq> new)))"
    by (simp add: strat_edge_def strat_inv_get [OF inv] n new_def weight_def length_nodes [OF wf] Let_def)
  show le: "new \<le> s u" if "stratifies labels g s" for s
  proof -
    have "lookup0 st u \<le> s u" "lookup0 st v \<le> s v" "s v + weight labels l \<le> s u"
      using that inv n e by (auto simp: strat_inv_def stratifies_def)
    then show ?thesis by (simp add: new_def)
  qed
  show "strat_inv labels g (AList.update u new st)" if "new \<le> card (node_set g)"
    using inv that le n unfolding strat_inv_def by (auto simp: keys_update node_set_def new_def)
  show "strat_sum g st < strat_sum g (AList.update u new st)" if "new \<noteq> lookup0 st u"
    unfolding strat_sum_def
    by (rule sum_strict_mono_ex1) (use that n in \<open>auto simp: new_def\<close>)
qed

lemma strat_edges_loop:
  assumes wf: "graph_wf g"
  shows "strat_inv labels g st \<Longrightarrow> (\<forall>(u, e) \<in> set es. e \<in> set (edges_of g u)) \<Longrightarrow>
   (for_res (\<lambda>(u, e). strat_edge labels (length (nodes g)) u e) es (Some (st, ch)) = Inr None \<and>
      (\<forall>s. stratifies labels g s \<longrightarrow> (\<exists>v \<in> node_set g. card (node_set g) < s v)))
   \<or> (\<exists>st' ch'. for_res (\<lambda>(u, e). strat_edge labels (length (nodes g)) u e) es (Some (st, ch)) =
         Inr (Some (st', ch')) \<and> strat_inv labels g st' \<and> (ch \<longrightarrow> ch') \<and>
        (if st' = st then ch' = ch \<and>
           (\<forall>(u, v, l) \<in> set es. lookup0 st v + weight labels l \<le> lookup0 st u)
         else ch' \<and> strat_sum g st < strat_sum g st'))"
proof (induction es arbitrary: st ch)
  case (Cons e es)
  obtain u v l where e: "e = (u, v, l)" by (cases e)
  let ?new = "max (lookup0 st u) (lookup0 st v + weight labels l)"
  let ?st = "AList.update u ?new st"
  have vl: "(v, l) \<in> set (edges_of g u)" using Cons.prems(2) e by auto
  note c = strat_edge_cases [OF wf Cons.prems(1) vl]
  have u: "u \<in> node_set g" using edge_rel_nodes [OF wf edge_relI [OF vl]] by simp
  have same: "?new = lookup0 st u \<Longrightarrow> ?st = st"
    by (metis AList.update_triv Cons.prems(1) strat_inv_get u)
  show ?case
  proof (cases "?new > card (node_set g)")
    case True
    have "for_res F xs None = Inr None"
      if "\<And>x. F x None = Inr None" for F :: "'a \<times> 'a \<times> 'b \<Rightarrow> (('a, nat) dict \<times> bool) option \<Rightarrow> _" and xs
      using that by (induction xs) auto
    then have "for_res (\<lambda>(u, e). strat_edge labels (length (nodes g)) u e) (e # es) (Some (st, ch)) = Inr None"
      using True c(1) e by (auto simp: strat_edge_def split_def)
    moreover have "\<exists>v \<in> node_set g. card (node_set g) < s v" if "stratifies labels g s" for s
      using c(2) [OF that] True u by (intro bexI [of _ u]) auto
    ultimately show ?thesis by blast
  next
    case False
    let ?ch = "ch \<or> lookup0 st u \<noteq> ?new"
    have step: "for_res (\<lambda>(u, e). strat_edge labels (length (nodes g)) u e) (e # es) (Some (st, ch)) =
        for_res (\<lambda>(u, e). strat_edge labels (length (nodes g)) u e) es (Some (?st, ?ch))"
      using False c(1) e by simp
    have inv: "strat_inv labels g ?st" by (rule c(3)) (use False in linarith)
    have sum: "?st \<noteq> st \<Longrightarrow> strat_sum g st < strat_sum g ?st" using c(4) same by metis
    have chg: "lookup0 st u \<noteq> ?new \<Longrightarrow> ?st \<noteq> st" using c(4) by force
    consider "for_res (\<lambda>(u, e). strat_edge labels (length (nodes g)) u e) es (Some (?st, ?ch)) = Inr None"
        "\<forall>s. stratifies labels g s \<longrightarrow> (\<exists>v \<in> node_set g. card (node_set g) < s v)"
      | st' ch' where "for_res (\<lambda>(u, e). strat_edge labels (length (nodes g)) u e) es (Some (?st, ?ch)) =
         Inr (Some (st', ch'))" "strat_inv labels g st'" "?ch \<longrightarrow> ch'"
        "if st' = ?st then ch' = ?ch \<and> (\<forall>(u, v, l) \<in> set es. lookup0 ?st v + weight labels l \<le> lookup0 ?st u)
         else ch' \<and> strat_sum g ?st < strat_sum g st'"
      using Cons.IH [OF inv, of ?ch] Cons.prems(2) by auto
    then show ?thesis
    proof cases
      case 1
      with step show ?thesis by auto
    next
      case (2 st' ch')
      have "if st' = st then ch' = ch \<and>
              (\<forall>(u, v, l) \<in> set (e # es). lookup0 st v + weight labels l \<le> lookup0 st u)
            else ch' \<and> strat_sum g st < strat_sum g st'"
      proof (cases "?st = st")
        case True
        then have "lookup0 st u = ?new" using chg by blast
        then show ?thesis using 2(4) True e by auto
      next
        case False
        then have "lookup0 st u \<noteq> ?new" using same by metis
        then show ?thesis using 2(3,4) False sum by (auto split: if_splits)
      qed
      with 2 step show ?thesis by auto
    qed
  qed
qed simp

section \<open>The loop\<close>

lemma strat_loop_ok:
  assumes wf: "graph_wf g"
  shows "strat_inv labels g st \<Longrightarrow> card (node_set g) * card (node_set g) < fuel + strat_sum g st \<Longrightarrow>
    (strat_loop fuel labels g st = Inr None \<and> (\<forall>s. \<not> stratifies labels g s)) \<or>
    (\<exists>st'. strat_loop fuel labels g st = Inr (Some st') \<and> strat_inv labels g st' \<and>
           stratifies labels g (lookup0 st'))"
proof (induction fuel arbitrary: st)
  case 0
  have "strat_sum g st \<le> card (node_set g) * card (node_set g)"
    unfolding strat_sum_def using 0(1) sum_bounded_above [of "node_set g" "lookup0 st" "card (node_set g)"]
    by (simp add: strat_inv_def)
  with 0(2) show ?case by simp
next
  case (Suc fuel)
  let ?pass = "strat_pass labels g st"
  have pass: "(?pass = Inr None \<and> (\<forall>s. stratifies labels g s \<longrightarrow> (\<exists>v \<in> node_set g. card (node_set g) < s v)))
   \<or> (\<exists>st' ch'. ?pass = Inr (Some (st', ch')) \<and> strat_inv labels g st' \<and>
        (if st' = st then \<not> ch' \<and>
           (\<forall>(u, v, l) \<in> set (flat_edges g). lookup0 st v + weight labels l \<le> lookup0 st u)
         else ch' \<and> strat_sum g st < strat_sum g st'))"
  proof -
    have m: "\<forall>(u, e) \<in> set (flat_edges g). e \<in> set (edges_of g u)"
      by (auto simp: flat_edges_mem [OF wf])
    show ?thesis
      using strat_edges_loop [OF wf Suc.prems(1) m, of False]
      unfolding strat_pass_flat by (simp only: simp_thms)
  qed
  then consider "?pass = Inr None"
      "\<forall>s. stratifies labels g s \<longrightarrow> (\<exists>v \<in> node_set g. card (node_set g) < s v)"
    | "?pass = Inr (Some (st, False))"
      "\<forall>(u, v, l) \<in> set (flat_edges g). lookup0 st v + weight labels l \<le> lookup0 st u"
    | st' where "?pass = Inr (Some (st', True))" "strat_inv labels g st'" "strat_sum g st < strat_sum g st'"
    by (auto split: if_splits)
  then show ?case
  proof cases
    case 1
    then have "\<not> stratifies labels g s" for s
      using stratifies_bounded [OF wf, of labels s] by (metis leD)
    with 1 show ?thesis by simp
  next
    case 2
    then have "lookup0 st v + weight labels l \<le> lookup0 st u" if "(v, l) \<in> set (edges_of g u)" for u v l
      using that flat_edges_mem [OF wf] by fastforce
    then have "stratifies labels g (lookup0 st)"
      using Suc.prems(1) by (auto simp: stratifies_def strat_inv_def)
    with 2 Suc.prems(1) show ?thesis by simp
  next
    case (3 st')
    then show ?thesis using Suc.IH [OF 3(2)] Suc.prems(2) by simp
  qed
qed

lemma strat_inv_init:
  assumes "graph_wf g" shows "strat_inv labels g (map (\<lambda>v. (v, 1)) (dkeys (nodes g)))"
proof -
  define st where "st = map (\<lambda>v. (v, 1::nat)) (dkeys (nodes g))"
  have "lookup0 (map (\<lambda>v. (v, 1)) xs) v = (if v \<in> set xs then 1 else 0)" for xs and v :: 'a
    by (induction xs) (auto simp: lookup0_def)
  then have get: "lookup0 st v = (if v \<in> node_set g then 1 else 0)" for v
    by (simp only: st_def node_set_def)
  have "dkeys st = dkeys (nodes g)" by (simp add: st_def comp_def)
  moreover have "v \<in> node_set g \<Longrightarrow> 1 \<le> card (node_set g)" for v
    by (metis One_nat_def Suc_leI card_gt_0_iff empty_iff finite_node_set)
  ultimately show ?thesis unfolding st_def [symmetric]
    by (simp add: strat_inv_def get stratifies_def)
qed

lemma stratification_ok:
  assumes "graph_wf g"
  shows "\<exists>r. stratification labels g = Inr r \<and>
     (r = None \<longleftrightarrow> label_cycle labels g) \<and>
     (\<forall>st. r = Some st \<longrightarrow> dkeys st = dkeys (nodes g) \<and> stratifies labels g (lookup0 st) \<and>
        (\<forall>s. stratifies labels g s \<longrightarrow> (\<forall>v \<in> node_set g. lookup0 st v \<le> s v)))"
proof -
  let ?n = "length (nodes g)"
  have "?n = card (node_set g)" by (rule length_nodes [OF assms])
  then have "(stratification labels g = Inr None \<and> (\<forall>s. \<not> stratifies labels g s)) \<or>
    (\<exists>st. stratification labels g = Inr (Some st) \<and> strat_inv labels g st \<and> stratifies labels g (lookup0 st))"
    unfolding stratification_def
    by (intro strat_loop_ok [OF assms strat_inv_init [OF assms]]) simp
  then show ?thesis
    using no_label_cycle_stratifies [OF assms, of labels] stratifies_no_label_cycle [of labels g]
    by (auto simp: strat_inv_def)
qed

definition strat_example :: "(string, bool) graph" where
  "strat_example = graph_add_edge ''p'' ''q'' True (graph_add_edge ''q'' ''r'' False graph_empty)"

text \<open>C15. on a well-formed graph, \<open>stratification\<close> returns (it neither raises nor runs out of
  its passes); it answers \<open>None\<close> exactly when some cycle of the graph goes through an edge with
  one of the given labels, and otherwise a stratification in which every edge goes to an equal
  or lower stratum, a labelled edge to a strictly lower one, and no other stratification
  puts any node lower.\<close>

theorem stratification_correct:
  assumes "graph_wf g"
  shows "\<exists>r. stratification labels g = Inr r \<and>
     (r = None \<longleftrightarrow> label_cycle labels g) \<and>
     (\<forall>st. r = Some st \<longrightarrow> dkeys st = dkeys (nodes g) \<and> stratifies labels g (lookup0 st) \<and>
        (\<forall>s. stratifies labels g s \<longrightarrow> (\<forall>v \<in> node_set g. lookup0 st v \<le> s v)))"
  by (rule stratification_ok [OF assms])

theorem stratification_correct_witness:
  "graph_wf strat_example \<and> (\<exists>st. stratification [True] strat_example = Inr (Some st) \<and>
     lookup0 st ''p'' = 2 \<and> (\<forall>s. stratifies [True] strat_example s \<longrightarrow> 2 \<le> s ''p''))"
proof -
  have wf: "graph_wf strat_example" by code_simp
  have n: "''p'' \<in> node_set strat_example" by code_simp
  let ?st = "[(''q'', 1), (''r'', 1), (''p'', 2 :: nat)]"
  have r: "stratification [True] strat_example = Inr (Some ?st)" by code_simp
  have p: "lookup0 ?st ''p'' = 2" by code_simp
  have "\<forall>s. stratifies [True] strat_example s \<longrightarrow> lookup0 ?st ''p'' \<le> s ''p''"
    using stratification_correct [OF wf, of "[True]"] n unfolding r by blast
  then show ?thesis using wf r p by auto
qed

end
