(* ===== verification/Dep_Graph.thy ===== *)
theory Dep_Graph
  imports Syntax Bag_Graph Modal_Index Stratify
begin

text \<open>
  \<open>compile.RuleDependencyGraph\<close>: the bag graph of the table dependencies of a set of rules
  and facts, with the index of the modals of rule heads. The store holds the inner
  dictionaries of the modal index and of the indices kept in lists of changes, which may share
  them.

  A graph stands for the multiset of the formulas inserted (\<open>dep_of\<close>); \<open>formula_update\<close>
  implements insertion into and deletion from it.
\<close>

section \<open>State and operations\<close>

record dep_graph = "(string, bool) bag_graph" +
  head_to_body :: bool
  modal_index :: modal_index
  store :: mstore

definition dep_empty :: "bool \<Rightarrow> dep_graph" where
  "dep_empty h2b =
     bag_graph.extend (graph.extend graph_empty (bag_graph.fields [] []))
       (dep_graph.fields h2b [] mstore_empty)"

record selection =
  include_atoms :: bool
  select_head :: "(literal \<Rightarrow> bool) option"
  select_body :: "(literal \<Rightarrow> bool) option"

definition default_selection :: selection where
  "default_selection = \<lparr>include_atoms = True, select_head = None, select_body = None\<rparr>"

definition selected :: "(literal \<Rightarrow> bool) option \<Rightarrow> literal \<Rightarrow> bool" where
  "selected sel l = (case sel of None \<Rightarrow> True | Some f \<Rightarrow> f l)"

type_synonym edge = "string \<times> string \<times> bool"
type_synonym contrib = "string list \<times> edge list \<times> mstore \<times> modal_index"

definition body_literal :: "bool \<Rightarrow> string option \<Rightarrow> string \<Rightarrow> literal \<Rightarrow> contrib \<Rightarrow> contrib" where
  "body_literal h2b theory head_table l = (\<lambda>(nodes, edges, rest).
     let lit_table = lit_tablename theory l
     in (set_add lit_table nodes,
         set_add (if h2b then (head_table, lit_table, negated l) else (lit_table, head_table, negated l)) edges,
         rest))"

definition rule_head_contrib ::
    "bool \<Rightarrow> selection \<Rightarrow> string option \<Rightarrow> literal list \<Rightarrow> literal \<Rightarrow> contrib \<Rightarrow> contrib" where
  "rule_head_contrib h2b sel theory bd head = (\<lambda>(nodes, edges, hix).
     if \<not> selected (select_head sel) head then (nodes, edges, hix)
     else
       let head_table = global_tablename theory (table head);
           hix = (case modal (table head) of
                    Some m \<Rightarrow> if m = [] then hix else modal_add m head_table hix
                  | None \<Rightarrow> hix)
       in fold (body_literal h2b theory head_table) (filter (selected (select_body sel)) bd)
            (set_add head_table nodes, edges, hix))"

text \<open>
  An atom is looked up by its \<open>table\<close>; a rule with an empty body counts as an atom here, but
  has no attribute \<open>table\<close>. A fact or a negated literal has no attribute \<open>heads\<close>.
\<close>

definition formula_nodes_edges ::
    "selection \<Rightarrow> formula \<Rightarrow> string option \<Rightarrow> bool \<Rightarrow> mstore \<Rightarrow> contrib res" where
  "formula_nodes_edges sel f theory h2b h =
     (if is_atom_like f then
        (if \<not> include_atoms sel then Inr ([], [], h, [])
         else case f of
           FLit l \<Rightarrow>
             let t = global_tablename theory (table l)
             in Inr ([t], [], case modal (table l) of
                       Some m \<Rightarrow> if m = [] then (h, []) else modal_add m t (h, [])
                     | None \<Rightarrow> (h, []))
         | _ \<Rightarrow> Inl AttributeError)
      else case f of
        FRule r \<Rightarrow> Inr (fold (rule_head_contrib h2b sel theory (body r)) (heads r) ([], [], h, []))
      | _ \<Rightarrow> Inl AttributeError)"

datatype change = ChNode string bool | ChEdge string string bool bool | ChModal modal_index bool

definition dep_iadd :: "modal_index \<Rightarrow> dep_graph \<Rightarrow> dep_graph" where
  "dep_iadd other g =
     (let (h, ix) = modal_iadd other (store g, modal_index g) in g\<lparr>modal_index := ix, store := h\<rparr>)"

definition dep_isub :: "modal_index \<Rightarrow> dep_graph \<Rightarrow> dep_graph res" where
  "dep_isub other g =
     rbind (modal_isub other (store g, modal_index g)) (\<lambda>(h, ix). Inr (g\<lparr>modal_index := ix, store := h\<rparr>))"

definition del_edge :: "edge \<Rightarrow> dep_graph \<Rightarrow> dep_graph res" where
  "del_edge = (\<lambda>(u, v, l). bag_delete_edge u v l)"

definition event_update ::
    "selection \<Rightarrow> event \<Rightarrow> change list \<times> dep_graph \<Rightarrow> (change list \<times> dep_graph) res" where
  "event_update sel ev = (\<lambda>(changes, g).
     rbind (formula_nodes_edges sel (formula ev) (target ev) (head_to_body g) (store g))
       (\<lambda>(ns, es, h, modals).
          let g = g\<lparr>store := h\<rparr> in
          if is_insert ev then
            Inr (changes @ map (\<lambda>n. ChNode n True) ns @ map (\<lambda>(u, v, l). ChEdge u v l True) es @ [ChModal modals True],
                 dep_iadd modals (fold (\<lambda>(u, v, l). bag_add_edge u v l) es (fold bag_add_node ns g)))
          else
            rbind (for_res bag_delete_node ns g) (\<lambda>g.
            rbind (for_res del_edge es g) (\<lambda>g.
            rbind (dep_isub modals g) (\<lambda>g.
              Inr (changes @ map (\<lambda>n. ChNode n False) ns @ map (\<lambda>(u, v, l). ChEdge u v l False) es @
                   [ChModal modals False], g))))))"

definition formula_update :: "selection \<Rightarrow> event list \<Rightarrow> dep_graph \<Rightarrow> (change list \<times> dep_graph) res" where
  "formula_update sel events g = for_res (event_update sel) events ([], g)"

fun undo_change :: "change \<Rightarrow> dep_graph \<Rightarrow> dep_graph res" where
  "undo_change (ChNode n ins) g = (if ins then bag_delete_node n g else Inr (bag_add_node n g))"
| "undo_change (ChEdge u v l ins) g = (if ins then bag_delete_edge u v l g else Inr (bag_add_edge u v l g))"
| "undo_change (ChModal ix ins) g = (if ins then dep_isub ix g else Inr (dep_iadd ix g))"

definition undo_changes :: "change list \<Rightarrow> dep_graph \<Rightarrow> dep_graph res" where
  "undo_changes changes g = for_res undo_change changes g"

definition formula_insert ::
    "selection \<Rightarrow> formula \<Rightarrow> string option \<Rightarrow> dep_graph \<Rightarrow> (change list \<times> dep_graph) res" where
  "formula_insert sel f theory g =
     formula_update sel [\<lparr>formula = f, is_insert = True, target = theory\<rparr>] g"

definition formula_delete ::
    "selection \<Rightarrow> formula \<Rightarrow> string option \<Rightarrow> dep_graph \<Rightarrow> (change list \<times> dep_graph) res" where
  "formula_delete sel f theory g =
     formula_update sel [\<lparr>formula = f, is_insert = False, target = theory\<rparr>] g"

definition dep_init :: "selection \<Rightarrow> bool \<Rightarrow> string option \<Rightarrow> formula list \<Rightarrow> dep_graph res" where
  "dep_init sel h2b theory fs =
     for_res (\<lambda>f g. rbind (formula_insert sel f theory g) (\<lambda>(_, g). Inr g)) fs (dep_empty h2b)"

definition tables_with_modal :: "string \<Rightarrow> dep_graph \<Rightarrow> string list" where
  "tables_with_modal m g = modal_tables m (store g) (modal_index g)"

definition table_delete :: "string \<Rightarrow> dep_graph \<Rightarrow> dep_graph res" where
  "table_delete = bag_delete_node"

definition dep_tables :: "dep_graph \<Rightarrow> string list" where
  "dep_tables g = dkeys (nodes g)"

definition find_dependencies :: "string list \<Rightarrow> dep_graph \<Rightarrow> (string list \<times> dep_graph) res" where
  "find_dependencies = find_dependent_nodes"

definition find_definitions :: "string list \<Rightarrow> dep_graph \<Rightarrow> (string list \<times> dep_graph) res" where
  "find_definitions = find_reachable_nodes"

definition is_recursive :: "formula list \<Rightarrow> bool res" where
  "is_recursive fs = rbind (dep_init default_selection True None fs) (\<lambda>g. rbind (has_cycle g) (\<lambda>(b, _). Inr b))"

definition rules_stratification :: "formula list \<Rightarrow> (string, nat) dict option res" where
  "rules_stratification fs = rbind (dep_init default_selection True None fs) (stratification [True])"

definition is_stratified :: "formula list \<Rightarrow> bool res" where
  "is_stratified fs = rbind (rules_stratification fs) (\<lambda>s. Inr (s \<noteq> None))"

section \<open>What a formula contributes\<close>

definition formula_ok :: "selection \<Rightarrow> formula \<Rightarrow> bool" where
  "formula_ok sel f =
     (if is_atom_like f then include_atoms sel \<longrightarrow> (case f of FLit _ \<Rightarrow> True | _ \<Rightarrow> False)
      else case f of FRule _ \<Rightarrow> True | _ \<Rightarrow> False)"

definition f_contrib :: "selection \<Rightarrow> bool \<Rightarrow> formula \<times> string option \<Rightarrow> string list \<times> edge list" where
  "f_contrib sel h2b ft =
     (case formula_nodes_edges sel (fst ft) (snd ft) h2b mstore_empty of
        Inr (ns, es, _) \<Rightarrow> (ns, es) | Inl _ \<Rightarrow> ([], []))"

abbreviation f_nodes where "f_nodes sel h2b ft \<equiv> fst (f_contrib sel h2b ft)"
abbreviation f_edges where "f_edges sel h2b ft \<equiv> snd (f_contrib sel h2b ft)"

definition head_modals :: "string option \<Rightarrow> literal \<Rightarrow> (string \<times> string) multiset" where
  "head_modals theory l =
     (case modal (table l) of
        Some m \<Rightarrow> if m = [] then {#} else {#(m, global_tablename theory (table l))#}
      | None \<Rightarrow> {#})"

definition f_modals :: "selection \<Rightarrow> formula \<times> string option \<Rightarrow> (string \<times> string) multiset" where
  "f_modals sel ft =
     (if is_atom_like (fst ft) \<and> \<not> include_atoms sel then {#}
      else case fst ft of
        FLit l \<Rightarrow> head_modals (snd ft) l
      | FRule r \<Rightarrow> sum_list (map (head_modals (snd ft)) (filter (selected (select_head sel)) (heads r)))
      | FFact _ \<Rightarrow> {#})"

text \<open>A freshly built index: its cells were not there before, the old cells are as before.\<close>

definition fresh_index :: "mstore \<Rightarrow> mstore \<Rightarrow> modal_index \<Rightarrow> bool" where
  "fresh_index h0 h ix = (modal_wf h ix \<and> (\<forall>r \<in> refs ix. brk h0 \<le> r) \<and> brk h0 \<le> brk h \<and>
     (\<forall>r < brk h0. cell h r = cell h0 r))"

lemma fresh_index_refl: "fresh_index h h []"
  by (simp add: fresh_index_def modal_wf_empty refs_def)

lemma fresh_modal_add:
  assumes "fresh_index h0 h ix" "modal_add m t (h, ix) = (h', ix')"
  shows "fresh_index h0 h' ix'" "mcount h' ix' n u = mcount h ix n u + (if n = m \<and> u = t then 1 else 0)"
proof -
  have wf: "modal_wf h ix" using assms(1) by (simp add: fresh_index_def)
  note ok = modal_add_ok [OF wf assms(2)]
  show "mcount h' ix' n u = mcount h ix n u + (if n = m \<and> u = t then 1 else 0)" by (rule ok(2))
  have refs: "\<forall>r \<in> refs ix'. brk h0 \<le> r" using ok(3) assms(1) by (auto simp: fresh_index_def)
  have "cell h' r = cell h0 r" if "r < brk h0" for r
  proof -
    have "r \<notin> refs ix'" using refs that by auto
    from ok(5) [OF this] that assms(1) show ?thesis by (simp add: fresh_index_def)
  qed
  with refs ok(1,4) assms(1) show "fresh_index h0 h' ix'" by (auto simp: fresh_index_def)
qed

lemma body_fold:
  "\<exists>n1 e1. (\<forall>rest. fold (body_literal h2b th ht) ls (n, e, rest) = (n1, e1, rest)) \<and>
     (distinct n \<longrightarrow> distinct n1) \<and> (distinct e \<longrightarrow> distinct e1)"
proof (induction ls arbitrary: n e)
  case (Cons l ls)
  obtain n0 e0 where 0: "\<And>rest. body_literal h2b th ht l (n, e, rest) = (n0, e0, rest)"
    "distinct n \<Longrightarrow> distinct n0" "distinct e \<Longrightarrow> distinct e0"
    by (simp add: body_literal_def Let_def)
  from Cons.IH [of n0 e0] obtain n1 e1 where
    "\<And>rest. fold (body_literal h2b th ht) ls (n0, e0, rest) = (n1, e1, rest)"
    "distinct n0 \<longrightarrow> distinct n1" "distinct e0 \<longrightarrow> distinct e1" by blast
  with 0 show ?case by (intro exI [of _ n1] exI [of _ e1]) auto
qed auto

lemma heads_fold:
  "\<exists>n1 e1. (distinct n \<longrightarrow> distinct n1) \<and> (distinct e \<longrightarrow> distinct e1) \<and>
     (\<forall>h0 h ix. fresh_index h0 h ix \<longrightarrow>
       (\<exists>h' ix'. fold (rule_head_contrib h2b sel th bd) hs (n, e, h, ix) = (n1, e1, h', ix') \<and> fresh_index h0 h' ix' \<and>
          (\<forall>m t. mcount h' ix' m t = mcount h ix m t +
             count (sum_list (map (head_modals th) (filter (selected (select_head sel)) hs))) (m, t))))"
proof (induction hs arbitrary: n e)
  case Nil
  then show ?case by auto
next
  case (Cons hd hs)
  show ?case
  proof (cases "selected (select_head sel) hd")
    case False
    then have "rule_head_contrib h2b sel th bd hd x = x" for x
      by (cases x) (simp add: rule_head_contrib_def)
    with Cons.IH [of n e] False show ?thesis by simp
  next
    case True
    let ?t = "global_tablename th (table hd)"
    obtain n0 e0 where 0: "\<And>rest. fold (body_literal h2b th ?t) (filter (selected (select_body sel)) bd)
          (set_add ?t n, e, rest) = (n0, e0, rest)" "distinct n \<Longrightarrow> distinct n0" "distinct e \<Longrightarrow> distinct e0"
      using body_fold [of h2b th ?t "filter (selected (select_body sel)) bd" "set_add ?t n" e] by auto
    obtain n1 e1 where 1: "distinct n0 \<longrightarrow> distinct n1" "distinct e0 \<longrightarrow> distinct e1"
       "\<And>h0 h ix. fresh_index h0 h ix \<Longrightarrow>
       (\<exists>h' ix'. fold (rule_head_contrib h2b sel th bd) hs (n0, e0, h, ix) = (n1, e1, h', ix') \<and> fresh_index h0 h' ix' \<and>
          (\<forall>m t. mcount h' ix' m t = mcount h ix m t +
             count (sum_list (map (head_modals th) (filter (selected (select_head sel)) hs))) (m, t)))"
      using Cons.IH [of n0 e0] by blast
    have first: "\<exists>h1 ix1. rule_head_contrib h2b sel th bd hd (n, e, h, ix) = (n0, e0, h1, ix1) \<and> fresh_index h0 h1 ix1 \<and>
        (\<forall>m t. mcount h1 ix1 m t = mcount h ix m t + count (head_modals th hd) (m, t))"
      if "fresh_index h0 h ix" for h0 h ix
    proof (cases "truthy (modal (table hd))")
      case False
      then have "head_modals th hd = {#}" "rule_head_contrib h2b sel th bd hd (n, e, h, ix) = (n0, e0, h, ix)"
        using True 0(1) by (auto simp: truthy_def head_modals_def rule_head_contrib_def split: option.splits)
      with that show ?thesis by auto
    next
      case m: True
      then obtain m where m: "modal (table hd) = Some m" "m \<noteq> []" by (auto simp: truthy_def)
      obtain h1 ix1 where add: "modal_add m ?t (h, ix) = (h1, ix1)" by force
      have "rule_head_contrib h2b sel th bd hd (n, e, h, ix) = (n0, e0, h1, ix1)"
        using True m add 0(1) by (simp add: rule_head_contrib_def)
      moreover have "head_modals th hd = {#(m, ?t)#}" using m by (simp add: head_modals_def)
      ultimately show ?thesis using fresh_modal_add [OF that add] by auto
    qed
    have step: "\<exists>h' ix'. fold (rule_head_contrib h2b sel th bd) (hd # hs) (n, e, h, ix) = (n1, e1, h', ix') \<and>
        fresh_index h0 h' ix' \<and> (\<forall>m t. mcount h' ix' m t = mcount h ix m t +
             count (sum_list (map (head_modals th) (filter (selected (select_head sel)) (hd # hs)))) (m, t))"
      if fr: "fresh_index h0 h ix" for h0 h ix
    proof -
      obtain h1 ix1 where a: "rule_head_contrib h2b sel th bd hd (n, e, h, ix) = (n0, e0, h1, ix1)" "fresh_index h0 h1 ix1"
        "\<And>m t. mcount h1 ix1 m t = mcount h ix m t + count (head_modals th hd) (m, t)" using first [OF fr] by blast
      obtain h2 ix2 where b: "fold (rule_head_contrib h2b sel th bd) hs (n0, e0, h1, ix1) = (n1, e1, h2, ix2)"
        "fresh_index h0 h2 ix2" "\<And>m t. mcount h2 ix2 m t = mcount h1 ix1 m t +
             count (sum_list (map (head_modals th) (filter (selected (select_head sel)) hs))) (m, t)"
        using 1(3) [OF a(2)] by blast
      show ?thesis using a(1) b(1,2) True by (simp add: a(3) b(3))
    qed
    show ?thesis using step 0 1(1,2) by (intro exI [of _ n1] exI [of _ e1]) blast
  qed
qed

lemma formula_nodes_edges_ok:
  assumes "formula_ok sel f"
  shows "\<exists>h' ix. formula_nodes_edges sel f th h2b h = Inr (f_nodes sel h2b (f, th), f_edges sel h2b (f, th), h', ix) \<and>
     fresh_index h h' ix \<and> modal_rep (h', ix) (f_modals sel (f, th))"
proof -
  have rep: "modal_rep (h', ix) M" if "fresh_index h h' ix" "\<And>m t. mcount h' ix m t = int (count M (m, t))" for h' ix M
    using that by (simp add: modal_rep_def fresh_index_def)
  have mc: "mcount h' ix' m t = int (count {#x#} (m, t))"
    if "modal_add a b (h, []) = (h', ix')" "x = (a, b)" for h' ix' a b x m t
    using fresh_modal_add(2) [OF fresh_index_refl that(1), of m t] that(2) by auto
  show ?thesis
  proof (cases "is_atom_like f")
    case True
    show ?thesis
    proof (cases "include_atoms sel")
      case False
      with True fresh_index_refl [of h] show ?thesis
        by (auto simp: formula_nodes_edges_def f_contrib_def f_modals_def modal_rep_def modal_wf_empty)
    next
      case inc: True
      with True assms obtain l where f: "f = FLit l" by (auto simp: formula_ok_def split: formula.splits)
      let ?t = "global_tablename th (table l)"
      show ?thesis
      proof (cases "truthy (modal (table l))")
        case False
        then show ?thesis using True inc f fresh_index_refl [of h]
          by (auto simp: truthy_def formula_nodes_edges_def f_contrib_def f_modals_def head_modals_def
              modal_rep_def modal_wf_empty split: option.splits)
      next
        case m: True
        then obtain m where m: "modal (table l) = Some m" "m \<noteq> []" by (auto simp: truthy_def)
        obtain h1 ix1 where add: "modal_add m ?t (h, []) = (h1, ix1)" by force
        show ?thesis using True inc f m fresh_modal_add(1) [OF fresh_index_refl add] rep [OF _ mc [OF add refl]]
          by (auto simp: formula_nodes_edges_def f_contrib_def f_modals_def head_modals_def add Let_def split_def)
      qed
    qed
  next
    case False
    with assms obtain r where f: "f = FRule r" by (auto simp: formula_ok_def split: formula.splits)
    obtain n1 e1 where 1: "\<And>h0 h ix. fresh_index h0 h ix \<Longrightarrow>
       (\<exists>h' ix'. fold (rule_head_contrib h2b sel th (body r)) (heads r) ([], [], h, ix) = (n1, e1, h', ix') \<and>
          fresh_index h0 h' ix' \<and>
          (\<forall>m t. mcount h' ix' m t = mcount h ix m t +
             count (sum_list (map (head_modals th) (filter (selected (select_head sel)) (heads r)))) (m, t)))"
      using heads_fold [of "[]" "[]" h2b sel th "body r" "heads r"] by blast
    have "f_contrib sel h2b (f, th) = (n1, e1)"
      using 1 [OF fresh_index_refl, of mstore_empty] False f by (auto simp: f_contrib_def formula_nodes_edges_def)
    with 1 [OF fresh_index_refl, of h] False f rep show ?thesis
      by (fastforce simp: formula_nodes_edges_def f_modals_def)
  qed
qed

section \<open>The graph stands for a bag of formulas\<close>

definition dep_frame :: "dep_graph \<Rightarrow> dep_graph \<Rightarrow> bool" where
  "dep_frame g g' = (head_to_body g' = head_to_body g \<and> modal_index g' = modal_index g \<and> store g' = store g)"

lemma dep_frame_add:
  "dep_frame g (bag_add_node v g)" "dep_frame g (bag_add_edge u v l g)"
  by (simp_all add: dep_frame_def bag_add_node_def graph_add_node_def bag_add_edge_def graph_add_edge_with_def Let_def)

lemma dep_frame_delete_node: "bag_delete_node v g = Inr g' \<Longrightarrow> dep_frame g g'"
  by (auto simp: dep_frame_def bag_delete_node_def graph_delete_node_def Let_def rbind_Inr_iff
      split: option.splits if_splits)

lemma dep_frame_trans: "dep_frame g h \<Longrightarrow> dep_frame h k \<Longrightarrow> dep_frame g k"
  by (simp add: dep_frame_def)

lemma dep_frame_delete_edge:
  assumes "bag_delete_edge u v l g = Inr g'" shows "dep_frame g g'"
proof (cases "map_of (edge_refcounts g) (u, v, l) = None")
  case False
  from assms False obtain g1 where g1: "bag_delete_node u g = Inr g1"
    by (cases "bag_delete_node u g") (simp_all add: bag_delete_edge_def)
  from assms False g1 obtain g2 where g2: "bag_delete_node v g1 = Inr g2"
    by (cases "bag_delete_node v g1") (simp_all add: bag_delete_edge_def)
  from assms False g1 g2 obtain c where "map_of (edge_refcounts g2) (u, v, l) = Some c"
    by (cases "map_of (edge_refcounts g2) (u, v, l)") (simp_all add: bag_delete_edge_def)
  with assms False g1 g2 have "dep_frame g2 g'"
    by (auto simp: bag_delete_edge_def graph_delete_edge_def Let_def dep_frame_def split: option.splits if_splits)
  with dep_frame_trans dep_frame_delete_node [OF g1] dep_frame_delete_node [OF g2] show ?thesis by blast
qed (use assms in \<open>simp add: bag_delete_edge_def dep_frame_def\<close>)

interpretation dep: counted_graph bag_add_node bag_delete_node bag_add_edge bag_delete_edge
  "\<lambda>g N Ed. bag_rep g N Ed \<and> dep_frame g0 g" for g0
  by unfold_locales (meson bag.add_node bag.add_edge bag.del_node bag.del_edge dep_frame_add
      dep_frame_delete_node dep_frame_delete_edge dep_frame_trans)+

lemma bag_rep_dep [simp]:
  "bag_rep (g\<lparr>store := h\<rparr>) N Ed = bag_rep g N Ed" "bag_rep (g\<lparr>modal_index := ix\<rparr>) N Ed = bag_rep g N Ed"
  for g :: dep_graph
  by (simp_all add: bag_rep_def node_set_def edges_of_def)

definition bag_nodes where "bag_nodes sel h2b FS = (\<Sum>ft \<in># FS. mset (f_nodes sel h2b ft))"
definition bag_edges where "bag_edges sel h2b FS = (\<Sum>ft \<in># FS. mset (f_edges sel h2b ft))"
definition bag_modals where "bag_modals sel FS = (\<Sum>ft \<in># FS. f_modals sel ft)"

lemmas bag_defs = bag_nodes_def bag_edges_def bag_modals_def

definition dep_of :: "selection \<Rightarrow> dep_graph \<Rightarrow> (formula \<times> string option) multiset \<Rightarrow> bool" where
  "dep_of sel g FS =
     (bag_rep g (bag_nodes sel (head_to_body g) FS) (bag_edges sel (head_to_body g) FS) \<and>
      modal_rep (store g, modal_index g) (bag_modals sel FS))"

definition event_key :: "event \<Rightarrow> formula \<times> string option" where
  "event_key ev = (formula ev, target ev)"

text \<open>The specification: a bag of formulas with the policies they are in.\<close>

definition spec_event ::
    "event \<Rightarrow> (formula \<times> string option) multiset \<Rightarrow> (formula \<times> string option) multiset" where
  "spec_event ev FS = (if is_insert ev then add_mset (event_key ev) FS else FS - {#event_key ev#})"

fun valid_events :: "selection \<Rightarrow> event list \<Rightarrow> (formula \<times> string option) multiset \<Rightarrow> bool" where
  "valid_events sel [] FS = True"
| "valid_events sel (ev # evs) FS =
     (formula_ok sel (formula ev) \<and> (is_insert ev \<or> event_key ev \<in># FS) \<and> valid_events sel evs (spec_event ev FS))"

lemma modal_rep_wf: "modal_rep (h, ix) M \<Longrightarrow> modal_wf h ix"
  by (simp add: modal_rep_def)

lemma fresh_disjoint: "fresh_index h0 h ix \<Longrightarrow> modal_wf h0 jx \<Longrightarrow> refs jx \<inter> refs ix = {}"
  by (force simp: fresh_index_def modal_wf_def modal_wf0_def)

lemma modal_rep_fresh:
  assumes "modal_rep (h0, jx) M" "fresh_index h0 h ix" shows "modal_rep (h, jx) M"
proof -
  have wf: "modal_wf h0 jx" using assms(1) by (simp add: modal_rep_def)
  have eq: "cell h r = cell h0 r" if "r \<in> refs jx" for r
    using that wf assms(2) by (auto simp: fresh_index_def modal_wf_def modal_wf0_def)
  from modal_wf_cong [OF eq _ wf] mcount_cong [of jx h h0] eq assms show ?thesis
    by (auto simp: modal_rep_def fresh_index_def)
qed

lemma dep_iadd_ok:
  assumes "modal_rep (store g, modal_index g) M" "modal_rep (store g, other) M'" "refs (modal_index g) \<inter> refs other = {}"
  shows "modal_rep (store (dep_iadd other g), modal_index (dep_iadd other g)) (M + M')"
    "bag_rep (dep_iadd other g) N Ed = bag_rep g N Ed" "head_to_body (dep_iadd other g) = head_to_body g"
  using modal_iadd_ok [OF modal_rep_wf [OF assms(1)] modal_rep_wf [OF assms(2)] assms(3)] assms(1,2)
  by (auto simp: dep_iadd_def modal_rep_def)

lemma dep_isub_ok:
  assumes "modal_rep (store g, modal_index g) (M + M')" "modal_rep (store g, other) M'"
    "refs (modal_index g) \<inter> refs other = {}"
  shows "\<exists>g'. dep_isub other g = Inr g' \<and> modal_rep (store g', modal_index g') M \<and>
     (\<forall>N Ed. bag_rep g' N Ed = bag_rep g N Ed) \<and> head_to_body g' = head_to_body g"
  using modal_isub_ok [OF modal_rep_wf [OF assms(1)] modal_rep_wf [OF assms(2)] assms(3)] assms(1,2)
  by (auto simp: dep_isub_def modal_rep_def)

definition event_changes :: "selection \<Rightarrow> bool \<Rightarrow> event \<Rightarrow> modal_index \<Rightarrow> change list" where
  "event_changes sel h2b ev ix =
     map (\<lambda>n. ChNode n (is_insert ev)) (f_nodes sel h2b (event_key ev)) @
     map (\<lambda>(u, v, l). ChEdge u v l (is_insert ev)) (f_edges sel h2b (event_key ev)) @ [ChModal ix (is_insert ev)]"

lemma modal_rep_empty_index:
  assumes "modal_rep (h, ix) {#}" shows "ix = []"
proof -
  have "refs ix = {}"
  proof (rule ccontr)
    assume "refs ix \<noteq> {}"
    then obtain r where r: "r \<in> refs ix" by blast
    have wf: "modal_wf h ix" using assms by (simp add: modal_rep_def)
    then obtain m where m: "map_of ix m = Some r" using refs_Some [of ix r] r by (auto simp: modal_wf_def modal_wf0_def)
    obtain t c where "map_of (cell h r) t = Some c"
      using wf r dict_Nil_iff [of "cell h r"] unfolding modal_wf_def modal_wf0_def by (metis not_None_eq ext)
    moreover have "mcount h ix m t = 0" using assms by (simp add: modal_rep_def)
    ultimately show False using modal_wf_pos [OF wf m, of t c] m by (simp add: mcount_def)
  qed
  then show ?thesis by (simp add: refs_def)
qed

lemma event_update_ok:
  assumes dep: "dep_of sel g FS" and ok: "formula_ok sel (formula ev)" and mem: "is_insert ev \<or> event_key ev \<in># FS"
  shows "\<exists>ch' g'. event_update sel ev (ch, g) = Inr (ch', g') \<and> dep_of sel g' (spec_event ev FS) \<and>
     head_to_body g' = head_to_body g \<and>
     (\<exists>ix. ch' = ch @ event_changes sel (head_to_body g) ev ix \<and> (f_modals sel (event_key ev) = {#} \<longrightarrow> ix = []))"
proof -
  let ?h2b = "head_to_body g" and ?k = "event_key ev"
  let ?ns = "f_nodes sel ?h2b ?k" and ?es = "f_edges sel ?h2b ?k"
  obtain h ix where c: "formula_nodes_edges sel (formula ev) (target ev) ?h2b (store g) = Inr (?ns, ?es, h, ix)"
    and fr: "fresh_index (store g) h ix" and mr: "modal_rep (h, ix) (f_modals sel ?k)"
    using formula_nodes_edges_ok [OF ok, of "target ev" ?h2b "store g"] unfolding event_key_def by blast
  have noix: "f_modals sel ?k = {#} \<longrightarrow> ix = []" using modal_rep_empty_index mr by metis
  let ?g = "g\<lparr>store := h\<rparr>"
  have m0: "modal_rep (store g, modal_index g) (bag_modals sel FS)"
    "bag_rep g (bag_nodes sel ?h2b FS) (bag_edges sel ?h2b FS)" using dep by (simp_all add: dep_of_def)
  have rep: "bag_rep ?g (bag_nodes sel ?h2b FS) (bag_edges sel ?h2b FS) \<and> dep_frame ?g ?g"
    and mod: "modal_rep (store ?g, modal_index ?g) (bag_modals sel FS)"
    and disj: "refs (modal_index ?g) \<inter> refs ix = {}"
    using m0 modal_rep_fresh [OF m0(1) fr] fresh_disjoint [OF fr modal_rep_wf [OF m0(1)]] by (simp_all add: dep_frame_def)
  show ?thesis
  proof (cases "is_insert ev")
    case True
    let ?g1 = "fold (\<lambda>(u, v, l). bag_add_edge u v l) ?es (fold bag_add_node ?ns ?g)"
    have 1: "bag_rep ?g1 (mset ?ns + bag_nodes sel ?h2b FS) (mset ?es + bag_edges sel ?h2b FS) \<and> dep_frame ?g ?g1"
      by (intro dep.add_edges dep.add_nodes rep)
    then have fr1: "store ?g1 = h" "modal_index ?g1 = modal_index g" "head_to_body ?g1 = ?h2b"
      by (simp_all add: dep_frame_def)
    have m1: "modal_rep (store ?g1, modal_index ?g1) (bag_modals sel FS)" "modal_rep (store ?g1, ix) (f_modals sel ?k)"
      "refs (modal_index ?g1) \<inter> refs ix = {}" using mod mr disj fr1 by simp_all
    note 2 = dep_iadd_ok [OF m1]
    have "dep_of sel (dep_iadd ix ?g1) (add_mset ?k FS)"
      unfolding dep_of_def 2(2,3) fr1(3) bag_defs
      using 1 2(1) by (simp add: bag_defs add.commute)
    moreover have "event_update sel ev (ch, g) = Inr (ch @ event_changes sel ?h2b ev ix, dep_iadd ix ?g1)"
      using True by (simp add: event_update_def c Let_def event_changes_def)
    ultimately show ?thesis using True 2(3) fr1(3) noix by (auto simp: spec_event_def)
  next
    case False
    define FS' where "FS' = FS - {#?k#}"
    have FS: "FS = add_mset ?k FS'" using mem False by (simp add: FS'_def)
    have "bag_rep ?g (mset ?ns + bag_nodes sel ?h2b FS') (mset ?es + bag_edges sel ?h2b FS') \<and> dep_frame ?g ?g"
      using rep by (simp add: FS bag_defs)
    from dep.del_nodes [OF this] obtain g1 where g1: "for_res bag_delete_node ?ns ?g = Inr g1"
      "bag_rep g1 (bag_nodes sel ?h2b FS') (mset ?es + bag_edges sel ?h2b FS') \<and> dep_frame ?g g1" by blast
    from dep.del_edges [OF g1(2)] obtain g2 where g2: "for_res del_edge ?es g1 = Inr g2"
      "bag_rep g2 (bag_nodes sel ?h2b FS') (bag_edges sel ?h2b FS')" "dep_frame ?g g2"
      by (auto simp: del_edge_def)
    then have fr2: "store g2 = h" "modal_index g2 = modal_index g" "head_to_body g2 = ?h2b"
      by (simp_all add: dep_frame_def)
    have m2: "modal_rep (store g2, modal_index g2) (bag_modals sel FS' + f_modals sel ?k)"
      "modal_rep (store g2, ix) (f_modals sel ?k)" "refs (modal_index g2) \<inter> refs ix = {}"
      using mod mr disj fr2 by (simp_all add: FS bag_modals_def ac_simps)
    from dep_isub_ok [OF m2] obtain g3 where "dep_isub ix g2 = Inr g3"
      "modal_rep (store g3, modal_index g3) (bag_modals sel FS')"
      "\<forall>N Ed. bag_rep g3 N Ed = bag_rep g2 N Ed" "head_to_body g3 = ?h2b"
      using fr2(3) by auto
    note 3 = this
    have "dep_of sel g3 FS'" using 3 g2(2) by (simp add: dep_of_def)
    moreover have "event_update sel ev (ch, g) = Inr (ch @ event_changes sel ?h2b ev ix, g3)"
      using False g1(1) g2(1) 3(1) by (simp add: event_update_def c Let_def event_changes_def)
    ultimately show ?thesis using False 3(4) noix by (auto simp: spec_event_def FS'_def)
  qed
qed

fun batch_changes :: "selection \<Rightarrow> bool \<Rightarrow> event list \<Rightarrow> modal_index list \<Rightarrow> change list" where
  "batch_changes sel h2b (ev # evs) (ix # ixs) = event_changes sel h2b ev ix @ batch_changes sel h2b evs ixs"
| "batch_changes sel h2b _ _ = []"

lemma formula_update_ok:
  "dep_of sel g FS \<Longrightarrow> valid_events sel evs FS \<Longrightarrow>
   \<exists>ch' g' ixs. for_res (event_update sel) evs (ch, g) = Inr (ch', g') \<and> dep_of sel g' (fold spec_event evs FS) \<and>
     head_to_body g' = head_to_body g \<and> length ixs = length evs \<and>
     ch' = ch @ batch_changes sel (head_to_body g) evs ixs \<and>
     (list_all (\<lambda>ev. f_modals sel (event_key ev) = {#}) evs \<longrightarrow> list_all (\<lambda>ix. ix = []) ixs)"
proof (induction evs arbitrary: ch g FS)
  case (Cons ev evs)
  then have "formula_ok sel (formula ev)" "is_insert ev \<or> event_key ev \<in># FS" "valid_events sel evs (spec_event ev FS)"
    by auto
  from event_update_ok [OF Cons.prems(1) this(1,2), of ch] obtain ix g1 where
    1: "event_update sel ev (ch, g) = Inr (ch @ event_changes sel (head_to_body g) ev ix, g1)"
      "dep_of sel g1 (spec_event ev FS)" "head_to_body g1 = head_to_body g" "f_modals sel (event_key ev) = {#} \<longrightarrow> ix = []"
    by blast
  from Cons.IH [OF 1(2) \<open>valid_events sel evs (spec_event ev FS)\<close>, of "ch @ event_changes sel (head_to_body g) ev ix"]
  obtain g2 ixs where
    2: "for_res (event_update sel) evs (ch @ event_changes sel (head_to_body g) ev ix, g1) =
          Inr (ch @ event_changes sel (head_to_body g) ev ix @ batch_changes sel (head_to_body g) evs ixs, g2)"
      "dep_of sel g2 (fold spec_event evs (spec_event ev FS))" "head_to_body g2 = head_to_body g" "length ixs = length evs"
      "list_all (\<lambda>ev. f_modals sel (event_key ev) = {#}) evs \<longrightarrow> list_all (\<lambda>ix. ix = []) ixs"
    by (auto simp: 1(3))
  show ?case
    using 1 2 by (intro exI [of _ "ch @ batch_changes sel (head_to_body g) (ev # evs) (ix # ixs)"] exI [of _ g2]
        exI [of _ "ix # ixs"]) simp
qed auto

lemma dep_of_empty: "dep_of sel (dep_empty h2b) {#}"
proof -
  have "bag_rep (dep_empty h2b) {#} {#}"
    by (simp add: bag_rep_def dep_empty_def graph.defs bag_graph.defs dep_graph.defs graph_empty_def tot_def
        node_set_def edges_of_def)
  then show ?thesis
    by (simp add: dep_of_def bag_defs modal_rep_def dep_empty_def graph.defs bag_graph.defs dep_graph.defs
        modal_wf_empty)
qed

section \<open>Undoing a batch\<close>

lemma dep_isub_Nil: "dep_isub [] g = Inr g"
proof -
  have "fold (\<lambda>(m, r) (h, changes). case map_of ([] :: modal_index) m of None \<Rightarrow> (h, changes)
     | Some ro \<Rightarrow> fold (modal_sub_table r ro m) (dkeys (cell h r)) (h, changes)) ix x = x"
    for ix :: modal_index and x :: "mstore \<times> (string \<times> string) list"
    by (induction ix arbitrary: x) auto
  then show ?thesis by (simp add: dep_isub_def modal_isub_def)
qed

lemma dep_iadd_Nil: "dep_iadd [] g = g"
  by (simp add: dep_iadd_def modal_iadd_def)

lemma undo_event:
  assumes dep: "dep_of sel g FS" and mem: "is_insert ev \<longrightarrow> event_key ev \<in># FS" and nm: "f_modals sel (event_key ev) = {#}"
  shows "\<exists>g'. for_res undo_change (event_changes sel (head_to_body g) ev []) g = Inr g' \<and> head_to_body g' = head_to_body g \<and>
     dep_of sel g' (if is_insert ev then FS - {#event_key ev#} else add_mset (event_key ev) FS)"
proof -
  let ?h2b = "head_to_body g" and ?k = "event_key ev"
  let ?ns = "f_nodes sel ?h2b ?k" and ?es = "f_edges sel ?h2b ?k"
  show ?thesis
  proof (cases "is_insert ev")
    case False
    let ?g1 = "fold (\<lambda>(u, v, l). bag_add_edge u v l) ?es (fold bag_add_node ?ns g)"
    have "bag_rep g (bag_nodes sel ?h2b FS) (bag_edges sel ?h2b FS) \<and> dep_frame g g"
      using dep by (simp add: dep_of_def dep_frame_def)
    then have 1: "bag_rep ?g1 (mset ?ns + bag_nodes sel ?h2b FS) (mset ?es + bag_edges sel ?h2b FS) \<and> dep_frame g ?g1"
      by (intro dep.add_edges dep.add_nodes)
    have ch: "event_changes sel ?h2b ev [] =
       map (\<lambda>n. ChNode n False) ?ns @ map (\<lambda>(u, v, l). ChEdge u v l False) ?es @ [ChModal [] False]"
      using False by (simp add: event_changes_def)
    have "for_res undo_change (map (\<lambda>n. ChNode n False) ns) h = Inr (fold bag_add_node ns h)" for ns h
      by (induction ns arbitrary: h) auto
    moreover have "for_res undo_change (map (\<lambda>(u, v, l). ChEdge u v l False) es) h =
        Inr (fold (\<lambda>(u, v, l). bag_add_edge u v l) es h)" for es h
      by (induction es arbitrary: h) auto
    ultimately have "for_res undo_change (event_changes sel ?h2b ev []) g = Inr ?g1"
      unfolding ch for_res_append by (simp add: dep_iadd_Nil)
    moreover have "dep_of sel ?g1 (add_mset ?k FS)"
      using 1 dep nm by (simp add: dep_of_def bag_defs dep_frame_def)
    ultimately show ?thesis using False 1 by (auto simp: dep_frame_def)
  next
    case True
    define FS' where "FS' = FS - {#?k#}"
    have FS: "FS = add_mset ?k FS'" using mem True by (simp add: FS'_def)
    have "bag_rep g (mset ?ns + bag_nodes sel ?h2b FS') (mset ?es + bag_edges sel ?h2b FS') \<and> dep_frame g g"
      using dep by (simp add: dep_of_def dep_frame_def FS bag_defs)
    from dep.del_nodes [OF this] obtain g1 where g1: "for_res bag_delete_node ?ns g = Inr g1"
      "bag_rep g1 (bag_nodes sel ?h2b FS') (mset ?es + bag_edges sel ?h2b FS') \<and> dep_frame g g1" by blast
    from dep.del_edges [OF g1(2)] obtain g2 where g2: "for_res (\<lambda>(u, v, l). bag_delete_edge u v l) ?es g1 = Inr g2"
      "bag_rep g2 (bag_nodes sel ?h2b FS') (bag_edges sel ?h2b FS')" "dep_frame g g2" by blast
    have ch: "event_changes sel ?h2b ev [] =
       map (\<lambda>n. ChNode n True) ?ns @ map (\<lambda>(u, v, l). ChEdge u v l True) ?es @ [ChModal [] True]"
      using True by (simp add: event_changes_def)
    have "for_res undo_change (map (\<lambda>n. ChNode n True) ns) h = for_res bag_delete_node ns h" for ns h
      by (induction ns arbitrary: h) (auto intro: rbind_cong)
    moreover have "for_res undo_change (map (\<lambda>(u, v, l). ChEdge u v l True) es) h =
        for_res (\<lambda>(u, v, l). bag_delete_edge u v l) es h" for es h
      by (induction es arbitrary: h) (auto intro: rbind_cong)
    ultimately have "for_res undo_change (event_changes sel ?h2b ev []) g = Inr g2"
      unfolding ch for_res_append using g1(1) g2(1) by (simp add: dep_isub_Nil)
    moreover have "dep_of sel g2 FS'"
      using g2(2,3) dep nm by (simp add: dep_of_def dep_frame_def FS bag_modals_def)
    ultimately show ?thesis using True g2(3) by (auto simp: dep_frame_def FS'_def)
  qed
qed

definition inserted :: "event list \<Rightarrow> (formula \<times> string option) multiset" where
  "inserted evs = mset (map event_key (filter is_insert evs))"

definition deleted :: "event list \<Rightarrow> (formula \<times> string option) multiset" where
  "deleted evs = mset (map event_key (filter (\<lambda>ev. \<not> is_insert ev) evs))"

lemma inserted_simps [simp]:
  "inserted [] = {#}" "deleted [] = {#}"
  "inserted (ev # evs) = (if is_insert ev then add_mset (event_key ev) (inserted evs) else inserted evs)"
  "deleted (ev # evs) = (if is_insert ev then deleted evs else add_mset (event_key ev) (deleted evs))"
  by (simp_all add: inserted_def deleted_def)

lemma mset_exchange:
  "A \<subseteq># B \<Longrightarrow> add_mset x B - A = add_mset x (B - A)"
  "A \<subseteq># B \<Longrightarrow> add_mset x (B - A) + C = B - A + add_mset x C"
  by (auto simp: multiset_eq_iff subseteq_mset_def Suc_diff_le)

lemma undo_batch:
  "dep_of sel g FS \<Longrightarrow> inserted evs \<subseteq># FS \<Longrightarrow> list_all (\<lambda>ev. f_modals sel (event_key ev) = {#}) evs \<Longrightarrow>
   length ixs = length evs \<Longrightarrow> list_all (\<lambda>ix. ix = []) ixs \<Longrightarrow>
   \<exists>g'. for_res undo_change (batch_changes sel (head_to_body g) evs ixs) g = Inr g' \<and> head_to_body g' = head_to_body g \<and>
     dep_of sel g' (FS - inserted evs + deleted evs)"
proof (induction evs arbitrary: g FS ixs)
  case (Cons ev evs)
  obtain ixs' where ixs: "ixs = [] # ixs'" "length ixs' = length evs" "list_all (\<lambda>ix. ix = []) ixs'"
    using Cons.prems(4,5) by (cases ixs) auto
  have mem: "is_insert ev \<longrightarrow> event_key ev \<in># FS" using Cons.prems(2) by (auto dest: mset_subset_eqD)
  let ?FS = "if is_insert ev then FS - {#event_key ev#} else add_mset (event_key ev) FS"
  obtain g1 where g1: "for_res undo_change (event_changes sel (head_to_body g) ev []) g = Inr g1"
    "head_to_body g1 = head_to_body g" "dep_of sel g1 ?FS"
    using undo_event [OF Cons.prems(1) mem] Cons.prems(3) by auto
  have "inserted evs \<subseteq># ?FS"
    using Cons.prems(2) by (auto simp: insert_subset_eq_iff intro: subset_mset.order_trans)
  from Cons.IH [OF g1(3) this _ ixs(2,3)] Cons.prems(3) obtain g2 where
    g2: "for_res undo_change (batch_changes sel (head_to_body g) evs ixs') g1 = Inr g2" "head_to_body g2 = head_to_body g"
      "dep_of sel g2 (?FS - inserted evs + deleted evs)" by (auto simp: g1(2))
  have "?FS - inserted evs + deleted evs = FS - inserted (ev # evs) + deleted (ev # evs)"
  proof (cases "is_insert ev")
    case False
    then have "inserted evs \<subseteq># FS" using Cons.prems(2) by simp
    with False show ?thesis by (simp add: mset_exchange)
  qed simp
  with g1(1) g2 show ?case by (auto simp: ixs(1) for_res_append)
qed simp

lemma spec_events_balance:
  "deleted evs \<subseteq># FS \<Longrightarrow> fold spec_event evs FS = FS - deleted evs + inserted evs"
proof (induction evs arbitrary: FS)
  case (Cons ev evs)
  show ?case
  proof (cases "is_insert ev")
    case True
    then have sub: "deleted evs \<subseteq># FS" using Cons.prems by simp
    then have "deleted evs \<subseteq># add_mset (event_key ev) FS" by (simp add: subset_mset.order_trans)
    from Cons.IH [OF this] True sub show ?thesis by (simp add: spec_event_def mset_exchange)
  next
    case False
    then have "deleted evs \<subseteq># FS - {#event_key ev#}" using Cons.prems
      by (simp add: insert_subset_eq_iff)
    from Cons.IH [OF this] False show ?thesis by (simp add: spec_event_def)
  qed
qed simp

section \<open>What the contributions are\<close>

definition dep_heads :: "selection \<Rightarrow> rule \<Rightarrow> literal set" where
  "dep_heads sel r = set (filter (selected (select_head sel)) (heads r))"

definition dep_body :: "selection \<Rightarrow> rule \<Rightarrow> literal set" where
  "dep_body sel r = set (filter (selected (select_body sel)) (body r))"

text \<open>
  A rule has an edge between each of its selected heads and each of its selected body
  literals, labelled by whether the literal is negated. An atom has none.
\<close>

definition dep_edges :: "selection \<Rightarrow> bool \<Rightarrow> formula \<times> string option \<Rightarrow> edge set" where
  "dep_edges sel h2b ft =
     (case fst ft of
        FRule r \<Rightarrow>
          if is_atom_like (FRule r) then {}
          else {(u, v, n). \<exists>h \<in> dep_heads sel r. \<exists>l \<in> dep_body sel r. n = negated l \<and>
                  (let ht = global_tablename (snd ft) (table h); lt = lit_tablename (snd ft) l
                   in (u, v) = (if h2b then (ht, lt) else (lt, ht)))}
      | _ \<Rightarrow> {})"

lemma set_body_fold:
  "fold (body_literal h2b th ht) ls (n, e, rest) = (n1, e1, rest1) \<Longrightarrow>
     set e1 = set e \<union> {(u, v, b). \<exists>l \<in> set ls. b = negated l \<and>
        (u, v) = (if h2b then (ht, lit_tablename th l) else (lit_tablename th l, ht))}"
  by (induction ls arbitrary: n e rest) (auto simp: body_literal_def Let_def)

lemma set_heads_fold:
  "fold (rule_head_contrib h2b sel th bd) hs (n, e, rest) = (n1, e1, rest1) \<Longrightarrow>
     set e1 = set e \<union> {(u, v, b). \<exists>h \<in> set (filter (selected (select_head sel)) hs).
        \<exists>l \<in> set (filter (selected (select_body sel)) bd). b = negated l \<and>
        (let ht = global_tablename th (table h); lt = lit_tablename th l
         in (u, v) = (if h2b then (ht, lt) else (lt, ht)))}"
proof (induction hs arbitrary: n e rest)
  case (Cons h hs)
  obtain n0 e0 rest0 where 0: "rule_head_contrib h2b sel th bd h (n, e, rest) = (n0, e0, rest0)" by (metis prod_cases3)
  let ?ht = "global_tablename th (table h)"
  have "set e0 = set e \<union> (if selected (select_head sel) h then {(u, v, b). \<exists>l \<in> set (filter (selected (select_body sel)) bd).
     b = negated l \<and> (u, v) = (if h2b then (?ht, lit_tablename th l) else (lit_tablename th l, ?ht))} else {})"
  proof (cases "selected (select_head sel) h")
    case True
    have "\<exists>n rest. fold (body_literal h2b th ?ht) (filter (selected (select_body sel)) bd) (n, e, rest) = (n0, e0, rest0)"
      using 0 True by (simp only: rule_head_contrib_def prod.case Let_def not_not if_False simp_thms) blast
    then obtain n' rest' where "fold (body_literal h2b th ?ht) (filter (selected (select_body sel)) bd) (n', e, rest') = (n0, e0, rest0)"
      by blast
    from set_body_fold [OF this] True show ?thesis by simp
  qed (use 0 in \<open>simp add: rule_head_contrib_def split_def\<close>)
  moreover have "fold (rule_head_contrib h2b sel th bd) hs (n0, e0, rest0) = (n1, e1, rest1)"
    using Cons.prems 0 by simp
  ultimately show ?case using Cons.IH by (auto simp: Let_def)
qed auto

lemma set_f_edges:
  assumes "formula_ok sel (fst ft)" shows "set (f_edges sel h2b ft) = dep_edges sel h2b ft"
proof (cases "is_atom_like (fst ft)")
  case True
  then show ?thesis using assms
    by (cases "fst ft") (auto simp: f_contrib_def formula_nodes_edges_def dep_edges_def formula_ok_def Let_def split: option.splits)
next
  case False
  with assms obtain r where f: "fst ft = FRule r" by (auto simp: formula_ok_def split: formula.splits)
  obtain n1 e1 rest where e: "fold (rule_head_contrib h2b sel (snd ft) (body r)) (heads r) ([], [], mstore_empty, []) = (n1, e1, rest)"
    by (metis prod_cases3)
  with False f have "f_edges sel h2b ft = e1" by (cases rest) (simp add: f_contrib_def formula_nodes_edges_def)
  with set_heads_fold [OF e] False f show ?thesis by (simp add: dep_edges_def dep_heads_def dep_body_def)
qed

lemma valid_events_ok:
  "valid_events sel evs FS \<Longrightarrow> (\<And>ft. ft \<in># FS \<Longrightarrow> formula_ok sel (fst ft)) \<Longrightarrow>
   ft \<in># fold spec_event evs FS \<Longrightarrow> formula_ok sel (fst ft)"
proof (induction evs arbitrary: FS)
  case (Cons ev evs)
  have "formula_ok sel (fst x)" if "x \<in># spec_event ev FS" for x
    using that Cons.prems(1) Cons.prems(2) [of x]
    by (cases x) (auto simp: spec_event_def event_key_def split: if_splits dest: in_diffD)
  with Cons show ?case by auto
qed simp

lemma dep_of_edges:
  assumes "dep_of sel g FS" "\<And>ft. ft \<in># FS \<Longrightarrow> formula_ok sel (fst ft)"
  shows "graph_wf g" "(v, l) \<in> set (edges_of g u) \<longleftrightarrow> (\<exists>ft. ft \<in># FS \<and> (u, v, l) \<in> dep_edges sel (head_to_body g) ft)"
proof -
  have rep: "bag_rep g (bag_nodes sel (head_to_body g) FS) (bag_edges sel (head_to_body g) FS)"
    using assms(1) by (simp add: dep_of_def)
  show "graph_wf g" by (rule bag_rep_wf(1) [OF rep])
  have "(v, l) \<in> set (edges_of g u) \<longleftrightarrow> (u, v, l) \<in># bag_edges sel (head_to_body g) FS"
    using rep by (simp add: bag_rep_def)
  then show "(v, l) \<in> set (edges_of g u) \<longleftrightarrow> (\<exists>ft. ft \<in># FS \<and> (u, v, l) \<in> dep_edges sel (head_to_body g) ft)"
    using set_f_edges assms(2) by (auto simp: bag_edges_def)
qed

lemma dep_of_modals:
  assumes "dep_of sel g FS" shows "t \<in> set (tables_with_modal m g) \<longleftrightarrow> (\<exists>ft. ft \<in># FS \<and> (m, t) \<in># f_modals sel ft)"
  using modal_rep_tables(1) [of "store g" "modal_index g" "bag_modals sel FS" m] assms
  by (auto simp: dep_of_def tables_with_modal_def bag_modals_def)

lemma head_to_body_empty [simp]: "head_to_body (dep_empty h2b) = h2b"
  by (simp add: dep_empty_def graph.defs bag_graph.defs dep_graph.defs)

text \<open>The two rules \<open>p(x) :- q(x, 1), not r(x)\<close> and \<open>execute[nova:act(x)] :- p(x)\<close>.\<close>

definition action_example :: rule where
  "action_example = \<lparr>heads = [(lit ''act'' [Variable ''x''])\<lparr>table := \<lparr>tbl = ''act'', service = Some ''nova'', modal = Some ''execute''\<rparr>\<rparr>],
     body = [lit ''p'' [Variable ''x'']]\<rparr>"

definition ins :: "formula \<Rightarrow> event" where "ins f = \<lparr>formula = f, is_insert = True, target = None\<rparr>"
definition del :: "formula \<Rightarrow> event" where "del f = \<lparr>formula = f, is_insert = False, target = None\<rparr>"

text \<open>
  C8. The dependency graph refines a bag of formulas: when every deletion in a sequence of
  events is of a formula that was inserted before and not yet deleted, \<open>formula_update\<close> on an
  empty graph succeeds; afterwards the graph is well formed, its edges are exactly the
  head/body dependencies (with their negation labels) of the formulas present, and the tables
  listed for a modal are exactly the heads with that modal.
\<close>

theorem dependency_graph_refines_formulas:
  assumes "valid_events sel evs {#}"
  shows "\<exists>ch g. formula_update sel evs (dep_empty h2b) = Inr (ch, g) \<and> graph_wf g \<and>
     (\<forall>u v n. graph_edge_in u v n g = (\<exists>ft. ft \<in># fold spec_event evs {#} \<and> (u, v, n) \<in> dep_edges sel h2b ft)) \<and>
     (\<forall>m t. (t \<in> set (tables_with_modal m g)) = (\<exists>ft. ft \<in># fold spec_event evs {#} \<and> (m, t) \<in># f_modals sel ft))"
proof -
  obtain ch g where g: "formula_update sel evs (dep_empty h2b) = Inr (ch, g)" "dep_of sel g (fold spec_event evs {#})"
    "head_to_body g = h2b"
    using formula_update_ok [OF dep_of_empty [of sel h2b] assms, of "[]"] by (auto simp: formula_update_def)
  have ok: "formula_ok sel (fst ft)" if "ft \<in># fold spec_event evs {#}" for ft
    using valid_events_ok [OF assms _ that] by simp
  show ?thesis
    using g(1) dep_of_edges [OF g(2) ok] dep_of_modals [OF g(2)] g(3) by (auto simp: graph_edge_in_def)
qed

theorem dependency_graph_refines_formulas_witness:
  "valid_events default_selection [ins (FRule rule_example), ins (FRule action_example), del (FRule rule_example)] {#} \<and>
   (\<exists>ch g. formula_update default_selection
       [ins (FRule rule_example), ins (FRule action_example), del (FRule rule_example)] (dep_empty True) = Inr (ch, g) \<and>
     \<not> graph_edge_in ''p'' ''q'' False g \<and> ''nova:act'' \<in> set (tables_with_modal ''execute'' g))"
proof -
  let ?evs = "[ins (FRule rule_example), ins (FRule action_example), del (FRule rule_example)]"
  let ?a = "(FRule action_example, None :: string option)"
  have v: "valid_events default_selection ?evs {#}" by code_simp
  have fs: "fold spec_event ?evs {#} = {#?a#}"
    by (simp add: spec_event_def event_key_def ins_def del_def)
  have a: "(''p'', ''q'', False) \<notin> dep_edges default_selection True ?a"
    "(''execute'', ''nova:act'') \<in># f_modals default_selection ?a"
    by (simp_all add: dep_edges_def dep_heads_def dep_body_def default_selection_def selected_def action_example_def lit_def tn_def
        f_modals_def head_modals_def global_tablename_def opt_pieces_def lit_tablename_def tablename_name_def or_else_def)
  from dependency_graph_refines_formulas [OF v, of True] a show ?thesis using v unfolding fs by fastforce
qed

text \<open>
  C29. Undoing a batch: if every formula a batch of events deletes was present before the batch
  and no formula of the batch has a head with a modal, then \<open>undo_changes\<close> on the changes that
  \<open>formula_update\<close> reported succeeds and leaves the graph as it was: the same nodes, the same
  edges with the same reference counts, and the same tables for every modal.
\<close>

theorem undo_changes_restores:
  assumes start: "formula_update sel evs0 (dep_empty h2b) = Inr (ch0, g)" "valid_events sel evs0 {#}"
    and batch: "valid_events sel evs (fold spec_event evs0 {#})" "deleted evs \<subseteq># fold spec_event evs0 {#}"
      "list_all (\<lambda>ev. f_modals sel (event_key ev) = {#}) evs"
  shows "\<exists>ch g1 g2. formula_update sel evs g = Inr (ch, g1) \<and> undo_changes ch g1 = Inr g2 \<and>
     (\<forall>u v n. graph_edge_in u v n g2 = graph_edge_in u v n g \<and> edge_count u v n g2 = edge_count u v n g) \<and>
     (\<forall>t. graph_node_in t g2 = graph_node_in t g \<and> node_count t g2 = node_count t g) \<and>
     (\<forall>m. set (tables_with_modal m g2) = set (tables_with_modal m g))"
proof -
  let ?FS = "fold spec_event evs0 {#}"
  have dep: "dep_of sel g ?FS"
    using formula_update_ok [OF dep_of_empty [of sel h2b] start(2), of "[]"] start(1) by (auto simp: formula_update_def)
  obtain g1 ixs where 1: "formula_update sel evs g = Inr (batch_changes sel (head_to_body g) evs ixs, g1)"
    "dep_of sel g1 (fold spec_event evs ?FS)" "head_to_body g1 = head_to_body g" "length ixs = length evs"
    "list_all (\<lambda>ix. ix = []) ixs"
    using formula_update_ok [OF dep batch(1), of "[]"] batch(3) by (auto simp: formula_update_def)
  have bal: "fold spec_event evs ?FS = ?FS - deleted evs + inserted evs" by (rule spec_events_balance [OF batch(2)])
  then have "inserted evs \<subseteq># fold spec_event evs ?FS" by simp
  from undo_batch [OF 1(2) this batch(3) 1(4,5)] obtain g2 where
    2: "undo_changes (batch_changes sel (head_to_body g) evs ixs) g1 = Inr g2" "dep_of sel g2 ?FS"
      "head_to_body g2 = head_to_body g"
    using bal batch(2) by (auto simp: 1(3) undo_changes_def)
  from dep 2(2,3) have reps: "bag_rep g2 (bag_nodes sel (head_to_body g) ?FS) (bag_edges sel (head_to_body g) ?FS)"
    "bag_rep g (bag_nodes sel (head_to_body g) ?FS) (bag_edges sel (head_to_body g) ?FS)" by (simp_all add: dep_of_def)
  have "graph_edge_in u v n g2 = graph_edge_in u v n g" "graph_node_in t g2 = graph_node_in t g" for u v n t
    using reps by (simp_all add: graph_edge_in_def graph_node_in_def bag_rep_def node_set_def)
  with bag_rep_counts(1,2) [OF reps(1)] bag_rep_counts(1,2) [OF reps(2)] 1(1) 2(1) dep_of_modals [OF dep] dep_of_modals [OF 2(2)]
  show ?thesis by (auto intro!: exI [of _ g1] exI [of _ g2])
qed

theorem undo_changes_restores_witness:
  "\<exists>ch0 g ch g1 g2.
     formula_update (default_selection\<lparr>include_atoms := False\<rparr>) [ins (FRule rule_example)] (dep_empty True) = Inr (ch0, g) \<and>
     formula_update (default_selection\<lparr>include_atoms := False\<rparr>)
       [del (FRule rule_example), ins (FRule (rule_example\<lparr>body := []\<rparr>))] g = Inr (ch, g1) \<and>
     undo_changes ch g1 = Inr g2 \<and> graph_edge_in ''p'' ''q'' False g2 = graph_edge_in ''p'' ''q'' False g"
proof -
  let ?start = "[ins (FRule rule_example)]" and ?batch = "[del (FRule rule_example), ins (FRule (rule_example\<lparr>body := []\<rparr>))]"
  let ?sel = "default_selection\<lparr>include_atoms := False\<rparr>"
  have v0: "valid_events ?sel ?start {#}"
    by code_simp
  have v: "valid_events ?sel ?batch (fold spec_event ?start {#})"
    by (simp add: spec_event_def event_key_def ins_def del_def formula_ok_def is_atom_like_def rule_example_def)
  have m: "list_all (\<lambda>ev. f_modals ?sel (event_key ev) = {#}) ?batch"
    by (simp add: f_modals_def is_atom_like_def event_key_def del_def ins_def rule_example_def lit_is_atom_def
        head_modals_def selected_def default_selection_def lit_def tn_def)
  have d: "deleted ?batch \<subseteq># fold spec_event ?start {#}"
    by (simp add: spec_event_def event_key_def ins_def del_def)
  obtain ch0 g where g: "formula_update ?sel ?start (dep_empty True) = Inr (ch0, g)"
    using formula_update_ok [OF dep_of_empty [of ?sel True] v0, of "[]"] unfolding formula_update_def by blast
  from undo_changes_restores [OF g v0 v d m] g show ?thesis by blast
qed

text \<open>
  The condition on deletions is needed: a batch that inserts \<open>p(x) :- q(x, 1), not r(x)\<close> and
  deletes it again, then undone, leaves an edge from \<open>p\<close> to \<open>q\<close> in a graph that was empty, because
  the changes are undone first to last: the deletions of what is not there are ignored,
  and then the rule is added.
\<close>

theorem undo_insert_delete:
  "let r = FRule rule_example; sel = default_selection\<lparr>include_atoms := False\<rparr> in
   rbind (formula_update sel [ins r, del r] (dep_empty True)) (\<lambda>(ch, g).
     map_sum id (\<lambda>g'. (edges g, graph_edge_in ''p'' ''q'' False g')) (undo_changes ch g)) = Inr ([], True)"
  by code_simp

end
