(* ===== verification/Rule_Analysis.thy ===== *)
theory Rule_Analysis
  imports Dep_Graph Stratify
begin

text \<open>
  The analyses of a collection of rules built on the dependency graph, from \<open>compile.py\<close>:
  \<open>is_recursive\<close>, \<open>stratification\<close> and \<open>find_subpolicy\<close>, proved against the dependency relation of
  the rules themselves.
\<close>

declare map_of_eq_Some_iff [simp del] Some_eq_map_of_iff [simp del]

section \<open>The graph of a list of rules\<close>

text \<open>The dependencies of the formulas, without the graph.\<close>

definition table_dep :: "formula list \<Rightarrow> (string \<times> string) set" where
  "table_dep fs = {(u, v). \<exists>f \<in> set fs. \<exists>n. (u, v, n) \<in> dep_edges default_selection True (f, None)}"

definition negative_dep :: "formula list \<Rightarrow> (string \<times> string) set" where
  "negative_dep fs = {(u, v). \<exists>f \<in> set fs. (u, v, True) \<in> dep_edges default_selection True (f, None)}"

lemma cycles_add_edges: "cycles g = None \<Longrightarrow> cycles (fold (\<lambda>(u, v, l). bag_add_edge u v l) es g) = None"
  by (induction es arbitrary: g)
    (auto simp: bag_add_edge_def graph_add_edge_with_def Let_def bag_add_node_def graph_add_node_def)

lemma cycles_add_nodes: "cycles (fold bag_add_node ns g) = cycles g"
  by (induction ns arbitrary: g) (simp_all add: bag_add_node_def graph_add_node_def Let_def)

lemma cycles_dep_iadd: "cycles (dep_iadd ix g) = cycles g"
  by (simp add: dep_iadd_def split: prod.split)

lemma event_update_cycles:
  assumes "event_update sel ev (ch, g) = Inr (ch', g')" "is_insert ev" "cycles g = None"
  shows "cycles g' = None"
  using assms by (auto simp: event_update_def rbind_Inr_iff cycles_dep_iadd cycles_add_nodes Let_def
      intro!: cycles_add_edges)

lemma formula_insert_ok:
  assumes "dep_of sel g FS" "formula_ok sel f"
  shows "\<exists>ch g'. formula_insert sel f th g = Inr (ch, g') \<and> dep_of sel g' (add_mset (f, th) FS) \<and>
     head_to_body g' = head_to_body g \<and> (cycles g = None \<longrightarrow> cycles g' = None)"
proof -
  let ?ev = "\<lparr>formula = f, is_insert = True, target = th\<rparr>"
  obtain ch' g' where "event_update sel ?ev ([], g) = Inr (ch', g')" "dep_of sel g' (spec_event ?ev FS)"
    "head_to_body g' = head_to_body g"
    using event_update_ok [OF assms(1), of ?ev "[]"] assms(2) by auto
  with event_update_cycles show ?thesis
    by (fastforce simp: formula_insert_def formula_update_def spec_event_def event_key_def)
qed

lemma dep_init_loop:
  assumes "dep_of sel g FS" "list_all (formula_ok sel) fs" "cycles g = None"
  shows "\<exists>g'. for_res (\<lambda>f g. rbind (formula_insert sel f th g) (\<lambda>(_, g). Inr g)) fs g = Inr g' \<and>
     dep_of sel g' (mset (map (\<lambda>f. (f, th)) fs) + FS) \<and> head_to_body g' = head_to_body g \<and> cycles g' = None"
  using assms
proof (induction fs arbitrary: g FS)
  case (Cons f fs)
  obtain ch g1 where g1: "formula_insert sel f th g = Inr (ch, g1)" "dep_of sel g1 (add_mset (f, th) FS)"
    "head_to_body g1 = head_to_body g" "cycles g1 = None"
    using formula_insert_ok [OF Cons.prems(1), of f th] Cons.prems by auto
  from Cons.IH [OF g1(2) _ g1(4)] Cons.prems(2) g1 show ?case by simp
qed simp

lemma dep_init_ok:
  assumes "list_all (formula_ok sel) fs"
  shows "\<exists>g. dep_init sel h2b th fs = Inr g \<and> dep_of sel g (mset (map (\<lambda>f. (f, th)) fs)) \<and>
     head_to_body g = h2b \<and> cycles g = None"
proof -
  have "cycles (dep_empty h2b) = None"
    by (simp add: dep_empty_def graph.defs bag_graph.defs dep_graph.defs graph_empty_def)
  from dep_init_loop [OF dep_of_empty assms this, of th] show ?thesis by (simp add: dep_init_def)
qed

lemma dep_init_edges:
  assumes "list_all (formula_ok default_selection) fs"
  shows "\<exists>g. dep_init default_selection True None fs = Inr g \<and> graph_wf g \<and> cycles g = None \<and>
     edge_rel g = table_dep fs \<and> {(u, v). (v, True) \<in> set (edges_of g u)} = negative_dep fs"
proof -
  obtain g where g: "dep_init default_selection True None fs = Inr g"
    "dep_of default_selection g (mset (map (\<lambda>f. (f, None)) fs))" "head_to_body g = True" "cycles g = None"
    using dep_init_ok [OF assms] by blast
  have ok: "formula_ok default_selection (fst ft)" if "ft \<in># mset (map (\<lambda>f. (f, None)) fs)" for ft :: "formula \<times> string option"
    using that assms by (auto simp: list_all_iff)
  have e: "(v, l) \<in> set (edges_of g u) \<longleftrightarrow> (\<exists>f \<in> set fs. (u, v, l) \<in> dep_edges default_selection True (f, None))"
    for u v l using dep_of_edges(2) [OF g(2) ok, of v l u] g(3) by auto
  have "edge_rel g = table_dep fs" "{(u, v). (v, True) \<in> set (edges_of g u)} = negative_dep fs"
    by (auto simp: edge_rel_def e table_dep_def negative_dep_def)
  with dep_of_edges(1) [OF g(2) ok] g show ?thesis by blast
qed

text \<open>
  C27. The two tests the engine runs before it accepts rules are right: \<open>is_recursive\<close> says whether
  some table depends on itself, and \<open>is_stratified\<close> whether no table depends on itself through a
  negated literal; both return for every list of rules and atoms.
\<close>

theorem recursion_tests_correct:
  assumes "list_all (formula_ok default_selection) fs"
  shows "is_recursive fs = Inr (\<not> acyclic (table_dep fs)) \<and>
    is_stratified fs = Inr (\<forall>(u, v) \<in> negative_dep fs. (v, u) \<notin> (table_dep fs)\<^sup>*)"
proof -
  obtain g where g: "dep_init default_selection True None fs = Inr g" "graph_wf g" "cycles g = None"
    "edge_rel g = table_dep fs" "{(u, v). (v, True) \<in> set (edges_of g u)} = negative_dep fs"
    using dep_init_edges [OF assms] by blast
  have "cache_ok g" using g(3) by (simp add: cache_ok_def)
  from graph_cycles_ok [OF g(2) this] obtain cs :: "string list list" and g' where
    "has_cycle g = Inr (cs \<noteq> [], g')" "cs \<noteq> [] \<longleftrightarrow> (\<exists>v. (v, v) \<in> (edge_rel g)\<^sup>+)"
    by blast
  then have "is_recursive fs = Inr (\<not> acyclic (table_dep fs))" using g by (simp add: is_recursive_def acyclic_def)
  moreover obtain r where r: "stratification [True] g = Inr r" "r = None \<longleftrightarrow> label_cycle [True] g"
    using stratification_ok [OF g(2)] by blast
  moreover have "label_cycle [True] g \<longleftrightarrow> (\<exists>(u, v) \<in> negative_dep fs. (v, u) \<in> (table_dep fs)\<^sup>*)"
    unfolding g(4) [symmetric] g(5) [symmetric] label_cycle_def by (simp add: ex_bool_eq)
  ultimately show ?thesis using g(1) by (auto simp: is_stratified_def rules_stratification_def)
qed

theorem recursion_tests_correct_witness:
  "list_all (formula_ok default_selection) [FRule rule_example, FRule action_example] \<and>
   is_recursive [FRule rule_example, FRule action_example] = Inr False \<and>
   acyclic (table_dep [FRule rule_example, FRule action_example])"
proof -
  let ?fs = "[FRule rule_example, FRule action_example]"
  have ok: "list_all (formula_ok default_selection) ?fs" by code_simp
  have "is_recursive ?fs = Inr False" by code_simp
  with ok recursion_tests_correct [OF ok] show ?thesis by simp
qed

section \<open>Subpolicies\<close>

text \<open>Python's sets of rules compare with \<open>Rule.__eq__\<close>.\<close>

definition rset_add :: "rule \<Rightarrow> rule list \<Rightarrow> rule list" where
  "rset_add r rs = (if list_ex (rule_eq r) rs then rs else rs @ [r])"

type_synonym definitions = "(string, rule list) dict"

abbreviation defs_of :: "definitions \<Rightarrow> string \<Rightarrow> rule list" where
  "defs_of d t \<equiv> (case map_of d t of None \<Rightarrow> [] | Some rs \<Rightarrow> rs)"

definition rule_definitions :: "rule list \<Rightarrow> definitions" where
  "rule_definitions rules =
     fold (\<lambda>r d. fold (\<lambda>h d. AList.update (tbl (table h)) (rset_add r (defs_of d (tbl (table h)))) d) (heads r) d) rules []"

definition filter_output_step :: "(rule \<Rightarrow> bool) \<Rightarrow> rule \<Rightarrow> rule list \<times> dep_graph \<Rightarrow> (rule list \<times> dep_graph) res" where
  "filter_output_step permitted r = (\<lambda>(new, g).
     if permitted r then Inr (rset_add r new, g)
     else rbind (formula_delete default_selection (FRule r) None g) (\<lambda>(_, g). Inr (new, g)))"

definition filter_output_definitions ::
    "string list \<Rightarrow> (rule \<Rightarrow> bool) \<Rightarrow> definitions \<times> dep_graph \<Rightarrow> (definitions \<times> dep_graph) res" where
  "filter_output_definitions outs permitted = for_res (\<lambda>t (d, g).
     case map_of d t of
       None \<Rightarrow> Inr (d, g)
     | Some rs \<Rightarrow> rbind (for_res (filter_output_step permitted) rs ([], g)) (\<lambda>(new, g). Inr (AList.update t new d, g))) outs"

definition find_subpolicy :: "rule list \<Rightarrow> string list \<Rightarrow> string list \<Rightarrow> string list \<Rightarrow> rule list res" where
  "find_subpolicy rules required_tables prohibited_tables outs =
     rbind (dep_init default_selection True None (map FRule rules)) (\<lambda>g.
     let d = rule_definitions rules in
     rbind (find_dependencies prohibited_tables g) (\<lambda>(deps, g).
     let prohibited = filter (\<lambda>t. t \<notin> set outs) deps in
     rbind (filter_output_definitions outs (\<lambda>r. list_all (\<lambda>l. tbl (table l) \<notin> set prohibited) (body r)) (d, g)) (\<lambda>(d, g).
     rbind (find_dependencies required_tables g) (\<lambda>(required, g).
     rbind (filter_output_definitions outs (\<lambda>r. list_ex (\<lambda>l. tbl (table l) \<in> set required) (body r)) (d, g)) (\<lambda>(d, g).
     rbind (find_definitions outs g) (\<lambda>(outputs, g).
       Inr (fold (\<lambda>t sub. case map_of d t of None \<Rightarrow> sub | Some rs \<Rightarrow> fold rset_add rs sub) outputs [])))))))"

text \<open>Rules with one head and a body, over the tables of one policy.\<close>

definition plain_rule :: "rule \<Rightarrow> bool" where
  "plain_rule r = (length (heads r) = 1 \<and> body r \<noteq> [] \<and> list_all (\<lambda>l. service (table l) = None) (heads r @ body r))"

definition head_table :: "rule \<Rightarrow> string" where
  "head_table r = tbl (table (rule_head r))"

definition rule_dep :: "rule list \<Rightarrow> (string \<times> string) set" where
  "rule_dep rs = {(u, v). \<exists>r \<in> set rs. u = head_table r \<and> (\<exists>l \<in> set (body r). v = tbl (table l))}"

definition prohibited_set :: "rule list \<Rightarrow> string list \<Rightarrow> string list \<Rightarrow> string set" where
  "prohibited_set rules proh outs = {u. \<exists>v \<in> set proh. (u, v) \<in> (rule_dep rules)\<^sup>*} - set outs"

text \<open>The rules that survive the two passes, without the graph.\<close>

definition not_prohibited :: "rule list \<Rightarrow> string list \<Rightarrow> string list \<Rightarrow> rule list" where
  "not_prohibited rules proh outs = filter (\<lambda>r. head_table r \<in> set outs \<longrightarrow>
     (\<forall>l \<in> set (body r). tbl (table l) \<notin> prohibited_set rules proh outs)) rules"

definition supported :: "rule list \<Rightarrow> string list \<Rightarrow> string list \<Rightarrow> rule list" where
  "supported rules req outs = filter (\<lambda>r. head_table r \<in> set outs \<longrightarrow>
     (\<exists>l \<in> set (body r). \<exists>v \<in> set req. (tbl (table l), v) \<in> (rule_dep rules)\<^sup>*)) rules"

definition subpolicy :: "rule list \<Rightarrow> string list \<Rightarrow> string list \<Rightarrow> string list \<Rightarrow> rule set" where
  "subpolicy rules req proh outs =
     (let rs = supported (not_prohibited rules proh outs) req outs
      in {r \<in> set rs. \<exists>t \<in> set outs. (t, head_table r) \<in> (rule_dep rs)\<^sup>*})"

lemma rule_dep_mono: "set rs \<subseteq> set rs' \<Longrightarrow> rule_dep rs \<subseteq> rule_dep rs'"
  by (auto simp: rule_dep_def)

lemma subpolicy_prohibited:
  assumes p: "p \<in> set proh" "p \<notin> set outs" and path: "(t, p) \<in> (rule_dep (not_prohibited rules proh outs))\<^sup>*"
  shows "t \<notin> set outs"
  using path
proof (induction rule: converse_rtrancl_induct)
  case (step x y)
  have "(y, p) \<in> (rule_dep rules)\<^sup>*"
    using step.hyps(2) by (rule rtrancl_mono [THEN subsetD, rotated]) (auto intro!: rule_dep_mono simp: not_prohibited_def)
  with step.IH p have "y \<in> prohibited_set rules proh outs" by (auto simp: prohibited_set_def)
  with step.hyps(1) show ?case by (auto simp: rule_dep_def not_prohibited_def)
qed (rule p(2))

lemma subpolicy_reachable:
  assumes "set S = {r \<in> set rs. \<exists>t \<in> set outs. (t, head_table r) \<in> (rule_dep rs)\<^sup>*}" and "t \<in> set outs"
  shows "(t, u) \<in> (rule_dep rs)\<^sup>* \<Longrightarrow> (t, u) \<in> (rule_dep S)\<^sup>*"
proof (induction rule: rtrancl_induct)
  case (step x y)
  then obtain r where "r \<in> set rs" "x = head_table r" "\<exists>l \<in> set (body r). y = tbl (table l)" by (auto simp: rule_dep_def)
  with assms step.hyps(1) have "(x, y) \<in> rule_dep S" by (auto simp: rule_dep_def)
  with step.IH show ?case by (rule rtrancl_into_rtrancl)
qed simp

text \<open>The graph of the rules that satisfy \<open>P\<close>.\<close>

definition graph_for :: "rule list \<Rightarrow> dep_graph \<Rightarrow> bool" where
  "graph_for rs g = (dep_of default_selection g (mset (map (\<lambda>r. (FRule r, None)) rs)) \<and> head_to_body g = True)"

lemma plain_rule_ok: "plain_rule r \<Longrightarrow> formula_ok default_selection (FRule r)"
  by (auto simp: plain_rule_def formula_ok_def is_atom_like_def)

lemma plain_rule_edges:
  assumes "plain_rule r"
  shows "(u, v, n) \<in> dep_edges default_selection True (FRule r, None) \<longleftrightarrow>
    u = head_table r \<and> (\<exists>l \<in> set (body r). v = tbl (table l) \<and> n = negated l)"
proof -
  obtain h where h: "heads r = [h]" using assms by (auto simp: plain_rule_def length_Suc_conv)
  have "body r \<noteq> []" "service (table h) = None" and b: "\<And>l. l \<in> set (body r) \<Longrightarrow> service (table l) = None"
    using assms h by (auto simp: plain_rule_def list_all_iff)
  then have "\<not> is_atom_like (FRule r)" "global_tablename None (table h) = head_table r"
    using h by (simp_all add: is_atom_like_def global_tablename_def opt_pieces_def head_table_def)
  moreover have "lit_tablename None l = tbl (table l)" if "l \<in> set (body r)" for l
    using b [OF that] by (simp add: lit_tablename_def tablename_name_def or_else_def opt_pieces_def)
  ultimately show ?thesis
    using h by (auto simp: dep_edges_def dep_heads_def dep_body_def default_selection_def selected_def Let_def)
qed

lemma graph_for_edges:
  assumes "graph_for rs g" "list_all plain_rule rs"
  shows "graph_wf g" "edge_rel g = rule_dep rs"
proof -
  have ok: "formula_ok default_selection (fst ft)" if "ft \<in># mset (map (\<lambda>r. (FRule r, None)) rs)" for ft :: "formula \<times> string option"
    using that assms(2) plain_rule_ok by (auto simp: list_all_iff)
  have g: "dep_of default_selection g (mset (map (\<lambda>r. (FRule r, None)) rs))" "head_to_body g = True"
    using assms(1) by (simp_all add: graph_for_def)
  show "graph_wf g" by (rule dep_of_edges(1) [OF g(1) ok])
  have "(v, l) \<in> set (edges_of g u) \<longleftrightarrow> (\<exists>r \<in> set rs. (u, v, l) \<in> dep_edges default_selection True (FRule r, None))" for u v l
    using dep_of_edges(2) [OF g(1) ok, of v l u] g(2) by auto
  then have "(u, v) \<in> edge_rel g \<longleftrightarrow> (\<exists>r \<in> set rs. \<exists>n. (u, v, n) \<in> dep_edges default_selection True (FRule r, None))" for u v
    by (auto simp: edge_rel_def)
  moreover have "(\<exists>n. (u, v, n) \<in> dep_edges default_selection True (FRule r, None)) \<longleftrightarrow>
      u = head_table r \<and> (\<exists>l \<in> set (body r). v = tbl (table l))" if "r \<in> set rs" for u v r
    using plain_rule_edges that assms(2) by (auto simp: list_all_iff)
  ultimately show "edge_rel g = rule_dep rs" by (auto simp: rule_dep_def)
qed

lemma graph_for_cong:
  assumes "edges g' = edges g" "dkeys (nodes g') = dkeys (nodes g)" "graph.more g' = graph.more g"
  shows "graph_for rs g' = graph_for rs g"
proof -
  have "node_refcounts g' = node_refcounts g" "edge_refcounts g' = edge_refcounts g" "head_to_body g' = head_to_body g"
    "modal_index g' = modal_index g" "store g' = store g"
    using assms(3) by (cases g; cases g'; simp)+
  moreover have "node_set g' = node_set g" "edges_of g' = edges_of g"
    using assms by (simp_all add: node_set_def edges_of_def fun_eq_iff)
  ultimately show ?thesis using assms(1,2) by (simp add: graph_for_def dep_of_def bag_rep_def)
qed

lemma find_dependencies_for:
  assumes "graph_for rs g" "list_all plain_rule rs"
  shows "\<exists>ds g'. find_dependencies ts g = Inr (ds, g') \<and> graph_for rs g' \<and>
    set ds = set ts \<union> {u. \<exists>v \<in> set ts. (u, v) \<in> (rule_dep rs)\<^sup>*}"
proof -
  obtain ds g' where "find_dependent_nodes ts g = Inr (ds, g')" and g': "edges g' = edges g"
    "dkeys (nodes g') = dkeys (nodes g)" "graph.more g' = graph.more g"
    and "set ds = set ts \<union> {u. \<exists>v \<in> set ts. (u, v) \<in> (edge_rel g)\<^sup>*}"
    using find_dependent_nodes_ok [OF graph_for_edges(1) [OF assms], of ts] by blast
  with assms(1) graph_for_cong [OF g'] graph_for_edges(2) [OF assms] show ?thesis
    by (simp add: find_dependencies_def)
qed

lemma filter_remove: "distinct rs \<Longrightarrow> mset (map f (filter P rs)) = mset (map f (filter (\<lambda>x. P x \<and> x \<noteq> r) rs)) +
    (if r \<in> set rs \<and> P r then {#f r#} else {#})"
  by (induction rs) auto

lemma formula_delete_for:
  assumes "graph_for (filter P rules) g" "distinct rules" "r \<in> set rules" "P r" "plain_rule r"
  shows "\<exists>ch g'. formula_delete default_selection (FRule r) None g = Inr (ch, g') \<and>
    graph_for (filter (\<lambda>x. P x \<and> x \<noteq> r) rules) g'"
proof -
  let ?ev = "\<lparr>formula = FRule r, is_insert = False, target = None\<rparr>"
  let ?k = "\<lambda>r. (FRule r, None :: string option)"
  have m: "mset (map ?k (filter P rules)) = add_mset (?k r) (mset (map ?k (filter (\<lambda>x. P x \<and> x \<noteq> r) rules)))"
    using filter_remove [OF assms(2), of ?k P r] assms(3,4) by simp
  obtain ch g' where "event_update default_selection ?ev ([], g) = Inr (ch, g')"
    "dep_of default_selection g' (spec_event ?ev (mset (map ?k (filter P rules))))" "head_to_body g' = head_to_body g"
    using event_update_ok [of default_selection g "mset (map ?k (filter P rules))" ?ev "[]"] assms(1)
      plain_rule_ok [OF assms(5)] m
    by (auto simp: graph_for_def event_key_def simp del: mset_map mset_filter)
  then show ?thesis
    using assms(1) by (simp add: formula_delete_def formula_update_def spec_event_def event_key_def m graph_for_def
        del: mset_map mset_filter)
qed

text \<open>A Python set of such rules.\<close>

definition rule_set :: "rule list \<Rightarrow> bool" where
  "rule_set rules = (distinct (map rule_key rules) \<and> list_all plain_rule rules)"

lemma rule_set_eq: "rule_set rules \<Longrightarrow> r \<in> set rules \<Longrightarrow> s \<in> set rules \<Longrightarrow> rule_eq r s \<longleftrightarrow> r = s"
  by (auto simp: rule_set_def rule_eq_key distinct_map inj_on_def)

lemma rset_add_set:
  assumes "rule_set rules" "r \<in> set rules" "set new \<subseteq> set rules" "distinct new"
  shows "set (rset_add r new) = insert r (set new)" "distinct (rset_add r new)"
proof -
  have "list_ex (rule_eq r) new \<longleftrightarrow> r \<in> set new"
    using rule_set_eq [OF assms(1,2)] assms(3) by (auto simp: list_ex_iff)
  with assms(4) show "set (rset_add r new) = insert r (set new)" "distinct (rset_add r new)"
    by (auto simp: rset_add_def)
qed

lemma filter_output_step_simps:
  "perm r \<Longrightarrow> filter_output_step perm r (new, g) = Inr (rset_add r new, g)"
  "\<not> perm r \<Longrightarrow> filter_output_step perm r (new, g) =
     rbind (formula_delete default_selection (FRule r) None g) (\<lambda>(_, g). Inr (new, g))"
  by (simp_all add: filter_output_step_def)

lemma filter_output_rules:
  assumes rules: "rule_set rules" and "distinct rs" "set rs \<subseteq> set rules" "\<forall>r \<in> set rs. P r"
    and "graph_for (filter P rules) g" "set new \<subseteq> set rules" "distinct new"
  shows "\<exists>new' g'. for_res (filter_output_step perm) rs (new, g) = Inr (new', g') \<and>
     set new' = set new \<union> {r \<in> set rs. perm r} \<and> distinct new' \<and>
     graph_for (filter (\<lambda>r. P r \<and> (r \<in> set rs \<longrightarrow> perm r)) rules) g'"
  using assms(2-)
proof (induction rs arbitrary: P new g)
  case (Cons r rs)
  have r: "r \<in> set rules" "P r" using Cons.prems by auto
  show ?case
  proof (cases "perm r")
    case True
    note new = rset_add_set [OF rules r(1) Cons.prems(5,6)]
    have "set (rset_add r new) \<subseteq> set rules" using new(1) r(1) Cons.prems(5) by simp
    from Cons.IH [OF _ _ _ Cons.prems(4) this new(2)] Cons.prems(1-3) obtain new' g' where
      "for_res (filter_output_step perm) rs (rset_add r new, g) = Inr (new', g')"
      "set new' = set (rset_add r new) \<union> {r \<in> set rs. perm r}" "distinct new'"
      "graph_for (filter (\<lambda>r. P r \<and> (r \<in> set rs \<longrightarrow> perm r)) rules) g'" by auto
    moreover have "(\<lambda>x. P x \<and> (x \<in> set (r # rs) \<longrightarrow> perm x)) = (\<lambda>x. P x \<and> (x \<in> set rs \<longrightarrow> perm x))" using True by auto
    ultimately show ?thesis using True new(1) by (auto simp: filter_output_step_simps)
  next
    case False
    have d: "distinct rules" "plain_rule r" using rules r(1) by (auto simp: rule_set_def list_all_iff distinct_map)
    obtain ch g1 where g1: "formula_delete default_selection (FRule r) None g = Inr (ch, g1)"
      "graph_for (filter (\<lambda>x. P x \<and> x \<noteq> r) rules) g1"
      using formula_delete_for [OF Cons.prems(4) d(1) r d(2)] by blast
    have "\<forall>x \<in> set rs. P x \<and> x \<noteq> r" using Cons.prems by auto
    from Cons.IH [OF _ _ this g1(2) Cons.prems(5,6)] Cons.prems(1,2) obtain new' g' where
      "for_res (filter_output_step perm) rs (new, g1) = Inr (new', g')"
      "set new' = set new \<union> {r \<in> set rs. perm r}" "distinct new'"
      "graph_for (filter (\<lambda>x. (P x \<and> x \<noteq> r) \<and> (x \<in> set rs \<longrightarrow> perm x)) rules) g'" by auto
    moreover have "(\<lambda>x. P x \<and> (x \<in> set (r # rs) \<longrightarrow> perm x)) = (\<lambda>x. (P x \<and> x \<noteq> r) \<and> (x \<in> set rs \<longrightarrow> perm x))"
      using False by (auto simp: fun_eq_iff)
    ultimately show ?thesis using False g1(1) by (auto simp: filter_output_step_simps)
  qed
qed simp

definition subpolicy_state :: "rule list \<Rightarrow> (rule \<Rightarrow> bool) \<Rightarrow> definitions \<times> dep_graph \<Rightarrow> bool" where
  "subpolicy_state rules P st = (graph_for (filter P rules) (snd st) \<and>
     (\<forall>t. distinct (defs_of (fst st) t) \<and> set (defs_of (fst st) t) = {r \<in> set rules. P r \<and> head_table r = t}))"

lemma subpolicy_state_cong: "(\<And>r. r \<in> set rules \<Longrightarrow> P r = Q r) \<Longrightarrow> subpolicy_state rules P st = subpolicy_state rules Q st"
  unfolding subpolicy_state_def using filter_cong [of rules rules P Q] by (auto cong: conj_cong)

lemma filter_output_ok:
  assumes rules: "rule_set rules" and "subpolicy_state rules P st"
  shows "\<exists>st'. filter_output_definitions outs perm st = Inr st' \<and>
     subpolicy_state rules (\<lambda>r. P r \<and> (head_table r \<in> set outs \<longrightarrow> perm r)) st'"
  using assms(2) unfolding filter_output_definitions_def
proof (induction outs arbitrary: P st)
  case (Cons t outs)
  obtain d g where st: "st = (d, g)" by (cases st)
  let ?P = "\<lambda>r. P r \<and> (r \<in> set (defs_of d t) \<longrightarrow> perm r)"
  have d: "distinct (defs_of d t)" "set (defs_of d t) = {r \<in> set rules. P r \<and> head_table r = t}"
    and g: "graph_for (filter P rules) g" using Cons.prems by (simp_all add: subpolicy_state_def st)
  have sub: "set (defs_of d t) \<subseteq> set rules" "\<forall>r \<in> set (defs_of d t). P r" using d(2) by auto
  obtain new g1 where new: "for_res (filter_output_step perm) (defs_of d t) ([], g) = Inr (new, g1)"
    "set new = {r \<in> set (defs_of d t). perm r}" "distinct new" "graph_for (filter ?P rules) g1"
    using filter_output_rules [OF rules d(1) sub g, of "[]" perm] by auto
  have "subpolicy_state rules ?P (AList.update t new d, g1)"
    using new Cons.prems by (auto simp: subpolicy_state_def st d(2))
  moreover have "subpolicy_state rules ?P (d, g1)" if "map_of d t = None"
    using new(4) Cons.prems that by (auto simp: subpolicy_state_def st)
  ultimately obtain st1 where st1: "(case map_of d t of None \<Rightarrow> Inr (d, g)
      | Some rs \<Rightarrow> rbind (for_res (filter_output_step perm) rs ([], g)) (\<lambda>(new, g). Inr (AList.update t new d, g))) = Inr st1"
    "subpolicy_state rules ?P st1"
    using new(1) by (cases "map_of d t") auto
  from Cons.IH [OF st1(2)] obtain st' where st': "for_res (\<lambda>t (d, g). case map_of d t of None \<Rightarrow> Inr (d, g)
      | Some rs \<Rightarrow> rbind (for_res (filter_output_step perm) rs ([], g)) (\<lambda>(new, g). Inr (AList.update t new d, g))) outs st1 = Inr st'"
    "subpolicy_state rules (\<lambda>r. ?P r \<and> (head_table r \<in> set outs \<longrightarrow> perm r)) st'" by blast
  have "subpolicy_state rules (\<lambda>r. P r \<and> (head_table r \<in> set (t # outs) \<longrightarrow> perm r)) st'"
    using st'(2) by (rule subpolicy_state_cong [THEN iffD1, rotated]) (auto simp: d(2))
  with st1(1) st'(1) st show ?case by simp
qed auto

lemma defs_of_update: "defs_of (AList.update k v d) t = (if t = k then v else defs_of d t)"
  by simp

lemma rule_definitions_loop:
  assumes "rule_set rules" "set rs \<subseteq> set rules" "distinct rs"
    and "\<forall>t. distinct (defs_of d t) \<and> set (defs_of d t) \<subseteq> set rules"
  shows "\<forall>t. distinct (defs_of (fold (\<lambda>r d. fold (\<lambda>h d. AList.update (tbl (table h)) (rset_add r (defs_of d (tbl (table h)))) d) (heads r) d) rs d) t) \<and>
    set (defs_of (fold (\<lambda>r d. fold (\<lambda>h d. AList.update (tbl (table h)) (rset_add r (defs_of d (tbl (table h)))) d) (heads r) d) rs d) t) =
      set (defs_of d t) \<union> {r \<in> set rs. head_table r = t}"
  using assms(2-)
proof (induction rs arbitrary: d)
  case (Cons r rs)
  have r: "r \<in> set rules" "plain_rule r" using Cons.prems(1) assms(1) by (auto simp: rule_set_def list_all_iff)
  then obtain h where h: "heads r = [h]" "head_table r = tbl (table h)"
    by (auto simp: plain_rule_def length_Suc_conv head_table_def)
  let ?d = "AList.update (head_table r) (rset_add r (defs_of d (head_table r))) d"
  note new = rset_add_set [OF assms(1) r(1), of "defs_of d (head_table r)"]
  have d: "\<forall>t. distinct (defs_of ?d t) \<and> set (defs_of ?d t) \<subseteq> set rules"
    "\<And>t. set (defs_of ?d t) = set (defs_of d t) \<union> (if t = head_table r then {r} else {})"
    using new Cons.prems(3) r(1) unfolding defs_of_update by auto
  have "fold (\<lambda>h d. AList.update (tbl (table h)) (rset_add r (defs_of d (tbl (table h)))) d) (heads r) d = ?d"
    using h by simp
  then show ?case using Cons.IH [OF _ _ d(1)] Cons.prems d(2) by (auto simp del: map_of_update)
qed simp

lemma rule_definitions_ok:
  assumes "rule_set rules"
  shows "distinct (defs_of (rule_definitions rules) t)" "set (defs_of (rule_definitions rules) t) = {r \<in> set rules. head_table r = t}"
proof -
  have "distinct rules" using assms by (auto simp: rule_set_def distinct_map)
  with rule_definitions_loop [OF assms subset_refl, of "[]"]
  have *: "\<forall>t. distinct (defs_of (rule_definitions rules) t) \<and> set (defs_of (rule_definitions rules) t) = {r \<in> set rules. head_table r = t}"
    by (simp add: rule_definitions_def)
  then show "distinct (defs_of (rule_definitions rules) t)" by blast
  from * show "set (defs_of (rule_definitions rules) t) = {r \<in> set rules. head_table r = t}" by blast
qed

lemma rset_union:
  assumes "rule_set rules" "set rs \<subseteq> set rules" "set sub \<subseteq> set rules" "distinct sub"
  shows "set (fold rset_add rs sub) = set sub \<union> set rs \<and> distinct (fold rset_add rs sub)"
  using assms(2-)
proof (induction rs arbitrary: sub)
  case (Cons r rs)
  then have "r \<in> set rules" by simp
  note new = rset_add_set [OF assms(1) this Cons.prems(2,3)]
  with Cons.IH [of "rset_add r sub"] Cons.prems show ?case by auto
qed simp

lemma rset_unions:
  assumes "rule_set rules" "\<And>t. set (defs_of d t) \<subseteq> set rules" "set sub \<subseteq> set rules" "distinct sub"
  shows "set (fold (\<lambda>t sub. case map_of d t of None \<Rightarrow> sub | Some rs \<Rightarrow> fold rset_add rs sub) ts sub) =
    set sub \<union> (\<Union>t \<in> set ts. set (defs_of d t))"
  using assms(3-)
proof (induction ts arbitrary: sub)
  case (Cons t ts)
  show ?case
  proof (cases "map_of d t")
    case None
    with Cons.IH [OF Cons.prems] show ?thesis by simp
  next
    case (Some rs)
    then have "set rs \<subseteq> set rules" using assms(2) [of t] by simp
    from rset_union [OF assms(1) this Cons.prems] Cons.prems Cons.IH [of "fold rset_add rs sub"] Some \<open>set rs \<subseteq> set rules\<close>
    show ?thesis by auto
  qed
qed simp

lemma plain_filter: "rule_set rules \<Longrightarrow> list_all plain_rule (filter P rules)"
  by (auto simp: rule_set_def list_all_iff)

lemma find_subpolicy_ok:
  assumes rules: "rule_set rules"
  shows "\<exists>S. find_subpolicy rules req proh outs = Inr S \<and> set S = subpolicy rules req proh outs"
proof -
  have plain: "list_all plain_rule rules" using rules by (simp add: rule_set_def)
  then have "list_all (formula_ok default_selection) (map FRule rules)"
    by (auto simp: list_all_iff intro: plain_rule_ok)
  from dep_init_ok [OF this, of True None] obtain g0 where g0: "dep_init default_selection True None (map FRule rules) = Inr g0"
    "graph_for rules g0" by (auto simp: graph_for_def comp_def)
  obtain deps g1 where g1: "find_dependencies proh g0 = Inr (deps, g1)" "graph_for rules g1"
    "set deps = set proh \<union> {u. \<exists>v \<in> set proh. (u, v) \<in> (rule_dep rules)\<^sup>*}"
    using find_dependencies_for [OF g0(2) plain] by blast
  let ?d = "rule_definitions rules" and ?proh = "filter (\<lambda>t. t \<notin> set outs) deps"
  have proh: "set ?proh = prohibited_set rules proh outs" by (auto simp: g1(3) prohibited_set_def)
  let ?p1 = "\<lambda>r. list_all (\<lambda>l. tbl (table l) \<notin> set ?proh) (body r)"
  have "subpolicy_state rules (\<lambda>_. True) (?d, g1)"
    using g1(2) rule_definitions_ok [OF rules] by (simp add: subpolicy_state_def)
  from filter_output_ok [OF rules this, of outs ?p1] obtain d1 g2 where
    d1: "filter_output_definitions outs ?p1 (?d, g1) = Inr (d1, g2)"
      "subpolicy_state rules (\<lambda>r. head_table r \<in> set outs \<longrightarrow> ?p1 r) (d1, g2)" by auto
  let ?R1 = "not_prohibited rules proh outs"
  have R1: "filter (\<lambda>r. head_table r \<in> set outs \<longrightarrow> ?p1 r) rules = ?R1"
    unfolding not_prohibited_def proh list_all_iff ..
  have g2: "graph_for ?R1 g2" "list_all plain_rule ?R1"
    using d1(2) plain_filter [OF rules] R1 by (simp_all add: subpolicy_state_def not_prohibited_def)
  obtain required g3 where g3: "find_dependencies req g2 = Inr (required, g3)" "graph_for ?R1 g3"
    "set required = set req \<union> {u. \<exists>v \<in> set req. (u, v) \<in> (rule_dep ?R1)\<^sup>*}"
    using find_dependencies_for [OF g2] by blast
  let ?p2 = "\<lambda>r. list_ex (\<lambda>l. tbl (table l) \<in> set required) (body r)"
  have "subpolicy_state rules (\<lambda>r. head_table r \<in> set outs \<longrightarrow> ?p1 r) (d1, g3)"
    using d1(2) g3(2) R1 by (simp add: subpolicy_state_def)
  from filter_output_ok [OF rules this, of outs ?p2] obtain st2 where
    st2: "filter_output_definitions outs ?p2 (d1, g3) = Inr st2"
      "subpolicy_state rules (\<lambda>r. (head_table r \<in> set outs \<longrightarrow> ?p1 r) \<and> (head_table r \<in> set outs \<longrightarrow> ?p2 r)) st2"
    by blast
  obtain d2 g4 where "st2 = (d2, g4)" by (cases st2)
  with st2 have
    d2: "filter_output_definitions outs ?p2 (d1, g3) = Inr (d2, g4)"
      "subpolicy_state rules (\<lambda>r. (head_table r \<in> set outs \<longrightarrow> ?p1 r) \<and> (head_table r \<in> set outs \<longrightarrow> ?p2 r)) (d2, g4)"
    by simp_all
  let ?R2 = "supported ?R1 req outs"
  have req: "tbl (table l) \<in> set required \<longleftrightarrow> (\<exists>v \<in> set req. (tbl (table l), v) \<in> (rule_dep ?R1)\<^sup>*)" for l
    unfolding g3(3) by auto
  have R2: "filter (\<lambda>r. (head_table r \<in> set outs \<longrightarrow> ?p1 r) \<and> (head_table r \<in> set outs \<longrightarrow> ?p2 r)) rules = ?R2"
    unfolding supported_def R1 [symmetric] filter_filter req list_ex_iff
    by (rule filter_cong [OF refl]) auto
  have g4: "graph_for ?R2 g4" and defs: "\<And>t. set (defs_of d2 t) = {r \<in> set ?R2. head_table r = t}"
    using d2(2) unfolding subpolicy_state_def R2 fst_conv snd_conv by (auto simp: R2 [symmetric])
  have plain2: "list_all plain_rule ?R2" using plain by (auto simp: supported_def not_prohibited_def list_all_iff)
  obtain outputs g5 where g5: "find_reachable_nodes outs g4 = Inr (outputs, g5)"
    "set outputs = (rule_dep ?R2)\<^sup>* `` (set outs \<inter> node_set g4)"
    using find_reachable_nodes_ok [OF graph_for_edges(1) [OF g4 plain2], of outs] graph_for_edges(2) [OF g4 plain2] by auto
  have node: "t \<in> node_set g4" if path: "(t, head_table r) \<in> (rule_dep ?R2)\<^sup>*" and r: "r \<in> set ?R2" for t r
  proof -
    obtain l where "l \<in> set (body r)" using plain2 r by (fastforce simp: list_all_iff plain_rule_def neq_Nil_conv)
    then have "(head_table r, tbl (table l)) \<in> rule_dep ?R2" using r by (auto simp: rule_dep_def)
    with path obtain u where "(t, u) \<in> rule_dep ?R2" by (metis converse_rtranclE)
    then show ?thesis
      using edge_rel_nodes(1) [OF graph_for_edges(1) [OF g4 plain2]] graph_for_edges(2) [OF g4 plain2] by blast
  qed
  let ?S = "fold (\<lambda>t sub. case map_of d2 t of None \<Rightarrow> sub | Some rs \<Rightarrow> fold rset_add rs sub) outputs []"
  have "set ?S = (\<Union>t \<in> set outputs. set (defs_of d2 t))"
    using rset_unions [OF rules, of d2 "[]" outputs] defs by (auto simp: supported_def not_prohibited_def)
  also have "\<dots> = {r \<in> set ?R2. \<exists>t \<in> set outs. (t, head_table r) \<in> (rule_dep ?R2)\<^sup>*}"
    unfolding defs g5(2) using node by auto
  finally have "set ?S = subpolicy rules req proh outs" by (simp add: subpolicy_def Let_def)
  moreover have "find_subpolicy rules req proh outs = Inr ?S"
    using g0(1) g1(1) d1(1) g3(1) d2(1) g5(1) by (simp add: find_subpolicy_def find_definitions_def Let_def)
  ultimately show ?thesis by blast
qed

text \<open>
  C26. \<open>find_subpolicy\<close> on a set of single-head rules over one policy returns, and keeps what its
  documentation promises of the rules it chooses: they are among the given ones; every chosen
  rule is for a table that an output table depends on through chosen rules; through chosen
  rules no output table depends on a prohibited table (that is not an output itself); and each
  rule for an output table has a body table that depends on a required one.
\<close>

theorem find_subpolicy_promises:
  assumes "rule_set rules"
  shows "\<exists>S. find_subpolicy rules req proh outs = Inr S \<and> set S \<subseteq> set rules \<and>
     (\<forall>r \<in> set S. \<exists>t \<in> set outs. (t, head_table r) \<in> (rule_dep S)\<^sup>*) \<and>
     (\<forall>t \<in> set outs. \<forall>p \<in> set proh - set outs. (t, p) \<notin> (rule_dep S)\<^sup>*) \<and>
     (\<forall>r \<in> set S. head_table r \<in> set outs \<longrightarrow>
        (\<exists>l \<in> set (body r). \<exists>v \<in> set req. (tbl (table l), v) \<in> (rule_dep rules)\<^sup>*))"
proof -
  obtain S where S: "find_subpolicy rules req proh outs = Inr S" "set S = subpolicy rules req proh outs"
    using find_subpolicy_ok [OF assms] by blast
  let ?R1 = "not_prohibited rules proh outs"
  let ?R2 = "supported ?R1 req outs"
  have S': "set S = {r \<in> set ?R2. \<exists>t \<in> set outs. (t, head_table r) \<in> (rule_dep ?R2)\<^sup>*}"
    using S(2) by (simp add: subpolicy_def Let_def)
  have sub: "set S \<subseteq> set ?R2" "set ?R2 \<subseteq> set ?R1" "set ?R1 \<subseteq> set rules"
    using S' by (auto simp: supported_def not_prohibited_def)
  have dep: "(rule_dep S)\<^sup>* \<subseteq> (rule_dep ?R1)\<^sup>*" "(rule_dep ?R1)\<^sup>* \<subseteq> (rule_dep rules)\<^sup>*"
    using sub by (auto intro!: rtrancl_mono rule_dep_mono)
  have "\<exists>t \<in> set outs. (t, head_table r) \<in> (rule_dep S)\<^sup>*" if "r \<in> set S" for r
    using that subpolicy_reachable [OF S'] unfolding S' by blast
  moreover have "(t, p) \<notin> (rule_dep S)\<^sup>*" if "t \<in> set outs" "p \<in> set proh - set outs" for t p
    using that subpolicy_prohibited [of p proh outs t rules] dep(1) by blast
  moreover have "\<exists>l \<in> set (body r). \<exists>v \<in> set req. (tbl (table l), v) \<in> (rule_dep rules)\<^sup>*"
    if "r \<in> set S" "head_table r \<in> set outs" for r
    using that sub(1) dep(2) by (fastforce simp: supported_def)
  ultimately show ?thesis using S(1) sub by blast
qed

definition policy_example :: "rule list" where
  "policy_example =
     [\<lparr>heads = [lit ''out'' [Variable ''x'']], body = [lit ''req'' [Variable ''x''], lit ''mid'' [Variable ''x'']]\<rparr>,
      \<lparr>heads = [lit ''mid'' [Variable ''x'']], body = [lit ''other'' [Variable ''x'']]\<rparr>,
      \<lparr>heads = [lit ''out'' [Variable ''x'']], body = [lit ''req'' [Variable ''x''], lit ''bad'' [Variable ''x'']]\<rparr>]"

theorem find_subpolicy_promises_witness:
  "rule_set policy_example \<and> find_subpolicy policy_example [''req''] [''bad''] [''out''] = Inr (take 2 policy_example) \<and>
   (''out'', ''bad'') \<notin> (rule_dep (take 2 policy_example))\<^sup>*"
proof -
  have rs: "rule_set policy_example" by code_simp
  have "find_subpolicy policy_example [''req''] [''bad''] [''out''] = Inr (take 2 policy_example)" by code_simp
  with rs find_subpolicy_promises [OF rs, of "[''req'']" "[''bad'']" "[''out'']"] show ?thesis by auto
qed

text \<open>
  The documentation of \<open>find_subpolicy\<close> also promises that the head of every chosen rule
  depends on a required table. That holds for output tables only: the rule for \<open>mid\<close> is chosen
  here although \<open>mid\<close> depends on nothing required.
\<close>

theorem find_subpolicy_unrequired:
  "\<exists>r \<in> set (take 2 policy_example). map_sum id set (find_subpolicy policy_example [''req''] [''bad''] [''out'']) = Inr (set (take 2 policy_example)) \<and>
     head_table r = ''mid'' \<and> (''mid'', ''req'') \<notin> (rule_dep policy_example)\<^sup>*"
proof -
  have "(''mid'', t) \<in> (rule_dep policy_example)\<^sup>* \<Longrightarrow> t \<in> {''mid'', ''other''}" for t
    by (induction rule: rtrancl_induct) (auto simp: rule_dep_def policy_example_def head_table_def lit_def tn_def)
  then have "(''mid'', ''req'') \<notin> (rule_dep policy_example)\<^sup>*" by fastforce
  moreover have "find_subpolicy policy_example [''req''] [''bad''] [''out''] = Inr (take 2 policy_example)" by code_simp
  moreover have "\<exists>r \<in> set (take 2 policy_example). head_table r = ''mid''" by code_simp
  ultimately show ?thesis by simp
qed

end
