(* ===== verification/Ordered_Set.thy ===== *)
theory Ordered_Set
  imports Prelude
begin

text \<open>
  \<open>utility.OrderedSet\<close>: a set that remembers insertion order, kept as a dictionary from
  keys to the cells \<open>[key, prev, next]\<close> of a circular doubly linked list whose
  sentinel is \<open>self.end\<close>.

  A live cell is named by \<open>Some k\<close>, the sentinel by \<open>None\<close>; \<open>prv\<close> and \<open>nxt\<close> are the cells'
  second and third fields and \<open>cells\<close> is \<open>self.map\<close> with the cells' first field. Python
  finds a key by \<open>__eq__\<close>/\<open>__hash__\<close>, which for rules ignores fields such as the id:
  the operations take \<open>key\<close>, which sends an element to its equality class.

  The locale \<open>ordered_set\<close> is the interface (a list with distinct keys); the linked
  representation is proved to implement it.
\<close>

section \<open>The linked representation\<close>

record ('k, 'e) oset =
  cells :: "('k, 'e) dict"
  prv :: "'k option \<Rightarrow> 'k option"
  nxt :: "'k option \<Rightarrow> 'k option"

definition oset_empty :: "('k, 'e) oset" where
  "oset_empty = \<lparr>cells = [], prv = (\<lambda>_. None), nxt = (\<lambda>_. None)\<rparr>"

definition oset_len :: "('k, 'e) oset \<Rightarrow> nat" where
  "oset_len s = length (cells s)"

definition oset_contains :: "('e \<Rightarrow> 'k) \<Rightarrow> 'e \<Rightarrow> ('k, 'e) oset \<Rightarrow> bool" where
  "oset_contains key x s = (map_of (cells s) (key x) \<noteq> None)"

definition oset_add :: "('e \<Rightarrow> 'k) \<Rightarrow> 'e \<Rightarrow> ('k, 'e) oset \<Rightarrow> bool \<times> ('k, 'e) oset" where
  "oset_add key x s =
     (let k = key x in
      if map_of (cells s) k = None then
        (let curr = prv s None in
         (True, \<lparr>cells = AList.update k x (cells s),
                 prv = (prv s)(None := Some k, Some k := curr),
                 nxt = (nxt s)(curr := Some k, Some k := None)\<rparr>))
      else (False, s))"

definition oset_discard :: "('e \<Rightarrow> 'k) \<Rightarrow> 'e \<Rightarrow> ('k, 'e) oset \<Rightarrow> bool \<times> ('k, 'e) oset" where
  "oset_discard key x s =
     (let k = key x in
      if map_of (cells s) k \<noteq> None then
        (let p = prv s (Some k); n = nxt s (Some k) in
         (True, \<lparr>cells = AList.delete k (cells s),
                 prv = (prv s)(n := p),
                 nxt = (nxt s)(p := n)\<rparr>))
      else (False, s))"

text \<open>
  \<open>__iter__\<close> and \<open>__reversed__\<close>: follow the links from the sentinel until the sentinel is
  back. The walk is given one step per cell and one to see the sentinel; \<open>None\<close> stands
  for a walk that misses the sentinel (or leaves the live cells).
\<close>

fun oset_walk :: "nat \<Rightarrow> ('k option \<Rightarrow> 'k option) \<Rightarrow> ('k, 'e) dict \<Rightarrow> 'k option \<Rightarrow> 'e list option" where
  "oset_walk n f cs None = Some []"
| "oset_walk 0 f cs (Some k) = None"
| "oset_walk (Suc n) f cs (Some k) =
     (case map_of cs k of
        None \<Rightarrow> None
      | Some x \<Rightarrow> map_option ((#) x) (oset_walk n f cs (f (Some k))))"

definition oset_iter :: "('k, 'e) oset \<Rightarrow> 'e list option" where
  "oset_iter s = oset_walk (oset_len s) (nxt s) (cells s) (nxt s None)"

definition oset_reversed :: "('k, 'e) oset \<Rightarrow> 'e list option" where
  "oset_reversed s = oset_walk (oset_len s) (prv s) (cells s) (prv s None)"

definition oset_pop :: "('e \<Rightarrow> 'k) \<Rightarrow> bool \<Rightarrow> ('k, 'e) oset \<Rightarrow> ('e \<times> ('k, 'e) oset) res" where
  "oset_pop key lst s =
     (if oset_len s = 0 then Inl KeyError
      else (case (if lst then prv s None else nxt s None) of
              None \<Rightarrow> Inl TypeError
            | Some k \<Rightarrow>
                (case map_of (cells s) k of
                   None \<Rightarrow> Inl KeyError
                 | Some x \<Rightarrow> Inr (x, snd (oset_discard key x s)))))"

text \<open>\<open>__init__\<close> with an iterable: \<open>self |= iterable\<close> adds its elements one by one.\<close>

definition oset_of :: "('e \<Rightarrow> 'k) \<Rightarrow> 'e list \<Rightarrow> ('k, 'e) oset" where
  "oset_of key xs = fold (\<lambda>x s. snd (oset_add key x s)) xs oset_empty"

definition oset_eq :: "('e \<Rightarrow> 'k) \<Rightarrow> ('k, 'e) oset \<Rightarrow> ('k, 'e) oset \<Rightarrow> bool" where
  "oset_eq key s t =
     (oset_len s = oset_len t \<and>
      map_option (map key) (oset_iter s) = map_option (map key) (oset_iter t))"

section \<open>The interface\<close>

text \<open>
  What the fact and rule stores rely on: the collection behaves as a list \<open>toList\<close> without
  repeated keys; adding appends, discarding removes, and both report whether anything
  changed.
\<close>

locale ordered_set =
  fixes key :: "'e \<Rightarrow> 'k"
    and empty :: "'s"
    and contains :: "'e \<Rightarrow> 's \<Rightarrow> bool"
    and add :: "'e \<Rightarrow> 's \<Rightarrow> bool \<times> 's"
    and discard :: "'e \<Rightarrow> 's \<Rightarrow> bool \<times> 's"
    and len :: "'s \<Rightarrow> nat"
    and toList :: "'s \<Rightarrow> 'e list"
    and invar :: "'s \<Rightarrow> bool"
  assumes invar_empty: "invar empty"
    and list_empty: "toList empty = []"
    and keys_distinct: "invar s \<Longrightarrow> distinct (map key (toList s))"
    and contains_iff: "invar s \<Longrightarrow> contains x s = (key x \<in> key ` set (toList s))"
    and add_changed: "invar s \<Longrightarrow> fst (add x s) = (\<not> contains x s)"
    and list_add: "invar s \<Longrightarrow>
          toList (snd (add x s)) = (if contains x s then toList s else toList s @ [x])"
    and invar_add: "invar s \<Longrightarrow> invar (snd (add x s))"
    and discard_changed: "invar s \<Longrightarrow> fst (discard x s) = contains x s"
    and list_discard: "invar s \<Longrightarrow>
          toList (snd (discard x s)) = filter (\<lambda>y. key y \<noteq> key x) (toList s)"
    and invar_discard: "invar s \<Longrightarrow> invar (snd (discard x s))"
    and len_list: "invar s \<Longrightarrow> len s = length (toList s)"
begin

lemma contains_add:
  "invar s \<Longrightarrow> contains y (snd (add x s)) = (contains y s \<or> key y = key x)"
  by (auto simp: contains_iff invar_add list_add)

lemma contains_discard:
  "invar s \<Longrightarrow> contains y (snd (discard x s)) = (contains y s \<and> key y \<noteq> key x)"
  by (auto simp: contains_iff invar_discard list_discard)

lemma discard_add:
  assumes "invar s" "\<not> contains x s"
  shows "toList (snd (discard x (snd (add x s)))) = toList s"
proof -
  have "filter (\<lambda>y. key y \<noteq> key x) (toList s) = toList s"
    using assms by (intro filter_key_id) (simp add: contains_iff)
  then show ?thesis using assms by (simp add: invar_add list_add list_discard)
qed

lemma add_idem:
  assumes "invar s" shows "toList (snd (add x (snd (add x s)))) = toList (snd (add x s))"
proof -
  have "contains x (snd (add x s))" using assms by (simp add: contains_add)
  with assms show ?thesis by (simp add: list_add [OF invar_add])
qed

lemma invar_fold_add: "invar s \<Longrightarrow> invar (fold (\<lambda>x s. snd (add x s)) xs s)"
  by (induction xs arbitrary: s) (auto simp: invar_add)

lemma contains_fold_add:
  "invar s \<Longrightarrow> contains y (fold (\<lambda>x s. snd (add x s)) xs s) = (contains y s \<or> key y \<in> key ` set xs)"
  by (induction xs arbitrary: s) (auto simp: invar_add contains_add)

lemma list_fold_add:
  assumes "invar s" "distinct (map key (toList s @ xs))"
  shows "toList (fold (\<lambda>x s. snd (add x s)) xs s) = toList s @ xs"
  using assms
proof (induction xs arbitrary: s)
  case (Cons x xs)
  then have "\<not> contains x s" by (auto simp: contains_iff)
  with Cons show ?case by (auto simp: invar_add list_add)
qed simp

lemmas oset_specs = invar_empty list_empty contains_iff add_changed list_add invar_add
  discard_changed list_discard invar_discard len_list

end

section \<open>The linked list implements the interface\<close>

text \<open>\<open>path f a ks b\<close>: following \<open>f\<close> from cell \<open>a\<close> visits exactly \<open>ks\<close>, then \<open>b\<close>.\<close>

fun path :: "('k option \<Rightarrow> 'k option) \<Rightarrow> 'k option \<Rightarrow> 'k list \<Rightarrow> 'k option \<Rightarrow> bool" where
  "path f a [] b = (f a = b)"
| "path f a (k # ks) b = (f a = Some k \<and> path f (Some k) ks b)"

lemma path_append: "path f a (xs @ y # ys) b = (path f a xs (Some y) \<and> path f (Some y) ys b)"
  by (induction xs arbitrary: a) auto

lemma path_frame:
  "f' a = f a \<Longrightarrow> (\<And>k. k \<in> set ks \<Longrightarrow> f' (Some k) = f (Some k)) \<Longrightarrow> path f' a ks b = path f a ks b"
  by (induction ks arbitrary: a) auto

text \<open>Moving the source of the walk, and redirecting its last link.\<close>

lemma path_head:
  "path f a ks b \<Longrightarrow> f' a' = f a \<Longrightarrow> (\<And>k. k \<in> set ks \<Longrightarrow> f' (Some k) = f (Some k)) \<Longrightarrow> path f' a' ks b"
  by (cases ks) (auto simp: path_frame [of f' "Some _"])

definition last_cell :: "'k option \<Rightarrow> 'k list \<Rightarrow> 'k option" where
  "last_cell a ks = (if ks = [] then a else Some (last ks))"

lemma path_redirect:
  "path f a ks b \<Longrightarrow> distinct ks \<Longrightarrow> a \<notin> Some ` set ks \<Longrightarrow> path (f(last_cell a ks := c)) a ks c"
proof (induction ks arbitrary: a)
  case (Cons k ks)
  then have "Some k \<notin> Some ` set ks" by auto
  with Cons have "path (f(last_cell (Some k) ks := c)) (Some k) ks c" by (simp del: fun_upd_apply)
  with Cons.prems show ?case by (cases ks) (auto simp: last_cell_def fun_upd_def)
qed (simp add: last_cell_def)

lemma path_rev_last: "path f None (rev ks) None \<Longrightarrow> f None = last_cell None ks"
  by (cases ks rule: rev_cases) (auto simp: last_cell_def)

definition oset_rep :: "('e \<Rightarrow> 'k) \<Rightarrow> ('k, 'e) oset \<Rightarrow> 'e list \<Rightarrow> bool" where
  "oset_rep key s xs =
     (distinct (map key xs) \<and> dict_ok (cells s) \<and>
      map_of (cells s) = map_of (map (\<lambda>x. (key x, x)) xs) \<and>
      path (nxt s) None (map key xs) None \<and> path (prv s) None (rev (map key xs)) None)"

lemma oset_rep_lookup:
  assumes "oset_rep key s xs"
  shows "map_of (cells s) k = find (\<lambda>x. key x = k) xs"
proof -
  have "map_of (map (\<lambda>x. (key x, x)) xs) k = find (\<lambda>x. key x = k) xs" by (induction xs) auto
  with assms show ?thesis by (simp add: oset_rep_def)
qed

lemma oset_rep_keys: "oset_rep key s xs \<Longrightarrow> fst ` set (cells s) = key ` set xs"
proof -
  assume "oset_rep key s xs"
  then have "dom (map_of (cells s)) = dom (map_of (map (\<lambda>x. (key x, x)) xs))"
    by (simp add: oset_rep_def)
  then show ?thesis by (force simp: dom_map_of)
qed

lemma oset_rep_mem: "oset_rep key s xs \<Longrightarrow> map_of (cells s) k \<noteq> None \<longleftrightarrow> k \<in> key ` set xs"
  by (metis map_of_None_keys oset_rep_keys)

lemma oset_rep_len:
  assumes "oset_rep key s xs" shows "oset_len s = length xs"
proof -
  have "card (fst ` set (cells s)) = length (cells s)"
    using assms by (metis distinct_card length_map list.set_map oset_rep_def)
  moreover have "card (key ` set xs) = length xs"
    using assms by (metis distinct_card length_map list.set_map oset_rep_def)
  ultimately show ?thesis using oset_rep_keys [OF assms] by (simp add: oset_len_def)
qed

lemma oset_rep_empty: "oset_rep key oset_empty []"
  by (simp add: oset_rep_def oset_empty_def)

lemma oset_rep_add:
  assumes rep: "oset_rep key s xs" and new: "key x \<notin> key ` set xs"
  shows "oset_rep key (snd (oset_add key x s)) (xs @ [x])"
proof -
  let ?ks = "map key xs" and ?k = "key x"
  have n: "path (nxt s) None ?ks None" and p: "path (prv s) None (rev ?ks) None"
    and d: "distinct ?ks" using rep by (auto simp: oset_rep_def)
  have curr: "prv s None = last_cell None ?ks" by (rule path_rev_last [OF p])
  have lk: "last_cell None ?ks \<noteq> Some ?k"
    using new last_in_set [of ?ks] by (auto simp: last_cell_def)
  let ?n = "(nxt s)(last_cell None ?ks := Some ?k, Some ?k := None)"
  have "path ((nxt s)(last_cell None ?ks := Some ?k)) None ?ks (Some ?k)"
    using n d by (intro path_redirect) auto
  then have "path ?n None ?ks (Some ?k)" using new
    by (subst path_frame) (auto simp: image_iff)
  then have n': "path ?n None (?ks @ [?k]) None" by (simp add: path_append)
  have "path ((prv s)(None := Some ?k, Some ?k := prv s None)) (Some ?k) (rev ?ks) None"
    by (rule path_head [OF p]) (use not_in_image [OF new] in auto)
  then have p': "path ((prv s)(None := Some ?k, Some ?k := prv s None)) None (rev (?ks @ [?k])) None"
    by simp
  note new' = not_in_image [OF new]
  have fresh: "map_of (cells s) ?k = None" using new oset_rep_mem [OF rep] by blast
  have "map_of (map (\<lambda>x. (key x, x)) (xs @ [x])) = (map_of (map (\<lambda>x. (key x, x)) xs))(?k \<mapsto> x)"
  proof -
    have "map_of (map (\<lambda>x. (key x, x)) xs) ?k = None"
      using new by (simp add: map_of_eq_None_iff image_image)
    then show ?thesis by (auto simp: map_add_def fun_eq_iff split: option.splits)
  qed
  then show ?thesis
    using rep fresh new n' p' curr by (simp add: oset_rep_def oset_add_def Let_def dict_ok_update)
qed

lemma path_unlink:
  assumes "path f None (as @ k # bs) None" and d: "distinct (as @ k # bs)"
  shows "path (f(last_cell None as := f (Some k))) None (as @ bs) None"
proof -
  let ?f = "f(last_cell None as := f (Some k))"
  have 1: "path f None as (Some k)" and 2: "path f (Some k) bs None"
    using assms(1) by (auto simp: path_append)
  have 3: "path ?f None as (f (Some k))" using 1 d by (intro path_redirect) auto
  show ?thesis
  proof (cases bs)
    case Nil
    with 2 3 show ?thesis by simp
  next
    case (Cons j js)
    have out: "last_cell None as \<noteq> Some i" if "i \<in> set bs" for i
      using that d by (cases as rule: rev_cases) (auto simp: last_cell_def)
    have "path f (Some j) js None" "f (Some k) = Some j" using 2 Cons by auto
    moreover from this have "path ?f (Some j) js None"
      using out Cons by (subst path_frame [where f = f]) (auto simp: eq_commute)
    ultimately show ?thesis using 3 Cons by (simp add: path_append)
  qed
qed

lemma path_first: "path f a bs None \<Longrightarrow> f a = last_cell None (rev bs)"
  by (cases bs) (auto simp: last_cell_def)

lemma oset_rep_discard:
  assumes rep: "oset_rep key s xs" and old: "key x \<in> key ` set xs"
  shows "oset_rep key (snd (oset_discard key x s)) (filter (\<lambda>y. key y \<noteq> key x) xs)"
proof -
  let ?k = "key x"
  obtain as y bs where xs: "xs = as @ y # bs" and y: "key y = ?k"
    using old by (metis (no_types, lifting) image_iff split_list)
  let ?a = "map key as" and ?b = "map key bs"
  have d: "distinct (?a @ ?k # ?b)" using rep xs y by (auto simp: oset_rep_def)
  have fil: "filter (\<lambda>y. key y \<noteq> ?k) xs = as @ bs"
    using d by (simp add: xs y filter_key_id)
  have n: "path (nxt s) None (?a @ ?k # ?b) None"
    and p: "path (prv s) None (rev ?b @ ?k # rev ?a) None"
    using rep xs y by (auto simp: oset_rep_def)
  have pk: "prv s (Some ?k) = last_cell None ?a"
    using p path_first [of "prv s" "Some ?k" "rev ?a"] by (simp add: path_append)
  have nk: "nxt s (Some ?k) = last_cell None (rev ?b)"
    using n path_first [of "nxt s" "Some ?k" ?b] by (simp add: path_append)
  have n': "path ((nxt s)(prv s (Some ?k) := nxt s (Some ?k))) None (?a @ ?b) None"
    unfolding pk by (rule path_unlink [OF n d])
  have p': "path ((prv s)(nxt s (Some ?k) := prv s (Some ?k))) None (rev ?b @ rev ?a) None"
    unfolding nk by (rule path_unlink [OF p]) (use d in auto)
  have m: "map_of (AList.delete ?k (cells s)) = map_of (map (\<lambda>x. (key x, x)) (as @ bs))"
  proof
    fix j
    have "map_of (map (\<lambda>x. (key x, x)) (as @ bs)) ?k = None"
      using d by (auto simp: map_of_eq_None_iff)
    moreover have "j \<noteq> ?k \<Longrightarrow> map_of (cells s) j = map_of (map (\<lambda>x. (key x, x)) (as @ bs)) j"
      using rep xs y by (auto simp: oset_rep_def map_add_def split: option.splits)
    ultimately show "map_of (AList.delete ?k (cells s)) j = map_of (map (\<lambda>x. (key x, x)) (as @ bs)) j"
      by (cases "j = ?k") (simp_all del: map_append)
  qed
  have "map_of (cells s) ?k \<noteq> None" using old oset_rep_mem [OF rep] by blast
  then show ?thesis
    using rep d n' p' m unfolding fil
    by (auto simp: oset_rep_def oset_discard_def Let_def simp del: map_of_delete)
qed

text \<open>The walks return the list and its reverse.\<close>

lemma oset_walk_path:
  "path f a ks None \<Longrightarrow> length ks \<le> n \<Longrightarrow> (\<And>k. k \<in> set ks \<Longrightarrow> map_of cs k = Some (e k)) \<Longrightarrow>
   oset_walk n f cs (f a) = Some (map e ks)"
proof (induction ks arbitrary: a n)
  case (Cons k ks)
  then obtain m where "n = Suc m" by (cases n) auto
  with Cons show ?case by auto
qed simp

lemma oset_rep_get:
  assumes "oset_rep key s xs" "x \<in> set xs" shows "map_of (cells s) (key x) = Some x"
proof -
  have "inj_on key (set xs)" using assms(1) by (simp add: oset_rep_def distinct_map)
  then have "map_of (map (\<lambda>x. (key x, x)) xs) (key x) = Some x"
    using assms by (simp add: map_of_eq_Some_iff oset_rep_def distinct_map inj_on_def comp_def)
  with assms(1) show ?thesis by (simp add: oset_rep_def)
qed

lemma oset_rep_iter:
  assumes rep: "oset_rep key s xs"
  shows "oset_iter s = Some xs" "oset_reversed s = Some (rev xs)"
proof -
  let ?e = "\<lambda>k. the (map_of (cells s) k)"
  have e: "map ?e (map key xs) = xs" by (simp add: map_idI oset_rep_get [OF rep])
  have get: "map_of (cells s) k = Some (?e k)" if "k \<in> set (map key xs)" for k
    using that oset_rep_get [OF rep] by auto
  have "oset_iter s = Some (map ?e (map key xs))" unfolding oset_iter_def
    by (rule oset_walk_path) (use rep get in \<open>auto simp: oset_rep_def oset_rep_len [OF rep]\<close>)
  with e show "oset_iter s = Some xs" by simp
  have "oset_reversed s = Some (map ?e (rev (map key xs)))" unfolding oset_reversed_def
    by (rule oset_walk_path) (use rep get in \<open>auto simp: oset_rep_def oset_rep_len [OF rep]\<close>)
  with e show "oset_reversed s = Some (rev xs)" by (metis rev_map)
qed

definition oset_list :: "('k, 'e) oset \<Rightarrow> 'e list" where
  "oset_list s = (case oset_iter s of None \<Rightarrow> [] | Some xs \<Rightarrow> xs)"

definition oset_ok :: "('e \<Rightarrow> 'k) \<Rightarrow> ('k, 'e) oset \<Rightarrow> bool" where
  "oset_ok key s = oset_rep key s (oset_list s)"

lemma oset_rep_list: "oset_rep key s xs \<Longrightarrow> oset_list s = xs"
  by (simp add: oset_list_def oset_rep_iter)

lemma oset_okI: "oset_rep key s xs \<Longrightarrow> oset_ok key s"
  by (simp add: oset_ok_def oset_rep_list)

lemma oset_contains_list:
  "oset_ok key s \<Longrightarrow> oset_contains key x s = (key x \<in> key ` set (oset_list s))"
  using oset_rep_mem by (fastforce simp: oset_ok_def oset_contains_def)

lemma oset_add_old: "oset_contains key x s \<Longrightarrow> oset_add key x s = (False, s)"
  by (auto simp: oset_add_def oset_contains_def)

lemma oset_discard_new: "\<not> oset_contains key x s \<Longrightarrow> oset_discard key x s = (False, s)"
  by (auto simp: oset_discard_def oset_contains_def)

lemma oset_add_rep:
  assumes "oset_ok key s"
  shows "oset_rep key (snd (oset_add key x s))
           (if oset_contains key x s then oset_list s else oset_list s @ [x])"
  using assms oset_rep_add [of key s "oset_list s" x]
  by (auto simp: oset_add_old oset_contains_list) (simp_all add: oset_ok_def)

lemma oset_discard_rep:
  assumes "oset_ok key s"
  shows "oset_rep key (snd (oset_discard key x s)) (filter (\<lambda>y. key y \<noteq> key x) (oset_list s))"
proof (cases "oset_contains key x s")
  case True
  with assms show ?thesis by (auto simp: oset_contains_list oset_ok_def intro: oset_rep_discard)
next
  case False
  then have "filter (\<lambda>y. key y \<noteq> key x) (oset_list s) = oset_list s"
    using assms by (simp add: oset_contains_list filter_key_id)
  with False assms show ?thesis by (simp add: oset_discard_new oset_ok_def)
qed

interpretation os: ordered_set key oset_empty "oset_contains key" "oset_add key" "oset_discard key"
    oset_len oset_list "oset_ok key" for key
proof (unfold_locales, goal_cases)
  case 1 show ?case by (rule oset_okI [OF oset_rep_empty])
next
  case 2 show ?case by (rule oset_rep_list [OF oset_rep_empty])
next
  case (3 s) then show ?case by (simp add: oset_ok_def oset_rep_def)
next
  case (4 s x) then show ?case by (rule oset_contains_list)
next
  case (5 s x) show ?case by (auto simp: oset_add_def oset_contains_def Let_def)
next
  case (6 s x) then show ?case by (rule oset_rep_list [OF oset_add_rep])
next
  case (7 s x) then show ?case by (rule oset_okI [OF oset_add_rep])
next
  case (8 s x) show ?case by (auto simp: oset_discard_def oset_contains_def Let_def)
next
  case (9 s x) then show ?case by (rule oset_rep_list [OF oset_discard_rep])
next
  case (10 s x) then show ?case by (rule oset_okI [OF oset_discard_rep])
next
  case (11 s) then show ?case by (simp add: oset_ok_def oset_rep_len)
qed

lemma oset_iter_list: "oset_ok key s \<Longrightarrow> oset_iter s = Some (oset_list s)"
  by (simp add: oset_ok_def oset_rep_iter)

lemma oset_of_ok: "oset_ok key (oset_of key xs)"
  by (simp add: oset_of_def os.invar_fold_add os.invar_empty)

lemma oset_of_list: "distinct (map key xs) \<Longrightarrow> oset_list (oset_of key xs) = xs"
  by (simp add: oset_of_def os.list_fold_add os.invar_empty os.list_empty)

lemma oset_pop_ok:
  assumes ok: "oset_ok key s" and ne: "oset_list s \<noteq> []"
  shows "\<exists>s'. oset_pop key lst s = Inr ((if lst then last (oset_list s) else hd (oset_list s)), s') \<and>
             oset_ok key s' \<and>
             oset_list s' = (if lst then butlast (oset_list s) else tl (oset_list s))"
proof -
  let ?xs = "oset_list s"
  let ?x = "if lst then last ?xs else hd ?xs"
  let ?t = "snd (oset_discard key ?x s)"
  have rep: "oset_rep key s ?xs" using ok by (simp add: oset_ok_def)
  have "prv s None = Some (key (last ?xs))" "nxt s None = Some (key (hd ?xs))"
    using rep ne by (cases ?xs rule: rev_cases, auto simp: oset_rep_def)
      (cases ?xs, auto simp: oset_rep_def)
  moreover have "map_of (cells s) (key ?x) = Some ?x"
    using ne by (intro oset_rep_get [OF rep]) auto
  ultimately have "oset_pop key lst s = Inr (?x, ?t)"
    using ok ne by (auto simp: oset_pop_def os.len_list)
  moreover have "filter (\<lambda>y. key y \<noteq> key ?x) ?xs = (if lst then butlast ?xs else tl ?xs)"
  proof (cases lst)
    case True
    obtain ys z where "?xs = ys @ [z]" using ne by (cases ?xs rule: rev_cases) auto
    with True os.keys_distinct [OF ok] show ?thesis by (simp add: filter_key_id)
  next
    case False
    obtain z ys where "?xs = z # ys" using ne by (cases ?xs) auto
    with False os.keys_distinct [OF ok] show ?thesis by (simp add: filter_key_id)
  qed
  ultimately show ?thesis
    using ok os.invar_discard [OF ok, of ?x] os.list_discard [OF ok, of ?x] by metis
qed

section \<open>Histories\<close>

datatype 'e oset_op = OAdd 'e | ODiscard 'e | OPop bool

datatype 'e oset_out = OChanged bool | OPopped 'e | ORaised exc

fun run_oset :: "('e \<Rightarrow> 'k) \<Rightarrow> 'e oset_op \<Rightarrow> ('k, 'e) oset \<Rightarrow> 'e oset_out \<times> ('k, 'e) oset" where
  "run_oset key (OAdd x) s = apfst OChanged (oset_add key x s)"
| "run_oset key (ODiscard x) s = apfst OChanged (oset_discard key x s)"
| "run_oset key (OPop lst) s =
     (case oset_pop key lst s of Inl e \<Rightarrow> (ORaised e, s) | Inr (x, s') \<Rightarrow> (OPopped x, s'))"

text \<open>The specification: a list.\<close>

fun spec_oset :: "('e \<Rightarrow> 'k) \<Rightarrow> 'e oset_op \<Rightarrow> 'e list \<Rightarrow> 'e oset_out \<times> 'e list" where
  "spec_oset key (OAdd x) xs =
     (OChanged (key x \<notin> key ` set xs), if key x \<in> key ` set xs then xs else xs @ [x])"
| "spec_oset key (ODiscard x) xs =
     (OChanged (key x \<in> key ` set xs), filter (\<lambda>y. key y \<noteq> key x) xs)"
| "spec_oset key (OPop lst) xs =
     (if xs = [] then (ORaised KeyError, xs)
      else if lst then (OPopped (last xs), butlast xs) else (OPopped (hd xs), tl xs))"

lemma run_oset_sim:
  assumes "oset_ok key s"
  shows "fst (run_oset key p s) = fst (spec_oset key p (oset_list s)) \<and>
         oset_ok key (snd (run_oset key p s)) \<and>
         oset_list (snd (run_oset key p s)) = snd (spec_oset key p (oset_list s))"
proof (cases p)
  case (OPop lst)
  show ?thesis
  proof (cases "oset_list s = []")
    case True
    then have "oset_pop key lst s = Inl KeyError" using os.len_list [OF assms] by (simp add: oset_pop_def)
    with OPop True assms show ?thesis by simp
  next
    case False
    with OPop oset_pop_ok [OF assms False, of lst] show ?thesis by (auto split: if_splits)
  qed
qed (auto simp: os.oset_specs assms)

text \<open>
  C33. The linked ordered set behaves as a list without repeated keys: any history of \<open>add\<close>,
  \<open>discard\<close> and \<open>pop\<close> from either end gives the same results and exceptions as on the list,
  and afterwards forward iteration gives the list, backward iteration its reverse, and
  membership and length agree.
\<close>

theorem oset_refines_list:
  "let (outs, s) = run_ops (run_oset key) ps oset_empty;
       (outs', xs) = run_ops (spec_oset key) ps []
   in outs = outs' \<and> oset_iter s = Some xs \<and> oset_reversed s = Some (rev xs) \<and>
      oset_len s = length xs \<and> (\<forall>x. oset_contains key x s = (key x \<in> key ` set xs))"
proof -
  let ?i = "run_ops (run_oset key) ps oset_empty" and ?s = "run_ops (spec_oset key) ps []"
  have "fst ?i = fst ?s \<and> oset_ok key (snd ?i) \<and> oset_list (snd ?i) = snd ?s"
    by (rule run_ops_sim [where R = "\<lambda>s xs. oset_ok key s \<and> oset_list s = xs"])
      (use run_oset_sim os.invar_empty os.list_empty in blast)+
  then have eq: "fst ?i = fst ?s" and rep: "oset_rep key (snd ?i) (snd ?s)"
    by (auto simp: oset_ok_def)
  show ?thesis
    using eq oset_rep_iter [OF rep] oset_rep_len [OF rep] oset_rep_mem [OF rep]
    by (simp add: oset_contains_def split_beta)
qed

end
