(* ===== verification/Fact_Set.thy ===== *)
theory Fact_Set
  imports Ordered_Set Builtins
begin

text \<open>
  \<open>factset.FactSet\<close>: the facts of a table in an \<open>OrderedSet\<close>, with indexes that are created on
  demand. An index on columns \<open>cs\<close> maps the values of these columns to the facts that have them.
  The store is proved to answer as a plain set of facts does, with and without indexes.
\<close>

declare map_of_eq_Some_iff [simp del] Some_eq_map_of_iff [simp del]

section \<open>State and operations\<close>

type_synonym fact_index = "(nat list, (pyval list, fact list) dict) dict"

record fact_set =
  fs_facts :: "(fact, fact) oset"
  fs_indicies :: fact_index

definition fs_empty :: fact_set where
  "fs_empty = \<lparr>fs_facts = oset_empty, fs_indicies = []\<rparr>"

definition fs_contains :: "fact \<Rightarrow> fact_set \<Rightarrow> bool" where
  "fs_contains f fs = oset_contains (\<lambda>x. x) f (fs_facts fs)"

definition fs_len :: "fact_set \<Rightarrow> nat" where
  "fs_len fs = oset_len (fs_facts fs)"

abbreviation fs_list :: "fact_set \<Rightarrow> fact list" where
  "fs_list fs \<equiv> oset_list (fs_facts fs)"

definition compute_key :: "nat list \<Rightarrow> fact \<Rightarrow> pyval list res" where
  "compute_key columns f = for_res (\<lambda>i k. rbind (nth_res (fvals f) i) (\<lambda>v. Inr (k @ [v]))) columns []"

text \<open>The entry for the index is made before the key is computed, so it stays when that raises.\<close>

definition add_fact_to_index :: "fact \<Rightarrow> nat list \<Rightarrow> fact_index \<Rightarrow> exc option \<times> fact_index" where
  "add_fact_to_index f index ixs =
     (let ixs = (case map_of ixs index of None \<Rightarrow> AList.update index [] ixs | Some _ \<Rightarrow> ixs);
          m = (case map_of ixs index of None \<Rightarrow> [] | Some m \<Rightarrow> m)
      in case compute_key index f of
           Inl e \<Rightarrow> (Some e, ixs)
         | Inr k \<Rightarrow> (None, AList.update index
             (AList.update k (case map_of m k of None \<Rightarrow> [f] | Some fs \<Rightarrow> set_add f fs) m) ixs))"

definition remove_fact_from_index :: "fact \<Rightarrow> nat list \<Rightarrow> fact_index \<Rightarrow> exc option \<times> fact_index" where
  "remove_fact_from_index f index ixs =
     (case compute_key index f of
        Inl e \<Rightarrow> (Some e, ixs)
      | Inr k \<Rightarrow>
          (case map_of ixs index of
             None \<Rightarrow> (Some KeyError, ixs)
           | Some m \<Rightarrow>
               (case map_of m k of
                  None \<Rightarrow> (Some KeyError, ixs)
                | Some fs \<Rightarrow>
                    if f \<notin> set fs then (Some KeyError, ixs)
                    else (let fs = remove1 f fs in
                      (None, AList.update index (if fs = [] then AList.delete k m else AList.update k fs m) ixs)))))"

definition fs_add :: "fact \<Rightarrow> fact_set \<Rightarrow> bool res \<times> fact_set" where
  "fs_add f fs =
     (let (changed, facts) = oset_add (\<lambda>x. x) f (fs_facts fs); fs = fs\<lparr>fs_facts := facts\<rparr> in
      if \<not> changed then (Inr False, fs)
      else case for_keep (add_fact_to_index f) (dkeys (fs_indicies fs)) (fs_indicies fs) of
             (None, ixs) \<Rightarrow> (Inr True, fs\<lparr>fs_indicies := ixs\<rparr>)
           | (Some e, ixs) \<Rightarrow> (Inl e, fs\<lparr>fs_facts := snd (oset_discard (\<lambda>x. x) f facts), fs_indicies := ixs\<rparr>))"

definition fs_remove :: "fact \<Rightarrow> fact_set \<Rightarrow> bool res \<times> fact_set" where
  "fs_remove f fs =
     (let (changed, facts) = oset_discard (\<lambda>x. x) f (fs_facts fs); fs = fs\<lparr>fs_facts := facts\<rparr> in
      if \<not> changed then (Inr False, fs)
      else case for_keep (remove_fact_from_index f) (dkeys (fs_indicies fs)) (fs_indicies fs) of
             (None, ixs) \<Rightarrow> (Inr True, fs\<lparr>fs_indicies := ixs\<rparr>)
           | (Some e, ixs) \<Rightarrow> (Inl e, fs\<lparr>fs_facts := snd (oset_add (\<lambda>x. x) f facts), fs_indicies := ixs\<rparr>))"

definition fs_create_index :: "nat list \<Rightarrow> fact_set \<Rightarrow> exc option \<times> fact_set" where
  "fs_create_index columns fs =
     (if \<not> sorted columns \<or> length columns = 0 then (Some AssertionError, fs)
      else if columns \<in> set (dkeys (fs_indicies fs)) then (None, fs)
      else let (e, ixs) = for_keep (\<lambda>f. add_fact_to_index f columns) (fs_list fs) (fs_indicies fs)
           in (e, fs\<lparr>fs_indicies := ixs\<rparr>))"

definition fs_remove_index :: "nat list \<Rightarrow> fact_set \<Rightarrow> exc option \<times> fact_set" where
  "fs_remove_index columns fs =
     (if \<not> sorted columns then (Some AssertionError, fs)
      else (None, fs\<lparr>fs_indicies := AList.delete columns (fs_indicies fs)\<rparr>))"

definition fs_has_index :: "nat list \<Rightarrow> fact_set \<Rightarrow> bool" where
  "fs_has_index columns fs = (columns \<in> set (dkeys (fs_indicies fs)))"

fun fact_matches :: "(nat \<times> pyval) list \<Rightarrow> fact \<Rightarrow> bool res" where
  "fact_matches [] f = Inr True"
| "fact_matches ((i, v) # rest) f =
     rbind (nth_res (fvals f) i) (\<lambda>x. if x \<noteq> v then Inr False else fact_matches rest f)"

text \<open>\<open>find\<close>, with the number of facts it looked at (1 when an index answers).\<close>

definition fs_find :: "(nat \<times> pyval) list \<Rightarrow> fact_set \<Rightarrow> (nat \<times> fact list) res" where
  "fs_find partial fs =
     (case map_of (fs_indicies fs) (map fst partial) of
        Some m \<Rightarrow> Inr (1, case map_of m (map snd partial) of None \<Rightarrow> [] | Some fs \<Rightarrow> fs)
      | None \<Rightarrow>
          rbind (for_res (\<lambda>f ms. rbind (fact_matches partial f) (\<lambda>b. Inr (if b then set_add f ms else ms))) (fs_list fs) [])
            (\<lambda>ms. Inr (fs_len fs, ms)))"

section \<open>The index invariant\<close>

definition proj :: "nat list \<Rightarrow> fact \<Rightarrow> pyval list" where
  "proj cols f = map (\<lambda>i. fvals f ! i) cols"

text \<open>An index on \<open>cols\<close> over the facts \<open>F\<close>: every key has exactly its facts, none is empty.\<close>

definition index_rep :: "nat list \<Rightarrow> fact set \<Rightarrow> (pyval list, fact list) dict \<Rightarrow> bool" where
  "index_rep cols F m = (dict_ok m \<and> (\<forall>k. case map_of m k of
      None \<Rightarrow> \<forall>f \<in> F. proj cols f \<noteq> k
    | Some fs \<Rightarrow> fs \<noteq> [] \<and> distinct fs \<and> set fs = {f \<in> F. proj cols f = k}))"

definition cols_ok :: "nat \<Rightarrow> nat list \<Rightarrow> bool" where
  "cols_ok n cols = (cols \<noteq> [] \<and> sorted cols \<and> list_all (\<lambda>i. i < n) cols)"

definition indexes_rep :: "nat \<Rightarrow> fact set \<Rightarrow> fact_index \<Rightarrow> bool" where
  "indexes_rep n F ixs = (dict_ok ixs \<and> (\<forall>cols m. map_of ixs cols = Some m \<longrightarrow> cols_ok n cols \<and> index_rep cols F m))"

text \<open>A fact set of width \<open>n\<close> that stands for the set \<open>F\<close>.\<close>

definition fs_rep :: "nat \<Rightarrow> fact_set \<Rightarrow> fact set \<Rightarrow> bool" where
  "fs_rep n fs F = (oset_ok (\<lambda>x. x) (fs_facts fs) \<and> set (fs_list fs) = F \<and> (\<forall>f \<in> F. length (fvals f) = n) \<and>
     indexes_rep n F (fs_indicies fs))"

lemma compute_key_ok:
  assumes "list_all (\<lambda>i. i < length (fvals f)) cols" shows "compute_key cols f = Inr (proj cols f)"
proof -
  have "for_res (\<lambda>i k. rbind (nth_res (fvals f) i) (\<lambda>v. Inr (k @ [v]))) cols k = Inr (k @ proj cols f)" for k
    using assms by (induction cols arbitrary: k) (auto simp: nth_res_def proj_def)
  then show ?thesis by (simp add: compute_key_def)
qed

lemma index_rep_add:
  assumes "index_rep cols F m" "f \<notin> F"
  shows "index_rep cols (insert f F)
    (AList.update (proj cols f) (case map_of m (proj cols f) of None \<Rightarrow> [f] | Some fs \<Rightarrow> set_add f fs) m)"
proof -
  have d: "dict_ok m" and m: "\<And>k. case map_of m k of None \<Rightarrow> \<forall>f \<in> F. proj cols f \<noteq> k
    | Some fs \<Rightarrow> fs \<noteq> [] \<and> distinct fs \<and> set fs = {f \<in> F. proj cols f = k}" using assms(1) by (auto simp: index_rep_def)
  show ?thesis
    unfolding index_rep_def
  proof (intro conjI allI)
    fix k show "case map_of (AList.update (proj cols f) (case map_of m (proj cols f) of None \<Rightarrow> [f] | Some fs \<Rightarrow> set_add f fs) m) k of
        None \<Rightarrow> \<forall>fa \<in> insert f F. proj cols fa \<noteq> k
      | Some fs \<Rightarrow> fs \<noteq> [] \<and> distinct fs \<and> set fs = {fa \<in> insert f F. proj cols fa = k}"
    proof (cases "k = proj cols f")
      case True
      with m [of k] assms(2) show ?thesis by (cases "map_of m k") (auto simp: set_add_def)
    next
      case False
      with m [of k] show ?thesis by (cases "map_of m k") auto
    qed
  qed (use d in auto)
qed

lemma index_rep_remove:
  assumes "index_rep cols F m" "f \<in> F"
  obtains fs where "map_of m (proj cols f) = Some fs" "f \<in> set fs"
    "index_rep cols (F - {f}) (if remove1 f fs = [] then AList.delete (proj cols f) m else AList.update (proj cols f) (remove1 f fs) m)"
proof -
  have d: "dict_ok m" and m: "\<And>k. case map_of m k of None \<Rightarrow> \<forall>f \<in> F. proj cols f \<noteq> k
    | Some fs \<Rightarrow> fs \<noteq> [] \<and> distinct fs \<and> set fs = {f \<in> F. proj cols f = k}" using assms(1) by (auto simp: index_rep_def)
  obtain fs where fs: "map_of m (proj cols f) = Some fs" "distinct fs" "set fs = {g \<in> F. proj cols g = proj cols f}"
    using m [of "proj cols f"] assms(2) by (auto split: option.splits)
  have s: "set (remove1 f fs) = {g \<in> F - {f}. proj cols g = proj cols f}" using fs by (auto simp: set_remove1_eq)
  have "case map_of (if remove1 f fs = [] then AList.delete (proj cols f) m else AList.update (proj cols f) (remove1 f fs) m) k of
      None \<Rightarrow> \<forall>g \<in> F - {f}. proj cols g \<noteq> k
    | Some fs \<Rightarrow> fs \<noteq> [] \<and> distinct fs \<and> set fs = {g \<in> F - {f}. proj cols g = k}" for k
  proof (cases "k = proj cols f")
    case True
    with s fs(2) show ?thesis by (cases "remove1 f fs = []") auto
  next
    case False
    with m [of k] show ?thesis by (auto split: option.splits)
  qed
  then have "index_rep cols (F - {f}) (if remove1 f fs = [] then AList.delete (proj cols f) m else AList.update (proj cols f) (remove1 f fs) m)"
    using d by (auto simp: index_rep_def)
  with fs assms(2) show ?thesis by (intro that [of fs]) auto
qed

text \<open>A loop over all indexes that turns each from \<open>F\<close> to \<open>F'\<close>.\<close>

definition step_ok ::
    "nat \<Rightarrow> fact set \<Rightarrow> fact set \<Rightarrow> (nat list \<Rightarrow> fact_index \<Rightarrow> exc option \<times> fact_index) \<Rightarrow> bool" where
  "step_ok n F F' step = (\<forall>cols m ixs. cols_ok n cols \<longrightarrow> index_rep cols F m \<longrightarrow> map_of ixs cols = Some m \<longrightarrow>
      (\<exists>m'. step cols ixs = (None, AList.update cols m' ixs) \<and> index_rep cols F' m'))"

lemma index_loop:
  assumes step: "step_ok n F F' step"
    and "distinct cs" "\<forall>cols \<in> set cs. cols_ok n cols \<and> (\<exists>m. map_of ixs cols = Some m \<and> index_rep cols F m)" "dict_ok ixs"
  shows "\<exists>ixs'. for_keep step cs ixs = (None, ixs') \<and> dict_ok ixs' \<and>
     (\<forall>cols. if cols \<in> set cs then \<exists>m. map_of ixs' cols = Some m \<and> index_rep cols F' m else map_of ixs' cols = map_of ixs cols)"
  using assms(2-)
proof (induction cs arbitrary: ixs)
  case (Cons c cs)
  obtain m where "cols_ok n c" "map_of ixs c = Some m" "index_rep c F m" using Cons.prems(2) by auto
  with step [unfolded step_ok_def] obtain m' where m': "step c ixs = (None, AList.update c m' ixs)" "index_rep c F' m'" by blast
  have "\<forall>cols \<in> set cs. cols_ok n cols \<and> (\<exists>m. map_of (AList.update c m' ixs) cols = Some m \<and> index_rep cols F m)"
    using Cons.prems(1,2) by auto
  from Cons.IH [OF _ this] Cons.prems(1,3) obtain ixs' where ixs': "for_keep step cs (AList.update c m' ixs) = (None, ixs')" "dict_ok ixs'"
    "\<forall>cols. if cols \<in> set cs then \<exists>m. map_of ixs' cols = Some m \<and> index_rep cols F' m
       else map_of ixs' cols = map_of (AList.update c m' ixs) cols" by auto
  have "map_of ixs' c = Some m'" using ixs'(3) [rule_format, of c] Cons.prems(1) by simp
  moreover have "if cols \<in> set cs then \<exists>m. map_of ixs' cols = Some m \<and> index_rep cols F' m
       else map_of ixs' cols = map_of ixs cols" if "cols \<noteq> c" for cols
    using ixs'(3) [rule_format, of cols] that by simp
  ultimately have "if cols \<in> set (c # cs) then \<exists>m. map_of ixs' cols = Some m \<and> index_rep cols F' m
       else map_of ixs' cols = map_of ixs cols" for cols
    using m'(2) by (cases "cols = c") simp_all
  moreover have "for_keep step (c # cs) ixs = (None, ixs')" using m'(1) ixs'(1) by simp
  ultimately show ?case using ixs'(2) by blast
qed simp

lemma index_loop_all:
  assumes "step_ok n F F' step" and "indexes_rep n F ixs"
  shows "\<exists>ixs'. for_keep step (dkeys ixs) ixs = (None, ixs') \<and> indexes_rep n F' ixs'"
proof -
  have d: "dict_ok ixs" and m: "\<And>cols m. map_of ixs cols = Some m \<Longrightarrow> cols_ok n cols \<and> index_rep cols F m"
    using assms(2) by (simp_all add: indexes_rep_def)
  have all: "\<forall>cols \<in> set (dkeys ixs). cols_ok n cols \<and> (\<exists>m. map_of ixs cols = Some m \<and> index_rep cols F m)"
  proof
    fix cols assume "cols \<in> set (dkeys ixs)"
    then obtain m0 where "map_of ixs cols = Some m0" by (cases "map_of ixs cols") (auto simp: map_of_None_keys)
    with m show "cols_ok n cols \<and> (\<exists>m. map_of ixs cols = Some m \<and> index_rep cols F m)" by blast
  qed
  obtain ixs' where ixs': "for_keep step (dkeys ixs) ixs = (None, ixs')" "dict_ok ixs'"
    and c: "\<forall>cols. if cols \<in> set (dkeys ixs) then \<exists>m. map_of ixs' cols = Some m \<and> index_rep cols F' m else map_of ixs' cols = map_of ixs cols"
    using index_loop [OF assms(1) d all d] by (elim exE conjE) (rule that)
  have "cols_ok n cols \<and> index_rep cols F' m" if m: "map_of ixs' cols = Some m" for cols m
  proof (cases "cols \<in> set (dkeys ixs)")
    case True
    with c [rule_format, of cols] m have "index_rep cols F' m" by simp
    with all True show ?thesis by blast
  next
    case False
    with c [rule_format, of cols] m have "map_of ixs cols = Some m" by simp
    from map_of_Some_keys [OF this] False show ?thesis by simp
  qed
  with ixs' show ?thesis by (auto simp: indexes_rep_def)
qed

lemma cols_ok_width: "cols_ok n cols \<Longrightarrow> length (fvals f) = n \<Longrightarrow> compute_key cols f = Inr (proj cols f)"
  by (auto simp: cols_ok_def intro: compute_key_ok)

lemma add_to_index_step:
  assumes "f \<notin> F" "length (fvals f) = n"
  shows "step_ok n F (insert f F) (add_fact_to_index f)"
  unfolding step_ok_def
proof (intro allI impI)
  fix cols m and ixs :: fact_index
  assume a: "cols_ok n cols" "index_rep cols F m" "map_of ixs cols = Some m"
  let ?m = "AList.update (proj cols f) (case map_of m (proj cols f) of None \<Rightarrow> [f] | Some fs \<Rightarrow> set_add f fs) m"
  have "add_fact_to_index f cols ixs = (None, AList.update cols ?m ixs)"
    using cols_ok_width [OF a(1) assms(2)] a(3) by (simp add: add_fact_to_index_def)
  with index_rep_add [OF a(2) assms(1)]
  show "\<exists>m'. add_fact_to_index f cols ixs = (None, AList.update cols m' ixs) \<and> index_rep cols (insert f F) m'" by blast
qed

lemma remove_from_index_step:
  assumes "f \<in> F" "length (fvals f) = n"
  shows "step_ok n F (F - {f}) (remove_fact_from_index f)"
  unfolding step_ok_def
proof (intro allI impI)
  fix cols m and ixs :: fact_index
  assume a: "cols_ok n cols" "index_rep cols F m" "map_of ixs cols = Some m"
  obtain fs where fs: "map_of m (proj cols f) = Some fs" "f \<in> set fs"
    "index_rep cols (F - {f}) (if remove1 f fs = [] then AList.delete (proj cols f) m else AList.update (proj cols f) (remove1 f fs) m)"
    using index_rep_remove [OF a(2) assms(1)] by blast
  have "remove_fact_from_index f cols ixs = (None, AList.update cols
      (if remove1 f fs = [] then AList.delete (proj cols f) m else AList.update (proj cols f) (remove1 f fs) m) ixs)"
    using cols_ok_width [OF a(1) assms(2)] a(3) fs(1,2) by (simp only: remove_fact_from_index_def Let_def) simp
  with fs(3)
  show "\<exists>m'. remove_fact_from_index f cols ixs = (None, AList.update cols m' ixs) \<and> index_rep cols (F - {f}) m'" by blast
qed

lemma fs_add_ok:
  assumes rep: "fs_rep n fs F" and f: "length (fvals f) = n"
  shows "\<exists>fs'. fs_add f fs = (Inr (f \<notin> F), fs') \<and> fs_rep n fs' (insert f F)"
proof -
  have o: "oset_ok (\<lambda>x. x) (fs_facts fs)" "set (fs_list fs) = F" using rep by (simp_all add: fs_rep_def)
  let ?a = "oset_add (\<lambda>x. x) f (fs_facts fs)"
  have changed: "fst ?a \<longleftrightarrow> f \<notin> F" using o by (auto simp: os.add_changed os.contains_iff)
  have a: "oset_ok (\<lambda>x. x) (snd ?a)" "set (oset_list (snd ?a)) = insert f F"
    using o by (auto simp: os.invar_add os.list_add os.contains_iff)
  show ?thesis
  proof (cases "f \<in> F")
    case True
    with changed rep a show ?thesis by (auto simp: fs_add_def fs_rep_def split_beta insert_absorb)
  next
    case False
    obtain ixs where "for_keep (add_fact_to_index f) (dkeys (fs_indicies fs)) (fs_indicies fs) = (None, ixs)"
      "indexes_rep n (insert f F) ixs"
      using index_loop_all [OF add_to_index_step [OF False f]] rep
      by (auto simp: fs_rep_def)
    with changed False rep a f show ?thesis by (auto simp: fs_add_def fs_rep_def split_beta)
  qed
qed

lemma fs_remove_ok:
  assumes rep: "fs_rep n fs F"
  shows "\<exists>fs'. fs_remove f fs = (Inr (f \<in> F), fs') \<and> fs_rep n fs' (F - {f})"
proof -
  have o: "oset_ok (\<lambda>x. x) (fs_facts fs)" "set (fs_list fs) = F" using rep by (simp_all add: fs_rep_def)
  let ?a = "oset_discard (\<lambda>x. x) f (fs_facts fs)"
  have changed: "fst ?a \<longleftrightarrow> f \<in> F" using o by (auto simp: os.discard_changed os.contains_iff)
  have a: "oset_ok (\<lambda>x. x) (snd ?a)" "set (oset_list (snd ?a)) = F - {f}"
    using o by (auto simp: os.invar_discard os.list_discard)
  show ?thesis
  proof (cases "f \<in> F")
    case False
    then have "F - {f} = F" by blast
    with False changed rep a show ?thesis by (auto simp: fs_remove_def fs_rep_def split_beta)
  next
    case True
    have f: "length (fvals f) = n" using rep True by (simp add: fs_rep_def)
    obtain ixs where "for_keep (remove_fact_from_index f) (dkeys (fs_indicies fs)) (fs_indicies fs) = (None, ixs)"
      "indexes_rep n (F - {f}) ixs"
      using index_loop_all [OF remove_from_index_step [OF True f]] rep
      by (auto simp: fs_rep_def)
    with changed True rep a show ?thesis by (auto simp: fs_remove_def fs_rep_def split_beta)
  qed
qed

lemma fs_rep_empty: "fs_rep n fs_empty {}"
  by (simp add: fs_rep_def fs_empty_def os.invar_empty os.list_empty indexes_rep_def)

text \<open>Filling a new index with the facts one by one.\<close>

lemma fill_index:
  assumes "cols_ok n cols" "distinct fs" "\<forall>f \<in> set fs. length (fvals f) = n" "set fs \<inter> F = {}" "fs \<noteq> [] \<or> map_of ixs cols \<noteq> None"
    and "case map_of ixs cols of None \<Rightarrow> F = {} | Some m \<Rightarrow> index_rep cols F m" "dict_ok ixs"
  shows "\<exists>ixs'. for_keep (\<lambda>f. add_fact_to_index f cols) fs ixs = (None, ixs') \<and> dict_ok ixs' \<and>
     (\<forall>c. c \<noteq> cols \<longrightarrow> map_of ixs' c = map_of ixs c) \<and> (\<exists>m. map_of ixs' cols = Some m \<and> index_rep cols (F \<union> set fs) m)"
  using assms(2-)
proof (induction fs arbitrary: F ixs)
  case Nil
  then show ?case by (cases "map_of ixs cols") auto
next
  case (Cons f fs)
  define m where "m = (case map_of ixs cols of None \<Rightarrow> [] | Some m \<Rightarrow> m)"
  have m: "index_rep cols F m" using Cons.prems(5) by (cases "map_of ixs cols") (auto simp: m_def index_rep_def)
  let ?m = "AList.update (proj cols f) (case map_of m (proj cols f) of None \<Rightarrow> [f] | Some fs \<Rightarrow> set_add f fs) m"
  let ?ixs = "AList.update cols ?m (case map_of ixs cols of None \<Rightarrow> AList.update cols [] ixs | Some _ \<Rightarrow> ixs)"
  have step: "add_fact_to_index f cols ixs = (None, ?ixs)"
    using cols_ok_width [OF assms(1), of f] Cons.prems(2)
    by (cases "map_of ixs cols") (simp_all add: add_fact_to_index_def Let_def m_def)
  have "f \<notin> F" using Cons.prems(3) by auto
  from index_rep_add [OF m this] have new: "index_rep cols (insert f F) ?m" .
  have ixs: "map_of ?ixs cols = Some ?m" "\<And>c. c \<noteq> cols \<Longrightarrow> map_of ?ixs c = map_of ixs c" "dict_ok ?ixs"
    using Cons.prems(6) by (auto split: option.splits)
  have "\<exists>ixs'. for_keep (\<lambda>f. add_fact_to_index f cols) fs ?ixs = (None, ixs') \<and> dict_ok ixs' \<and>
     (\<forall>c. c \<noteq> cols \<longrightarrow> map_of ixs' c = map_of ?ixs c) \<and>
     (\<exists>m. map_of ixs' cols = Some m \<and> index_rep cols (insert f F \<union> set fs) m)"
    using Cons.prems ixs new by (intro Cons.IH) (simp_all del: map_of_update)
  with step ixs(2) show ?case by simp
qed

lemma fs_create_index_ok:
  assumes rep: "fs_rep n fs F" and cols: "cols_ok n cols"
  shows "\<exists>fs'. fs_create_index cols fs = (None, fs') \<and> fs_rep n fs' F"
proof (cases "cols \<in> set (dkeys (fs_indicies fs)) \<or> fs_list fs = []")
  case True
  with rep cols show ?thesis by (auto simp: fs_create_index_def cols_ok_def)
next
  case False
  have none: "map_of (fs_indicies fs) cols = None" using False by (simp add: map_of_None_keys)
  have d: "distinct (fs_list fs)" using os.keys_distinct [of "\<lambda>x. x" "fs_facts fs"] rep by (simp add: fs_rep_def)
  have w: "\<forall>f \<in> set (fs_list fs). length (fvals f) = n" and ok: "dict_ok (fs_indicies fs)" and F: "set (fs_list fs) = F"
    using rep by (auto simp: fs_rep_def indexes_rep_def)
  obtain ixs m where ixs: "for_keep (\<lambda>f. add_fact_to_index f cols) (fs_list fs) (fs_indicies fs) = (None, ixs)" "dict_ok ixs"
    "\<forall>c. c \<noteq> cols \<longrightarrow> map_of ixs c = map_of (fs_indicies fs) c" "map_of ixs cols = Some m" "index_rep cols F m"
    using fill_index [OF cols d w, of "{}" "fs_indicies fs"] none False ok F by auto
  have "cols_ok n c \<and> index_rep c F mc" if "map_of ixs c = Some mc" for c mc
    using that ixs cols rep by (cases "c = cols") (auto simp: fs_rep_def indexes_rep_def)
  then have "fs_rep n (fs\<lparr>fs_indicies := ixs\<rparr>) F" using rep ixs(2) by (simp add: fs_rep_def indexes_rep_def)
  with False cols ixs(1) show ?thesis by (simp add: fs_create_index_def cols_ok_def)
qed

lemma fs_remove_index_ok:
  assumes "fs_rep n fs F" "cols_ok n cols"
  shows "\<exists>fs'. fs_remove_index cols fs = (None, fs') \<and> fs_rep n fs' F"
  using assms by (auto simp: fs_remove_index_def fs_rep_def indexes_rep_def cols_ok_def)

text \<open>A fact that agrees with a partial fact.\<close>

definition agrees :: "(nat \<times> pyval) list \<Rightarrow> fact \<Rightarrow> bool" where
  "agrees partial f = list_all (\<lambda>(i, v). fvals f ! i = v) partial"

lemma fact_matches_ok: "list_all (\<lambda>(i, v). i < length (fvals f)) partial \<Longrightarrow> fact_matches partial f = Inr (agrees partial f)"
  by (induction partial f rule: fact_matches.induct) (auto simp: nth_res_def agrees_def)

lemma agrees_proj: "agrees partial f \<longleftrightarrow> proj (map fst partial) f = map snd partial"
  by (induction partial) (auto simp: agrees_def proj_def)

lemma scan_ok:
  assumes "\<forall>f \<in> set fs. fact_matches partial f = Inr (agrees partial f)"
  shows "\<exists>ms. for_res (\<lambda>f ms. rbind (fact_matches partial f) (\<lambda>b. Inr (if b then set_add f ms else ms))) fs acc = Inr ms \<and>
     set ms = set acc \<union> {f \<in> set fs. agrees partial f} \<and> (distinct acc \<longrightarrow> distinct ms)"
  using assms
proof (induction fs arbitrary: acc)
  case (Cons f fs)
  from Cons.IH [of "if agrees partial f then set_add f acc else acc"] Cons.prems show ?case by auto
qed simp

lemma fs_find_ok:
  assumes rep: "fs_rep n fs F" and partial: "list_all (\<lambda>(i, v). i < n) partial"
  shows "\<exists>k ms. fs_find partial fs = Inr (k, ms) \<and> distinct ms \<and> set ms = {f \<in> F. agrees partial f}"
proof (cases "map_of (fs_indicies fs) (map fst partial)")
  case (Some m)
  then have m: "index_rep (map fst partial) F m" using rep by (auto simp: fs_rep_def indexes_rep_def)
  then have "case map_of m (map snd partial) of None \<Rightarrow> \<forall>f \<in> F. proj (map fst partial) f \<noteq> map snd partial
    | Some fs \<Rightarrow> fs \<noteq> [] \<and> distinct fs \<and> set fs = {f \<in> F. proj (map fst partial) f = map snd partial}"
    unfolding index_rep_def by blast
  with Some show ?thesis by (cases "map_of m (map snd partial)") (auto simp: fs_find_def agrees_proj)
next
  case None
  have "\<forall>f \<in> set (fs_list fs). fact_matches partial f = Inr (agrees partial f)"
    using rep partial by (auto simp: fs_rep_def intro!: fact_matches_ok)
  from scan_ok [OF this, of "[]"] None rep show ?thesis by (auto simp: fs_find_def fs_rep_def)
qed

section \<open>The specification: a set of facts\<close>

datatype fs_op = FAdd fact | FRemove fact | FCreate "nat list" | FDrop "nat list" | FContains fact | FFind "(nat \<times> pyval) list"

datatype fs_out = OBool bool | ODone | OFacts "fact set" | ORaise exc

fun fs_run :: "fs_op \<Rightarrow> fact_set \<Rightarrow> fs_out \<times> fact_set" where
  "fs_run (FAdd f) fs = (let (r, fs) = fs_add f fs in (case r of Inl e \<Rightarrow> ORaise e | Inr b \<Rightarrow> OBool b, fs))"
| "fs_run (FRemove f) fs = (let (r, fs) = fs_remove f fs in (case r of Inl e \<Rightarrow> ORaise e | Inr b \<Rightarrow> OBool b, fs))"
| "fs_run (FCreate cs) fs = (let (r, fs) = fs_create_index cs fs in (case r of Some e \<Rightarrow> ORaise e | None \<Rightarrow> ODone, fs))"
| "fs_run (FDrop cs) fs = (let (r, fs) = fs_remove_index cs fs in (case r of Some e \<Rightarrow> ORaise e | None \<Rightarrow> ODone, fs))"
| "fs_run (FContains f) fs = (OBool (fs_contains f fs), fs)"
| "fs_run (FFind p) fs = (case fs_find p fs of Inl e \<Rightarrow> ORaise e | Inr (_, ms) \<Rightarrow> OFacts (set ms), fs)"

fun fs_spec :: "fs_op \<Rightarrow> fact set \<Rightarrow> fs_out \<times> fact set" where
  "fs_spec (FAdd f) F = (OBool (f \<notin> F), insert f F)"
| "fs_spec (FRemove f) F = (OBool (f \<in> F), F - {f})"
| "fs_spec (FCreate cs) F = (ODone, F)"
| "fs_spec (FDrop cs) F = (ODone, F)"
| "fs_spec (FContains f) F = (OBool (f \<in> F), F)"
| "fs_spec (FFind p) F = (OFacts {f \<in> F. agrees p f}, F)"

fun fs_op_ok :: "nat \<Rightarrow> fs_op \<Rightarrow> bool" where
  "fs_op_ok n (FAdd f) = (length (fvals f) = n)"
| "fs_op_ok n (FRemove f) = True"
| "fs_op_ok n (FCreate cs) = cols_ok n cs"
| "fs_op_ok n (FDrop cs) = cols_ok n cs"
| "fs_op_ok n (FContains f) = True"
| "fs_op_ok n (FFind p) = list_all (\<lambda>(i, v). i < n) p"

lemma fs_run_sim:
  assumes "fs_op_ok n p" "fs_rep n fs F"
  shows "fst (fs_run p fs) = fst (fs_spec p F) \<and> fs_rep n (snd (fs_run p fs)) (snd (fs_spec p F))"
proof (cases p)
  case (FAdd f) with fs_add_ok [OF assms(2), of f] assms show ?thesis by auto
next
  case (FRemove f) with fs_remove_ok [OF assms(2), of f] show ?thesis by auto
next
  case (FCreate cs) with fs_create_index_ok [OF assms(2), of cs] assms show ?thesis by auto
next
  case (FDrop cs) with fs_remove_index_ok [OF assms(2), of cs] assms show ?thesis by auto
next
  case (FContains f) with assms(2) show ?thesis by (auto simp: fs_contains_def fs_rep_def os.contains_iff)
next
  case (FFind q) with fs_find_ok [OF assms(2), of q] assms show ?thesis by auto
qed

text \<open>
  C23. The indexed fact store is equivalent to a set of facts: for every history of \<open>add\<close>,
  \<open>remove\<close>, \<open>create_index\<close>, \<open>remove_index\<close>, membership tests and \<open>find\<close> on facts of one width,
  each operation answers (and raises) as it does on a plain set, whatever indexes exist.
\<close>

theorem fact_set_refines_set:
  assumes "list_all (fs_op_ok n) ops"
  shows "fst (run_ops fs_run ops fs_empty) = fst (run_ops fs_spec ops {})"
proof -
  have "fst (fs_run p s) = fst (fs_spec p t) \<and> fs_rep n (snd (fs_run p s)) (snd (fs_spec p t))"
    if "p \<in> set ops" "fs_rep n s t" for p s t
    using fs_run_sim [OF _ that(2)] that(1) assms by (simp add: list_all_iff)
  from run_ops_sim_on [of ops "fs_rep n", OF this fs_rep_empty] show ?thesis by simp
qed

definition fact_example :: "int \<Rightarrow> string \<Rightarrow> fact" where
  "fact_example i s = \<lparr>ftable = ''p'', fvals = [VInt i, VStr s]\<rparr>"

theorem fact_set_refines_set_witness:
  "fst (run_ops fs_run [FAdd (fact_example 1 ''a''), FCreate [0], FAdd (fact_example 2 ''a''), FFind [(0, VInt 2)],
      FRemove (fact_example 2 ''a''), FFind [(0, VInt 2)]] fs_empty) =
   [OBool True, ODone, OBool True, OFacts {fact_example 2 ''a''}, OBool True, OFacts {}]"
  (is "fst (run_ops fs_run ?ops fs_empty) = _")
proof -
  have ok: "list_all (fs_op_ok 2) ?ops" by code_simp
  have "agrees [(0, VInt 2)] (fact_example 2 ''a'')" "\<not> agrees [(0, VInt 2)] (fact_example 1 ''a'')"
    "fact_example 2 ''a'' \<noteq> fact_example 1 ''a''" by (simp_all add: agrees_def fact_example_def)
  then show ?thesis unfolding fact_set_refines_set [OF ok] by auto
qed

end
