(* ===== verification/Rule_Set.thy ===== *)
theory Rule_Set
  imports Fact_Set
begin

text \<open>
  \<open>ruleset.RuleSet\<close>: the facts and rules of a policy by table. Facts, and rules without a body,
  go into a \<open>FactSet\<close>; rules with a body into an \<open>OrderedSet\<close>. Proved to behave as one set of
  facts and one list of rules per table.
\<close>

declare map_of_eq_Some_iff [simp del] Some_eq_map_of_iff [simp del]

section \<open>State and operations\<close>

record rule_store =
  rs_rules :: "(string, (literal list \<times> literal list, rule) oset) dict"
  rs_facts :: "(string, fact_set) dict"

definition rs_empty :: rule_store where
  "rs_empty = \<lparr>rs_rules = [], rs_facts = []\<rparr>"

text \<open>The attribute \<open>name\<close> of a term: a variable that occurs in a fact is stored as a string.\<close>

fun arg_name :: "trm \<Rightarrow> pyval" where
  "arg_name (Variable n) = VStr n"
| "arg_name (ObjectConstant v) = v"

definition fact_of_args :: "string \<Rightarrow> trm list \<Rightarrow> fact" where
  "fact_of_args key args = \<lparr>ftable = key, fvals = map arg_name args\<rparr>"

definition rs_add_fact :: "string \<Rightarrow> fact \<Rightarrow> rule_store \<Rightarrow> bool res \<times> rule_store" where
  "rs_add_fact key f rs =
     (let (r, fs) = fs_add f (case map_of (rs_facts rs) key of None \<Rightarrow> fs_empty | Some fs \<Rightarrow> fs)
      in (r, rs\<lparr>rs_facts := AList.update key fs (rs_facts rs)\<rparr>))"

fun rs_add_rule :: "string \<Rightarrow> formula \<Rightarrow> rule_store \<Rightarrow> bool res \<times> rule_store" where
  "rs_add_rule key (FFact f) rs = rs_add_fact key f rs"
| "rs_add_rule key (FRule r) rs =
     (if length (body r) = 0 \<and> \<not> negated (rule_head r)
      then rs_add_fact key (fact_of_args key (arguments (rule_head r))) rs
      else
        (case map_of (rs_rules rs) key of
           Some s \<Rightarrow> (let (b, s) = oset_add rule_key r s
                      in (Inr b, rs\<lparr>rs_rules := AList.update key s (rs_rules rs)\<rparr>))
         | None \<Rightarrow> (Inr True, rs\<lparr>rs_rules := AList.update key (oset_of rule_key [r]) (rs_rules rs)\<rparr>)))"
| "rs_add_rule key (FLit l) rs = (Inl AttributeError, rs)"

definition rs_discard_fact :: "string \<Rightarrow> fact \<Rightarrow> rule_store \<Rightarrow> bool res \<times> rule_store" where
  "rs_discard_fact key f rs =
     (case map_of (rs_facts rs) key of
        None \<Rightarrow> (Inr False, rs)
      | Some fs \<Rightarrow>
          (case fs_remove f fs of
             (Inl e, fs) \<Rightarrow> (Inl e, rs\<lparr>rs_facts := AList.update key fs (rs_facts rs)\<rparr>)
           | (Inr b, fs) \<Rightarrow> (Inr b, rs\<lparr>rs_facts :=
               if fs_len fs = 0 then AList.delete key (rs_facts rs) else AList.update key fs (rs_facts rs)\<rparr>)))"

fun rs_discard_rule :: "string \<Rightarrow> formula \<Rightarrow> rule_store \<Rightarrow> bool res \<times> rule_store" where
  "rs_discard_rule key (FFact f) rs = rs_discard_fact key f rs"
| "rs_discard_rule key (FRule r) rs =
     (if length (body r) = 0 then rs_discard_fact key (fact_of_args key (arguments (rule_head r))) rs
      else
        (case map_of (rs_rules rs) key of
           None \<Rightarrow> (Inr False, rs)
         | Some s \<Rightarrow>
             (let (b, s) = oset_discard rule_key r s
              in (Inr b, rs\<lparr>rs_rules :=
                   if oset_len s = 0 then AList.delete key (rs_rules rs) else AList.update key s (rs_rules rs)\<rparr>))))"
| "rs_discard_rule key (FLit l) rs = (Inl AttributeError, rs)"

definition rs_keys :: "rule_store \<Rightarrow> string list" where
  "rs_keys rs = dkeys (rs_facts rs) @ dkeys (rs_rules rs)"

definition rs_has_key :: "string \<Rightarrow> rule_store \<Rightarrow> bool" where
  "rs_has_key key rs = (key \<in> set (dkeys (rs_facts rs)) \<or> key \<in> set (dkeys (rs_rules rs)))"

definition rs_contains_fact :: "string \<Rightarrow> fact \<Rightarrow> rule_store \<Rightarrow> bool" where
  "rs_contains_fact key f rs = (case map_of (rs_facts rs) key of None \<Rightarrow> False | Some fs \<Rightarrow> fs_contains f fs)"

fun rs_contains :: "string \<Rightarrow> formula \<Rightarrow> rule_store \<Rightarrow> bool" where
  "rs_contains key (FFact f) rs = rs_contains_fact key f rs"
| "rs_contains key (FLit l) rs = rs_contains_fact key (fact_of_args key (arguments l)) rs"
| "rs_contains key (FRule r) rs =
     (if length (body r) = 0 then rs_contains_fact key (fact_of_args key (arguments (rule_head r))) rs
      else (case map_of (rs_rules rs) key of None \<Rightarrow> False | Some s \<Rightarrow> oset_contains rule_key r s))"

definition rule_of_fact :: "string \<Rightarrow> fact \<Rightarrow> rule" where
  "rule_of_fact key f =
     \<lparr>heads = [mk_literal (create_from_tablename key None False) (map ObjectConstant (fvals f)) False []], body = []\<rparr>"

definition bound_arguments :: "literal \<Rightarrow> (nat \<times> pyval) list" where
  "bound_arguments l = map (\<lambda>(i, t). (i, arg_name t)) (filter (\<lambda>(i, t). \<not> is_variable t) (enumerate 0 (arguments l)))"

text \<open>The facts that can match a literal are found through an index, created when missing.\<close>

definition rs_get_rules :: "string \<Rightarrow> literal option \<Rightarrow> rule_store \<Rightarrow> rule list res \<times> rule_store" where
  "rs_get_rules key match_literal rs =
     (let rules = (case map_of (rs_rules rs) key of None \<Rightarrow> [] | Some s \<Rightarrow> oset_list s) in
      case (match_literal, map_of (rs_facts rs) key) of
        (Some l, Some fs) \<Rightarrow>
          if negated l then (Inr (map (rule_of_fact key) (fs_list fs) @ rules), rs)
          else
            (let partial = bound_arguments l;
                 (e, fs) = (if partial \<noteq> [] \<and> \<not> fs_has_index (map fst partial) fs
                            then fs_create_index (map fst partial) fs else (None, fs));
                 rs = rs\<lparr>rs_facts := AList.update key fs (rs_facts rs)\<rparr>
             in case e of
                  Some e \<Rightarrow> (Inl e, rs)
                | None \<Rightarrow>
                    (case fs_find partial fs of
                       Inl e \<Rightarrow> (Inl e, rs)
                     | Inr (_, facts) \<Rightarrow> (Inr (map (rule_of_fact key) facts @ rules), rs)))
      | (_, Some fs) \<Rightarrow> (Inr (map (rule_of_fact key) (fs_list fs) @ rules), rs)
      | (_, None) \<Rightarrow> (Inr rules, rs))"

definition rs_clear :: "rule_store \<Rightarrow> rule_store" where
  "rs_clear rs = rs_empty"

definition rs_clear_table :: "string \<Rightarrow> rule_store \<Rightarrow> rule_store" where
  "rs_clear_table t rs = rs\<lparr>rs_rules := AList.update t oset_empty (rs_rules rs), rs_facts := AList.update t fs_empty (rs_facts rs)\<rparr>"

section \<open>One set of facts and one list of rules per table\<close>

text \<open>
  The keys of the two dictionaries are kept beside the contents: a table that was cleared stays a
  key, one whose last fact or rule was discarded does not.
\<close>

record spec_store =
  sp_facts :: "string \<Rightarrow> fact set"
  sp_rules :: "string \<Rightarrow> rule list"
  sp_fkeys :: "string set"
  sp_rkeys :: "string set"

definition sp_empty :: spec_store where
  "sp_empty = \<lparr>sp_facts = \<lambda>_. {}, sp_rules = \<lambda>_. [], sp_fkeys = {}, sp_rkeys = {}\<rparr>"

definition facts_rep :: "(string \<Rightarrow> nat) \<Rightarrow> (string, fact_set) dict \<Rightarrow> (string \<Rightarrow> fact set) \<Rightarrow> string set \<Rightarrow> bool" where
  "facts_rep W d F K = (\<forall>k. case map_of d k of None \<Rightarrow> F k = {} \<and> k \<notin> K
     | Some fs \<Rightarrow> fs_rep (W k) fs (F k) \<and> k \<in> K)"

definition rules_rep ::
    "(string, (literal list \<times> literal list, rule) oset) dict \<Rightarrow> (string \<Rightarrow> rule list) \<Rightarrow> string set \<Rightarrow> bool" where
  "rules_rep d L K = (\<forall>k. case map_of d k of None \<Rightarrow> L k = [] \<and> k \<notin> K
     | Some s \<Rightarrow> oset_ok rule_key s \<and> oset_list s = L k \<and> k \<in> K)"

definition store_rep :: "(string \<Rightarrow> nat) \<Rightarrow> rule_store \<Rightarrow> spec_store \<Rightarrow> bool" where
  "store_rep W rs sp = (facts_rep W (rs_facts rs) (sp_facts sp) (sp_fkeys sp) \<and>
     rules_rep (rs_rules rs) (sp_rules sp) (sp_rkeys sp))"

lemma store_rep_empty: "store_rep W rs_empty sp_empty"
  by (simp add: store_rep_def facts_rep_def rules_rep_def rs_empty_def sp_empty_def)

lemma facts_repD:
  "facts_rep W d F K \<Longrightarrow> fs_rep (W k) (case map_of d k of None \<Rightarrow> fs_empty | Some fs \<Rightarrow> fs) (F k)"
  "facts_rep W d F K \<Longrightarrow> map_of d k = None \<longleftrightarrow> k \<notin> K"
  "facts_rep W d F K \<Longrightarrow> k \<notin> K \<Longrightarrow> F k = {}"
  by (auto simp: facts_rep_def fs_rep_empty dest!: spec [of _ k] split: option.splits)

lemma facts_rep_update:
  "facts_rep W d F K \<Longrightarrow> fs_rep (W k) fs X \<Longrightarrow> facts_rep W (AList.update k fs d) (F(k := X)) (insert k K)"
  by (auto simp: facts_rep_def cong: option.case_cong)

lemma facts_rep_delete: "facts_rep W d F K \<Longrightarrow> facts_rep W (AList.delete k d) (F(k := {})) (K - {k})"
  by (auto simp: facts_rep_def cong: option.case_cong)

lemma rules_rep_update:
  "rules_rep d L K \<Longrightarrow> oset_ok rule_key s \<Longrightarrow> rules_rep (AList.update k s d) (L(k := oset_list s)) (insert k K)"
  by (auto simp: rules_rep_def cong: option.case_cong)

lemma rules_rep_delete: "rules_rep d L K \<Longrightarrow> rules_rep (AList.delete k d) (L(k := [])) (K - {k})"
  by (auto simp: rules_rep_def cong: option.case_cong)

lemma fs_len_rep: "fs_rep n fs F \<Longrightarrow> fs_len fs = 0 \<longleftrightarrow> F = {}"
  by (auto simp: fs_rep_def fs_len_def os.len_list)

text \<open>What an element of a store is: a fact, or a rule with a body.\<close>

definition stored_fact :: "string \<Rightarrow> formula \<Rightarrow> fact option" where
  "stored_fact key f = (case f of
     FFact f \<Rightarrow> Some f
   | FLit l \<Rightarrow> Some (fact_of_args key (arguments l))
   | FRule r \<Rightarrow> if body r = [] then Some (fact_of_args key (arguments (rule_head r))) else None)"

datatype rs_op = RAdd string formula | RDiscard string formula | RContains string formula | RHas string
  | RGet string "literal option" | RKeys | RClear | RClearTable string

datatype rs_out = RBool bool | RRules "rule set" | RNames "string set" | RDone | RRaise exc

definition bool_out :: "bool res \<Rightarrow> rs_out" where
  "bool_out r = (case r of Inl e \<Rightarrow> RRaise e | Inr b \<Rightarrow> RBool b)"

fun rs_run :: "rs_op \<Rightarrow> rule_store \<Rightarrow> rs_out \<times> rule_store" where
  "rs_run (RAdd k f) rs = (let (r, rs) = rs_add_rule k f rs in (bool_out r, rs))"
| "rs_run (RDiscard k f) rs = (let (r, rs) = rs_discard_rule k f rs in (bool_out r, rs))"
| "rs_run (RContains k f) rs = (RBool (rs_contains k f rs), rs)"
| "rs_run (RHas k) rs = (RBool (rs_has_key k rs), rs)"
| "rs_run (RGet k l) rs = (let (r, rs) = rs_get_rules k l rs in (case r of Inl e \<Rightarrow> RRaise e | Inr xs \<Rightarrow> RRules (set xs), rs))"
| "rs_run RKeys rs = (RNames (set (rs_keys rs)), rs)"
| "rs_run RClear rs = (RDone, rs_clear rs)"
| "rs_run (RClearTable k) rs = (RDone, rs_clear_table k rs)"

text \<open>\<open>get_rules\<close> with a literal leaves out facts that differ from it at a constant.\<close>

definition fact_wanted :: "literal option \<Rightarrow> fact \<Rightarrow> bool" where
  "fact_wanted l f = (case l of None \<Rightarrow> True
     | Some l \<Rightarrow> negated l \<or> agrees (bound_arguments l) f)"

definition sp_set_facts :: "string \<Rightarrow> fact set \<Rightarrow> bool \<Rightarrow> spec_store \<Rightarrow> spec_store" where
  "sp_set_facts k F keep sp =
     sp\<lparr>sp_facts := (sp_facts sp)(k := F), sp_fkeys := if keep then insert k (sp_fkeys sp) else sp_fkeys sp - {k}\<rparr>"

definition sp_set_rules :: "string \<Rightarrow> rule list \<Rightarrow> bool \<Rightarrow> spec_store \<Rightarrow> spec_store" where
  "sp_set_rules k L keep sp =
     sp\<lparr>sp_rules := (sp_rules sp)(k := L), sp_rkeys := if keep then insert k (sp_rkeys sp) else sp_rkeys sp - {k}\<rparr>"

fun rs_spec :: "rs_op \<Rightarrow> spec_store \<Rightarrow> rs_out \<times> spec_store" where
  "rs_spec (RAdd k f) sp =
     (case (stored_fact k f, f) of
        (Some x, _) \<Rightarrow> (RBool (x \<notin> sp_facts sp k), sp_set_facts k (insert x (sp_facts sp k)) True sp)
      | (None, FRule r) \<Rightarrow>
          if rule_key r \<in> rule_key ` set (sp_rules sp k) then (RBool False, sp)
          else (RBool True, sp_set_rules k (sp_rules sp k @ [r]) True sp)
      | _ \<Rightarrow> (RRaise AttributeError, sp))"
| "rs_spec (RDiscard k f) sp =
     (case (stored_fact k f, f) of
        (Some x, _) \<Rightarrow>
          (let F = sp_facts sp k - {x} in (RBool (x \<in> sp_facts sp k), sp_set_facts k F (F \<noteq> {}) sp))
      | (None, FRule r) \<Rightarrow>
          (let L = filter (\<lambda>s. rule_key s \<noteq> rule_key r) (sp_rules sp k)
           in (RBool (rule_key r \<in> rule_key ` set (sp_rules sp k)), sp_set_rules k L (L \<noteq> []) sp))
      | _ \<Rightarrow> (RRaise AttributeError, sp))"
| "rs_spec (RContains k f) sp =
     (RBool (case (stored_fact k f, f) of
        (Some x, _) \<Rightarrow> x \<in> sp_facts sp k
      | (None, FRule r) \<Rightarrow> rule_key r \<in> rule_key ` set (sp_rules sp k)
      | _ \<Rightarrow> False), sp)"
| "rs_spec (RHas k) sp = (RBool (k \<in> sp_fkeys sp \<union> sp_rkeys sp), sp)"
| "rs_spec (RGet k l) sp =
     (RRules (rule_of_fact k ` {f \<in> sp_facts sp k. fact_wanted l f} \<union> set (sp_rules sp k)), sp)"
| "rs_spec RKeys sp = (RNames (sp_fkeys sp \<union> sp_rkeys sp), sp)"
| "rs_spec RClear sp = (RDone, sp_empty)"
| "rs_spec (RClearTable k) sp = (RDone, sp_set_facts k {} True (sp_set_rules k [] True sp))"

text \<open>Facts have the width of their table, and a rule without a body has no negated head.\<close>

fun rs_op_ok :: "(string \<Rightarrow> nat) \<Rightarrow> rs_op \<Rightarrow> bool" where
  "rs_op_ok W (RAdd k f) = (case f of FLit _ \<Rightarrow> False | FFact f \<Rightarrow> length (fvals f) = W k
     | FRule r \<Rightarrow> body r \<noteq> [] \<or> length (arguments (rule_head r)) = W k \<and> \<not> negated (rule_head r))"
| "rs_op_ok W (RDiscard k f) = (case f of FLit _ \<Rightarrow> False | _ \<Rightarrow> True)"
| "rs_op_ok W (RGet k l) = (case l of None \<Rightarrow> True | Some l \<Rightarrow> length (arguments l) = W k)"
| "rs_op_ok W _ = True"

lemma add_fact_sim:
  assumes "store_rep W rs sp" "length (fvals f) = W k"
  shows "fst (rs_add_fact k f rs) = Inr (f \<notin> sp_facts sp k) \<and>
    store_rep W (snd (rs_add_fact k f rs)) (sp_set_facts k (insert f (sp_facts sp k)) True sp)"
proof -
  have F: "facts_rep W (rs_facts rs) (sp_facts sp) (sp_fkeys sp)" using assms(1) by (simp add: store_rep_def)
  obtain fs' where "fs_add f (case map_of (rs_facts rs) k of None \<Rightarrow> fs_empty | Some fs \<Rightarrow> fs) = (Inr (f \<notin> sp_facts sp k), fs')"
    "fs_rep (W k) fs' (insert f (sp_facts sp k))" using fs_add_ok [OF facts_repD(1) [OF F, of k] assms(2)] by blast
  with facts_rep_update [OF F this(2)] assms(1) show ?thesis by (simp add: rs_add_fact_def store_rep_def sp_set_facts_def)
qed

lemma discard_fact_sim:
  assumes "store_rep W rs sp"
  shows "fst (rs_discard_fact k f rs) = Inr (f \<in> sp_facts sp k) \<and>
    store_rep W (snd (rs_discard_fact k f rs)) (sp_set_facts k (sp_facts sp k - {f}) (sp_facts sp k - {f} \<noteq> {}) sp)"
proof -
  have F: "facts_rep W (rs_facts rs) (sp_facts sp) (sp_fkeys sp)" using assms(1) by (simp add: store_rep_def)
  show ?thesis
  proof (cases "map_of (rs_facts rs) k")
    case None
    then have e: "sp_facts sp k = {}" "k \<notin> sp_fkeys sp" using facts_repD(2,3) [OF F] by simp_all
    then have "sp_set_facts k (sp_facts sp k - {f}) (sp_facts sp k - {f} \<noteq> {}) sp = sp"
      by (simp add: sp_set_facts_def fun_upd_idem)
    with None assms e show ?thesis by (simp add: rs_discard_fact_def)
  next
    case (Some fs)
    then have fs: "fs_rep (W k) fs (sp_facts sp k)" "k \<in> sp_fkeys sp" using facts_repD(1,2) [OF F, of k] by auto
    obtain fs' where fs': "fs_remove f fs = (Inr (f \<in> sp_facts sp k), fs')" "fs_rep (W k) fs' (sp_facts sp k - {f})"
      using fs_remove_ok [OF fs(1)] by blast
    show ?thesis
    proof (cases "sp_facts sp k - {f} = {}")
      case True
      with fs' facts_rep_delete [OF F, of k] fs_len_rep [OF fs'(2)] Some assms show ?thesis
        by (simp only: rs_discard_fact_def store_rep_def sp_set_facts_def) simp
    next
      case False
      with fs' facts_rep_update [OF F fs'(2)] fs_len_rep [OF fs'(2)] Some assms show ?thesis
        by (simp add: rs_discard_fact_def store_rep_def sp_set_facts_def)
    qed
  qed
qed

lemma contains_fact_sim: "store_rep W rs sp \<Longrightarrow> rs_contains_fact k f rs \<longleftrightarrow> f \<in> sp_facts sp k"
  by (auto simp: store_rep_def facts_rep_def rs_contains_fact_def fs_contains_def fs_rep_def os.contains_iff
      dest!: spec [of _ k] split: option.splits)

lemma rules_lookup:
  assumes "rules_rep d L K"
  shows "map_of d k = None \<Longrightarrow> L k = [] \<and> k \<notin> K" "map_of d k = Some s \<Longrightarrow> oset_ok rule_key s \<and> oset_list s = L k \<and> k \<in> K"
  using assms by (auto simp: rules_rep_def dest!: spec [of _ k])

lemma add_rule_sim:
  assumes "store_rep W rs sp" "body r \<noteq> []"
  shows "fst (rs_run (RAdd k (FRule r)) rs) = fst (rs_spec (RAdd k (FRule r)) sp) \<and>
    store_rep W (snd (rs_run (RAdd k (FRule r)) rs)) (snd (rs_spec (RAdd k (FRule r)) sp))"
proof -
  have L: "rules_rep (rs_rules rs) (sp_rules sp) (sp_rkeys sp)" using assms(1) by (simp add: store_rep_def)
  show ?thesis
  proof (cases "map_of (rs_rules rs) k")
    case None
    with rules_lookup(1) [OF L] have "sp_rules sp k = []" by simp
    with None rules_rep_update [OF L oset_of_ok, of k "[r]"] oset_of_list [of rule_key "[r]"] assms show ?thesis
      by (simp add: stored_fact_def bool_out_def store_rep_def sp_set_rules_def)
  next
    case (Some s)
    then have s: "oset_ok rule_key s" "oset_list s = sp_rules sp k" "k \<in> sp_rkeys sp"
      using rules_lookup(2) [OF L] by auto
    have c: "oset_contains rule_key r s \<longleftrightarrow> rule_key r \<in> rule_key ` set (sp_rules sp k)"
      using os.contains_iff [OF s(1)] s(2) by simp
    note add = os.add_changed [OF s(1), of r] os.list_add [OF s(1), of r] os.invar_add [OF s(1), of r]
    show ?thesis
    proof (cases "oset_contains rule_key r s")
      case True
      with add(2) s(2) rules_rep_update [OF L add(3), of k]
      have "rules_rep (AList.update k (snd (oset_add rule_key r s)) (rs_rules rs)) (sp_rules sp) (sp_rkeys sp)"
        using s(3) by (simp add: fun_upd_idem insert_absorb)
      with True c add(1) Some assms show ?thesis by (simp add: stored_fact_def bool_out_def store_rep_def split_beta)
    next
      case False
      with rules_rep_update [OF L add(3), of k] add(2) s(2) c add(1) Some assms show ?thesis
        by (simp add: stored_fact_def bool_out_def store_rep_def split_beta sp_set_rules_def)
    qed
  qed
qed

lemma discard_rule_sim:
  assumes "store_rep W rs sp" "body r \<noteq> []"
  shows "fst (rs_run (RDiscard k (FRule r)) rs) = fst (rs_spec (RDiscard k (FRule r)) sp) \<and>
    store_rep W (snd (rs_run (RDiscard k (FRule r)) rs)) (snd (rs_spec (RDiscard k (FRule r)) sp))"
proof -
  have L: "rules_rep (rs_rules rs) (sp_rules sp) (sp_rkeys sp)" using assms(1) by (simp add: store_rep_def)
  show ?thesis
  proof (cases "map_of (rs_rules rs) k")
    case None
    with rules_lookup(1) [OF L] have e: "sp_rules sp k = []" "k \<notin> sp_rkeys sp" by simp_all
    then have "sp_set_rules k [] False sp = sp" by (simp add: fun_upd_idem sp_set_rules_def)
    with None e assms show ?thesis by (simp add: stored_fact_def bool_out_def store_rep_def Let_def)
  next
    case (Some s)
    then have s: "oset_ok rule_key s" "oset_list s = sp_rules sp k" using rules_lookup(2) [OF L] by auto
    have c: "oset_contains rule_key r s \<longleftrightarrow> rule_key r \<in> rule_key ` set (sp_rules sp k)"
      using os.contains_iff [OF s(1)] s(2) by simp
    note d = os.discard_changed [OF s(1), of r] os.list_discard [OF s(1), of r] os.invar_discard [OF s(1), of r]
    have len: "oset_len (snd (oset_discard rule_key r s)) = 0 \<longleftrightarrow> filter (\<lambda>y. rule_key y \<noteq> rule_key r) (sp_rules sp k) = []"
      using os.len_list [OF d(3)] d(2) s(2) by simp
    show ?thesis
      using rules_rep_update [OF L d(3), of k] rules_rep_delete [OF L, of k] d(1,2) s(2) c Some assms len
      by (simp add: stored_fact_def bool_out_def store_rep_def split_beta Let_def sp_set_rules_def)
  qed
qed

lemma sorted_bound: "sorted (map fst (bound_arguments l))"
proof -
  have "map fst (bound_arguments l) = map fst (filter (\<lambda>(i, t). \<not> is_variable t) (enumerate 0 (arguments l)))"
    by (simp add: bound_arguments_def comp_def split_def)
  moreover have "sorted (map fst (filter P (enumerate 0 (arguments l))))" for P
    by (rule sorted_filter) simp
  ultimately show ?thesis by simp
qed

lemma bound_less: "(i, v) \<in> set (bound_arguments l) \<Longrightarrow> i < length (arguments l)"
  by (auto simp: bound_arguments_def in_set_enumerate_eq)

text \<open>A lookup creates an index at most; the facts stay as they are.\<close>

lemma get_rules_ok:
  assumes rep: "store_rep W rs sp" and ok: "rs_op_ok W (RGet k ml)"
  shows "\<exists>ms rs'. rs_get_rules k ml rs = (Inr (map (rule_of_fact k) ms @ sp_rules sp k), rs') \<and>
    set ms = {f \<in> sp_facts sp k. fact_wanted ml f} \<and> store_rep W rs' sp"
proof -
  have F: "facts_rep W (rs_facts rs) (sp_facts sp) (sp_fkeys sp)" and L: "rules_rep (rs_rules rs) (sp_rules sp) (sp_rkeys sp)"
    using rep by (simp_all add: store_rep_def)
  have rules: "(case map_of (rs_rules rs) k of None \<Rightarrow> [] | Some s \<Rightarrow> oset_list s) = sp_rules sp k"
    using rules_lookup [OF L, of k] by (cases "map_of (rs_rules rs) k") auto
  show ?thesis
  proof (cases "map_of (rs_facts rs) k")
    case None
    then have "sp_facts sp k = {}" using facts_repD(2,3) [OF F] by simp
    moreover have "rs_get_rules k ml rs = (Inr (map (rule_of_fact k) [] @ sp_rules sp k), rs)"
      using None rules by (cases ml) (simp_all add: rs_get_rules_def)
    ultimately show ?thesis using rep by fastforce
  next
    case (Some fs)
    then have fs: "fs_rep (W k) fs (sp_facts sp k)" and ne: "k \<in> sp_fkeys sp"
      using facts_repD [OF F, of k] by auto
    have all: "set (fs_list fs) = sp_facts sp k" using fs by (simp add: fs_rep_def)
    show ?thesis
    proof (cases "\<exists>l. ml = Some l \<and> \<not> negated l")
      case False
      then have "set (fs_list fs) = {f \<in> sp_facts sp k. fact_wanted ml f}"
        using all by (auto simp: fact_wanted_def split: option.splits)
      moreover have "rs_get_rules k ml rs = (Inr (map (rule_of_fact k) (fs_list fs) @ sp_rules sp k), rs)"
        using False Some rules by (cases ml) (auto simp: rs_get_rules_def)
      ultimately show ?thesis using rep by blast
    next
      case True
      then obtain l where l: "ml = Some l" "\<not> negated l" by blast
      let ?p = "bound_arguments l"
      have w: "list_all (\<lambda>(i, v). i < W k) ?p" using ok l bound_less by (fastforce simp: list_all_iff)
      have c: "?p \<noteq> [] \<Longrightarrow> cols_ok (W k) (map fst ?p)"
        using w sorted_bound by (auto simp: cols_ok_def list_all_iff split_beta)
      obtain fs' where fs': "(if ?p \<noteq> [] \<and> \<not> fs_has_index (map fst ?p) fs then fs_create_index (map fst ?p) fs else (None, fs)) = (None, fs')"
        "fs_rep (W k) fs' (sp_facts sp k)"
        using fs_create_index_ok [OF fs c] fs by (cases "?p \<noteq> [] \<and> \<not> fs_has_index (map fst ?p) fs") auto
      obtain n ms where ms: "fs_find ?p fs' = Inr (n, ms)" "set ms = {f \<in> sp_facts sp k. agrees ?p f}"
        using fs_find_ok [OF fs'(2) w] by blast
      have eq: "rs_get_rules k ml rs = (Inr (map (rule_of_fact k) ms @ sp_rules sp k), rs\<lparr>rs_facts := AList.update k fs' (rs_facts rs)\<rparr>)"
        using l Some rules fs'(1) ms(1) by (simp add: rs_get_rules_def Let_def)
      have "(sp_facts sp)(k := sp_facts sp k) = sp_facts sp" "insert k (sp_fkeys sp) = sp_fkeys sp"
        using ne by (simp_all add: insert_absorb)
      then have "store_rep W (rs\<lparr>rs_facts := AList.update k fs' (rs_facts rs)\<rparr>) sp"
        using facts_rep_update [OF F fs'(2)] rep by (simp add: store_rep_def)
      moreover have "set ms = {f \<in> sp_facts sp k. fact_wanted ml f}" using ms(2) l by (simp add: fact_wanted_def)
      ultimately show ?thesis using eq by blast
    qed
  qed
qed

lemma get_rules_sim:
  assumes "store_rep W rs sp" "rs_op_ok W (RGet k ml)"
  shows "fst (rs_run (RGet k ml) rs) = fst (rs_spec (RGet k ml) sp) \<and>
    store_rep W (snd (rs_run (RGet k ml) rs)) (snd (rs_spec (RGet k ml) sp))"
proof -
  obtain ms rs' where "rs_get_rules k ml rs = (Inr (map (rule_of_fact k) ms @ sp_rules sp k), rs')"
    "set ms = {f \<in> sp_facts sp k. fact_wanted ml f}" "store_rep W rs' sp" using get_rules_ok [OF assms] by blast
  then show ?thesis by simp
qed

lemma clear_table_sim:
  assumes "store_rep W rs sp"
  shows "store_rep W (rs_clear_table k rs) (sp_set_facts k {} True (sp_set_rules k [] True sp))"
proof -
  have F: "facts_rep W (rs_facts rs) (sp_facts sp) (sp_fkeys sp)" and L: "rules_rep (rs_rules rs) (sp_rules sp) (sp_rkeys sp)"
    using assms by (simp_all add: store_rep_def)
  have "oset_ok rule_key oset_empty" "oset_list (oset_empty :: (literal list \<times> literal list, rule) oset) = []"
    by (simp_all add: os.invar_empty os.list_empty)
  with rules_rep_update [OF L this(1), of k] facts_rep_update [OF F fs_rep_empty, of k] show ?thesis
    by (simp add: store_rep_def rs_clear_table_def sp_set_facts_def sp_set_rules_def)
qed

lemma keys_sim:
  assumes "store_rep W rs sp" shows "set (rs_keys rs) = sp_fkeys sp \<union> sp_rkeys sp"
proof -
  have F: "facts_rep W (rs_facts rs) (sp_facts sp) (sp_fkeys sp)" and L: "rules_rep (rs_rules rs) (sp_rules sp) (sp_rkeys sp)"
    using assms by (simp_all add: store_rep_def)
  have "k \<in> set (dkeys (rs_facts rs)) \<longleftrightarrow> k \<in> sp_fkeys sp" for k
    using facts_repD(2) [OF F, of k] by (auto simp: map_of_None_keys)
  moreover have "k \<in> set (dkeys (rs_rules rs)) \<longleftrightarrow> k \<in> sp_rkeys sp" for k
    using rules_lookup [OF L, of k] by (cases "map_of (rs_rules rs) k") (auto simp: map_of_None_keys dest: map_of_Some_keys)
  ultimately show ?thesis by (auto simp: rs_keys_def)
qed

lemma rs_run_sim:
  assumes ok: "rs_op_ok W p" and rep: "store_rep W rs sp"
  shows "fst (rs_run p rs) = fst (rs_spec p sp) \<and> store_rep W (snd (rs_run p rs)) (snd (rs_spec p sp))"
proof (cases p)
  case (RAdd k f)
  show ?thesis
  proof (cases f)
    case (FFact x)
    with add_fact_sim [OF rep, of x k] ok RAdd show ?thesis by (simp add: stored_fact_def bool_out_def split_beta)
  next
    case (FRule r)
    show ?thesis
    proof (cases "body r = []")
      case True
      then have "length (fvals (fact_of_args k (arguments (rule_head r)))) = W k" "\<not> negated (rule_head r)"
        using ok RAdd FRule by (auto simp: fact_of_args_def)
      with add_fact_sim [OF rep this(1)] True RAdd FRule show ?thesis by (simp add: stored_fact_def bool_out_def split_beta)
    qed (use add_rule_sim [OF rep] RAdd FRule in simp)
  qed (use ok RAdd in simp)
next
  case (RDiscard k f)
  show ?thesis
  proof (cases f)
    case (FFact x)
    with discard_fact_sim [OF rep, of k x] RDiscard show ?thesis by (simp add: stored_fact_def bool_out_def split_beta)
  next
    case (FRule r)
    show ?thesis
    proof (cases "body r = []")
      case True
      with discard_fact_sim [OF rep, of k "fact_of_args k (arguments (rule_head r))"] RDiscard FRule show ?thesis
        by (simp add: stored_fact_def bool_out_def split_beta)
    qed (use discard_rule_sim [OF rep] RDiscard FRule in simp)
  qed (use ok RDiscard in simp)
next
  case (RContains k f)
  have L: "rules_rep (rs_rules rs) (sp_rules sp) (sp_rkeys sp)" using rep by (simp add: store_rep_def)
  have "rs_contains k (FRule r) rs \<longleftrightarrow> rule_key r \<in> rule_key ` set (sp_rules sp k)" if "body r \<noteq> []" for r
    using that rules_lookup [OF L, of k] by (cases "map_of (rs_rules rs) k") (auto simp: os.contains_iff)
  with RContains rep show ?thesis by (cases f) (auto simp: stored_fact_def contains_fact_sim)
next
  case (RHas k)
  have "rs_has_key k rs \<longleftrightarrow> k \<in> set (rs_keys rs)" by (simp add: rs_has_key_def rs_keys_def)
  with RHas rep keys_sim [OF rep] show ?thesis by simp
next
  case RKeys
  with rep keys_sim [OF rep] show ?thesis by simp
next
  case RClear
  with store_rep_empty show ?thesis by (simp add: rs_clear_def)
next
  case (RClearTable k)
  with clear_table_sim [OF rep] show ?thesis by simp
next
  case (RGet k l)
  with get_rules_sim [OF rep] ok show ?thesis by simp
qed

text \<open>
  C24. The rule store is equivalent to one set of facts and one list of rules per table: for every
  history of additions, deletions, membership tests and lookups (with or without a literal to
  match, which creates indexes) of facts of their table's width and of rules, no operation raises
  and each answers as the plain store does; a lookup with a literal returns the rules and exactly
  the facts that agree with its constants.
\<close>

theorem rule_store_refines:
  assumes "list_all (rs_op_ok W) ops"
  shows "fst (run_ops rs_run ops rs_empty) = fst (run_ops rs_spec ops sp_empty)"
proof -
  have "fst (rs_run p s) = fst (rs_spec p t) \<and> store_rep W (snd (rs_run p s)) (snd (rs_spec p t))"
    if "p \<in> set ops" "store_rep W s t" for p s t
    using rs_run_sim [OF _ that(2)] that(1) assms by (simp add: list_all_iff)
  from run_ops_sim_on [of ops "store_rep W", OF this store_rep_empty] show ?thesis by simp
qed

theorem rule_store_refines_witness:
  "fst (run_ops rs_run [RAdd ''p'' (FRule rule_example), RAdd ''q'' (FFact \<lparr>ftable = ''q'', fvals = [VInt 1]\<rparr>),
      RGet ''q'' (Some (lit ''q'' [ObjectConstant (VInt 2)])), RDiscard ''p'' (FRule rule_example), RHas ''p''] rs_empty) =
   [RBool True, RBool True, RRules {}, RBool True, RBool False]"
  (is "fst (run_ops rs_run ?ops rs_empty) = _")
proof -
  have ok: "list_all (rs_op_ok (\<lambda>_. 1)) ?ops" by code_simp
  have b: "body rule_example \<noteq> []" by code_simp
  have "bound_arguments (lit ''q'' [ObjectConstant (VInt 2)]) = [(0, VInt 2)]" by code_simp
  then have "\<not> fact_wanted (Some (lit ''q'' [ObjectConstant (VInt 2)])) \<lparr>ftable = ''q'', fvals = [VInt 1]\<rparr>"
    by (simp add: fact_wanted_def agrees_def lit_def)
  with b show ?thesis unfolding rule_store_refines [OF ok]
    by (auto simp: stored_fact_def sp_set_facts_def sp_set_rules_def sp_empty_def)
qed

text \<open>
  A rule with a negated head and no body is stored among the rules, but \<open>discard_rule\<close> and
  \<open>contains\<close> look for it among the facts: it is not found and cannot be removed.
\<close>

theorem negated_fact_stuck:
  "let r = \<lparr>heads = [lit_complement (lit ''p'' [])], body = []\<rparr> in
   fst (run_ops rs_run [RAdd ''p'' (FRule r), RContains ''p'' (FRule r), RDiscard ''p'' (FRule r), RHas ''p''] rs_empty) =
     [RBool True, RBool False, RBool False, RBool True]"
  by (simp add: rs_empty_def lit_complement_def lit_def bool_out_def rs_contains_fact_def rs_discard_fact_def rs_has_key_def)

end
