(* ===== verification/Policy.thy ===== *)
theory Policy
  imports Rule_Set Safety
begin

text \<open>
  The policies that hold rules: \<open>nonrecursive.py\<close> (\<open>RuleHandlingMixin\<close>,
  \<open>NonrecursiveRuleTheory\<close>, \<open>ActionTheory\<close>) and the parts of \<open>base.Theory\<close> they use. A policy
  keeps a rule store and a schema, and updates the schemas of the other policies its rules
  mention, so the operations act on the dictionary of all policies (\<open>self.theories\<close>), where a
  policy stands under its name.

  What \<open>update\<close> does to the stores and the learned schemas is proved in \<open>Policy_Update\<close>.
\<close>

declare map_of_eq_Some_iff [simp del] Some_eq_map_of_iff [simp del]

section \<open>Statements that may raise and change a state\<close>

type_synonym ('s, 'a) stm = "'s \<Rightarrow> 'a res \<times> 's"

definition sret :: "'a \<Rightarrow> ('s, 'a) stm" where
  "sret x s = (Inr x, s)"

definition sraise :: "exc \<Rightarrow> ('s, 'a) stm" where
  "sraise e s = (Inl e, s)"

definition sbind :: "('s, 'a) stm \<Rightarrow> ('a \<Rightarrow> ('s, 'b) stm) \<Rightarrow> ('s, 'b) stm" where
  "sbind m f s = (case m s of (Inl e, s) \<Rightarrow> (Inl e, s) | (Inr x, s) \<Rightarrow> f x s)"

primrec for_st :: "('a \<Rightarrow> 'b \<Rightarrow> ('s, 'b) stm) \<Rightarrow> 'a list \<Rightarrow> 'b \<Rightarrow> ('s, 'b) stm" where
  "for_st f [] b = sret b"
| "for_st f (x # xs) b = sbind (f x b) (for_st f xs)"

lemma sbind_Inr: "m s = (Inr x, s') \<Longrightarrow> sbind m f s = f x s'"
  by (simp add: sbind_def)

lemma sbind_Inl: "m s = (Inl e, s') \<Longrightarrow> sbind m f s = (Inl e, s')"
  by (simp add: sbind_def)

section \<open>Policies\<close>

record policy =
  prules :: rule_store
  pschema :: "schema option"
  plinked :: bool
  pincludes :: "string list"
  pkind :: string
  pdirty :: bool

type_synonym world = "(string, policy) dict"

definition new_policy :: "schema option \<Rightarrow> bool \<Rightarrow> string \<Rightarrow> policy" where
  "new_policy sch has_theories kind =
     \<lparr>prules = rs_empty, pschema = Some (case sch of None \<Rightarrow> schema_new False | Some s \<Rightarrow> s), plinked = has_theories,
      pincludes = [], pkind = kind, pdirty = False\<rparr>"

definition NONRECURSIVE_POLICY_TYPE :: string where
  "NONRECURSIVE_POLICY_TYPE = ''nonrecursive''"

definition ACTION_POLICY_TYPE :: string where
  "ACTION_POLICY_TYPE = ''action''"

definition nonrecursive_theory :: "schema option \<Rightarrow> bool \<Rightarrow> policy" where
  "nonrecursive_theory sch ths = new_policy sch ths NONRECURSIVE_POLICY_TYPE"

definition action_theory :: "schema option \<Rightarrow> bool \<Rightarrow> policy" where
  "action_theory sch ths = (nonrecursive_theory sch ths)\<lparr>pkind := ACTION_POLICY_TYPE\<rparr>"

definition datasource_theory :: "schema option \<Rightarrow> bool \<Rightarrow> policy" where
  "datasource_theory sch ths = (nonrecursive_theory sch ths)\<lparr>pkind := DATASOURCE_POLICY_TYPE\<rparr>"

text \<open>The object itself is always there.\<close>

definition policy_at :: "world \<Rightarrow> string \<Rightarrow> policy" where
  "policy_at w n = (case map_of w n of Some p \<Rightarrow> p | None \<Rightarrow> new_policy None False [])"

definition set_policy :: "string \<Rightarrow> policy \<Rightarrow> world \<Rightarrow> world" where
  "set_policy n p w = AList.update n p w"

definition on_rules :: "string \<Rightarrow> (rule_store, 'a) stm \<Rightarrow> (world, 'a) stm" where
  "on_rules n f w =
     (let p = policy_at w n; (r, rs) = f (prules p) in (r, set_policy n (p\<lparr>prules := rs\<rparr>) w))"

definition set_schema :: "string \<Rightarrow> schema \<Rightarrow> world \<Rightarrow> world" where
  "set_schema n s w = set_policy n ((policy_at w n)\<lparr>pschema := Some s\<rparr>) w"

text \<open>What the checks of formulas see of the policies.\<close>

definition theories_of :: "string \<Rightarrow> world \<Rightarrow> theories" where
  "theories_of n w =
     (if plinked (policy_at w n)
      then Some (map (\<lambda>(m, p). (m, \<lparr>pi_schema = pschema p, pi_kind = pkind p, pi_name = m\<rparr>)) w) else None)"

section \<open>Schemas of the tables a formula mentions\<close>

definition update_lit_schema :: "string \<Rightarrow> formula \<Rightarrow> bool \<Rightarrow> (world, schema_change option) stm" where
  "update_lit_schema n item ins w =
     (case pschema (policy_at w n) of
        None \<Rightarrow> (Inl PolicyException, w)
      | Some s \<Rightarrow>
          if complete s then (Inr None, w)
          else (case schema_update item ins s of
             Inl e \<Rightarrow> (Inl e, w)
           | Inr (ch, s) \<Rightarrow> (Inr ch, set_schema n s w)))"

definition body_lit_schema ::
    "'c registry \<Rightarrow> string \<Rightarrow> bool \<Rightarrow> literal \<Rightarrow> schema_change option list \<Rightarrow> (world, schema_change option list) stm" where
  "body_lit_schema R n ins l chs w =
     (if lit_is_builtin R l then (Inr chs, w)
      else (let m = the (or_else (service (table l)) (Some n)) in
        if map_of w m = None then (Inr chs, w)
        else sbind (update_lit_schema m (FLit l) ins) (\<lambda>ch. sret (chs @ [ch])) w))"

definition update_rule_schema ::
    "'c registry \<Rightarrow> string \<Rightarrow> formula \<Rightarrow> bool \<Rightarrow> (world, schema_change option list) stm" where
  "update_rule_schema R n f ins w =
     (case pschema (policy_at w n) of
        None \<Rightarrow> (Inr [], w)
      | Some s \<Rightarrow>
          if \<not> plinked (policy_at w n) \<or> complete s then (Inr [], w)
          else (case f of
             FRule r \<Rightarrow> sbind (update_lit_schema n (FLit (rule_head r)) ins)
                 (\<lambda>ch. for_st (body_lit_schema R n ins) (body r) [ch]) w
           | _ \<Rightarrow> sbind (update_lit_schema n f ins) (\<lambda>ch. sret [ch]) w))"

definition revert_on :: "string \<Rightarrow> schema_change \<Rightarrow> (world, unit) stm" where
  "revert_on m ch w =
     (case pschema (policy_at w m) of
        None \<Rightarrow> (Inl AttributeError, w)
      | Some s \<Rightarrow>
          (case schema_revert (Some ch) s of Inl e \<Rightarrow> (Inl e, w) | Inr s \<Rightarrow> (Inr (), set_schema m s w)))"

definition revert_schema :: "string \<Rightarrow> schema_change option list \<Rightarrow> (world, unit) stm" where
  "revert_schema n chs w =
     (if \<not> plinked (policy_at w n) then (Inr (), w)
      else for_st (\<lambda>change _ w.
        case change of
          None \<Rightarrow> (Inr (), w)
        | Some ch \<Rightarrow>
            if truthy (sc_theory ch) then
              (let m = the (sc_theory ch) in if map_of w m = None then (Inl KeyError, w) else revert_on m ch w)
            else revert_on n ch w) chs () w)"

section \<open>Updates\<close>

fun reorder_formula :: "'c registry \<Rightarrow> formula \<Rightarrow> formula res" where
  "reorder_formula R (FRule r) = rbind (reorder_for_safety R r) (\<lambda>r. Inr (FRule r))"
| "reorder_formula R f = Inr f"

text \<open>An atom is stored as a rule without a body; other formulas than rules have no head.\<close>

fun as_rule :: "formula \<Rightarrow> rule res" where
  "as_rule (FLit l) = (if negated l then Inl AttributeError else Inr \<lparr>heads = [l], body = []\<rparr>)"
| "as_rule (FRule r) = Inr r"
| "as_rule (FFact f) = Inl AttributeError"

definition set_dirty :: "string \<Rightarrow> (world, unit) stm" where
  "set_dirty n w = (Inr (), set_policy n ((policy_at w n)\<lparr>pdirty := True\<rparr>) w)"

definition insert_actual :: "string \<Rightarrow> formula \<Rightarrow> (world, bool) stm" where
  "insert_actual n f =
     sbind (set_dirty n) (\<lambda>_. case as_rule f of
        Inl e \<Rightarrow> sraise e
      | Inr r \<Rightarrow> on_rules n (rs_add_rule (tbl (table (rule_head r))) (FRule r)))"

definition delete_actual :: "string \<Rightarrow> formula \<Rightarrow> (world, bool) stm" where
  "delete_actual n f =
     sbind (set_dirty n) (\<lambda>_. case as_rule f of
        Inl e \<Rightarrow> sraise e
      | Inr r \<Rightarrow> on_rules n (rs_discard_rule (tbl (table (rule_head r))) (FRule r)))"

definition update_event :: "'c registry \<Rightarrow> string \<Rightarrow> event \<Rightarrow> event list \<Rightarrow> (world, event list) stm" where
  "update_event R n e changes =
     sbind (update_rule_schema R n (formula e) (is_insert e)) (\<lambda>schema_changes.
     sbind (\<lambda>w. (reorder_formula R (formula e), w)) (\<lambda>f.
     sbind (if is_insert e then insert_actual n f else delete_actual n f) (\<lambda>changed.
       if changed then sret (changes @ [e])
       else sbind (revert_schema n schema_changes) (\<lambda>_. sret changes))))"

definition update_policy :: "'c registry \<Rightarrow> string \<Rightarrow> event list \<Rightarrow> (world, event list) stm" where
  "update_policy R n events = for_st (update_event R n) events []"

definition event_of :: "bool \<Rightarrow> formula \<Rightarrow> event" where
  "event_of ins f = \<lparr>formula = f, is_insert = ins, target = None\<rparr>"

definition insert_formula :: "'c registry \<Rightarrow> string \<Rightarrow> formula \<Rightarrow> (world, formula list) stm" where
  "insert_formula R n f = sbind (update_policy R n [event_of True f]) (\<lambda>chs. sret (map formula chs))"

definition delete_formula :: "'c registry \<Rightarrow> string \<Rightarrow> formula \<Rightarrow> (world, formula list) stm" where
  "delete_formula R n f = sbind (update_policy R n [event_of False f]) (\<lambda>chs. sret (map formula chs))"

text \<open>\<open>if self.schema\<close>: a schema without tables has length 0 and counts as false.\<close>

definition schema_true :: "policy \<Rightarrow> bool" where
  "schema_true p = (case pschema p of None \<Rightarrow> False | Some s \<Rightarrow> schema_len s \<noteq> 0)"

definition learn_fact :: "string \<Rightarrow> fact \<Rightarrow> (world, unit) stm" where
  "learn_fact n f w =
     (if schema_true (policy_at w n) then
        (case pschema (policy_at w n) of
           None \<Rightarrow> (Inr (), w)
         | Some s \<Rightarrow> (case schema_update (FFact f) True s of
              Inl e \<Rightarrow> (Inl e, w)
            | Inr (_, s) \<Rightarrow> (Inr (), set_schema n s w)))
      else (Inr (), w))"

text \<open>The result is the number of facts that were ignored and stored, which the code logs.\<close>

definition initialize_tables :: "string \<Rightarrow> string list \<Rightarrow> fact list \<Rightarrow> (world, nat \<times> nat) stm" where
  "initialize_tables n tablenames facts =
     sbind (for_st (\<lambda>t _. on_rules n (\<lambda>rs. (Inr (), rs_clear_table t rs))) tablenames ()) (\<lambda>_.
       for_st (\<lambda>f (ignored, count).
         if ftable f \<notin> set tablenames then sret (ignored + 1, count)
         else sbind (on_rules n (rs_add_rule (ftable f) (FFact f))) (\<lambda>_.
              sbind (learn_fact n f) (\<lambda>_. sret (ignored, count + 1)))) facts (0, 0))"

definition defined_tablenames :: "string \<Rightarrow> world \<Rightarrow> string list" where
  "defined_tablenames n w = rs_keys (prules (policy_at w n))"

definition empty_policy :: "string \<Rightarrow> string list option \<Rightarrow> bool \<Rightarrow> (world, unit) stm" where
  "empty_policy n tablenames invert w =
     (case tablenames of
        None \<Rightarrow> on_rules n (\<lambda>rs. (Inr (), rs_clear rs)) w
      | Some ts \<Rightarrow>
          (let to_clear = (if invert then filter (\<lambda>t. t \<notin> set ts) (remdups (defined_tablenames n w)) else ts)
           in for_st (\<lambda>t _. on_rules n (\<lambda>rs. (Inr (), rs_clear_table t rs))) to_clear () w))"

definition define_policy :: "'c registry \<Rightarrow> string \<Rightarrow> formula list \<Rightarrow> (world, event list) stm" where
  "define_policy R n fs =
     sbind (empty_policy n None False) (\<lambda>_. update_policy R n (map (event_of True) fs))"
section \<open>Questions about a policy\<close>

definition content :: "string \<Rightarrow> string list option \<Rightarrow> (world, rule list) stm" where
  "content n tablenames w =
     for_st (\<lambda>t results. \<lambda>w.
         if rs_has_key t (prules (policy_at w n))
         then sbind (on_rules n (rs_get_rules t None)) (\<lambda>rs. sret (results @ rs)) w
         else (Inr results, w))
       (case tablenames of None \<Rightarrow> rs_keys (prules (policy_at w n)) | Some ts \<Rightarrow> ts) [] w"

definition policy_statements :: "string \<Rightarrow> (world, rule list) stm" where
  "policy_statements n = sbind (content n None) (\<lambda>rs. sret (filter (\<lambda>r. body r \<noteq> []) rs))"

definition theory_tablenames ::
    "'c registry \<Rightarrow> string \<Rightarrow> bool \<Rightarrow> bool \<Rightarrow> bool \<Rightarrow> bool \<Rightarrow> (world, string list) stm" where
  "theory_tablenames R n body_only include_builtin include_modal include_facts =
     sbind (policy_statements n) (\<lambda>rs w.
       let ts = fold (\<lambda>r ts. set_union ts (rule_tablenames R None body_only include_builtin include_modal r)) rs []
       in (Inr (if include_facts then set_union ts (dkeys (rs_facts (prules (policy_at w n)))) else ts), w))"

fun policy_contains :: "string \<Rightarrow> formula \<Rightarrow> world \<Rightarrow> bool res" where
  "policy_contains n (FLit l) w =
     (if negated l then Inl AttributeError
      else Inr (rs_contains (tbl (table l)) (FLit l) (prules (policy_at w n))))"
| "policy_contains n (FRule r) w = Inr (rs_contains (tbl (table (rule_head r))) (FRule r) (prules (policy_at w n)))"
| "policy_contains n (FFact f) w = Inl AttributeError"

text \<open>\<open>Theory.actual_events\<close>: the events that are not no-ops.\<close>

definition actual_events :: "string \<Rightarrow> event list \<Rightarrow> world \<Rightarrow> event list res" where
  "actual_events n events w =
     for_res (\<lambda>e actual. rbind (policy_contains n (formula e) w)
         (\<lambda>there. Inr (if is_insert e \<noteq> there then actual @ [e] else actual))) events []"

definition update_would_cause_errors :: "'c registry \<Rightarrow> string \<Rightarrow> event list \<Rightarrow> world \<Rightarrow> exc list res" where
  "update_would_cause_errors R n events w =
     for_res (\<lambda>e errors.
         if \<not> is_datalog (formula e) then Inr (errors @ [PolicyException])
         else (case formula e of
             FLit l \<Rightarrow> rbind (fact_errors R (theories_of n w) (Some n) l) (\<lambda>es. Inr (errors @ es))
           | FRule r \<Rightarrow> rbind (rule_errors R (theories_of n w) (Some n) r) (\<lambda>es. Inr (errors @ es))
           | FFact _ \<Rightarrow> Inl AttributeError)) events []"

text \<open>Action theories check less.\<close>

definition action_update_errors :: "'c registry \<Rightarrow> string \<Rightarrow> event list \<Rightarrow> world \<Rightarrow> exc list res" where
  "action_update_errors R n events w =
     for_res (\<lambda>e errors.
         if \<not> is_datalog (formula e) then Inr (errors @ [PolicyException])
         else (case formula e of
             FLit l \<Rightarrow> rbind (fact_errors R (theories_of n w) (Some n) l) (\<lambda>es. Inr (errors @ es))
           | FRule r \<Rightarrow> Inr (errors @ rule_head_has_no_theory (Some lit_is_update) r)
           | FFact _ \<Rightarrow> Inl AttributeError)) events []"

definition head_index :: "string \<Rightarrow> string \<Rightarrow> literal option \<Rightarrow> (world, rule list) stm" where
  "head_index n t match_literal w =
     (if rs_has_key t (prules (policy_at w n)) then on_rules n (rs_get_rules t match_literal) w else (Inr [], w))"

text \<open>
  \<open>arity\<close> of a table, given as a string or as a \<open>Tablename\<close>: what the schema says, or else the
  width of the first rule for the table.
\<close>

definition arity_of :: "string \<Rightarrow> string option \<Rightarrow> string \<Rightarrow> string \<Rightarrow> string option \<Rightarrow> (world, nat option) stm" where
  "arity_of n srv name fullname mdl w =
     (let p = policy_at w n;
          known = (if schema_true p
                   then schema_arity (if srv = None \<or> srv = Some n then name else fullname) (the (pschema p)) else None)
      in case known of
        Some k \<Rightarrow> (Inr (Some k), w)
      | None \<Rightarrow>
          sbind (sbind (head_index n fullname None) (\<lambda>fs. if fs \<noteq> [] then sret fs else head_index n name None))
            (\<lambda>fs. sret (map_option (\<lambda>f. length (arguments (rule_head f)))
               (find (\<lambda>f. tablename_matches srv name mdl (table (rule_head f))) fs))) w)"

definition policy_arity :: "string \<Rightarrow> string + tablename \<Rightarrow> string option \<Rightarrow> (world, nat option) stm" where
  "policy_arity n t mdl =
     (case t of
        Inr x \<Rightarrow> arity_of n (service x) (tbl x) (tablename_name None x) mdl
      | Inl s \<Rightarrow> (case parse_service_table s of (srv, name) \<Rightarrow> arity_of n srv name s mdl))"

text \<open>\<open>MultiModuleNonrecursiveRuleTheory\<close> does not mark itself as changed.\<close>

definition multi_insert_actual :: "string \<Rightarrow> formula \<Rightarrow> (world, bool) stm" where
  "multi_insert_actual n f =
     (case as_rule f of
        Inl e \<Rightarrow> sraise e
      | Inr r \<Rightarrow> on_rules n (rs_add_rule (tbl (table (rule_head r))) (FRule r)))"

definition multi_delete_actual :: "string \<Rightarrow> formula \<Rightarrow> (world, bool) stm" where
  "multi_delete_actual n f =
     (case as_rule f of
        Inl e \<Rightarrow> sraise e
      | Inr r \<Rightarrow> on_rules n (rs_discard_rule (tbl (table (rule_head r))) (FRule r)))"

end
