(* ===== verification/Unify.thy ===== *)
theory Unify
  imports Syntax
begin

text \<open>
  \<open>unify.py\<close>: unification over mutable \<open>BiUnifier\<close> objects. A unifier is named by a number (its
  identity in Python) and a heap holds the bindings of each. A variable is a name together with
  a unifier; it is bound to a term together with the unifier that gives the term's variables a
  meaning (\<open>None\<close> when there is none).

  A valuation gives every variable of every unifier a constant; \<open>models\<close> says that it agrees with
  all bindings of a heap. Unification is proved to add exactly the bindings the two lists
  require, and to fail exactly when no valuation that agrees with the heap makes them equal.
\<close>

declare map_of_eq_Some_iff [simp del] Some_eq_map_of_iff [simp del]

section \<open>Unifiers\<close>

type_synonym uid = nat
type_synonym uval = "trm \<times> uid option"
type_synonym uheap = "(uid, (trm, uval) dict) dict"
type_synonym undo = "trm \<times> uid"

definition contents :: "uid \<Rightarrow> uheap \<Rightarrow> (trm, uval) dict" where
  "contents u h = (case map_of h u of None \<Rightarrow> [] | Some d \<Rightarrow> d)"

text \<open>A new object has an identity that no object on the heap has.\<close>

definition fresh_uid :: "uheap \<Rightarrow> uid" where
  "fresh_uid h = Suc (fold max (dkeys h) 0)"

definition new_unifier :: "uheap \<Rightarrow> uid \<times> uheap" where
  "new_unifier h = (let u = fresh_uid h in (u, AList.update u [] h))"

definition uadd :: "uid \<Rightarrow> trm \<Rightarrow> uval \<Rightarrow> uheap \<Rightarrow> undo \<times> uheap" where
  "uadd u var v h = ((var, u), AList.update u (AList.update var v (contents u h)) h)"

definition udelete :: "uid \<Rightarrow> trm \<Rightarrow> uheap \<Rightarrow> uheap" where
  "udelete u var h = AList.update u (AList.delete var (contents u h)) h"

definition unifier_of_dict :: "(trm, trm) dict \<Rightarrow> uheap \<Rightarrow> uid \<times> uheap" where
  "unifier_of_dict d h =
     (let (u, h) = new_unifier h in (u, fold (\<lambda>(var, t) h. snd (uadd u var (t, None) h)) d h))"

definition uvalue :: "uid \<Rightarrow> trm \<Rightarrow> uheap \<Rightarrow> uval option" where
  "uvalue u t h = map_of (contents u h) t"

text \<open>
  The context of the outermost caller: its own variables in its own unifier keep their names,
  all other unbound variables get the unifier's identity appended. \<open>str_id\<close> is \<open>str(id(u))\<close>.
\<close>

record caller =
  cvariables :: "trm list"
  cbinding :: uid

definition rename_apart :: "(uid \<Rightarrow> string) \<Rightarrow> caller option \<Rightarrow> uid \<Rightarrow> trm \<Rightarrow> trm" where
  "rename_apart str_id caller u t =
     (case (caller, t) of
        (Some c, Variable n) \<Rightarrow>
          if t \<in> set (cvariables c) \<and> cbinding c = u then t else Variable (n @ str_id u)
      | _ \<Rightarrow> t)"

text \<open>The recursive call does not pass the caller on.\<close>

fun apply_full :: "nat \<Rightarrow> (uid \<Rightarrow> string) \<Rightarrow> caller option \<Rightarrow> uheap \<Rightarrow> uid \<Rightarrow> trm \<Rightarrow> uval res" where
  "apply_full 0 str_id caller h u t = Inl OutOfFuel"
| "apply_full (Suc n) str_id caller h u t =
     (case uvalue u t h of
        None \<Rightarrow> Inr (rename_apart str_id caller u t, Some u)
      | Some (t', None) \<Rightarrow> Inr (t', None)
      | Some (t', Some u') \<Rightarrow>
          if \<not> is_variable t' then Inr (t', Some u') else apply_full n str_id None h u' t')"

definition ufuel :: "uheap \<Rightarrow> nat" where
  "ufuel h = Suc (sum_list (map (\<lambda>(_, d). length d) h))"

text \<open>\<open>apply_full\<close> without a caller, as the unification routines use it.\<close>

definition resolve :: "uheap \<Rightarrow> uid \<Rightarrow> trm \<Rightarrow> uval res" where
  "resolve h u t = apply_full (ufuel h) (\<lambda>_. []) None h u t"

definition uapply :: "(uid \<Rightarrow> string) \<Rightarrow> caller option \<Rightarrow> uheap \<Rightarrow> uid \<Rightarrow> trm \<Rightarrow> trm res" where
  "uapply str_id caller h u t = rbind (apply_full (ufuel h) str_id caller h u t) (\<lambda>(t, _). Inr t)"

definition is_one_to_one :: "uheap \<Rightarrow> uid \<Rightarrow> bool res" where
  "is_one_to_one h u =
     rbind (for_res (\<lambda>x (ok, image). rbind (uapply (\<lambda>_. []) None h u x)
         (\<lambda>v. Inr (ok \<and> v \<notin> set image, v # image)))
       (dkeys (contents u h)) (True, []))
     (\<lambda>(ok, _). Inr ok)"

definition undo_all :: "undo list option \<Rightarrow> uheap \<Rightarrow> uheap" where
  "undo_all changes h = (case changes of None \<Rightarrow> h | Some cs \<Rightarrow> fold (\<lambda>(var, u). udelete u var) cs h)"

section \<open>Unification\<close>

definition same_schema :: "string option \<Rightarrow> literal \<Rightarrow> literal \<Rightarrow> bool" where
  "same_schema theory a1 a2 = (tablename_same theory (table a1) (table a2) \<and> length (arguments a1) = length (arguments a2))"

definition bi_var_equal :: "trm \<Rightarrow> uid option \<Rightarrow> trm \<Rightarrow> uid option \<Rightarrow> bool" where
  "bi_var_equal v1 b1 v2 b2 = (v1 = v2 \<and> b1 = b2)"

definition bind_var :: "uid option \<Rightarrow> trm \<Rightarrow> uval \<Rightarrow> uheap \<Rightarrow> (undo \<times> uheap) res" where
  "bind_var b var v h = (case b of None \<Rightarrow> Inl AttributeError | Some u \<Rightarrow> Inr (uadd u var v h))"

text \<open>A result is the list of changes, or \<open>None\<close>, with the heap.\<close>

fun unify_loop :: "uid \<Rightarrow> uid \<Rightarrow> (trm \<times> trm) list \<Rightarrow> undo list \<Rightarrow> uheap \<Rightarrow> (undo list option \<times> uheap) res" where
  "unify_loop u1 u2 [] changes h = Inr (Some changes, h)"
| "unify_loop u1 u2 ((t1, t2) # rest) changes h =
     rbind (resolve h u1 t1) (\<lambda>(v1, b1). rbind (resolve h u2 t2) (\<lambda>(v2, b2).
       if is_variable v1 \<and> is_variable v2 then
         if bi_var_equal v1 b1 v2 b2 then unify_loop u1 u2 rest changes h
         else rbind (bind_var b1 v1 (v2, b2) h) (\<lambda>(c, h). unify_loop u1 u2 rest (changes @ [c]) h)
       else if is_variable v1 then rbind (bind_var b1 v1 (v2, b2) h) (\<lambda>(c, h). unify_loop u1 u2 rest (changes @ [c]) h)
       else if is_variable v2 then rbind (bind_var b2 v2 (v1, b1) h) (\<lambda>(c, h). unify_loop u1 u2 rest (changes @ [c]) h)
       else if v1 = v2 then unify_loop u1 u2 rest changes h
       else Inr (None, undo_all (Some changes) h)))"

definition bi_unify_lists :: "trm list \<Rightarrow> uid \<Rightarrow> trm list \<Rightarrow> uid \<Rightarrow> uheap \<Rightarrow> (undo list option \<times> uheap) res" where
  "bi_unify_lists ts1 u1 ts2 u2 h =
     (if length ts1 \<noteq> length ts2 then Inr (None, h) else unify_loop u1 u2 (zip ts1 ts2) [] h)"

definition bi_unify_atoms ::
    "string option \<Rightarrow> literal \<Rightarrow> uid \<Rightarrow> literal \<Rightarrow> uid \<Rightarrow> uheap \<Rightarrow> (undo list option \<times> uheap) res" where
  "bi_unify_atoms theory a1 u1 a2 u2 h =
     (if \<not> same_schema theory a1 a2 then Inr (None, h)
      else bi_unify_lists (arguments a1) u1 (arguments a2) u2 h)"

section \<open>Matching\<close>

fun term_pyname :: "trm \<Rightarrow> pyval" where
  "term_pyname (Variable n) = VStr n"
| "term_pyname (ObjectConstant v) = v"

fun match_loop :: "uid \<Rightarrow> (trm \<times> trm) list \<Rightarrow> undo list \<Rightarrow> uheap \<Rightarrow> (undo list option \<times> uheap) res" where
  "match_loop u [] changes h = Inr (Some changes, h)"
| "match_loop u ((t1, t2) # rest) changes h =
     rbind (resolve h u t1) (\<lambda>(v, b).
       if is_variable v then rbind (bind_var b v (t2, None) h) (\<lambda>(c, h). match_loop u rest (changes @ [c]) h)
       else if term_pyname v \<noteq> term_pyname t2 then Inr (None, undo_all (Some changes) h)
       else match_loop u rest changes h)"

definition match_atoms :: "literal \<Rightarrow> uid \<Rightarrow> literal \<Rightarrow> uheap \<Rightarrow> (undo list option \<times> uheap) res" where
  "match_atoms a1 u a2 h =
     (if \<not> same_schema None a1 a2 then Inr (None, h) else match_loop u (zip (arguments a1) (arguments a2)) [] h)"

text \<open>
  \<open>match_tuple_atom\<close> writes \<open>tuple[i]\<close>, an index into the built-in class, for a variable it sees
  for the first time. Constants of the atom are not compared.
\<close>

fun match_tuple_loop :: "(pyval \<times> trm) list \<Rightarrow> (string, pyval) dict \<Rightarrow> (string, pyval) dict option res" where
  "match_tuple_loop [] binding = Inr (Some binding)"
| "match_tuple_loop ((x, Variable n) # rest) binding =
     (case map_of binding n of
        Some old \<Rightarrow> if old \<noteq> x then Inr None else match_tuple_loop rest binding
      | None \<Rightarrow> Inl TypeError)"
| "match_tuple_loop ((x, ObjectConstant c) # rest) binding = match_tuple_loop rest binding"

definition match_tuple_atom :: "pyval list \<Rightarrow> literal \<Rightarrow> (string, pyval) dict option res" where
  "match_tuple_atom tupl a =
     (if length tupl \<noteq> length (arguments a) then Inr None else match_tuple_loop (zip tupl (arguments a)) [])"

section \<open>Equality up to renaming, instances\<close>

text \<open>\<open>bound2\<close> holds the variables of the second formula that are images already.\<close>

fun same_loop :: "uid \<Rightarrow> uid \<Rightarrow> (trm \<times> trm) list \<Rightarrow> undo list \<Rightarrow> trm list \<Rightarrow> uheap \<Rightarrow> (undo list option \<times> trm list \<times> uheap) res" where
  "same_loop u1 u2 [] changes bound2 h = Inr (Some changes, bound2, h)"
| "same_loop u1 u2 ((t1, t2) # rest) changes bound2 h =
     rbind (resolve h u1 t1) (\<lambda>(v1, b1). rbind (resolve h u2 t2) (\<lambda>(v2, b2).
       let die = Inr (None, bound2, undo_all (Some changes) h) in
       if is_variable v1 \<and> is_variable v2 then
         if bi_var_equal v1 b1 v2 b2 then same_loop u1 u2 rest changes bound2 h
         else if \<not> bi_var_equal v1 b1 t1 (Some u1) then die
         else if \<not> bi_var_equal v2 b2 t2 (Some u2) then die
         else if v2 \<in> set bound2 then die
         else rbind (bind_var b1 v1 (v2, b2) h) (\<lambda>(c, h). same_loop u1 u2 rest (changes @ [c]) (set_add v2 bound2) h)
       else if is_variable v1 then die
       else if is_variable v2 then die
       else if v1 \<noteq> v2 then die
       else same_loop u1 u2 rest changes bound2 h))"

definition same_atoms ::
    "literal \<Rightarrow> uid \<Rightarrow> literal \<Rightarrow> uid \<Rightarrow> trm list \<Rightarrow> uheap \<Rightarrow> (undo list option \<times> trm list \<times> uheap) res" where
  "same_atoms a1 u1 a2 u2 bound2 h =
     (if \<not> same_schema None a1 a2 then Inr (None, bound2, h)
      else same_loop u1 u2 (zip (arguments a1) (arguments a2)) [] bound2 h)"

fun same_atoms_list ::
    "(literal \<times> literal) list \<Rightarrow> uid \<Rightarrow> uid \<Rightarrow> trm list \<Rightarrow> uheap \<Rightarrow> (bool \<times> uheap) res" where
  "same_atoms_list [] u1 u2 bound2 h = Inr (True, h)"
| "same_atoms_list ((a1, a2) # rest) u1 u2 bound2 h =
     rbind (same_atoms a1 u1 a2 u2 bound2 h) (\<lambda>(r, bound2, h).
       case r of None \<Rightarrow> Inr (False, h) | Some _ \<Rightarrow> same_atoms_list rest u1 u2 bound2 h)"

definition same_pairs :: "(literal \<times> literal) list \<Rightarrow> uheap \<Rightarrow> ((uid \<times> uid) option \<times> uheap) res" where
  "same_pairs ps h =
     (let (u1, h) = new_unifier h; (u2, h) = new_unifier h in
      rbind (same_atoms_list ps u1 u2 [] h) (\<lambda>(ok, h). Inr (if ok then Some (u1, u2) else None, h)))"

fun same :: "formula \<Rightarrow> formula \<Rightarrow> uheap \<Rightarrow> ((uid \<times> uid) option \<times> uheap) res" where
  "same (FLit a) (FRule s) h = Inr (None, h)"
| "same (FLit a) (FLit b) h = (if negated a \<noteq> negated b then Inr (None, h) else same_pairs [(a, b)] h)"
| "same (FRule r) (FLit b) h = Inr (None, h)"
| "same (FRule r) (FRule s) h =
     (if length (body r) \<noteq> length (body s) then Inr (None, h)
      else same_pairs ((rule_head r, rule_head s) # zip (body r) (body s)) h)"
| "same (FFact f) g h = Inr (None, h)"
| "same f (FFact g) h = Inl AttributeError"

fun instance_loop :: "uid \<Rightarrow> uid \<Rightarrow> (trm \<times> trm) list \<Rightarrow> undo list \<Rightarrow> uheap \<Rightarrow> (undo list option \<times> uheap) res" where
  "instance_loop u1 u2 [] changes h = Inr (Some changes, h)"
| "instance_loop u1 u2 ((t1, t2) # rest) changes h =
     rbind (resolve h u1 t1) (\<lambda>(v1, b1). rbind (resolve h u2 t2) (\<lambda>(v2, b2).
       let die = Inr (None, undo_all (Some changes) h) in
       if is_variable v1 \<and> is_variable v2 then
         if bi_var_equal v1 b1 v2 b2 then instance_loop u1 u2 rest changes h
         else if \<not> bi_var_equal v1 b1 t1 (Some u1) then die
         else if \<not> bi_var_equal v2 b2 t2 (Some u2) then die
         else rbind (bind_var b2 v2 (v1, b1) h) (\<lambda>(c, h). instance_loop u1 u2 rest (changes @ [c]) h)
       else if is_variable v1 then die
       else if is_variable v2 then rbind (bind_var b2 v2 (v1, b1) h) (\<lambda>(c, h). instance_loop u1 u2 rest (changes @ [c]) h)
       else if v1 \<noteq> v2 then die
       else instance_loop u1 u2 rest changes h))"

definition instance_atoms :: "literal \<Rightarrow> literal \<Rightarrow> uid \<Rightarrow> uheap \<Rightarrow> (undo list option \<times> uheap) res" where
  "instance_atoms a1 a2 u2 h =
     (if \<not> same_schema None a1 a2 then Inr (None, h)
      else (let (u1, h) = new_unifier h in instance_loop u1 u2 (zip (arguments a1) (arguments a2)) [] h))"

text \<open>For rules with a body, \<open>same_atoms\<close> is called with three of its five arguments.\<close>

fun is_instance :: "formula \<Rightarrow> formula \<Rightarrow> uheap \<Rightarrow> (uid option \<times> uheap) res" where
  "is_instance (FLit a) (FRule s) h = Inr (None, h)"
| "is_instance (FLit a) (FLit b) h =
     (if negated a \<noteq> negated b then Inr (None, h)
      else (let (u, h) = new_unifier h in
        rbind (instance_atoms a b u h) (\<lambda>(r, h). Inr (if r = None then None else Some u, h))))"
| "is_instance (FRule r) (FLit b) h = Inr (None, h)"
| "is_instance (FRule r) (FRule s) h =
     (if length (body r) \<noteq> length (body s) then Inr (None, h)
      else (let (u, h) = new_unifier h in
        rbind (instance_atoms (rule_head r) (rule_head s) u h) (\<lambda>(x, h).
          if x = None then Inr (None, h)
          else if body r \<noteq> [] then Inl TypeError
          else Inr (Some u, h))))"
| "is_instance (FFact f) g h = Inr (None, h)"
| "is_instance f (FFact g) h = Inl AttributeError"

text \<open>\<open>skolemize\<close>: each variable gets the next of a supply of new identifiers.\<close>

definition formula_variables :: "formula \<Rightarrow> trm list" where
  "formula_variables f = (case f of FLit l \<Rightarrow> lit_variables l | FRule r \<Rightarrow> rule_variables r | FFact _ \<Rightarrow> [])"

definition formula_plug :: "(trm, trm) dict \<Rightarrow> formula \<Rightarrow> formula" where
  "formula_plug b f = (case f of FLit l \<Rightarrow> FLit (lit_plug b l) | FRule r \<Rightarrow> FRule (rule_plug b r) | FFact x \<Rightarrow> FFact x)"

definition skolemize :: "(nat \<Rightarrow> string) \<Rightarrow> formula list \<Rightarrow> formula list" where
  "skolemize uuid fs =
     (let vs = fold (\<lambda>f vs. set_union vs (formula_variables f)) fs [];
          binding = map (\<lambda>(i, v). (v, ObjectConstant (VStr (uuid i)))) (enumerate 0 vs)
      in map (formula_plug binding) fs)"

section \<open>Bindings as equations\<close>

type_synonym valuation = "string \<Rightarrow> uid option \<Rightarrow> pyval"

fun eval :: "valuation \<Rightarrow> uval \<Rightarrow> pyval" where
  "eval \<sigma> (Variable n, b) = \<sigma> n b"
| "eval \<sigma> (ObjectConstant c, b) = c"

definition models :: "valuation \<Rightarrow> uheap \<Rightarrow> bool" where
  "models \<sigma> h = (\<forall>u t v. uvalue u t h = Some v \<longrightarrow> eval \<sigma> (t, Some u) = eval \<sigma> v)"

definition steps :: "uheap \<Rightarrow> ((trm \<times> uid) \<times> (trm \<times> uid)) set" where
  "steps h = {((t, u), (t', u')). uvalue u t h = Some (t', Some u') \<and> is_variable t'}"

text \<open>Variables are bound to constants or to variables of a unifier, and never in a circle.\<close>

definition wf_heap :: "uheap \<Rightarrow> bool" where
  "wf_heap h = ((\<forall>u t v. uvalue u t h = Some v \<longrightarrow> is_variable t \<and> (is_variable (fst v) \<longrightarrow> snd v \<noteq> None)) \<and>
     acyclic (steps h))"

lemma wf_heapD:
  assumes "wf_heap h" "uvalue u t h = Some (t', b)"
  shows "is_variable t" "is_variable t' \<Longrightarrow> \<exists>u'. b = Some u'"
  using assms unfolding wf_heap_def by force+

definition root :: "uheap \<Rightarrow> uval \<Rightarrow> bool" where
  "root h v = (is_variable (fst v) \<longrightarrow> (\<exists>u. snd v = Some u \<and> uvalue u (fst v) h = None))"

definition bound_nodes :: "uheap \<Rightarrow> (trm \<times> uid) list" where
  "bound_nodes h = concat (map (\<lambda>(u, d). map (\<lambda>(t, _). (t, u)) d) h)"

lemma length_bound_nodes: "length (bound_nodes h) = sum_list (map (\<lambda>(_, d). length d) h)"
  by (induction h) (auto simp: bound_nodes_def)

lemma steps_bound: "Domain (steps h) \<subseteq> set (bound_nodes h)"
proof
  fix x assume "x \<in> Domain (steps h)"
  then obtain t u v where x: "x = (t, u)" "uvalue u t h = Some v" by (auto simp: steps_def)
  then obtain d where "map_of h u = Some d" "map_of d t = Some v" by (auto simp: uvalue_def contents_def split: option.splits)
  then have "(u, d) \<in> set h" "(t, v) \<in> set d" by (auto dest: map_of_SomeD)
  with x(1) show "x \<in> set (bound_nodes h)" by (force simp: bound_nodes_def)
qed

lemma finite_domain [simp]: "finite (Domain (steps h))"
  by (rule finite_subset [OF steps_bound]) simp

lemma card_domain: "card (Domain (steps h)) < ufuel h"
proof -
  have "card (Domain (steps h)) \<le> card (set (bound_nodes h))" by (rule card_mono [OF _ steps_bound]) simp
  also have "\<dots> \<le> length (bound_nodes h)" by (rule card_length)
  finally show ?thesis by (simp add: ufuel_def length_bound_nodes)
qed

definition ahead :: "uheap \<Rightarrow> trm \<times> uid \<Rightarrow> (trm \<times> uid) set" where
  "ahead h x = (steps h)\<^sup>* `` {x} \<inter> Domain (steps h)"

lemma ahead_less:
  assumes "acyclic (steps h)" "(x, y) \<in> steps h" shows "card (ahead h y) < card (ahead h x)"
proof (rule psubset_card_mono)
  have "x \<in> ahead h x" using assms(2) by (auto simp: ahead_def)
  moreover have "x \<notin> ahead h y"
  proof
    assume "x \<in> ahead h y"
    then have "(x, x) \<in> (steps h)\<^sup>+" using assms(2) by (auto simp: ahead_def intro: rtrancl_into_trancl2)
    with assms(1) show False unfolding acyclic_def by blast
  qed
  moreover have "ahead h y \<subseteq> ahead h x"
    using assms(2) by (auto simp: ahead_def intro: converse_rtrancl_into_rtrancl)
  ultimately show "ahead h y \<subset> ahead h x" by blast
qed (simp add: ahead_def)

lemma apply_full_ok:
  assumes wf: "wf_heap h" and "card (ahead h (t, u)) < n"
  shows "\<exists>v. apply_full n f None h u t = Inr v \<and> root h v \<and> (\<forall>\<sigma>. models \<sigma> h \<longrightarrow> eval \<sigma> (t, Some u) = eval \<sigma> v)"
  using assms(2)
proof (induction n arbitrary: u t)
  case (Suc n)
  show ?case
  proof (cases "uvalue u t h")
    case None
    then show ?thesis by (simp add: root_def rename_apart_def)
  next
    case (Some v)
    obtain t' b where v: "v = (t', b)" by (cases v)
    show ?thesis
    proof (cases "is_variable t'")
      case False
      with Some v show ?thesis by (cases b) (auto simp: root_def models_def)
    next
      case True
      then obtain u' where u': "b = Some u'" using wf_heapD(2) [OF wf] Some v by blast
      with True Some v have st: "((t, u), (t', u')) \<in> steps h" by (simp add: steps_def)
      have "card (ahead h (t', u')) < n" using ahead_less [OF _ st] wf Suc.prems by (simp add: wf_heap_def)
      from Suc.IH [OF this] obtain w where w: "apply_full n f None h u' t' = Inr w" "root h w"
        "\<forall>\<sigma>. models \<sigma> h \<longrightarrow> eval \<sigma> (t', Some u') = eval \<sigma> w" by blast
      moreover have "eval \<sigma> (t, Some u) = eval \<sigma> (t', Some u')" if "models \<sigma> h" for \<sigma>
        using that Some v u' by (simp add: models_def)
      ultimately show ?thesis using Some v u' True by auto
    qed
  qed
qed simp

lemma resolve_ok:
  assumes "wf_heap h"
  shows "\<exists>v. resolve h u t = Inr v \<and> root h v \<and> (\<forall>\<sigma>. models \<sigma> h \<longrightarrow> eval \<sigma> (t, Some u) = eval \<sigma> v)"
proof -
  have "card (ahead h (t, u)) \<le> card (Domain (steps h))" by (rule card_mono) (auto simp: ahead_def)
  then have "card (ahead h (t, u)) < ufuel h" using card_domain [of h] by linarith
  from apply_full_ok [OF assms this] show ?thesis unfolding resolve_def .
qed

lemma apply_full_more: "apply_full n f c h u t = Inr v \<Longrightarrow> apply_full (Suc n) f c h u t = Inr v"
proof (induction n arbitrary: c u t)
  case (Suc n)
  show ?case
  proof (cases "uvalue u t h")
    case (Some w)
    then obtain t' b where w: "uvalue u t h = Some (t', b)" by (cases w) auto
    then show ?thesis using Suc.prems Suc.IH [of None "the b" t'] by (cases b) (auto split: if_splits)
  qed (use Suc.prems in simp)
qed simp

lemma resolve_step:
  assumes "wf_heap h" "uvalue u t h = Some (t', Some u')" "is_variable t'"
  shows "resolve h u t = resolve h u' t'"
proof -
  obtain k where k: "ufuel h = Suc k" by (simp add: ufuel_def)
  obtain v where v: "resolve h u t = Inr v" using resolve_ok [OF assms(1)] by blast
  then have "apply_full k (\<lambda>_. []) None h u' t' = Inr v" using assms(2,3) by (simp add: resolve_def k)
  from apply_full_more [OF this] show ?thesis using v by (simp add: resolve_def k)
qed

text \<open>Bindings without circles are always consistent.\<close>

lemma models_exists:
  assumes wf: "wf_heap h" shows "\<exists>\<sigma>. models \<sigma> h"
proof -
  let ?const = "\<lambda>r :: uval res. case r of Inr (ObjectConstant c, _) \<Rightarrow> c | _ \<Rightarrow> VInt 0"
  define \<sigma> :: valuation where
    "\<sigma> = (\<lambda>n b. case b of None \<Rightarrow> VInt 0 | Some u \<Rightarrow> ?const (resolve h u (Variable n)))"
  have "eval \<sigma> (t, Some u) = eval \<sigma> v" if uv: "uvalue u t h = Some v" for u t v
  proof -
    obtain t' b where v: "v = (t', b)" by (cases v)
    obtain n where t: "t = Variable n" using wf_heapD(1) [OF wf] uv v by (cases t) fastforce+
    show ?thesis
    proof (cases t')
      case (ObjectConstant c)
      then have "resolve h u t = Inr v" using uv v by (cases b) (simp_all add: resolve_def ufuel_def)
      then show ?thesis using t v ObjectConstant by (simp add: \<sigma>_def)
    next
      case (Variable m)
      then obtain u' where u': "b = Some u'" using wf_heapD(2) [OF wf, of u t t' b] uv v by auto
      with resolve_step [OF wf, of u t t' u'] uv v Variable have "resolve h u t = resolve h u' t'" by simp
      then show ?thesis using t v Variable u' by (simp add: \<sigma>_def)
    qed
  qed
  then show ?thesis by (auto simp: models_def)
qed

section \<open>Binding and undoing\<close>

lemma contents_update: "contents u' (AList.update u d h) = (if u' = u then d else contents u' h)"
  by (simp add: contents_def)

lemma uvalue_uadd: "uvalue u' t (snd (uadd u var v h)) = (if u' = u \<and> t = var then Some v else uvalue u' t h)"
  by (simp add: uvalue_def uadd_def contents_update)

lemma uvalue_udelete: "uvalue u' t (udelete u var h) = (if u' = u \<and> t = var then None else uvalue u' t h)"
  by (simp add: uvalue_def udelete_def contents_update)

lemma uadd_ok:
  assumes wf: "wf_heap h" and new: "uvalue u var h = None" "is_variable var" "root h v" "v \<noteq> (var, Some u)"
  shows "wf_heap (snd (uadd u var v h))"
    "models \<sigma> (snd (uadd u var v h)) \<longleftrightarrow> models \<sigma> h \<and> eval \<sigma> (var, Some u) = eval \<sigma> v"
proof -
  let ?h = "snd (uadd u var v h)"
  show "models \<sigma> ?h \<longleftrightarrow> models \<sigma> h \<and> eval \<sigma> (var, Some u) = eval \<sigma> v"
  proof
    assume m: "models \<sigma> ?h"
    have "eval \<sigma> (t, Some u') = eval \<sigma> w" if "uvalue u' t h = Some w" for u' t w
    proof -
      have "uvalue u' t ?h = Some w" using that new(1) by (auto simp: uvalue_uadd)
      with m show ?thesis unfolding models_def by blast
    qed
    moreover have "uvalue u var ?h = Some v" by (simp add: uvalue_uadd)
    ultimately show "models \<sigma> h \<and> eval \<sigma> (var, Some u) = eval \<sigma> v" using m unfolding models_def by blast
  next
    assume m: "models \<sigma> h \<and> eval \<sigma> (var, Some u) = eval \<sigma> v"
    show "models \<sigma> ?h"
      unfolding models_def
    proof (intro allI impI)
      fix u' t w assume w: "uvalue u' t ?h = Some w"
      show "eval \<sigma> (t, Some u') = eval \<sigma> w"
      proof (cases "u' = u \<and> t = var")
        case False
        then have "uvalue u' t h = Some w" using w by (auto simp: uvalue_uadd)
        with m show ?thesis unfolding models_def by blast
      qed (use m w in \<open>simp add: uvalue_uadd\<close>)
    qed
  qed
  obtain t' b where v: "v = (t', b)" by (cases v)
  have "acyclic (steps ?h)"
  proof (cases "is_variable t'")
    case False
    then have "steps ?h = steps h" using v new(1) by (auto simp: steps_def uvalue_uadd split: if_splits)
    with wf show ?thesis by (simp add: wf_heap_def)
  next
    case True
    then obtain u' where u': "b = Some u'" "uvalue u' t' h = None" using new(3) v by (auto simp: root_def)
    have "steps ?h = insert ((var, u), (t', u')) (steps h)"
      using v u' True new(1) by (auto simp: steps_def uvalue_uadd split: if_splits)
    moreover have "((t', u'), (var, u)) \<notin> (steps h)\<^sup>*"
    proof
      assume "((t', u'), (var, u)) \<in> (steps h)\<^sup>*"
      moreover have "(t', u') \<notin> Domain (steps h)" using u'(2) by (auto simp: steps_def)
      ultimately have "(t', u') = (var, u)" by (auto elim: converse_rtranclE)
      with v u' new(4) show False by simp
    qed
    ultimately show ?thesis using wf by (simp add: wf_heap_def acyclic_insert)
  qed
  moreover have "is_variable (fst v) \<longrightarrow> snd v \<noteq> None" using new(3) by (auto simp: root_def)
  ultimately show "wf_heap ?h" using wf new(2) unfolding wf_heap_def uvalue_uadd by auto
qed

definition same_heap :: "uheap \<Rightarrow> uheap \<Rightarrow> bool" where
  "same_heap h h' = (\<forall>u t. uvalue u t h = uvalue u t h')"

lemma same_heap_models: "same_heap h h' \<Longrightarrow> models \<sigma> h = models \<sigma> h'"
  by (simp add: same_heap_def models_def)

lemma same_heap_wf: "same_heap h h' \<Longrightarrow> wf_heap h = wf_heap h'"
  by (simp add: same_heap_def wf_heap_def steps_def)

text \<open>The heap \<open>h\<close> has the bindings of \<open>h0\<close> and new ones for the variables in \<open>cs\<close>.\<close>

definition extends_by :: "uheap \<Rightarrow> uheap \<Rightarrow> undo list \<Rightarrow> bool" where
  "extends_by h0 h cs = (\<forall>u t. if (t, u) \<in> set cs then uvalue u t h0 = None else uvalue u t h = uvalue u t h0)"

lemma uvalue_undo: "uvalue u t (undo_all (Some cs) h) = (if (t, u) \<in> set cs then None else uvalue u t h)"
proof -
  have "uvalue u t (fold (\<lambda>(var, u). udelete u var) cs h) = (if (t, u) \<in> set cs then None else uvalue u t h)"
  proof (induction cs arbitrary: h)
    case (Cons c cs)
    show ?case by (cases c) (simp add: Cons.IH uvalue_udelete)
  qed simp
  then show ?thesis by (simp add: undo_all_def)
qed

lemma undo_extends: "extends_by h0 h cs \<Longrightarrow> same_heap (undo_all (Some cs) h) h0"
  by (auto simp: extends_by_def same_heap_def uvalue_undo)

lemma extends_by_uadd:
  assumes "extends_by h0 h cs" "uvalue u var h = None"
  shows "extends_by h0 (snd (uadd u var v h)) (cs @ [(var, u)])"
  unfolding extends_by_def
proof (intro allI)
  fix u' t
  have "if (t, u') \<in> set cs then uvalue u' t h0 = None else uvalue u' t h = uvalue u' t h0"
    using assms(1) unfolding extends_by_def by blast
  with assms(2) show "if (t, u') \<in> set (cs @ [(var, u)]) then uvalue u' t h0 = None
      else uvalue u' t (snd (uadd u var v h)) = uvalue u' t h0"
    by (cases "u' = u \<and> t = var") (auto simp: uvalue_uadd split: if_splits)
qed

text \<open>What a loop over pairs of terms does for the equations \<open>E\<close> between them.\<close>

definition solves :: "uheap \<Rightarrow> (valuation \<Rightarrow> bool) \<Rightarrow> undo list option \<times> uheap \<Rightarrow> uheap \<Rightarrow> bool" where
  "solves h0 E r h =
     (wf_heap (snd r) \<and>
      (case fst r of
         None \<Rightarrow> same_heap (snd r) h0 \<and> (\<forall>\<sigma>. models \<sigma> h \<longrightarrow> \<not> E \<sigma>)
       | Some cs \<Rightarrow> extends_by h0 (snd r) cs \<and> (\<forall>\<sigma>. models \<sigma> (snd r) \<longleftrightarrow> models \<sigma> h \<and> E \<sigma>)))"

lemma solves_bound:
  assumes "solves h0 E r h'" "\<And>\<sigma>. models \<sigma> h' \<longleftrightarrow> models \<sigma> h \<and> A \<sigma>"
  shows "solves h0 (\<lambda>\<sigma>. A \<sigma> \<and> E \<sigma>) r h"
  using assms by (cases "fst r") (auto simp: solves_def)

lemma solves_skip:
  assumes "solves h0 E r h" "\<And>\<sigma>. models \<sigma> h \<Longrightarrow> A \<sigma>"
  shows "solves h0 (\<lambda>\<sigma>. A \<sigma> \<and> E \<sigma>) r h"
  using assms by (cases "fst r") (auto simp: solves_def)

lemma solves_fail:
  assumes "wf_heap h0" "extends_by h0 h cs" "\<And>\<sigma>. models \<sigma> h \<Longrightarrow> \<not> A \<sigma>"
  shows "solves h0 (\<lambda>\<sigma>. A \<sigma> \<and> E \<sigma>) (None, undo_all (Some cs) h) h"
  using assms undo_extends [OF assms(2)] same_heap_wf by (auto simp: solves_def)

lemma solves_done: "wf_heap h \<Longrightarrow> extends_by h0 h cs \<Longrightarrow> solves h0 (\<lambda>_. True) (Some cs, h) h"
  by (simp add: solves_def)

abbreviation equal_under :: "uid option \<Rightarrow> uid option \<Rightarrow> (trm \<times> trm) list \<Rightarrow> valuation \<Rightarrow> bool" where
  "equal_under b1 b2 ps \<sigma> \<equiv> list_all (\<lambda>(t1, t2). eval \<sigma> (t1, b1) = eval \<sigma> (t2, b2)) ps"

lemma const_value: "\<not> is_variable t \<Longrightarrow> \<exists>c. t = ObjectConstant c"
  by (cases t) auto

lemma unify_loop_ok:
  assumes "wf_heap h0" "wf_heap h" "extends_by h0 h cs"
  shows "\<exists>r. unify_loop u1 u2 ps cs h = Inr r \<and> solves h0 (equal_under (Some u1) (Some u2) ps) r h"
  using assms(2-)
proof (induction ps arbitrary: cs h)
  case Nil
  with solves_done show ?case by auto
next
  case (Cons p ps)
  obtain t1 t2 where p: "p = (t1, t2)" by (cases p)
  let ?E = "equal_under (Some u1) (Some u2) ps"
  let ?A = "\<lambda>\<sigma>. eval \<sigma> (t1, Some u1) = eval \<sigma> (t2, Some u2)"
  have E: "equal_under (Some u1) (Some u2) (p # ps) = (\<lambda>\<sigma>. ?A \<sigma> \<and> ?E \<sigma>)" by (simp add: p fun_eq_iff)
  obtain v1 b1 where r1: "resolve h u1 t1 = Inr (v1, b1)" "root h (v1, b1)"
    "\<And>\<sigma>. models \<sigma> h \<Longrightarrow> eval \<sigma> (t1, Some u1) = eval \<sigma> (v1, b1)"
    using resolve_ok [OF Cons.prems(1), of u1 t1] by (metis surj_pair)
  obtain v2 b2 where r2: "resolve h u2 t2 = Inr (v2, b2)" "root h (v2, b2)"
    "\<And>\<sigma>. models \<sigma> h \<Longrightarrow> eval \<sigma> (t2, Some u2) = eval \<sigma> (v2, b2)"
    using resolve_ok [OF Cons.prems(1), of u2 t2] by (metis surj_pair)
  have A: "models \<sigma> h \<Longrightarrow> ?A \<sigma> \<longleftrightarrow> eval \<sigma> (v1, b1) = eval \<sigma> (v2, b2)" for \<sigma> using r1(3) r2(3) by simp
  have bind: "\<exists>r. rbind (bind_var b var v h) (\<lambda>(c, h). unify_loop u1 u2 ps (cs @ [c]) h) = Inr r \<and> solves h0 (\<lambda>\<sigma>. ?A \<sigma> \<and> ?E \<sigma>) r h"
    if new: "is_variable var" "root h (var, b)" "root h v" "v \<noteq> (var, b)"
      and same: "\<And>\<sigma>. models \<sigma> h \<Longrightarrow> ?A \<sigma> \<longleftrightarrow> eval \<sigma> (var, b) = eval \<sigma> v" for b var v
  proof -
    obtain u where u: "b = Some u" "uvalue u var h = None" using new(1,2) by (auto simp: root_def)
    let ?h = "snd (uadd u var v h)"
    note add = uadd_ok [OF Cons.prems(1) u(2) new(1,3) new(4) [unfolded u(1)]]
    have c: "uadd u var v h = ((var, u), ?h)" by (simp add: uadd_def)
    obtain r where r: "unify_loop u1 u2 ps (cs @ [(var, u)]) ?h = Inr r" "solves h0 ?E r ?h"
      using Cons.IH [OF add(1) extends_by_uadd [OF Cons.prems(2) u(2)]] by blast
    have "models \<sigma> ?h \<longleftrightarrow> models \<sigma> h \<and> ?A \<sigma>" for \<sigma> using add(2) same [of \<sigma>] u(1) by auto
    from solves_bound [OF r(2) this] have "solves h0 (\<lambda>\<sigma>. ?A \<sigma> \<and> ?E \<sigma>) r h" .
    moreover have "rbind (bind_var b var v h) (\<lambda>(c, h). unify_loop u1 u2 ps (cs @ [c]) h) = Inr r"
      unfolding bind_var_def u(1) option.case rbind_simps by (subst c) (simp add: r(1))
    ultimately show ?thesis by blast
  qed
  show ?case
  proof (cases "is_variable v1 \<or> is_variable v2")
    case True
    show ?thesis
    proof (cases "(v1, b1) = (v2, b2)")
      case True
      with \<open>is_variable v1 \<or> is_variable v2\<close> Cons.IH [OF Cons.prems] obtain r where
        r: "unify_loop u1 u2 (p # ps) cs h = Inr r" "solves h0 ?E r h"
        using r1(1) r2(1) p by (auto simp: bi_var_equal_def)
      have "?A \<sigma>" if "models \<sigma> h" for \<sigma> using A that True by simp
      from solves_skip [where A = ?A, OF r(2) this] r(1) show ?thesis unfolding E by blast
    next
      case False
      then have ne: "(v2, b2) \<noteq> (v1, b1)" by blast
      show ?thesis
      proof (cases "is_variable v1")
        case True
        have "\<not> bi_var_equal v1 b1 v2 b2" using ne by (auto simp: bi_var_equal_def)
        then have "unify_loop u1 u2 (p # ps) cs h = rbind (bind_var b1 v1 (v2, b2) h) (\<lambda>(c, h). unify_loop u1 u2 ps (cs @ [c]) h)"
          using r1(1) r2(1) p True by simp
        with bind [OF True r1(2) r2(2) ne A] show ?thesis unfolding E by (simp only:)
      next
        case False
        then have v2: "is_variable v2" using \<open>is_variable v1 \<or> is_variable v2\<close> by blast
        have "unify_loop u1 u2 (p # ps) cs h = rbind (bind_var b2 v2 (v1, b1) h) (\<lambda>(c, h). unify_loop u1 u2 ps (cs @ [c]) h)"
          using r1(1) r2(1) p False v2 by simp
        note step = this
        have "?A \<sigma> \<longleftrightarrow> eval \<sigma> (v2, b2) = eval \<sigma> (v1, b1)" if "models \<sigma> h" for \<sigma> using A [OF that] by auto
        note eq = this
        have "(v1, b1) \<noteq> (v2, b2)" using ne by blast
        from bind [OF v2 r2(2) r1(2) this eq] step show ?thesis unfolding E by (simp only:)
      qed
    qed
  next
    case False
    then obtain c d where c: "v1 = ObjectConstant c" "v2 = ObjectConstant d" using const_value by metis
    show ?thesis
    proof (cases "c = d")
      case True
      with c Cons.IH [OF Cons.prems] obtain r where r: "unify_loop u1 u2 (p # ps) cs h = Inr r" "solves h0 ?E r h"
        using r1(1) r2(1) p by auto
      have "?A \<sigma>" if "models \<sigma> h" for \<sigma> using A [OF that] True c by simp
      from solves_skip [where A = ?A, OF r(2) this] r(1) show ?thesis unfolding E by blast
    next
      case False
      then have step: "unify_loop u1 u2 (p # ps) cs h = Inr (None, undo_all (Some cs) h)" using c r1(1) r2(1) p by simp
      have "\<not> ?A \<sigma>" if "models \<sigma> h" for \<sigma> using A [OF that] False c by simp
      from solves_fail [where A = ?A and E = ?E, OF assms(1) Cons.prems(2) this] step show ?thesis unfolding E by blast
    qed
  qed
qed

lemma equal_lists: "length ts1 = length ts2 \<Longrightarrow> list_all (\<lambda>(t1, t2). eval \<sigma> (t1, b1) = eval \<sigma> (t2, b2)) (zip ts1 ts2) \<longleftrightarrow>
    map (\<lambda>t. eval \<sigma> (t, b1)) ts1 = map (\<lambda>t. eval \<sigma> (t, b2)) ts2"
  by (induction ts1 ts2 rule: list_induct2) auto

lemma extends_refl: "extends_by h h []"
  by (simp add: extends_by_def)

text \<open>
  C17. Unification is sound, most general and complete: on a heap without circular bindings,
  \<open>bi_unify_lists\<close> returns; when it succeeds, the valuations that agree with the new heap are
  exactly those that agree with the old one and make the lists equal (and there is one), the new
  heap has no circle, and \<open>undo_all\<close> of the reported changes gives back the old bindings; when it
  fails, the bindings are as before and no valuation that agrees with them makes the lists equal.
\<close>

theorem bi_unify_lists_correct:
  assumes "wf_heap h"
  shows "case bi_unify_lists ts1 u1 ts2 u2 h of
      Inl e \<Rightarrow> False
    | Inr (None, h') \<Rightarrow> same_heap h' h \<and>
        (\<forall>\<sigma>. models \<sigma> h \<longrightarrow> map (\<lambda>t. eval \<sigma> (t, Some u1)) ts1 \<noteq> map (\<lambda>t. eval \<sigma> (t, Some u2)) ts2)
    | Inr (Some cs, h') \<Rightarrow> wf_heap h' \<and> same_heap (undo_all (Some cs) h') h \<and> (\<exists>\<sigma>. models \<sigma> h') \<and>
        (\<forall>\<sigma>. models \<sigma> h' = (models \<sigma> h \<and> map (\<lambda>t. eval \<sigma> (t, Some u1)) ts1 = map (\<lambda>t. eval \<sigma> (t, Some u2)) ts2))"
proof (cases "length ts1 = length ts2")
  case False
  then have "map (\<lambda>t. eval \<sigma> (t, Some u1)) ts1 \<noteq> map (\<lambda>t. eval \<sigma> (t, Some u2)) ts2" for \<sigma>
    by (metis length_map)
  with False show ?thesis by (simp add: bi_unify_lists_def same_heap_def)
next
  case True
  obtain r h' where r: "unify_loop u1 u2 (zip ts1 ts2) [] h = Inr (r, h')"
    "solves h (equal_under (Some u1) (Some u2) (zip ts1 ts2)) (r, h') h"
    using unify_loop_ok [OF assms assms extends_refl, of u1 u2 "zip ts1 ts2"] by auto
  have E: "equal_under (Some u1) (Some u2) (zip ts1 ts2) =
      (\<lambda>\<sigma>. map (\<lambda>t. eval \<sigma> (t, Some u1)) ts1 = map (\<lambda>t. eval \<sigma> (t, Some u2)) ts2)"
    by (rule ext) (rule equal_lists [OF True])
  show ?thesis
  proof (cases r)
    case None
    with r True show ?thesis unfolding E by (simp add: bi_unify_lists_def solves_def)
  next
    case (Some cs)
    with r(2) have "wf_heap h'" "extends_by h h' cs" by (simp_all add: solves_def)
    with r(2) Some have h': "wf_heap h'" "same_heap (undo_all (Some cs) h') h" "\<exists>\<sigma>. models \<sigma> h'"
      "\<forall>\<sigma>. models \<sigma> h' = (models \<sigma> h \<and> map (\<lambda>t. eval \<sigma> (t, Some u1)) ts1 = map (\<lambda>t. eval \<sigma> (t, Some u2)) ts2)"
      unfolding E by (simp_all only: models_exists undo_extends) (simp add: solves_def)
    have eq: "bi_unify_lists ts1 u1 ts2 u2 h = Inr (Some cs, h')" using r(1) Some True by (simp add: bi_unify_lists_def)
    show ?thesis unfolding eq sum.case prod.case option.case using h' by blast
  qed
qed

definition unify_example :: uheap where
  "unify_example = [(1, []), (2, [])]"

lemma wf_unify_example: "wf_heap unify_example"
proof -
  have "uvalue u t unify_example = None" for u t
    by (simp add: uvalue_def contents_def unify_example_def)
  then have "steps unify_example = {}" by (simp add: steps_def)
  with \<open>\<And>u t. uvalue u t unify_example = None\<close> show ?thesis by (simp add: wf_heap_def acyclic_def)
qed

theorem bi_unify_lists_correct_witness:
  "\<exists>h'. bi_unify_lists [Variable ''x'', Variable ''x''] 1 [Variable ''y'', ObjectConstant (VInt 3)] 2 unify_example =
     Inr (Some [(Variable ''x'', 1), (Variable ''y'', 2)], h') \<and>
   (\<forall>\<sigma>. models \<sigma> h' = (models \<sigma> unify_example \<and> \<sigma> ''x'' (Some 1) = \<sigma> ''y'' (Some 2) \<and> \<sigma> ''x'' (Some 1) = VInt 3))"
proof -
  let ?xs = "[Variable ''x'', Variable ''x'']" and ?ys = "[Variable ''y'', ObjectConstant (VInt 3)]"
  let ?h = "[(1, [(Variable ''x'', (Variable ''y'', Some 2))]), (2, [(Variable ''y'', (ObjectConstant (VInt 3), Some 2))])]"
  have "bi_unify_lists ?xs 1 ?ys 2 unify_example = Inr (Some [(Variable ''x'', 1), (Variable ''y'', 2)], ?h)" by code_simp
  with bi_unify_lists_correct [OF wf_unify_example, of 1 ?xs 2 ?ys] show ?thesis by auto
qed

section \<open>Renaming\<close>

text \<open>Building an injective renaming pair by pair, without heaps.\<close>

fun build_renaming :: "(string \<times> string) list \<Rightarrow> (trm \<times> trm) list \<Rightarrow> (string \<times> string) list option" where
  "build_renaming m [] = Some m"
| "build_renaming m ((Variable a, Variable b) # ps) =
     (case map_of m a of
        Some b' \<Rightarrow> if b' = b then build_renaming m ps else None
      | None \<Rightarrow> if b \<in> snd ` set m then None else build_renaming ((a, b) # m) ps)"
| "build_renaming m ((ObjectConstant c, ObjectConstant d) # ps) = (if c = d then build_renaming m ps else None)"
| "build_renaming m (p # ps) = None"

fun rename_term :: "(string \<Rightarrow> string) \<Rightarrow> trm \<Rightarrow> trm" where
  "rename_term f (Variable n) = Variable (f n)"
| "rename_term f (ObjectConstant c) = ObjectConstant c"

definition vars_of :: "trm list \<Rightarrow> string set" where
  "vars_of ts = {n. Variable n \<in> set ts}"

definition renames :: "(string \<times> string) list \<Rightarrow> (trm \<times> trm) list \<Rightarrow> (string \<Rightarrow> string) \<Rightarrow> bool" where
  "renames m ps f = ((\<forall>(a, b) \<in> set m. f a = b) \<and> inj_on f (fst ` set m \<union> vars_of (map fst ps)) \<and>
     (\<forall>(t1, t2) \<in> set ps. rename_term f t1 = t2))"

lemma build_renaming_iff:
  "dict_ok m \<Longrightarrow> distinct (map snd m) \<Longrightarrow> build_renaming m ps \<noteq> None \<longleftrightarrow> (\<exists>f. renames m ps f)"
proof (induction m ps rule: build_renaming.induct)
  case (1 m)
  have "inj_on snd (set m)" using 1(2) by (simp add: distinct_map)
  define f where "f a = (case map_of m a of Some b \<Rightarrow> b | None \<Rightarrow> a)" for a
  have fm: "f a = b" if "(a, b) \<in> set m" for a b using that 1(1) by (simp add: f_def)
  have "inj_on f (fst ` set m)"
  proof (rule inj_onI)
    fix x y assume "x \<in> fst ` set m" "y \<in> fst ` set m" "f x = f y"
    then obtain b where "(x, b) \<in> set m" "(y, b) \<in> set m" using fm by force
    then show "x = y" using \<open>inj_on snd (set m)\<close> by (metis inj_onD prod.inject snd_conv)
  qed
  with fm have "renames m [] f" by (auto simp: renames_def vars_of_def)
  then show ?case by auto
next
  case (2 m a b ps)
  show ?case
  proof (cases "map_of m a")
    case None
    then have a: "a \<notin> fst ` set m" by (simp add: map_of_None_keys)
    show ?thesis
    proof (cases "b \<in> snd ` set m")
      case True
      have "\<not> renames m ((Variable a, Variable b) # ps) f" for f
      proof
        assume f: "renames m ((Variable a, Variable b) # ps) f"
        obtain x where "(x, b) \<in> set m" using True by auto
        then have "fst (x, b) \<in> fst ` set m" by (rule imageI)
        then have x: "f x = b" "x \<in> fst ` set m" using f \<open>(x, b) \<in> set m\<close> by (auto simp: renames_def)
        have "a \<in> vars_of (map fst ((Variable a, Variable b) # ps))" by (simp add: vars_of_def)
        then have "f a = f x \<longleftrightarrow> a = x" using f x(2) unfolding renames_def by (meson UnCI inj_on_eq_iff)
        moreover have "f a = b" using f by (simp add: renames_def)
        ultimately show False using a x by simp
      qed
      with True None show ?thesis by simp
    next
      case False
      have "renames ((a, b) # m) ps f \<longleftrightarrow> renames m ((Variable a, Variable b) # ps) f" for f
      proof -
        have "fst ` set ((a, b) # m) \<union> vars_of (map fst ps) = fst ` set m \<union> vars_of (map fst ((Variable a, Variable b) # ps))"
          by (auto simp: vars_of_def)
        then show ?thesis unfolding renames_def by auto
      qed
      with 2(1) [OF None False] 2(3,4) None False a show ?thesis by simp
    qed
  next
    case (Some b')
    then have mem: "(a, b') \<in> set m" by (rule map_of_SomeD)
    show ?thesis
    proof (cases "b' = b")
      case True
      have "renames m ps f \<longleftrightarrow> renames m ((Variable a, Variable b) # ps) f" for f
      proof -
        have "fst ` set m \<union> vars_of (map fst ps) = fst ` set m \<union> vars_of (map fst ((Variable a, Variable b) # ps))"
          using mem by (force simp: vars_of_def)
        then show ?thesis using mem True unfolding renames_def by auto
      qed
      with 2(2) [OF Some True] 2(3,4) Some True show ?thesis by simp
    next
      case False
      then have "\<not> renames m ((Variable a, Variable b) # ps) f" for f using mem by (auto simp: renames_def)
      with False Some show ?thesis by simp
    qed
  qed
next
  case (3 m c d ps)
  have "renames m ((ObjectConstant c, ObjectConstant d) # ps) f \<longleftrightarrow> c = d \<and> renames m ps f" for f
    by (auto simp: renames_def vars_of_def)
  with 3 show ?case by auto
qed (auto simp: renames_def)

text \<open>The two unifiers of \<open>same\<close> after some pairs: the first renames, the second is empty.\<close>

definition renaming_heap :: "uid \<Rightarrow> uid \<Rightarrow> (string \<times> string) list \<Rightarrow> trm list \<Rightarrow> uheap \<Rightarrow> bool" where
  "renaming_heap u1 u2 m bound2 h = (u1 \<noteq> u2 \<and> wf_heap h \<and>
     (\<forall>t. uvalue u1 t h = (case t of Variable a \<Rightarrow> map_option (\<lambda>b. (Variable b, Some u2)) (map_of m a) | _ \<Rightarrow> None)) \<and>
     (\<forall>t. uvalue u2 t h = None) \<and> set bound2 = Variable ` snd ` set m \<and> dict_ok m \<and> distinct (map snd m))"

lemma resolve_unbound: "uvalue u t h = None \<Longrightarrow> resolve h u t = Inr (t, Some u)"
  by (simp add: resolve_def ufuel_def rename_apart_def)

lemma resolve_renaming:
  assumes "renaming_heap u1 u2 m bound2 h"
  shows "resolve h u2 t = Inr (t, Some u2)"
    "resolve h u1 (ObjectConstant c) = Inr (ObjectConstant c, Some u1)"
    "resolve h u1 (Variable a) = Inr (case map_of m a of None \<Rightarrow> (Variable a, Some u1) | Some b \<Rightarrow> (Variable b, Some u2))"
proof -
  have wf: "wf_heap h" and u1: "\<And>t. uvalue u1 t h = (case t of Variable a \<Rightarrow> map_option (\<lambda>b. (Variable b, Some u2)) (map_of m a) | _ \<Rightarrow> None)"
    and u2: "\<And>t. uvalue u2 t h = None" using assms by (auto simp: renaming_heap_def)
  show "resolve h u2 t = Inr (t, Some u2)" for t using resolve_unbound u2 by simp
  show "resolve h u1 (ObjectConstant c) = Inr (ObjectConstant c, Some u1)" using resolve_unbound u1 by simp
  show "resolve h u1 (Variable a) = Inr (case map_of m a of None \<Rightarrow> (Variable a, Some u1) | Some b \<Rightarrow> (Variable b, Some u2))"
  proof (cases "map_of m a")
    case None
    then show ?thesis using resolve_unbound [of u1 "Variable a" h] u1 [of "Variable a"] by simp
  next
    case (Some b)
    then have "resolve h u1 (Variable a) = resolve h u2 (Variable b)"
      using resolve_step [OF wf, of u1 "Variable a" "Variable b" u2] u1 [of "Variable a"] by simp
    with Some u2 resolve_unbound show ?thesis by simp
  qed
qed

lemma renaming_heap_add:
  assumes r: "renaming_heap u1 u2 m bound2 h" and a: "map_of m a = None" and b: "b \<notin> snd ` set m"
  shows "renaming_heap u1 u2 ((a, b) # m) (set_add (Variable b) bound2) (snd (uadd u1 (Variable a) (Variable b, Some u2) h))"
proof -
  have "uvalue u1 (Variable a) h = None" "uvalue u2 (Variable b) h = None" "wf_heap h" "u1 \<noteq> u2"
    using r a by (simp_all add: renaming_heap_def)
  then have "wf_heap (snd (uadd u1 (Variable a) (Variable b, Some u2) h))"
    by (intro uadd_ok(1)) (simp_all add: root_def)
  moreover have "a \<notin> fst ` set m" using a by (simp add: map_of_None_keys)
  ultimately show ?thesis
    using r b unfolding renaming_heap_def uvalue_uadd by (auto split: trm.splits)
qed

lemma same_loop_ok:
  assumes "renaming_heap u1 u2 m bound2 h"
  shows "\<exists>r bound' h'. same_loop u1 u2 ps cs bound2 h = Inr (r, bound', h') \<and>
    (case build_renaming m ps of None \<Rightarrow> r = None | Some m' \<Rightarrow> r \<noteq> None \<and> renaming_heap u1 u2 m' bound' h')"
  using assms
proof (induction m ps arbitrary: cs bound2 h rule: build_renaming.induct)
  case (2 m a b ps)
  note res = resolve_renaming [OF 2(3)]
  have ne: "u1 \<noteq> u2" and bound: "set bound2 = Variable ` snd ` set m" using 2(3) by (simp_all add: renaming_heap_def)
  show ?case
  proof (cases "map_of m a")
    case None
    show ?thesis
    proof (cases "b \<in> snd ` set m")
      case True
      then have "Variable b \<in> set bound2" using bound by simp
      with None True ne show ?thesis by (simp add: res bi_var_equal_def)
    next
      case False
      then have "Variable b \<notin> set bound2" using bound by auto
      with None False ne 2(1) [OF None False renaming_heap_add [OF 2(3) None False], of "cs @ [(Variable a, u1)]"]
      show ?thesis by (simp add: res bi_var_equal_def bind_var_def uadd_def Let_def)
    qed
  next
    case (Some b')
    with 2(2) [OF Some _ 2(3), of cs] ne show ?thesis by (simp add: res bi_var_equal_def Let_def)
  qed
next
  case (3 m c d ps)
  with resolve_renaming [OF 3(2)] show ?case by (cases "c = d") (simp_all add: Let_def)
qed (auto simp: resolve_renaming Let_def split: option.splits)

lemma build_renaming_append:
  "build_renaming m (ps @ qs) = (case build_renaming m ps of None \<Rightarrow> None | Some m' \<Rightarrow> build_renaming m' qs)"
  by (induction m ps rule: build_renaming.induct) (auto split: option.splits)

abbreviation arg_pairs :: "(literal \<times> literal) list \<Rightarrow> (trm \<times> trm) list" where
  "arg_pairs ps \<equiv> concat (map (\<lambda>(a, b). zip (arguments a) (arguments b)) ps)"

lemma same_atoms_list_ok:
  assumes "renaming_heap u1 u2 m bound2 h"
  shows "\<exists>ok h'. same_atoms_list ps u1 u2 bound2 h = Inr (ok, h') \<and>
    (ok \<longleftrightarrow> list_all (\<lambda>(a, b). same_schema None a b) ps \<and> build_renaming m (arg_pairs ps) \<noteq> None)"
  using assms
proof (induction ps arbitrary: m bound2 h)
  case (Cons p ps)
  obtain a b where p: "p = (a, b)" by (cases p)
  show ?case
  proof (cases "same_schema None a b")
    case True
    let ?zs = "zip (arguments a) (arguments b)"
    obtain r bound' h' where r: "same_loop u1 u2 ?zs [] bound2 h = Inr (r, bound', h')"
      "case build_renaming m ?zs of None \<Rightarrow> r = None | Some m' \<Rightarrow> r \<noteq> None \<and> renaming_heap u1 u2 m' bound' h'"
      using same_loop_ok [OF Cons.prems, of ?zs "[]"] by blast
    show ?thesis
    proof (cases "build_renaming m ?zs")
      case None
      with r True p show ?thesis by (auto simp: same_atoms_def build_renaming_append)
    next
      case (Some m')
      with r(2) obtain cs where cs: "r = Some cs" "renaming_heap u1 u2 m' bound' h'" by auto
      from Cons.IH [OF cs(2)] r(1) cs(1) Some True p show ?thesis
        by (auto simp: same_atoms_def build_renaming_append)
    qed
  qed (auto simp: p same_atoms_def)
qed auto

lemma fold_max_ge: "m \<le> fold max xs m \<and> (\<forall>x \<in> set xs. x \<le> fold max xs (m :: nat))"
proof (induction xs arbitrary: m)
  case (Cons x xs)
  from Cons [of "max x m"] show ?case by auto
qed simp

lemma fresh_uid_new: "map_of h (fresh_uid h) = None"
proof -
  have "fresh_uid h \<notin> set (dkeys h)" using fold_max_ge [of 0 "dkeys h"] by (fastforce simp: fresh_uid_def)
  then show ?thesis by (simp add: map_of_None_keys)
qed

lemma new_unifier_ok:
  assumes "new_unifier h = (u, h')"
  shows "same_heap h' h" "\<And>t. uvalue u t h' = None" "map_of h' u \<noteq> None" "map_of h u = None"
    "\<And>u'. map_of h u' \<noteq> None \<Longrightarrow> map_of h' u' \<noteq> None"
  using assms fresh_uid_new [of h]
  by (auto simp: new_unifier_def Let_def same_heap_def uvalue_def contents_update contents_def)

lemma same_pairs_ok:
  assumes "wf_heap h"
  shows "\<exists>r h'. same_pairs ps h = Inr (r, h') \<and>
    (r \<noteq> None \<longleftrightarrow> list_all (\<lambda>(a, b). same_schema None a b) ps \<and> (\<exists>f. renames [] (arg_pairs ps) f))"
proof -
  obtain u1 h1 where n1: "new_unifier h = (u1, h1)" by fastforce
  obtain u2 h2 where n2: "new_unifier h1 = (u2, h2)" by fastforce
  note n1' = new_unifier_ok [OF n1] and n2' = new_unifier_ok [OF n2]
  have "u1 \<noteq> u2" using n1'(3) n2'(4) by auto
  moreover have "wf_heap h2" using assms same_heap_wf [OF n1'(1)] same_heap_wf [OF n2'(1)] by simp
  moreover have "uvalue u1 t h2 = None" for t using n1'(2) n2'(1) by (simp add: same_heap_def)
  ultimately have "renaming_heap u1 u2 [] [] h2"
    using n2'(2) by (auto simp: renaming_heap_def split: trm.splits)
  from same_atoms_list_ok [OF this, of ps] build_renaming_iff [of "[]" "arg_pairs ps"] n1 n2
  show ?thesis by (auto simp: same_pairs_def Let_def)
qed

text \<open>
  Two lists of literals agree up to an injective renaming of the variables: the same tables, the same
  negation, and renamed arguments. (Named arguments are not compared; the engine resolves
  them to positions before.)
\<close>

definition renamed :: "(string \<Rightarrow> string) \<Rightarrow> literal \<Rightarrow> literal \<Rightarrow> bool" where
  "renamed f l m =
     (tablename_same None (table l) (table m) \<and> negated l = negated m \<and> map (rename_term f) (arguments l) = arguments m)"

definition variants :: "literal list \<Rightarrow> literal list \<Rightarrow> bool" where
  "variants ls ms = (\<exists>f. inj_on f (\<Union>l \<in> set ls. vars_of (arguments l)) \<and> list_all2 (renamed f) ls ms)"

definition positive :: "literal \<Rightarrow> literal" where
  "positive l = l\<lparr>negated := False\<rparr>"

lemma positive_variants:
  "variants (map positive ls) (map positive ms) \<longleftrightarrow>
     (\<exists>f. inj_on f (\<Union>l \<in> set ls. vars_of (arguments l)) \<and>
        list_all2 (\<lambda>l m. tablename_same None (table l) (table m) \<and> map (rename_term f) (arguments l) = arguments m) ls ms)"
  by (simp add: variants_def renamed_def positive_def list_all2_map1 list_all2_map2)

lemma variants_positive:
  "variants ls ms \<longleftrightarrow> map negated ls = map negated ms \<and> variants (map positive ls) (map positive ms)"
proof -
  have "list_all2 (renamed f) ls ms \<longleftrightarrow> map negated ls = map negated ms \<and>
      list_all2 (\<lambda>l m. tablename_same None (table l) (table m) \<and> map (rename_term f) (arguments l) = arguments m) ls ms" for f
    by (auto simp: renamed_def list_all2_conv_all_nth list_eq_iff_nth_eq)
  then show ?thesis unfolding positive_variants unfolding variants_def by blast
qed

lemma renames_variants:
  assumes "length ls = length ms"
  shows "list_all (\<lambda>(a, b). same_schema None a b) (zip ls ms) \<and> (\<exists>f. renames [] (arg_pairs (zip ls ms)) f) \<longleftrightarrow>
    variants (map positive ls) (map positive ms)"
proof -
  have eq: "list_all (\<lambda>(a, b). same_schema None a b) (zip ls ms) \<and> renames [] (arg_pairs (zip ls ms)) f \<longleftrightarrow>
      inj_on f (\<Union>l \<in> set ls. vars_of (arguments l)) \<and>
      list_all2 (\<lambda>l m. tablename_same None (table l) (table m) \<and> map (rename_term f) (arguments l) = arguments m) ls ms" for f
  proof (cases "list_all (\<lambda>(a, b). length (arguments a) = length (arguments b)) (zip ls ms)")
    case True
    have "map fst (arg_pairs (zip ls ms)) = concat (map arguments ls)"
      using assms True by (induction ls ms rule: list_induct2) simp_all
    then have "vars_of (map fst (arg_pairs (zip ls ms))) = (\<Union>l \<in> set ls. vars_of (arguments l))"
      by (auto simp: vars_of_def)
    moreover have "(\<forall>(t1, t2) \<in> set (arg_pairs (zip ls ms)). rename_term f t1 = t2) \<longleftrightarrow>
        list_all2 (\<lambda>l m. map (rename_term f) (arguments l) = arguments m) ls ms"
      using assms True
    proof (induction ls ms rule: list_induct2)
      case (Cons l ls m ms)
      have "(\<forall>(t1, t2) \<in> set (zip ts us). rename_term f t1 = t2) \<longleftrightarrow> map (rename_term f) ts = us" if "length ts = length us" for ts us
        using that by (induction ts us rule: list_induct2) auto
      with Cons show ?case by (auto simp: ball_Un)
    qed simp
    moreover have "list_all (\<lambda>(a, b). same_schema None a b) (zip ls ms) \<longleftrightarrow>
        list_all2 (\<lambda>l m. tablename_same None (table l) (table m)) ls ms"
      using assms True by (induction ls ms rule: list_induct2) (auto simp: same_schema_def)
    ultimately show ?thesis
      using assms by (auto simp: renames_def list_all2_conv_all_nth)
  next
    case False
    have "\<not> list_all (\<lambda>(a, b). same_schema None a b) (zip ls ms)" using False by (auto simp: list_all_iff same_schema_def)
    moreover have "\<not> list_all2 (\<lambda>l m. tablename_same None (table l) (table m) \<and> map (rename_term f) (arguments l) = arguments m) ls ms"
    proof
      assume "list_all2 (\<lambda>l m. tablename_same None (table l) (table m) \<and> map (rename_term f) (arguments l) = arguments m) ls ms"
      then have "list_all (\<lambda>(a, b). length (arguments a) = length (arguments b)) (zip ls ms)"
        by (induction rule: list_all2_induct) (auto dest: arg_cong [of _ _ length])
      with False show False by blast
    qed
    ultimately show ?thesis by blast
  qed
  then show ?thesis unfolding positive_variants by blast
qed

text \<open>
  C28. What \<open>same\<close> decides, on a heap without circular bindings. It returns (but for an attribute
  error when a formula is compared with a fact). Two literals are the same exactly when they are
  variants. Two rules are the same exactly when their first heads and bodies, literal by literal and with
  all negations dropped, are variants under one renaming; so for rules that negate the same literals
  \<open>same\<close> is equality up to a renaming of variables, as its comment says, and for others it is
  not (\<open>same_ignores_negation\<close>). A literal and a rule are never the same.
\<close>

theorem same_correct:
  assumes "wf_heap h"
  shows "\<exists>r h'. same f g h = Inr (r, h') \<and>
     (case (f, g) of
        (FLit a, FLit b) \<Rightarrow> (r \<noteq> None) = variants [a] [b]
      | (FRule a, FRule b) \<Rightarrow>
          (r \<noteq> None) = variants (map positive (rule_head a # body a)) (map positive (rule_head b # body b)) \<and>
          (map negated (rule_head a # body a) = map negated (rule_head b # body b) \<longrightarrow>
             (r \<noteq> None) = variants (rule_head a # body a) (rule_head b # body b))
      | _ \<Rightarrow> r = None) \<or> same f g h = Inl AttributeError \<and> (\<exists>x. g = FFact x)"
proof -
  have pairs: "\<exists>r h'. same_pairs (zip ls ms) h = Inr (r, h') \<and> (r \<noteq> None \<longleftrightarrow> variants (map positive ls) (map positive ms))"
    if "length ls = length ms" for ls ms
    using same_pairs_ok [OF assms, of "zip ls ms"] renames_variants [OF that] by auto
  have len: "variants ls ms \<Longrightarrow> length ls = length ms" for ls ms by (auto simp: variants_def dest: list_all2_lengthD)
  note neg = variants_positive
  show ?thesis
  proof (cases f)
    case (FLit a)
    with pairs [of "[a]" "[b]" for b] neg [of "[a]" "[b]" for b] show ?thesis by (cases g) auto
  next
    case f: (FRule r)
    show ?thesis
    proof (cases g)
      case (FRule s)
      let ?r = "rule_head r # body r" and ?s = "rule_head s # body s"
      show ?thesis
      proof (cases "length (body r) = length (body s)")
        case True
        then obtain q h' where q: "same_pairs (zip ?r ?s) h = Inr (q, h')" "(q \<noteq> None) = variants (map positive ?r) (map positive ?s)"
          using pairs [of ?r ?s] by auto
        moreover from q(2) have "map negated ?r = map negated ?s \<longrightarrow> (q \<noteq> None) = variants ?r ?s" using neg [of ?r ?s] by blast
        moreover have "same f g h = Inr (q, h')" using q(1) True f FRule by simp
        ultimately show ?thesis unfolding f FRule by (simp del: list.map)
      next
        case False
        with len [of "map positive ?r" "map positive ?s"] len [of ?r ?s] f FRule show ?thesis by auto
      qed
    qed (use f in auto)
  qed auto
qed

theorem same_correct_witness:
  "\<exists>h'. same (FLit (lit ''p'' [Variable ''x'', Variable ''y''])) (FLit (lit ''p'' [Variable ''z'', Variable ''z''])) unify_example = Inr (None, h') \<and>
     \<not> variants [lit ''p'' [Variable ''x'', Variable ''y'']] [lit ''p'' [Variable ''z'', Variable ''z'']]"
proof -
  let ?f = "FLit (lit ''p'' [Variable ''x'', Variable ''y''])" and ?g = "FLit (lit ''p'' [Variable ''z'', Variable ''z''])"
  have "map_sum id fst (same ?f ?g unify_example) = Inr None" by code_simp
  with same_correct [OF wf_unify_example, of ?f ?g] show ?thesis by auto
qed

text \<open>
  \<open>same\<close> ignores the negation of body literals: \<open>p(x) :- q(x)\<close> and \<open>p(x) :- not q(x)\<close> are the
  same, but are no variants.
\<close>

theorem same_ignores_negation:
  "let r = \<lparr>heads = [lit ''p'' [Variable ''x'']], body = [lit ''q'' [Variable ''x'']]\<rparr>;
       s = r\<lparr>body := [lit_complement (lit ''q'' [Variable ''x''])]\<rparr>
   in map_sum id fst (same (FRule r) (FRule s) []) = Inr (Some (1, 2)) \<and>
      \<not> variants (rule_head r # body r) (rule_head s # body s)"
proof -
  let ?r = "\<lparr>heads = [lit ''p'' [Variable ''x'']], body = [lit ''q'' [Variable ''x'']]\<rparr>"
  let ?s = "?r\<lparr>body := [lit_complement (lit ''q'' [Variable ''x''])]\<rparr>"
  have "map_sum id fst (same (FRule ?r) (FRule ?s) []) = Inr (Some (1, 2))" by code_simp
  moreover have "\<not> variants (rule_head ?r # body ?r) (rule_head ?s # body ?s)"
    by (subst variants_positive) (simp add: lit_complement_def lit_def)
  ultimately show ?thesis by (simp only: Let_def) simp
qed

text \<open>
  Two routines raise \<open>TypeError\<close> on ordinary input: \<open>match_tuple_atom\<close> on any atom that
  has a variable (before its first failed comparison there is none), and \<open>instance\<close> on rules
  with a body whose heads match.
\<close>

theorem unify_type_errors:
  "match_tuple_atom [v] (lit t [Variable x]) = Inl TypeError \<and>
   match_tuple_atom [VInt 1] (lit t [ObjectConstant (VInt 2)]) = Inr (Some []) \<and>
   is_instance (FRule rule_example) (FRule rule_example) [] = Inl TypeError"
proof -
  have "is_instance (FRule rule_example) (FRule rule_example) [] = Inl TypeError" by code_simp
  then show ?thesis by (simp add: match_tuple_atom_def lit_def)
qed

end
