(* ===== verification/Top_Down.thy ===== *)
theory Top_Down
  imports Policy Unify
begin

text \<open>
  \<open>topdown.TopDownTheory\<close>: the search that answers queries. A context is a list of literals with
  the position of the current one, the unifier of its variables, the policy its literals are
  evaluated in, and the context to return to when the last literal is proved. The caller holds the
  variables of the query. The literals proved so far leave their bindings in the heap of
  unifiers, which each step undoes before it returns.

  The policies are read through \<open>head_index\<close>, which may create an index, so the search threads the
  dictionary of policies as well as the heap. Printing is left out, and with it the depth of a
  context. The recursion is \<open>top_down_eval\<close> on a number of calls (fuel); the other routines take
  the evaluator as a parameter.
\<close>

declare map_of_eq_Some_iff [simp del] Some_eq_map_of_iff [simp del]

section \<open>State of the search\<close>

datatype td_context = Root | Context "literal list" nat uid td_context string

record top_caller = caller +
  find_all :: bool
  save :: "(literal \<Rightarrow> uid \<Rightarrow> bool) option"

record td_result =
  rbinding :: "(trm, trm) dict"
  rsupport :: "literal list"

record td_state =
  theap :: uheap
  tworld :: world
  tsupport :: "(literal \<times> uid) list"
  tresults :: "td_result list"

text \<open>
  What the code of a builtin does: raise, or return a value, an iterable of values or \<open>None\<close>.
  The environment has the registry, the code, and \<open>str(id(u))\<close> for each unifier.
\<close>

datatype builtin_result = BRaise | BValue pyval | BValues "pyval list" | BNone

record 'c env =
  registry_of :: "'c registry"
  code_of :: "'c \<Rightarrow> pyval list \<Rightarrow> builtin_result"
  str_id :: "uid \<Rightarrow> string"

type_synonym evaluator = "string \<Rightarrow> td_context \<Rightarrow> top_caller \<Rightarrow> (td_state, bool) stm"

definition on_heap :: "(uheap \<Rightarrow> ('a \<times> uheap) res) \<Rightarrow> (td_state, 'a) stm" where
  "on_heap f s = (case f (theap s) of Inl e \<Rightarrow> (Inl e, s) | Inr (x, h) \<Rightarrow> (Inr x, s\<lparr>theap := h\<rparr>))"

definition on_world :: "(world, 'a) stm \<Rightarrow> (td_state, 'a) stm" where
  "on_world f s = (case f (tworld s) of (r, w) \<Rightarrow> (r, s\<lparr>tworld := w\<rparr>))"

definition undo_st :: "undo list \<Rightarrow> (td_state, unit) stm" where
  "undo_st cs = on_heap (\<lambda>h. Inr ((), undo_all (Some cs) h))"

definition new_bi_unifier :: "(td_state, uid) stm" where
  "new_bi_unifier = on_heap (\<lambda>h. Inr (new_unifier h))"

text \<open>\<open>Literal.plug\<close> with a unifier.\<close>

definition uplug :: "(uid \<Rightarrow> string) \<Rightarrow> caller option \<Rightarrow> uheap \<Rightarrow> uid \<Rightarrow> literal \<Rightarrow> literal res" where
  "uplug sid caller h u l =
     rbind (map_res (uapply sid caller h u) (arguments l)) (\<lambda>args. Inr (l\<lparr>arguments := args\<rparr>))"

section \<open>Finishing a literal\<close>

definition record_answer :: "'c env \<Rightarrow> top_caller \<Rightarrow> (td_state, bool) stm" where
  "record_answer E c s =
     (case rbind (map_res (\<lambda>v. rbind (uapply (str_id E) None (theap s) (cbinding c) v) (\<lambda>t. Inr (v, t))) (cvariables c))
         (\<lambda>b. rbind (map_res (\<lambda>(l, u). uplug (str_id E) (Some (caller.truncate c)) (theap s) u l) (tsupport s))
         (\<lambda>sup. Inr \<lparr>rbinding = b, rsupport = sup\<rparr>)) of
        Inl e \<Rightarrow> (Inl e, s)
      | Inr r \<Rightarrow> (Inr True, s\<lparr>tresults := tresults s @ [r]\<rparr>))"

fun top_down_finish :: "'c env \<Rightarrow> evaluator \<Rightarrow> td_context \<Rightarrow> top_caller \<Rightarrow> (td_state, bool) stm" where
  "top_down_finish E ev Root c = record_answer E c"
| "top_down_finish E ev (Context lits i u prev th) c =
     (if i + 1 < length lits then ev th (Context lits (i + 1) u prev th) c
      else top_down_finish E ev prev c)"

text \<open>Abduction: the literal is taken as an assumption, until the search comes back.\<close>

definition save_literal :: "'c env \<Rightarrow> evaluator \<Rightarrow> literal \<Rightarrow> uid \<Rightarrow> td_context \<Rightarrow> top_caller \<Rightarrow> (td_state, bool) stm" where
  "save_literal E ev l u ctx c s =
     sbind (top_down_finish E ev ctx c) (\<lambda>ok s. (Inr ok, s\<lparr>tsupport := butlast (tsupport s)\<rparr>))
       (s\<lparr>tsupport := tsupport s @ [(l, u)]\<rparr>)"

section \<open>Builtins\<close>

fun truth_value :: "builtin_result \<Rightarrow> bool" where
  "truth_value (BValue (VStr x)) = (x \<noteq> [])"
| "truth_value (BValue (VInt i)) = (i \<noteq> 0)"
| "truth_value (BValue (VFlt q)) = (q \<noteq> 0)"
| "truth_value (BValues vs) = (vs \<noteq> [])"
| "truth_value _ = False"

text \<open>
  The inputs of a builtin: the values of the arguments, or \<open>None\<close> when an unbound one makes the
  literal an assumption. Outside of abduction the assertion's message raises \<open>AttributeError\<close>
  (it reads \<open>num_inputs\<close> of the module \<open>builtin\<close>).
\<close>

fun builtin_inputs :: "bool \<Rightarrow> nat \<Rightarrow> trm list \<Rightarrow> pyval list option res" where
  "builtin_inputs saving 0 ts = Inr (Some [])"
| "builtin_inputs saving (Suc n) [] = Inl IndexError"
| "builtin_inputs saving (Suc n) (Variable x # ts) = (if saving then Inr None else Inl AttributeError)"
| "builtin_inputs saving (Suc n) (ObjectConstant v # ts) =
     rbind (builtin_inputs saving n ts) (\<lambda>vs. Inr (map_option ((#) v) vs))"

text \<open>The values that are unified with the outputs.\<close>

fun output_terms :: "builtin_result \<Rightarrow> trm list res" where
  "output_terms (BValue v) = Inr [ObjectConstant v]"
| "output_terms (BValues vs) = Inr (map ObjectConstant vs)"
| "output_terms _ = Inl TypeError"

definition call_builtin ::
    "'c env \<Rightarrow> evaluator \<Rightarrow> 'c pred \<Rightarrow> literal \<Rightarrow> uid \<Rightarrow> pyval list \<Rightarrow> td_context \<Rightarrow> top_caller \<Rightarrow> (td_state, bool) stm" where
  "call_builtin E ev p l u args ctx c =
     (case code_of E (code p) args of
        BRaise \<Rightarrow> sret False
      | result \<Rightarrow>
          if num_outputs p > 0 then
            (case output_terms result of
               Inl e \<Rightarrow> sraise e
             | Inr outs \<Rightarrow>
                 sbind new_bi_unifier (\<lambda>u'.
                 sbind (on_heap (bi_unify_lists outs u' (drop (num_inputs p) (arguments l)) u)) (\<lambda>r.
                   case r of
                     None \<Rightarrow> sret False
                   | Some cs \<Rightarrow>
                       sbind (top_down_finish E ev ctx c) (\<lambda>ok. sbind (undo_st cs) (\<lambda>_. sret ok)))))
          else if truth_value result then top_down_finish E ev ctx c
          else sret False)"

definition top_down_builtin :: "'c env \<Rightarrow> evaluator \<Rightarrow> literal \<Rightarrow> uid \<Rightarrow> td_context \<Rightarrow> top_caller \<Rightarrow> (td_state, bool) stm" where
  "top_down_builtin E ev l u ctx c s =
     (case lookup_builtin (tbl (table l)) (registry_of E) of
        None \<Rightarrow> (Inl AttributeError, s)
      | Some p \<Rightarrow>
          (case rbind (uplug (str_id E) None (theap s) u l) (\<lambda>pl. builtin_inputs (save c \<noteq> None) (num_inputs p) (arguments pl)) of
             Inl e \<Rightarrow> (Inl e, s)
           | Inr None \<Rightarrow> save_literal E ev l u ctx c s
           | Inr (Some args) \<Rightarrow> call_builtin E ev p l u args ctx c s))"

section \<open>Rules\<close>

primrec try_rules ::
    "'c env \<Rightarrow> evaluator \<Rightarrow> string \<Rightarrow> literal \<Rightarrow> uid \<Rightarrow> td_context \<Rightarrow> top_caller \<Rightarrow> rule list \<Rightarrow> (td_state, bool) stm" where
  "try_rules E ev name l u ctx c [] = sret False"
| "try_rules E ev name l u ctx c (r # rs) =
     sbind new_bi_unifier (\<lambda>u'.
     sbind (on_heap (bi_unify_atoms (Some name) (rule_head r) u' l u)) (\<lambda>cs.
       case cs of
         None \<Rightarrow> try_rules E ev name l u ctx c rs
       | Some cs \<Rightarrow>
           sbind (if body r = [] then top_down_finish E ev ctx c
                  else ev name (Context (body r) 0 u' ctx name) c) (\<lambda>ok.
           sbind (undo_st cs) (\<lambda>_.
             if ok \<and> \<not> find_all c then sret True else try_rules E ev name l u ctx c rs))))"

definition top_down_th :: "'c env \<Rightarrow> evaluator \<Rightarrow> string \<Rightarrow> literal \<Rightarrow> uid \<Rightarrow> td_context \<Rightarrow> top_caller \<Rightarrow> (td_state, bool) stm" where
  "top_down_th E ev name l u ctx c s =
     (case uplug (str_id E) None (theap s) u l of
        Inl e \<Rightarrow> (Inl e, s)
      | Inr pl \<Rightarrow> sbind (on_world (head_index name (tbl (table l)) (Some pl))) (try_rules E ev name l u ctx c) s)"

primrec try_included :: "top_caller \<Rightarrow> (string \<Rightarrow> (td_state, bool) stm) \<Rightarrow> string list \<Rightarrow> (td_state, bool) stm" where
  "try_included c f [] = sret False"
| "try_included c f (th # ths) =
     sbind (f th) (\<lambda>ok. if ok \<and> \<not> find_all c then sret True else try_included c f ths)"

primrec top_down_includes ::
    "nat \<Rightarrow> 'c env \<Rightarrow> evaluator \<Rightarrow> string \<Rightarrow> literal \<Rightarrow> uid \<Rightarrow> td_context \<Rightarrow> top_caller \<Rightarrow> (td_state, bool) stm" where
  "top_down_includes 0 E ev name l u ctx c = sraise OutOfFuel"
| "top_down_includes (Suc n) E ev name l u ctx c =
     sbind (top_down_th E ev name l u ctx c) (\<lambda>ok s.
       if ok \<and> \<not> find_all c then (Inr True, s)
       else try_included c (\<lambda>th. top_down_includes n E ev th l u ctx c) (pincludes (policy_at (tworld s) name)) s)"

section \<open>Evaluation\<close>

text \<open>A literal that names another policy is evaluated there.\<close>

definition elsewhere :: "world \<Rightarrow> string \<Rightarrow> literal \<Rightarrow> bool" where
  "elsewhere w name l =
     (plinked (policy_at w name) \<and> service (table l) \<noteq> None \<and> modal (table l) = None \<and>
      service (table l) \<noteq> Some name \<and> \<not> lit_is_update l)"

definition negation_as_failure :: "evaluator \<Rightarrow> string \<Rightarrow> literal \<Rightarrow> uid \<Rightarrow> top_caller \<Rightarrow> (td_state, bool) stm" where
  "negation_as_failure ev name l u c s =
     (case ev name (Context [lit_complement l] 0 u Root name) (c\<lparr>find_all := False, save := None\<rparr>)
         (s\<lparr>tsupport := [], tresults := []\<rparr>) of
        (Inl e, s') \<Rightarrow> (Inl e, s'\<lparr>tsupport := tsupport s, tresults := tresults s\<rparr>)
      | (Inr _, s') \<Rightarrow> (Inr (tresults s' = []), s'\<lparr>tsupport := tsupport s, tresults := tresults s\<rparr>))"

text \<open>\<open>_top_down_truth\<close>, which a kind of policy may replace, is the parameter \<open>truth\<close>.\<close>

definition eval_literal_with ::
    "(td_state, bool) stm \<Rightarrow> 'c env \<Rightarrow> evaluator \<Rightarrow> string \<Rightarrow> literal \<Rightarrow> uid \<Rightarrow> td_context \<Rightarrow> top_caller \<Rightarrow> (td_state, bool) stm" where
  "eval_literal_with truth E ev name l u ctx c s =
     (if (case save c of None \<Rightarrow> False | Some f \<Rightarrow> f l u) then save_literal E ev l u ctx c s
      else if negated l then
        (case uplug (str_id E) None (theap s) u l of
           Inl e \<Rightarrow> (Inl e, s)
         | Inr plugged \<Rightarrow>
             if \<not> lit_is_ground plugged then (Inl AssertionError, s)
             else sbind (negation_as_failure ev name l u c)
               (\<lambda>failed. if failed then top_down_finish E ev ctx c else sret False) s)
      else if lit_tablename None l = ''true'' then top_down_finish E ev ctx c s
      else if lit_tablename None l = ''false'' then (Inr False, s)
      else if lit_is_builtin (registry_of E) l then top_down_builtin E ev l u ctx c s
      else if elsewhere (tworld s) name l then
        (let m = the (service (table l)) in
         if map_of (tworld s) m = None then (Inr False, s) else ev m ctx c s)
      else truth s)"

definition eval_literal ::
    "nat \<Rightarrow> 'c env \<Rightarrow> evaluator \<Rightarrow> string \<Rightarrow> literal \<Rightarrow> uid \<Rightarrow> td_context \<Rightarrow> top_caller \<Rightarrow> (td_state, bool) stm" where
  "eval_literal n E ev name l u ctx c = eval_literal_with (top_down_includes n E ev name l u ctx c) E ev name l u ctx c"

primrec top_down_eval :: "nat \<Rightarrow> 'c env \<Rightarrow> evaluator" where
  "top_down_eval 0 E name ctx c = sraise OutOfFuel"
| "top_down_eval (Suc n) E name ctx c =
     (case ctx of
        Root \<Rightarrow> sraise AttributeError
      | Context lits i u prev th \<Rightarrow>
          if i < length lits then eval_literal n E (top_down_eval n E) name (lits ! i) u ctx c
          else sraise IndexError)"

section \<open>Queries\<close>

text \<open>
  The queries start from an empty heap: no other unifier matters to them. The results are a list
  in the order they are found (the code passes it through a set of objects).
\<close>

definition top_down_abduction ::
    "nat \<Rightarrow> 'c env \<Rightarrow> string \<Rightarrow> trm list \<Rightarrow> literal list \<Rightarrow> bool \<Rightarrow> (literal \<Rightarrow> uid \<Rightarrow> bool) option \<Rightarrow> (world, td_result list) stm" where
  "top_down_abduction n E name vars lits all sv w =
     (let (u, h) = new_unifier [];
          c = \<lparr>cvariables = vars, cbinding = u, find_all = all, save = sv\<rparr>;
          s = \<lparr>theap = h, tworld = w, tsupport = [], tresults = []\<rparr>;
          (r, s) = (if lits = [] then top_down_finish E (top_down_eval n E) Root c s
                    else top_down_eval n E name (Context lits 0 u Root name) c s)
      in (case r of Inl e \<Rightarrow> (Inl e, tworld s) | Inr _ \<Rightarrow> (Inr (tresults s), tworld s)))"

definition top_down_evaluation ::
    "nat \<Rightarrow> 'c env \<Rightarrow> string \<Rightarrow> trm list \<Rightarrow> literal list \<Rightarrow> bool \<Rightarrow> (world, (trm, trm) dict list) stm" where
  "top_down_evaluation n E name vars lits all =
     sbind (top_down_abduction n E name vars lits all None) (\<lambda>rs. sret (map rbinding rs))"

definition query_literals :: "formula \<Rightarrow> literal list" where
  "query_literals q = (case q of FLit l \<Rightarrow> [l] | FRule r \<Rightarrow> body r | FFact _ \<Rightarrow> [])"

definition select_query :: "nat \<Rightarrow> 'c env \<Rightarrow> string \<Rightarrow> formula \<Rightarrow> bool \<Rightarrow> (world, formula list) stm" where
  "select_query n E name query all =
     (if \<not> is_datalog query then sraise AssertionError
      else sbind (top_down_evaluation n E name (formula_variables query) (query_literals query) all)
        (\<lambda>bs. sret (map (\<lambda>b. formula_plug b query) bs)))"

definition query_output :: "formula \<Rightarrow> literal res" where
  "query_output q = (case q of FLit l \<Rightarrow> Inr l | FRule r \<Rightarrow> Inr (rule_head r) | FFact _ \<Rightarrow> Inl AttributeError)"

definition abduce :: "nat \<Rightarrow> 'c env \<Rightarrow> string \<Rightarrow> formula \<Rightarrow> string list \<Rightarrow> bool \<Rightarrow> (world, rule list) stm" where
  "abduce n E name query tablenames all =
     (if \<not> is_datalog query then sraise AssertionError
      else (case query_output query of
         Inl e \<Rightarrow> sraise e
       | Inr output \<Rightarrow>
           sbind (top_down_abduction n E name (lit_variables output) (query_literals query) all
               (Some (\<lambda>l _. lit_tablename None l \<in> set tablenames)))
             (\<lambda>rs. sret (map (\<lambda>r. \<lparr>heads = [lit_plug (rbinding r) output], body = rsupport r\<rparr>) rs))))"

text \<open>\<open>consequences\<close>: the tables that are asked default to those of the heads in the policy.\<close>

definition defined_tables :: "string \<Rightarrow> (world, (string \<times> string option) list) stm" where
  "defined_tables name w =
     for_st (\<lambda>key ts. sbind (on_rules name (rs_get_rules key None)) (\<lambda>rs.
         sret (set_union ts (remdups (map (\<lambda>r. (tbl (table (rule_head r)), service (table (rule_head r)))) rs)))))
       (remdups (rs_keys (prules (policy_at w name)))) [] w"

definition consequence_query :: "string \<Rightarrow> string option \<Rightarrow> nat \<Rightarrow> literal" where
  "consequence_query t th n =
     mk_literal (create_from_tablename (if truthy th then the th @ '':'' @ t else t) None True)
       (map (\<lambda>i. Variable (''x'' @ nat_str i)) [0..<n]) False []"

definition consequences ::
    "nat \<Rightarrow> 'c env \<Rightarrow> string \<Rightarrow> (string \<Rightarrow> bool) option \<Rightarrow> (string \<times> string option) list option \<Rightarrow> (world, formula list) stm" where
  "consequences n E name filt table_theories =
     sbind (case table_theories of Some tts \<Rightarrow> sret tts | None \<Rightarrow> defined_tables name) (\<lambda>tts.
       for_st (\<lambda>(t, th) results.
         if (case filt of None \<Rightarrow> False | Some f \<Rightarrow> \<not> f t) then sret results
         else sbind (policy_arity name (Inr \<lparr>tbl = t, service = th, modal = None\<rparr>) None) (\<lambda>a.
           case a of
             None \<Rightarrow> sraise TypeError
           | Some k \<Rightarrow> sbind (select_query n E name (FLit (consequence_query t th k)) True)
               (\<lambda>fs. sret (set_union results fs)))) tts [])"

text \<open>\<open>instances\<close>: instances of a rule by matching its body with the facts at hand.\<close>

primrec instances_from ::
    "'c env \<Rightarrow> string \<Rightarrow> rule \<Rightarrow> (string, rule list) dict \<Rightarrow> uid \<Rightarrow> literal list \<Rightarrow> rule list \<Rightarrow> (td_state, rule list) stm" where
  "instances_from E name r poss u [] results = (\<lambda>s.
     (case rbind (map_res (uplug (str_id E) None (theap s) u) (heads r)) (\<lambda>hs.
           rbind (map_res (uplug (str_id E) None (theap s) u) (body r)) (\<lambda>bs. Inr \<lparr>heads = hs, body = bs\<rparr>)) of
        Inl e \<Rightarrow> (Inl e, s)
      | Inr r' \<Rightarrow> (Inr (if list_ex (rule_eq r') results then results else results @ [r']), s)))"
| "instances_from E name r poss u (l # ls) results =
     (if lit_is_ground l \<or> lit_is_builtin (registry_of E) l then instances_from E name r poss u ls results
      else sbind (\<lambda>s. case map_of poss (lit_tablename None l) of
             Some options \<Rightarrow> (Inr options, s)
           | None \<Rightarrow> (case uplug (str_id E) None (theap s) u l of
                Inl e \<Rightarrow> (Inl e, s)
              | Inr pl \<Rightarrow> on_world (head_index name (lit_tablename None l) (Some pl)) s)) (\<lambda>options.
        for_st (\<lambda>data results.
          sbind (on_heap (match_atoms l u (rule_head data))) (\<lambda>cs.
            case cs of
              None \<Rightarrow> sret results
            | Some cs \<Rightarrow>
                sbind (instances_from E name r poss u ls results) (\<lambda>results.
                sbind (undo_st cs) (\<lambda>_. sret results)))) options results))"

definition instances :: "'c env \<Rightarrow> string \<Rightarrow> rule \<Rightarrow> (string, rule list) dict \<Rightarrow> (world, rule list) stm" where
  "instances E name r poss w =
     (case sbind new_bi_unifier (\<lambda>u. instances_from E name r poss u (body r) [])
         \<lparr>theap = [], tworld = w, tsupport = [], tresults = []\<rparr> of
        (x, s) \<Rightarrow> (x, tworld s))"

end
