(* ===== verification/Top_Down_Correct.thy ===== *)
theory Top_Down_Correct
  imports Top_Down
begin

text \<open>
  What the answers of the top-down search mean. An interpretation says which ground atoms are
  true in each policy; it is \<open>supported\<close> when an atom is true exactly if some rule or fact of the
  policy (or of one it includes) gives it. For policies whose rules are safe and do not depend
  on themselves, a search with enough fuel returns exactly the true instances of the query.

  The proof follows the search: the state of the search stands for the set of valuations that
  agree with the heap and make the remaining goals true, and every step splits that set.
\<close>

declare map_of_eq_Some_iff [simp del] Some_eq_map_of_iff [simp del]

section \<open>Programs and interpretations\<close>

type_synonym interpretation_of = "string \<Rightarrow> tablename \<Rightarrow> pyval list \<Rightarrow> bool"

text \<open>
  A program: the environment, the policies, what each rule store holds, the width of each
  table, an interpretation, and the bounds the fuel is computed from.
\<close>

record 'c prog =
  penv :: "'c env"
  pworld :: world
  pstores :: "string \<Rightarrow> spec_store"
  pwidth :: "string \<Rightarrow> string \<Rightarrow> nat"
  ptruth :: interpretation_of
  pcost :: "string \<Rightarrow> literal \<Rightarrow> nat"
  pdepth :: "string \<Rightarrow> nat"

fun tval :: "(string \<Rightarrow> pyval) \<Rightarrow> trm \<Rightarrow> pyval" where
  "tval \<theta> (Variable n) = \<theta> n"
| "tval \<theta> (ObjectConstant c) = c"

definition rules_for :: "'c prog \<Rightarrow> string \<Rightarrow> string \<Rightarrow> rule set" where
  "rules_for X n k = rule_of_fact k ` sp_facts (pstores X n) k \<union> set (sp_rules (pstores X n) k)"

definition included :: "'c prog \<Rightarrow> string \<Rightarrow> string \<Rightarrow> bool" where
  "included X n m = ((n, m) \<in> {(n, m). m \<in> set (pincludes (policy_at (pworld X) n))}\<^sup>*)"

text \<open>What the code of a builtin says about values of all its arguments.\<close>

definition builtin_true :: "'c env \<Rightarrow> 'c pred \<Rightarrow> pyval list \<Rightarrow> bool" where
  "builtin_true E p vs =
     (case code_of E (code p) (take (num_inputs p) vs) of
        BRaise \<Rightarrow> False
      | result \<Rightarrow>
          if num_outputs p > 0 then output_terms result = Inr (map ObjectConstant (drop (num_inputs p) vs))
          else truth_value result)"

definition atom_holds :: "'c prog \<Rightarrow> string \<Rightarrow> literal \<Rightarrow> (string \<Rightarrow> pyval) \<Rightarrow> bool" where
  "atom_holds X n l \<theta> =
     (let vs = map (tval \<theta>) (arguments l) in
      if lit_tablename None l = ''true'' then True
      else if lit_tablename None l = ''false'' then False
      else if lit_is_builtin (registry_of (penv X)) l then
        (case lookup_builtin (tbl (table l)) (registry_of (penv X)) of None \<Rightarrow> False | Some p \<Rightarrow> builtin_true (penv X) p vs)
      else ptruth X (if elsewhere (pworld X) n l then the (service (table l)) else n) (table l) vs)"

definition holds :: "'c prog \<Rightarrow> string \<Rightarrow> literal \<Rightarrow> (string \<Rightarrow> pyval) \<Rightarrow> bool" where
  "holds X n l \<theta> = (atom_holds X n l \<theta> \<noteq> negated l)"

text \<open>The rule gives the atom \<open>t(vs)\<close> of the policy \<open>m\<close>.\<close>

definition gives :: "'c prog \<Rightarrow> string \<Rightarrow> rule \<Rightarrow> tablename \<Rightarrow> pyval list \<Rightarrow> bool" where
  "gives X m r t vs =
     (tablename_same (Some m) (table (rule_head r)) t \<and>
      (\<exists>\<theta>. map (tval \<theta>) (arguments (rule_head r)) = vs \<and> (\<forall>b \<in> set (body r). holds X m b \<theta>)))"

definition supported :: "'c prog \<Rightarrow> bool" where
  "supported X = (\<forall>n t vs. ptruth X n t vs = (\<exists>m. included X n m \<and> (\<exists>r \<in> rules_for X m (tbl t). gives X m r t vs)))"

lemma tval_cong: "(\<And>v. Variable v \<in> set ts \<Longrightarrow> \<theta> v = \<theta>' v) \<Longrightarrow> map (tval \<theta>) ts = map (tval \<theta>') ts"
  by (simp, metis tval.simps trm.exhaust)

lemma holds_cong:
  assumes "\<And>v. v \<in> lit_vars l \<Longrightarrow> \<theta> v = \<theta>' v" shows "holds X n l \<theta> = holds X n l \<theta>'"
proof -
  have "map (tval \<theta>) (arguments l) = map (tval \<theta>') (arguments l)"
    by (rule tval_cong) (use assms in \<open>simp add: lit_vars_def\<close>)
  then show ?thesis unfolding holds_def atom_holds_def by (simp only:)
qed

section \<open>Conditions on programs\<close>

text \<open>
  A literal that is evaluated in the policy \<open>n\<close> fits its table: the table \<open>true\<close> has no
  columns, and builtins and the tables of policies get as many arguments as they have columns.
\<close>

definition target_of :: "'c prog \<Rightarrow> string \<Rightarrow> literal \<Rightarrow> string" where
  "target_of X n l = (if elsewhere (pworld X) n l then the (service (table l)) else n)"

definition lit_ok :: "'c prog \<Rightarrow> string \<Rightarrow> literal \<Rightarrow> bool" where
  "lit_ok X n l =
     (if lit_tablename None l = ''true'' then arguments l = []
      else if lit_tablename None l = ''false'' then True
      else if lit_is_builtin (registry_of (penv X)) l then
        (case lookup_builtin (tbl (table l)) (registry_of (penv X)) of
           None \<Rightarrow> False
         | Some p \<Rightarrow> length (arguments l) = length (predargs p) \<and> num_inputs p \<le> length (predargs p))
      else (\<forall>m. included X (target_of X n l) m \<longrightarrow> length (arguments l) = pwidth X m (tbl (table l))))"

definition rule_ok :: "'c prog \<Rightarrow> string \<Rightarrow> rule \<Rightarrow> bool" where
  "rule_ok X n r =
     (safe_order (registry_of (penv X)) {} (body r) \<and> lit_vars (rule_head r) \<subseteq> \<Union> (lit_vars ` set (body r)) \<and>
      (\<forall>b \<in> set (body r). lit_ok X n b))"

text \<open>Builtins with outputs return a value or values, as their comment asks.\<close>

definition builtins_ok :: "'c env \<Rightarrow> bool" where
  "builtins_ok E = (\<forall>t p vs. lookup_builtin t (registry_of E) = Some p \<longrightarrow> num_outputs p > 0 \<longrightarrow> code_of E (code p) vs \<noteq> BNone)"

definition rules_ok :: "'c prog \<Rightarrow> bool" where
  "rules_ok X = (\<forall>n k. \<forall>r \<in> rules_for X n k. rule_ok X n r)"

text \<open>The dictionary \<open>w\<close> stands for the policies of the program.\<close>

definition world_ok :: "'c prog \<Rightarrow> world \<Rightarrow> bool" where
  "world_ok X w = (\<forall>n.
     (map_of w n = None) = (map_of (pworld X) n = None) \<and>
     plinked (policy_at w n) = plinked (policy_at (pworld X) n) \<and>
     pincludes (policy_at w n) = pincludes (policy_at (pworld X) n) \<and>
     store_rep (pwidth X n) (prules (policy_at w n)) (pstores X n))"

text \<open>Bounds: the cost of a literal is more than the cost of the goals it is replaced by.\<close>

definition costs_ok :: "'c prog \<Rightarrow> bool" where
  "costs_ok X = (\<forall>n l.
     pdepth X n + 1 < pcost X n l \<and>
     (negated l \<longrightarrow> pcost X n (lit_complement l) < pcost X n l) \<and>
     (\<not> negated l \<longrightarrow> elsewhere (pworld X) n l \<longrightarrow> pcost X (the (service (table l))) l < pcost X n l) \<and>
     (\<not> elsewhere (pworld X) n l \<longrightarrow> (\<forall>m r. included X n m \<longrightarrow> r \<in> rules_for X m (tbl (table l)) \<longrightarrow>
        sum_list (map (pcost X m) (body r)) < pcost X n l)) \<and>
     (\<forall>m \<in> set (pincludes (policy_at (pworld X) n)). pdepth X m < pdepth X n))"

definition prog_ok :: "'c prog \<Rightarrow> bool" where
  "prog_ok X = (rules_ok X \<and> builtins_ok (penv X) \<and> costs_ok X \<and> supported X)"

section \<open>Values that the heap determines\<close>

definition agree :: "(string \<times> uid) set \<Rightarrow> valuation \<Rightarrow> valuation \<Rightarrow> bool" where
  "agree D \<sigma> \<sigma>' = (\<forall>(v, u) \<in> D. \<sigma> v (Some u) = \<sigma>' v (Some u))"

definition determined :: "uheap \<Rightarrow> (string \<times> uid) set \<Rightarrow> string \<times> uid \<Rightarrow> bool" where
  "determined h D x = (\<forall>\<sigma> \<sigma>'. models \<sigma> h \<longrightarrow> models \<sigma>' h \<longrightarrow> agree D \<sigma> \<sigma>' \<longrightarrow> agree {x} \<sigma> \<sigma>')"

definition extends :: "uheap \<Rightarrow> uheap \<Rightarrow> bool" where
  "extends h h' = (\<forall>\<sigma>. models \<sigma> h' \<longrightarrow> models \<sigma> h)"

definition vars_at :: "uid \<Rightarrow> literal list \<Rightarrow> (string \<times> uid) set" where
  "vars_at u ls = (\<Union>l \<in> set ls. lit_vars l) \<times> {u}"

lemma vars_at_Nil [simp]: "vars_at u [] = {}"
  by (simp add: vars_at_def)

lemma vars_at_Cons: "vars_at u (l # ls) = vars_at u [l] \<union> vars_at u ls"
  by (auto simp: vars_at_def)

lemma agree_mono: "agree D \<sigma> \<sigma>' \<Longrightarrow> C \<subseteq> D \<Longrightarrow> agree C \<sigma> \<sigma>'"
  by (auto simp: agree_def)

lemma agree_all: "agree D \<sigma> \<sigma>' \<longleftrightarrow> (\<forall>x \<in> D. agree {x} \<sigma> \<sigma>')"
  by (auto simp: agree_def)

lemma determined_mono: "determined h D x \<Longrightarrow> extends h h' \<Longrightarrow> D \<subseteq> D' \<Longrightarrow> determined h' D' x"
  unfolding determined_def extends_def by (meson agree_mono)

lemma determined_member [intro]: "x \<in> D \<Longrightarrow> determined h D x"
  unfolding determined_def agree_def by blast

lemma determined_cut:
  assumes "determined h (D \<union> C) x" "\<And>y. y \<in> C \<Longrightarrow> determined h D y" shows "determined h D x"
  unfolding determined_def
proof (intro allI impI)
  fix \<sigma> \<sigma>' assume m: "models \<sigma> h" "models \<sigma>' h" "agree D \<sigma> \<sigma>'"
  have "agree C \<sigma> \<sigma>'" using assms(2) m unfolding determined_def by (subst agree_all) blast
  then have "agree (D \<union> C) \<sigma> \<sigma>'" using m(3) by (auto simp: agree_def)
  with assms(1) m show "agree {x} \<sigma> \<sigma>'" unfolding determined_def by blast
qed

lemma heap_extends_refl [simp]: "extends h h"
  by (simp add: extends_def)

lemma determined_more: "determined h D x \<Longrightarrow> determined h (D \<union> C) x"
  by (rule determined_mono [OF _ heap_extends_refl Un_upper1])

lemma extends_same: "same_heap h' h \<Longrightarrow> extends h h'"
  by (simp add: extends_def same_heap_models)

text \<open>The goals find what they need determined when they are evaluated in order.\<close>

fun covers :: "'c registry \<Rightarrow> uheap \<Rightarrow> (string \<times> uid) set \<Rightarrow> uid \<Rightarrow> literal list \<Rightarrow> bool" where
  "covers R h D u [] = True"
| "covers R h D u (l # ls) = ((\<forall>v \<in> needs R l. determined h D (v, u)) \<and> covers R h (D \<union> vars_at u [l]) u ls)"

fun ready_after :: "'c registry \<Rightarrow> uheap \<Rightarrow> (string \<times> uid) set \<Rightarrow> (string \<times> uid) set \<Rightarrow> td_context \<Rightarrow> bool" where
  "ready_after R h V D Root = (\<forall>x \<in> V. determined h D x)"
| "ready_after R h V D (Context lits i u prev th) =
     (covers R h D u (drop (i + 1) lits) \<and> ready_after R h V (D \<union> vars_at u (drop (i + 1) lits)) prev)"

fun ready :: "'c registry \<Rightarrow> uheap \<Rightarrow> (string \<times> uid) set \<Rightarrow> td_context \<Rightarrow> bool" where
  "ready R h V Root = False"
| "ready R h V (Context lits i u prev th) =
     (i < length lits \<and> (\<forall>v \<in> needs R (lits ! i). determined h {} (v, u)) \<and>
      ready_after R h V (vars_at u [lits ! i]) (Context lits i u prev th))"

lemma covers_mono: "covers R h D u ls \<Longrightarrow> extends h h' \<Longrightarrow> D \<subseteq> D' \<Longrightarrow> covers R h' D' u ls"
proof (induction ls arbitrary: D D')
  case (Cons l ls)
  have "covers R h (D \<union> vars_at u [l]) u ls" using Cons.prems(1) by simp
  moreover have "D \<union> vars_at u [l] \<subseteq> D' \<union> vars_at u [l]" using Cons.prems(3) by blast
  ultimately have "covers R h' (D' \<union> vars_at u [l]) u ls" using Cons.IH Cons.prems(2) by blast
  moreover have "determined h' D' (v, u)" if "v \<in> needs R l" for v
    using determined_mono [OF _ Cons.prems(2,3)] Cons.prems(1) that by simp
  ultimately show ?case by simp
qed simp

lemma covers_cut:
  "covers R h (D \<union> C) u ls \<Longrightarrow> \<forall>y \<in> C. determined h D y \<Longrightarrow> covers R h D u ls"
proof (induction ls arbitrary: D)
  case (Cons l ls)
  have "D \<union> C \<union> vars_at u [l] = (D \<union> vars_at u [l]) \<union> C" by blast
  then have "covers R h ((D \<union> vars_at u [l]) \<union> C) u ls" using Cons.prems(1) by simp
  moreover have "\<forall>y \<in> C. determined h (D \<union> vars_at u [l]) y" using Cons.prems(2) determined_more by blast
  ultimately have "covers R h (D \<union> vars_at u [l]) u ls" by (rule Cons.IH)
  moreover have "determined h D (v, u)" if v: "v \<in> needs R l" for v
  proof (rule determined_cut [of h D C])
    show "determined h (D \<union> C) (v, u)" using Cons.prems(1) v by simp
  qed (use Cons.prems(2) in blast)
  ultimately show ?case by simp
qed simp

lemma ready_after_mono:
  "ready_after R h V D ctx \<Longrightarrow> extends h h' \<Longrightarrow> D \<subseteq> D' \<Longrightarrow> ready_after R h' V D' ctx"
proof (induction ctx arbitrary: D D')
  case (Context lits i u prev th)
  have "D \<union> vars_at u (drop (i + 1) lits) \<subseteq> D' \<union> vars_at u (drop (i + 1) lits)" using Context.prems(3) by blast
  with Context show ?case by (auto intro: covers_mono)
qed (auto intro: determined_mono)

lemma ready_after_cut:
  "ready_after R h V (D \<union> C) ctx \<Longrightarrow> \<forall>y \<in> C. determined h D y \<Longrightarrow> ready_after R h V D ctx"
proof (induction ctx arbitrary: D)
  case Root
  then show ?case by (auto intro: determined_cut)
next
  case (Context lits i u prev th)
  let ?N = "vars_at u (drop (i + 1) lits)"
  have "D \<union> C \<union> ?N = (D \<union> ?N) \<union> C" by blast
  then have "ready_after R h V ((D \<union> ?N) \<union> C) prev" using Context.prems(1) by simp
  moreover have "\<forall>y \<in> C. determined h (D \<union> ?N) y" using Context.prems(2) determined_more by blast
  ultimately have "ready_after R h V (D \<union> ?N) prev" by (rule Context.IH)
  then show ?case using Context.prems covers_cut [of R h D C] by simp
qed

lemma safe_order_covers: "safe_order R S ls \<Longrightarrow> S \<times> {u} \<subseteq> D \<Longrightarrow> covers R h D u ls"
proof (induction ls arbitrary: S D)
  case (Cons l ls)
  have "(S \<union> lit_vars l) \<times> {u} \<subseteq> D \<union> vars_at u [l]" using Cons.prems(2) by (auto simp: vars_at_def)
  from Cons.IH [OF _ this] Cons.prems(1) have "covers R h (D \<union> vars_at u [l]) u ls" by simp
  moreover have "(v, u) \<in> D" if "v \<in> needs R l" for v using Cons.prems that by auto
  ultimately show ?case by auto
qed simp


section \<open>Heaps of the search\<close>

text \<open>All unifiers a heap mentions are in it.\<close>

definition hkeys :: "uheap \<Rightarrow> uid set" where
  "hkeys h = dom (map_of h)"

definition heap_ok :: "uheap \<Rightarrow> bool" where
  "heap_ok h = (wf_heap h \<and> (\<forall>u t x u'. uvalue u t h = Some (x, Some u') \<longrightarrow> u' \<in> hkeys h))"

lemma uvalue_key: "uvalue u t h = Some v \<Longrightarrow> u \<in> hkeys h"
  by (auto simp: uvalue_def contents_def hkeys_def split: option.splits)

lemma hkeys_update: "hkeys (AList.update u d h) = insert u (hkeys h)"
  by (auto simp: hkeys_def)

lemma hkeys_uadd: "hkeys (snd (uadd u var v h)) = insert u (hkeys h)"
  by (simp add: uadd_def hkeys_update)

lemma hkeys_undo: "hkeys h \<subseteq> hkeys (undo_all cs h)"
proof -
  have "hkeys h \<subseteq> hkeys (fold (\<lambda>(var, u). udelete u var) cs h)" for cs
  proof (induction cs arbitrary: h)
    case (Cons c cs)
    obtain var u where c: "c = (var, u)" by (cases c)
    have "hkeys h \<subseteq> hkeys (udelete u var h)" by (auto simp: udelete_def hkeys_update)
    with Cons.IH [of "udelete u var h"] c show ?case by auto
  qed simp
  then show ?thesis by (auto simp: undo_all_def split: option.splits)
qed

lemma heap_ok_same: "heap_ok h \<Longrightarrow> same_heap h' h \<Longrightarrow> hkeys h \<subseteq> hkeys h' \<Longrightarrow> heap_ok h'"
  using same_heap_wf [of h' h] by (fastforce simp: heap_ok_def same_heap_def)

lemma resolve_key:
  assumes "heap_ok h" "u \<in> hkeys h" "resolve h u t = Inr (x, Some u')" shows "u' \<in> hkeys h"
proof -
  have "apply_full n f c h u t = Inr (x, Some u') \<Longrightarrow> u \<in> hkeys h \<Longrightarrow> u' \<in> hkeys h" for n f c u t
  proof (induction n arbitrary: c u t)
    case (Suc n)
    show ?case
    proof (cases "uvalue u t h")
      case (Some v)
      obtain y b where v: "v = (y, b)" by (cases v)
      show ?thesis
      proof (cases b)
        case (Some w)
        then have "w \<in> hkeys h" using assms(1) \<open>uvalue u t h = Some v\<close> v by (auto simp: heap_ok_def)
        with Suc Some v \<open>uvalue u t h = Some v\<close> show ?thesis by (auto split: if_splits)
      qed (use Suc.prems v \<open>uvalue u t h = Some v\<close> in auto)
    qed (use Suc.prems in auto)
  qed simp
  with assms show ?thesis unfolding resolve_def by blast
qed

lemma unify_loop_keys:
  assumes "heap_ok h" "u1 \<in> hkeys h" "u2 \<in> hkeys h" "unify_loop u1 u2 ps cs h = Inr (r, h')"
  shows "hkeys h \<subseteq> hkeys h' \<and> (r \<noteq> None \<longrightarrow> (\<forall>u t x u'. uvalue u t h' = Some (x, Some u') \<longrightarrow> u' \<in> hkeys h'))"
  using assms
proof (induction ps arbitrary: cs h)
  case Nil
  then show ?case by (auto simp: heap_ok_def)
next
  case (Cons p ps)
  obtain t1 t2 where p: "p = (t1, t2)" by (cases p)
  have wf: "wf_heap h" using Cons.prems(1) by (simp add: heap_ok_def)
  obtain v1 b1 where r1: "resolve h u1 t1 = Inr (v1, b1)" "root h (v1, b1)" using resolve_ok [OF wf, of u1 t1] by (metis surj_pair)
  obtain v2 b2 where r2: "resolve h u2 t2 = Inr (v2, b2)" "root h (v2, b2)" using resolve_ok [OF wf, of u2 t2] by (metis surj_pair)
  have k1: "b1 = Some w \<Longrightarrow> w \<in> hkeys h" for w using resolve_key [OF Cons.prems(1,2)] r1(1) by blast
  have k2: "b2 = Some w \<Longrightarrow> w \<in> hkeys h" for w using resolve_key [OF Cons.prems(1,3)] r2(1) by blast
  have bind: ?case
    if eq: "unify_loop u1 u2 (p # ps) cs h = rbind (bind_var b v (x, b') h) (\<lambda>(c, h). unify_loop u1 u2 ps (cs @ [c]) h)"
      and new: "is_variable v" "root h (v, b)" "root h (x, b')" "(x, b') \<noteq> (v, b)"
      and keys: "\<And>w. b = Some w \<Longrightarrow> w \<in> hkeys h" "\<And>w. b' = Some w \<Longrightarrow> w \<in> hkeys h" for b v x b'
  proof -
    obtain w where w: "b = Some w" "uvalue w v h = None" using new(1,2) by (auto simp: root_def)
    let ?h = "snd (uadd w v (x, b') h)"
    have "wf_heap ?h" using uadd_ok(1) [OF wf w(2) new(1,3)] new(4) w(1) by blast
    moreover have keys': "hkeys ?h = hkeys h" using keys(1) [OF w(1)] by (auto simp: hkeys_uadd)
    ultimately have "heap_ok ?h" using Cons.prems(1) keys(2) by (auto simp: heap_ok_def uvalue_uadd split: if_splits)
    moreover have "unify_loop u1 u2 ps (cs @ [(v, w)]) ?h = Inr (r, h')"
      using Cons.prems(4) eq w(1) by (simp add: bind_var_def uadd_def)
    ultimately show ?thesis using Cons.IH [of ?h] Cons.prems(2,3) keys' by simp
  qed
  note step = p r1(1) r2(1)
  show ?case
  proof (cases "(v1, b1) = (v2, b2)")
    case True
    then have "unify_loop u1 u2 ps cs h = Inr (r, h')"
      using Cons.prems(4) step by (cases "is_variable v1") (simp_all add: bi_var_equal_def)
    with Cons show ?thesis by blast
  next
    case False
    show ?thesis
    proof (cases "is_variable v1")
      case True
      have "\<not> bi_var_equal v1 b1 v2 b2" using False by (simp add: bi_var_equal_def)
      then show ?thesis
        using True False step r1(2) r2(2) k1 k2 by (intro bind [of b1 v1 v2 b2]) auto
    next
      case novar: False
      show ?thesis
      proof (cases "is_variable v2")
        case True
        with novar show ?thesis using False step r1(2) r2(2) k1 k2 by (intro bind [of b2 v2 v1 b1]) auto
      next
        case False
        show ?thesis
        proof (cases "v1 = v2")
          case True
          then have "unify_loop u1 u2 ps cs h = Inr (r, h')" using Cons.prems(4) step novar False by simp
          with Cons show ?thesis by blast
        qed (use Cons.prems(4) step novar False hkeys_undo in auto)
      qed
    qed
  qed
qed

text \<open>Unification of a fresh unifier's terms with others, as \<open>_top_down_th\<close> and the builtins use it.\<close>

definition uvals :: "valuation \<Rightarrow> uid \<Rightarrow> trm list \<Rightarrow> pyval list" where
  "uvals \<sigma> u ts = map (\<lambda>t. eval \<sigma> (t, Some u)) ts"

lemma unify_new:
  assumes h: "heap_ok h" and u: "u \<in> hkeys h" and new: "new_unifier h = (u', h1)"
  shows "\<exists>r h2. bi_unify_lists ts u' ss u h1 = Inr (r, h2) \<and> heap_ok h2 \<and> hkeys h \<subseteq> hkeys h2 \<and> u' \<in> hkeys h2 \<and>
    (case r of
       None \<Rightarrow> same_heap h2 h \<and> (\<forall>\<sigma>. models \<sigma> h \<longrightarrow> uvals \<sigma> u' ts \<noteq> uvals \<sigma> u ss)
     | Some cs \<Rightarrow> same_heap (undo_all (Some cs) h2) h \<and> (\<forall>\<sigma>. models \<sigma> h2 = (models \<sigma> h \<and> uvals \<sigma> u' ts = uvals \<sigma> u ss)))"
proof -
  note n = new_unifier_ok [OF new]
  have keys: "hkeys h \<subseteq> hkeys h1" "u' \<in> hkeys h1" using n(3,5) by (auto simp: hkeys_def dom_def)
  have h1: "heap_ok h1" using heap_ok_same [OF h n(1) keys(1)] .
  then have wf: "wf_heap h1" by (simp add: heap_ok_def)
  have same: "models \<sigma> h1 = models \<sigma> h" for \<sigma> using same_heap_models [OF n(1)] .
  show ?thesis
  proof (cases "length ts = length ss")
    case False
    then have "uvals \<sigma> u' ts \<noteq> uvals \<sigma> u ss" for \<sigma> by (metis length_map uvals_def)
    with False n(1) keys h1 show ?thesis by (auto simp: bi_unify_lists_def)
  next
    case True
    have E: "equal_under (Some u') (Some u) (zip ts ss) \<sigma> \<longleftrightarrow> uvals \<sigma> u' ts = uvals \<sigma> u ss" for \<sigma>
      unfolding uvals_def by (rule equal_lists [OF True])
    obtain r h2 where r: "unify_loop u' u (zip ts ss) [] h1 = Inr (r, h2)"
      "solves h1 (equal_under (Some u') (Some u) (zip ts ss)) (r, h2) h1"
      using unify_loop_ok [OF wf wf extends_refl, of u' u "zip ts ss"] by auto
    have "u \<in> hkeys h1" using u keys(1) by blast
    note loop = unify_loop_keys [OF h1 keys(2) this r(1)]
    have k: "hkeys h1 \<subseteq> hkeys h2" "r \<noteq> None \<longrightarrow> (\<forall>u t x u'. uvalue u t h2 = Some (x, Some u') \<longrightarrow> u' \<in> hkeys h2)"
      by (rule conjunct1 [OF loop], rule conjunct2 [OF loop])
    have eq: "bi_unify_lists ts u' ss u h1 = Inr (r, h2)" using True r(1) by (simp add: bi_unify_lists_def)
    show ?thesis
    proof (cases r)
      case None
      with r(2) have s: "same_heap h2 h1" "\<forall>\<sigma>. models \<sigma> h \<longrightarrow> uvals \<sigma> u' ts \<noteq> uvals \<sigma> u ss"
        using E same by (auto simp: solves_def)
      have "heap_ok h2" using heap_ok_same [OF h1 s(1) k(1)] .
      moreover have "same_heap h2 h" using s(1) n(1) by (simp add: same_heap_def)
      ultimately show ?thesis using eq None s(2) k(1) keys by auto
    next
      case (Some cs)
      with r(2) have s: "wf_heap h2" "extends_by h1 h2 cs" "\<forall>\<sigma>. models \<sigma> h2 = (models \<sigma> h \<and> uvals \<sigma> u' ts = uvals \<sigma> u ss)"
        using E same by (auto simp: solves_def)
      have "same_heap (undo_all (Some cs) h2) h" using undo_extends [OF s(2)] n(1) by (simp add: same_heap_def)
      moreover have "heap_ok h2" using s(1) k(2) Some by (auto simp: heap_ok_def)
      ultimately show ?thesis using eq Some s(3) k(1) keys by auto
    qed
  qed
qed

text \<open>The variables of a unifier that is not on the heap are free.\<close>

definition with_vars :: "valuation \<Rightarrow> uid \<Rightarrow> (string \<Rightarrow> pyval) \<Rightarrow> valuation" where
  "with_vars \<sigma> u \<theta> = (\<lambda>n b. if b = Some u then \<theta> n else \<sigma> n b)"

definition vals_at :: "valuation \<Rightarrow> uid \<Rightarrow> string \<Rightarrow> pyval" where
  "vals_at \<sigma> u = (\<lambda>n. \<sigma> n (Some u))"

lemma eval_vals_at: "eval \<sigma> (t, Some u) = tval (vals_at \<sigma> u) t"
  by (cases t) (simp_all add: vals_at_def)

lemma uvals_tval: "uvals \<sigma> u ts = map (tval (vals_at \<sigma> u)) ts"
  by (simp add: uvals_def eval_vals_at)

lemma vals_at_with [simp]: "vals_at (with_vars \<sigma> u \<theta>) u' = (if u' = u then \<theta> else vals_at \<sigma> u')"
  by (simp add: vals_at_def with_vars_def)

lemma models_with_vars:
  assumes "heap_ok h" "u \<notin> hkeys h" shows "models (with_vars \<sigma> u \<theta>) h = models \<sigma> h"
proof -
  have "eval (with_vars \<sigma> u \<theta>) (t, Some w) = eval \<sigma> (t, Some w) \<and> eval (with_vars \<sigma> u \<theta>) v = eval \<sigma> v"
    if "uvalue w t h = Some v" for w t v
  proof -
    have "w \<noteq> u" using uvalue_key [OF that] assms(2) by blast
    moreover have "snd v \<noteq> Some u" using that assms by (cases v) (auto simp: heap_ok_def)
    ultimately show ?thesis by (cases t; cases v; cases "fst v") (auto simp: with_vars_def)
  qed
  then show ?thesis unfolding models_def by metis
qed

text \<open>A determined variable resolves to a constant.\<close>

lemma models_exists_for:
  assumes wf: "wf_heap h"
  shows "\<exists>\<sigma>. models \<sigma> h \<and> (\<forall>n u. \<sigma> n (Some u) = (case resolve h u (Variable n) of Inr (ObjectConstant c, _) \<Rightarrow> c | _ \<Rightarrow> d))"
proof -
  let ?const = "\<lambda>r :: uval res. case r of Inr (ObjectConstant c, _) \<Rightarrow> c | _ \<Rightarrow> d"
  define \<sigma> :: valuation where
    "\<sigma> = (\<lambda>n b. case b of None \<Rightarrow> d | Some u \<Rightarrow> ?const (resolve h u (Variable n)))"
  have "eval \<sigma> (t, Some u) = eval \<sigma> v" if uv: "uvalue u t h = Some v" for u t v
  proof -
    obtain t' b where v: "v = (t', b)" by (cases v)
    obtain n where t: "t = Variable n" using wf_heapD(1) [OF wf] uv v by (cases t) fastforce+
    show ?thesis
    proof (cases t')
      case (ObjectConstant c)
      then have "resolve h u t = Inr v" using uv v by (cases b) (simp_all add: resolve_def ufuel_def)
      then show ?thesis using t v ObjectConstant by (simp add: \<sigma>_def)
    next
      case (Variable m)
      then obtain u' where u': "b = Some u'" using wf_heapD(2) [OF wf, of u t t' b] uv v by auto
      with resolve_step [OF wf, of u t t' u'] uv v Variable have "resolve h u t = resolve h u' t'" by simp
      then show ?thesis using t v Variable u' by (simp add: \<sigma>_def)
    qed
  qed
  then have "models \<sigma> h" by (auto simp: models_def)
  moreover have "\<sigma> n (Some u) = ?const (resolve h u (Variable n))" for n u by (simp add: \<sigma>_def)
  ultimately show ?thesis by blast
qed

lemma determined_const:
  assumes wf: "wf_heap h" and det: "determined h {} (n, u)"
  shows "\<exists>c b. resolve h u (Variable n) = Inr (ObjectConstant c, b) \<and> (\<forall>\<sigma>. models \<sigma> h \<longrightarrow> \<sigma> n (Some u) = c)"
proof -
  obtain v b where r: "resolve h u (Variable n) = Inr (v, b)" "\<And>\<sigma>. models \<sigma> h \<Longrightarrow> eval \<sigma> (Variable n, Some u) = eval \<sigma> (v, b)"
    using resolve_ok [OF wf, of u "Variable n"] by (metis surj_pair)
  show ?thesis
  proof (cases v)
    case (ObjectConstant c)
    with r show ?thesis by auto
  next
    case (Variable m)
    obtain \<sigma> where s: "models \<sigma> h" "\<forall>n u. \<sigma> n (Some u) = (case resolve h u (Variable n) of Inr (ObjectConstant c, _) \<Rightarrow> c | _ \<Rightarrow> VInt 0)"
      using models_exists_for [OF wf] by blast
    obtain \<sigma>' where s': "models \<sigma>' h" "\<forall>n u. \<sigma>' n (Some u) = (case resolve h u (Variable n) of Inr (ObjectConstant c, _) \<Rightarrow> c | _ \<Rightarrow> VInt 1)"
      using models_exists_for [OF wf] by blast
    have "\<sigma> n (Some u) = \<sigma>' n (Some u)" using det s(1) s'(1) by (auto simp: determined_def agree_def)
    moreover have "\<sigma> n (Some u) = VInt 0" "\<sigma>' n (Some u) = VInt 1" using s(2) s'(2) r(1) Variable by simp_all
    ultimately show ?thesis by simp
  qed
qed


section \<open>What a search must do\<close>

text \<open>The values of the variables \<open>vs\<close> of the caller in the valuations that make the goals true.\<close>

definition sols :: "top_caller \<Rightarrow> string list \<Rightarrow> uheap \<Rightarrow> (valuation \<Rightarrow> bool) \<Rightarrow> pyval list set" where
  "sols c vs h G = {map (vals_at \<sigma> (cbinding c)) vs | \<sigma>. models \<sigma> h \<and> G \<sigma>}"

definition has_values :: "string list \<Rightarrow> td_result \<Rightarrow> pyval list \<Rightarrow> bool" where
  "has_values vs r a = (map (\<lambda>v. map_of (rbinding r) (Variable v)) vs = map (Some \<circ> ObjectConstant) a \<and>
     (\<forall>k. map_of (rbinding r) (ObjectConstant k) = None))"

definition answers :: "top_caller \<Rightarrow> string list \<Rightarrow> td_result list \<Rightarrow> bool \<Rightarrow> pyval list set \<Rightarrow> bool" where
  "answers c vs new b S =
     ((\<forall>r \<in> set new. \<exists>a \<in> S. has_values vs r a) \<and>
      (if find_all c then \<forall>a \<in> S. \<exists>r \<in> set new. has_values vs r a
       else b = (new \<noteq> []) \<and> length new \<le> 1 \<and> (S \<noteq> {} \<longrightarrow> new \<noteq> [])))"

definition search_ok :: "'c prog \<Rightarrow> top_caller \<Rightarrow> string list \<Rightarrow> pyval list set \<Rightarrow> td_state \<Rightarrow> bool res \<times> td_state \<Rightarrow> bool" where
  "search_ok X c vs S s r = (\<exists>b new h w. r = (Inr b, s\<lparr>theap := h, tworld := w, tresults := tresults s @ new\<rparr>) \<and>
     same_heap h (theap s) \<and> hkeys (theap s) \<subseteq> hkeys h \<and> world_ok X w \<and> answers c vs new b S)"

definition state_ok :: "'c prog \<Rightarrow> td_state \<Rightarrow> bool" where
  "state_ok X s = (heap_ok (theap s) \<and> world_ok X (tworld s) \<and> tsupport s = [])"

lemma same_heap_trans: "same_heap a b \<Longrightarrow> same_heap b c \<Longrightarrow> same_heap a c"
  by (simp add: same_heap_def)

lemma sols_same: "same_heap h h' \<Longrightarrow> sols c vs h G = sols c vs h' G"
  by (simp add: sols_def same_heap_models)

lemma sols_none: "(\<And>\<sigma>. models \<sigma> h \<Longrightarrow> \<not> G \<sigma>) \<Longrightarrow> sols c vs h G = {}"
  by (auto simp: sols_def)

lemma sols_cong: "(\<And>\<sigma>. models \<sigma> h \<Longrightarrow> G \<sigma> = G' \<sigma>) \<Longrightarrow> sols c vs h G = sols c vs h G'"
  by (auto simp: sols_def)

lemma sols_UN: "sols c vs h (\<lambda>\<sigma>. \<exists>i \<in> A. G i \<sigma>) = (\<Union>i \<in> A. sols c vs h (G i))"
  by (auto simp: sols_def)

lemma search_ok_state:
  assumes "state_ok X s" "search_ok X c vs S s (r, s')"
  shows "state_ok X s'" "same_heap (theap s') (theap s)" "hkeys (theap s) \<subseteq> hkeys (theap s')" "\<exists>b. r = Inr b"
  using assms heap_ok_same by (auto simp: search_ok_def state_ok_def)

lemma search_fail: "state_ok X s \<Longrightarrow> search_ok X c vs {} s (Inr False, s)"
  unfolding search_ok_def
  by (intro exI [of _ False] exI [of _ "[]"] exI [of _ "theap s"] exI [of _ "tworld s"])
    (simp add: state_ok_def same_heap_def answers_def)

lemma search_stop:
  assumes "search_ok X c vs S s (Inr True, s')" "\<not> find_all c"
  shows "search_ok X c vs (S \<union> S') s (Inr True, s')"
proof -
  have "answers c vs new b (S \<union> S')" if "answers c vs new b S" "b" for new b
    using that assms(2) by (auto simp: answers_def)
  with assms(1) show ?thesis unfolding search_ok_def by (metis Pair_inject sum.inject(2))
qed

lemma answers_append:
  assumes "answers c vs new b S" "answers c vs new' b' S'" "\<not> b \<or> find_all c"
  shows "answers c vs (new @ new') b' (S \<union> S')"
proof (cases "find_all c")
  case True
  with assms show ?thesis by (auto simp: answers_def)
next
  case False
  then have "new = []" "S = {}" using assms(1,3) by (auto simp: answers_def)
  with assms(2) show ?thesis by simp
qed

lemma search_next:
  assumes "search_ok X c vs S s (Inr b, s')" "search_ok X c vs S' s' r" "\<not> b \<or> find_all c"
  shows "search_ok X c vs (S \<union> S') s r"
proof -
  obtain new h w where 1: "s' = s\<lparr>theap := h, tworld := w, tresults := tresults s @ new\<rparr>"
    "same_heap h (theap s)" "hkeys (theap s) \<subseteq> hkeys h" "answers c vs new b S"
    using assms(1) by (auto simp: search_ok_def)
  obtain b' new' h' w' where 2: "r = (Inr b', s'\<lparr>theap := h', tworld := w', tresults := tresults s' @ new'\<rparr>)"
    "same_heap h' h" "hkeys h \<subseteq> hkeys h'" "world_ok X w'" "answers c vs new' b' S'"
    using assms(2) 1(1) by (auto simp: search_ok_def)
  have "r = (Inr b', s\<lparr>theap := h', tworld := w', tresults := tresults s @ new @ new'\<rparr>)" using 1(1) 2(1) by simp
  moreover have "same_heap h' (theap s)" "hkeys (theap s) \<subseteq> hkeys h'" using same_heap_trans [OF 2(2) 1(2)] 1(3) 2(3) by auto
  ultimately show ?thesis
    using 2(4) answers_append [OF 1(4) 2(5) assms(3)] unfolding search_ok_def by blast
qed

lemma search_undo:
  assumes "search_ok X c vs S (s\<lparr>theap := h2\<rparr>) (Inr b, s')" "same_heap (undo_all (Some cs) h2) (theap s)" "hkeys (theap s) \<subseteq> hkeys h2"
  shows "\<exists>s''. undo_st cs s' = (Inr (), s'') \<and> search_ok X c vs S s (Inr b, s'')"
proof -
  obtain new h w where s': "s' = s\<lparr>theap := h, tworld := w, tresults := tresults s @ new\<rparr>" "same_heap h h2" "hkeys h2 \<subseteq> hkeys h"
    "world_ok X w" "answers c vs new b S" using assms(1) by (auto simp: search_ok_def)
  let ?h = "undo_all (Some cs) h"
  have "same_heap ?h (undo_all (Some cs) h2)" using s'(2) by (simp add: same_heap_def uvalue_undo)
  then have "same_heap ?h (theap s)" using assms(2) by (rule same_heap_trans)
  moreover have "hkeys (theap s) \<subseteq> hkeys ?h" using assms(3) s'(3) hkeys_undo [of h "Some cs"] by blast
  ultimately have "search_ok X c vs S s (Inr b, s'\<lparr>theap := ?h\<rparr>)"
    unfolding search_ok_def
    by (intro exI [of _ b] exI [of _ new] exI [of _ ?h] exI [of _ w]) (simp add: s')
  moreover have "undo_st cs s' = (Inr (), s'\<lparr>theap := ?h\<rparr>)" using s'(1) by (simp add: undo_st_def on_heap_def)
  ultimately show ?thesis by blast
qed

text \<open>Goals that are left when the current literal of a context is proved, and their cost.\<close>

fun rest :: "'c prog \<Rightarrow> td_context \<Rightarrow> valuation \<Rightarrow> bool" where
  "rest X Root \<sigma> = True"
| "rest X (Context lits i u prev th) \<sigma> =
     ((\<forall>l \<in> set (drop (i + 1) lits). holds X th l (vals_at \<sigma> u)) \<and> rest X prev \<sigma>)"

fun rest_cost :: "'c prog \<Rightarrow> td_context \<Rightarrow> nat" where
  "rest_cost X Root = 0"
| "rest_cost X (Context lits i u prev th) = sum_list (map (pcost X th) (drop (i + 1) lits)) + rest_cost X prev"

fun ctx_ok :: "'c prog \<Rightarrow> uheap \<Rightarrow> td_context \<Rightarrow> bool" where
  "ctx_ok X h Root = True"
| "ctx_ok X h (Context lits i u prev th) = (u \<in> hkeys h \<and> (\<forall>l \<in> set lits. lit_ok X th l) \<and> ctx_ok X h prev)"

lemma ctx_ok_mono: "ctx_ok X h ctx \<Longrightarrow> hkeys h \<subseteq> hkeys h' \<Longrightarrow> ctx_ok X h' ctx"
  by (induction ctx) auto

lemma rest_with_vars: "ctx_ok X h ctx \<Longrightarrow> u \<notin> hkeys h \<Longrightarrow> rest X ctx (with_vars \<sigma> u \<theta>) = rest X ctx \<sigma>"
  by (induction ctx) auto

text \<open>The variables asked for, in the unifier of the caller.\<close>

definition wanted :: "top_caller \<Rightarrow> string list \<Rightarrow> (string \<times> uid) set" where
  "wanted c vs = set vs \<times> {cbinding c}"

definition caller_ok :: "top_caller \<Rightarrow> string list \<Rightarrow> bool" where
  "caller_ok c vs = (save c = None \<and> (\<forall>t \<in> set (cvariables c). is_variable t) \<and> (\<forall>v \<in> set vs. Variable v \<in> set (cvariables c)))"

definition ev_ok :: "'c prog \<Rightarrow> evaluator \<Rightarrow> nat \<Rightarrow> top_caller \<Rightarrow> string list \<Rightarrow> bool" where
  "ev_ok X ev n c vs = (\<forall>name lits i u prev th s.
     state_ok X s \<longrightarrow> i < length lits \<longrightarrow> lit_ok X name (lits ! i) \<longrightarrow> ctx_ok X (theap s) (Context lits i u prev th) \<longrightarrow>
     cbinding c \<in> hkeys (theap s) \<longrightarrow> ready (registry_of (penv X)) (theap s) (wanted c vs) (Context lits i u prev th) \<longrightarrow>
     pcost X name (lits ! i) + rest_cost X (Context lits i u prev th) \<le> n \<longrightarrow>
     search_ok X c vs
       (sols c vs (theap s) (\<lambda>\<sigma>. holds X name (lits ! i) (vals_at \<sigma> u) \<and> rest X (Context lits i u prev th) \<sigma>))
       s (ev name (Context lits i u prev th) c s))"

lemma ev_okD:
  assumes "ev_ok X ev n c vs" "state_ok X s" "ctx_ok X (theap s) (Context lits i u prev th)" "cbinding c \<in> hkeys (theap s)"
    "ready (registry_of (penv X)) (theap s) (wanted c vs) (Context lits i u prev th)" "lit_ok X name (lits ! i)"
    "pcost X name (lits ! i) + rest_cost X (Context lits i u prev th) \<le> n"
  shows "search_ok X c vs
       (sols c vs (theap s) (\<lambda>\<sigma>. holds X name (lits ! i) (vals_at \<sigma> u) \<and> rest X (Context lits i u prev th) \<sigma>))
       s (ev name (Context lits i u prev th) c s)"
proof -
  have "i < length lits" using assms(5) by simp
  then show ?thesis using assms unfolding ev_ok_def by blast
qed

section \<open>Finishing\<close>

lemma map_res_fun: "\<forall>x \<in> set xs. f x = Inr (g x) \<Longrightarrow> map_res f xs = Inr (map g xs)"
  by (induction xs) auto

lemma apply_full_no_caller: "apply_full n f None h u t = apply_full n g None h u t"
  by (induction n arbitrary: u t) (auto simp: rename_apart_def split: option.splits)

lemma uapply_no_caller: "uapply f None h u t = rbind (resolve h u t) (\<lambda>(t, _). Inr t)"
  unfolding uapply_def resolve_def using apply_full_no_caller [of _ f h u t "\<lambda>_. []"] by simp

lemma uapply_total: "wf_heap h \<Longrightarrow> \<exists>t'. uapply f None h u t = Inr t'"
  using resolve_ok [of h u t] by (fastforce simp: uapply_no_caller)

lemma uapply_determined:
  assumes "wf_heap h" "determined h {} (n, u)"
  shows "\<exists>c. uapply f None h u (Variable n) = Inr (ObjectConstant c) \<and> (\<forall>\<sigma>. models \<sigma> h \<longrightarrow> vals_at \<sigma> u n = c)"
  using determined_const [OF assms] by (auto simp: uapply_no_caller vals_at_def)

lemma record_answer_ok:
  assumes s: "state_ok X s" and c: "caller_ok c vs" and det: "\<forall>x \<in> wanted c vs. determined (theap s) {} x"
  shows "search_ok X c vs (sols c vs (theap s) (\<lambda>_. True)) s (record_answer E c s)"
proof -
  let ?h = "theap s" and ?u = "cbinding c"
  have wf: "wf_heap ?h" using s by (simp add: state_ok_def heap_ok_def)
  define val where "val v = (case uapply (str_id E) None ?h ?u v of Inr t \<Rightarrow> t | Inl _ \<Rightarrow> v)" for v
  have val: "uapply (str_id E) None ?h ?u v = Inr (val v)" for v
    using uapply_total [OF wf, of "str_id E" ?u v] by (auto simp: val_def)
  let ?r = "\<lparr>rbinding = map (\<lambda>v. (v, val v)) (cvariables c), rsupport = []\<rparr>"
  have "map_res (\<lambda>v. rbind (uapply (str_id E) None ?h ?u v) (\<lambda>t. Inr (v, t))) (cvariables c) = Inr (map (\<lambda>v. (v, val v)) (cvariables c))"
    by (rule map_res_fun) (simp add: val)
  then have rec: "record_answer E c s = (Inr True, s\<lparr>tresults := tresults s @ [?r]\<rparr>)"
    using s by (simp add: record_answer_def state_ok_def)
  have r: "map_of (rbinding ?r) (Variable v) = Some (ObjectConstant (vals_at \<sigma> ?u v))"
    if "v \<in> set vs" "models \<sigma> ?h" for v \<sigma>
  proof -
    have "determined ?h {} (v, ?u)" using det that(1) by (simp add: wanted_def)
    then have "val (Variable v) = ObjectConstant (vals_at \<sigma> ?u v)"
      using uapply_determined [OF wf, of v ?u "str_id E"] val [of "Variable v"] that(2) by auto
    moreover have "Variable v \<in> set (cvariables c)" using c that(1) by (simp add: caller_ok_def)
    ultimately show ?thesis by (simp add: map_of_map_restrict)
  qed
  moreover have "map_of (rbinding ?r) (ObjectConstant k) = None" for k
    using c by (auto simp: caller_ok_def map_of_map_restrict restrict_map_def)
  ultimately have hv: "has_values vs ?r (map (vals_at \<sigma> ?u) vs)" if "models \<sigma> ?h" for \<sigma>
    using that by (simp add: has_values_def)
  obtain \<sigma>0 where "models \<sigma>0 ?h" using models_exists [OF wf] by blast
  with hv have "answers c vs [?r] True (sols c vs ?h (\<lambda>_. True))"
    by (auto simp: answers_def sols_def)
  then show ?thesis
    unfolding search_ok_def rec
    by (intro exI [of _ True] exI [of _ "[?r]"] exI [of _ ?h] exI [of _ "tworld s"])
      (use s in \<open>simp add: state_ok_def same_heap_def\<close>)
qed

lemma finish_ok:
  assumes ev: "ev_ok X ev n c vs" and c: "caller_ok c vs"
  shows "state_ok X s \<Longrightarrow> ctx_ok X (theap s) ctx \<Longrightarrow> cbinding c \<in> hkeys (theap s) \<Longrightarrow>
    ready_after (registry_of (penv X)) (theap s) (wanted c vs) {} ctx \<Longrightarrow> rest_cost X ctx \<le> n \<Longrightarrow>
    search_ok X c vs (sols c vs (theap s) (rest X ctx)) s (top_down_finish E ev ctx c s)"
proof (induction ctx)
  case Root
  with record_answer_ok [OF _ c] show ?case by simp
next
  case (Context lits i u prev th)
  let ?R = "registry_of (penv X)"
  show ?case
  proof (cases "i + 1 < length lits")
    case True
    let ?l = "lits ! (i + 1)" and ?ctx = "Context lits (i + 1) u prev th"
    have d: "drop (i + 1) lits = ?l # drop (i + 1 + 1) lits" using Cons_nth_drop_Suc [OF True] by simp
    have "ready ?R (theap s) (wanted c vs) ?ctx"
      using Context.prems(4) True d by (simp add: vars_at_Cons [of u "lits ! Suc i" "drop (Suc (Suc i)) lits"])
    moreover have "lit_ok X th ?l" using Context.prems(2) True by simp
    moreover have "pcost X th ?l + rest_cost X ?ctx \<le> n" using Context.prems(5) d by simp
    ultimately have "search_ok X c vs (sols c vs (theap s) (\<lambda>\<sigma>. holds X th ?l (vals_at \<sigma> u) \<and> rest X ?ctx \<sigma>)) s (ev th ?ctx c s)"
      using ev_okD [OF ev Context.prems(1), of lits "i + 1" u prev th th] Context.prems(2,3) by simp
    moreover have "holds X th ?l (vals_at \<sigma> u) \<and> rest X ?ctx \<sigma> \<longleftrightarrow> rest X (Context lits i u prev th) \<sigma>" for \<sigma>
      using d by simp
    ultimately show ?thesis using True by simp
  next
    case False
    then have "rest X (Context lits i u prev th) = rest X prev" by (simp add: fun_eq_iff)
    moreover have "search_ok X c vs (sols c vs (theap s) (rest X prev)) s (top_down_finish E ev prev c s)"
      using Context False by (intro Context.IH) simp_all
    ultimately show ?thesis using False by simp
  qed
qed


section \<open>Rules\<close>

text \<open>What a rule contributes to the answers for the literal \<open>l\<close> of the unifier \<open>u\<close>.\<close>

definition rule_sols ::
    "'c prog \<Rightarrow> top_caller \<Rightarrow> string list \<Rightarrow> uheap \<Rightarrow> string \<Rightarrow> literal \<Rightarrow> uid \<Rightarrow> td_context \<Rightarrow> rule \<Rightarrow> pyval list set" where
  "rule_sols X c vs h name l u ctx r =
     sols c vs h (\<lambda>\<sigma>. gives X name r (table l) (uvals \<sigma> u (arguments l)) \<and> rest X ctx \<sigma>)"

lemma unify_atoms_new:
  assumes h: "heap_ok h" and u: "u \<in> hkeys h" and new: "new_unifier h = (u', h1)"
  shows "\<exists>r h2. bi_unify_atoms (Some name) a u' l u h1 = Inr (r, h2) \<and> heap_ok h2 \<and> hkeys h \<subseteq> hkeys h2 \<and> u' \<in> hkeys h2 \<and>
    (case r of
       None \<Rightarrow> same_heap h2 h \<and> (\<forall>\<sigma>. models \<sigma> h \<longrightarrow>
         \<not> (tablename_same (Some name) (table a) (table l) \<and> uvals \<sigma> u' (arguments a) = uvals \<sigma> u (arguments l)))
     | Some cs \<Rightarrow> tablename_same (Some name) (table a) (table l) \<and> same_heap (undo_all (Some cs) h2) h \<and>
         (\<forall>\<sigma>. models \<sigma> h2 = (models \<sigma> h \<and> uvals \<sigma> u' (arguments a) = uvals \<sigma> u (arguments l))))"
proof (cases "same_schema (Some name) a l")
  case True
  then have eq: "bi_unify_atoms (Some name) a u' l u h1 = bi_unify_lists (arguments a) u' (arguments l) u h1"
    "tablename_same (Some name) (table a) (table l) = True" by (simp_all add: bi_unify_atoms_def same_schema_def)
  show ?thesis unfolding eq simp_thms by (rule unify_new [OF h u new])
next
  case False
  note n = new_unifier_ok [OF new]
  have keys: "hkeys h \<subseteq> hkeys h1" "u' \<in> hkeys h1" using n(3,5) by (auto simp: hkeys_def dom_def)
  have "\<not> (tablename_same (Some name) (table a) (table l) \<and> uvals \<sigma> u' (arguments a) = uvals \<sigma> u (arguments l))" for \<sigma>
    using False by (metis length_map same_schema_def uvals_def)
  with False n(1) keys heap_ok_same [OF h n(1) keys(1)] show ?thesis by (simp add: bi_unify_atoms_def)
qed

text \<open>After unifying the head, the goals of the body have the solutions the rule has.\<close>

lemma rule_sols_body:
  assumes h: "heap_ok h" and fresh: "u' \<notin> hkeys h" and keys: "u \<in> hkeys h" "cbinding c \<in> hkeys h" and ctx: "ctx_ok X h ctx"
    and same: "tablename_same (Some name) (table (rule_head r)) (table l)"
    and h2: "\<forall>\<sigma>. models \<sigma> h2 = (models \<sigma> h \<and> uvals \<sigma> u' (arguments (rule_head r)) = uvals \<sigma> u (arguments l))"
  shows "sols c vs h2 (\<lambda>\<sigma>. (\<forall>b \<in> set (body r). holds X name b (vals_at \<sigma> u')) \<and> rest X ctx \<sigma>) = rule_sols X c vs h name l u ctx r"
    (is "?L = ?R")
proof
  show "?L \<subseteq> ?R"
  proof
    fix a assume "a \<in> ?L"
    then obtain \<sigma> where s: "a = map (vals_at \<sigma> (cbinding c)) vs" "models \<sigma> h2"
      "\<forall>b \<in> set (body r). holds X name b (vals_at \<sigma> u')" "rest X ctx \<sigma>" by (auto simp: sols_def)
    then have "gives X name r (table l) (uvals \<sigma> u (arguments l))"
      using same h2 by (auto simp: gives_def uvals_tval intro!: exI [of _ "vals_at \<sigma> u'"])
    with s h2 show "a \<in> ?R" by (auto simp: rule_sols_def sols_def)
  qed
next
  show "?R \<subseteq> ?L"
  proof
    fix a assume "a \<in> ?R"
    then obtain \<sigma> where s: "a = map (vals_at \<sigma> (cbinding c)) vs" "models \<sigma> h"
      "gives X name r (table l) (uvals \<sigma> u (arguments l))" "rest X ctx \<sigma>" by (auto simp: rule_sols_def sols_def)
    obtain \<theta> where t: "map (tval \<theta>) (arguments (rule_head r)) = uvals \<sigma> u (arguments l)"
      "\<forall>b \<in> set (body r). holds X name b \<theta>" using s(3) by (auto simp: gives_def)
    let ?\<sigma> = "with_vars \<sigma> u' \<theta>"
    have ne: "u \<noteq> u'" "cbinding c \<noteq> u'" using fresh keys by auto
    have "models ?\<sigma> h2" using h2 t(1) s(2) models_with_vars [OF h fresh] ne by (simp add: uvals_tval)
    moreover have "rest X ctx ?\<sigma>" using rest_with_vars [OF ctx fresh] s(4) by simp
    moreover have "a = map (vals_at ?\<sigma> (cbinding c)) vs" using s(1) ne by simp
    moreover have "\<forall>b \<in> set (body r). holds X name b (vals_at ?\<sigma> u')" using t(2) by simp
    ultimately show "a \<in> ?L" unfolding sols_def by blast
  qed
qed

text \<open>The literal's variables are determined by the head's, and these by the body.\<close>

lemma head_determines:
  assumes h2: "\<forall>\<sigma>. models \<sigma> h2 = (models \<sigma> h \<and> uvals \<sigma> u' (arguments a) = uvals \<sigma> u (arguments l))"
    and head: "lit_vars a \<subseteq> \<Union> (lit_vars ` set bs)" and v: "v \<in> lit_vars l"
  shows "determined h2 (vars_at u' bs) (v, u)"
  unfolding determined_def
proof (intro allI impI)
  fix \<sigma> \<sigma>' assume m: "models \<sigma> h2" "models \<sigma>' h2" "agree (vars_at u' bs) \<sigma> \<sigma>'"
  have "vals_at \<sigma> u' w = vals_at \<sigma>' u' w" if "Variable w \<in> set (arguments a)" for w
  proof -
    have "w \<in> lit_vars a" using that by (simp add: lit_vars_def)
    with head have "(w, u') \<in> vars_at u' bs" by (auto simp: vars_at_def)
    with m(3) show ?thesis by (auto simp: agree_def vals_at_def)
  qed
  then have "uvals \<sigma> u' (arguments a) = uvals \<sigma>' u' (arguments a)" unfolding uvals_tval by (rule tval_cong)
  moreover have "uvals \<sigma> u' (arguments a) = uvals \<sigma> u (arguments l)" "uvals \<sigma>' u' (arguments a) = uvals \<sigma>' u (arguments l)"
    using h2 m(1,2) by blast+
  ultimately have "map (tval (vals_at \<sigma> u)) (arguments l) = map (tval (vals_at \<sigma>' u)) (arguments l)"
    by (metis uvals_tval)
  moreover have "Variable v \<in> set (arguments l)" using v by (simp add: lit_vars_def)
  ultimately have "tval (vals_at \<sigma> u) (Variable v) = tval (vals_at \<sigma>' u) (Variable v)" by (metis map_eq_conv)
  then show "agree {(v, u)} \<sigma> \<sigma>'" by (simp add: agree_def vals_at_def)
qed

lemma ready_body:
  assumes h2: "\<forall>\<sigma>. models \<sigma> h2 = (models \<sigma> h \<and> uvals \<sigma> u' (arguments (rule_head r)) = uvals \<sigma> u (arguments l))"
    and ok: "rule_ok X name r" and after: "ready_after R h V (vars_at u [l]) ctx" and R: "R = registry_of (penv X)"
  shows "covers R h2 {} u' (body r) \<and> ready_after R h2 V (vars_at u' (body r)) ctx"
proof
  have ext: "extends h h2" using h2 by (simp add: extends_def)
  show "covers R h2 {} u' (body r)" using ok R safe_order_covers by (fastforce simp: rule_ok_def)
  have "ready_after R h2 V (vars_at u' (body r) \<union> vars_at u [l]) ctx" by (rule ready_after_mono [OF after ext]) auto
  moreover have "\<forall>y \<in> vars_at u [l]. determined h2 (vars_at u' (body r)) y"
    using head_determines [OF h2] ok by (auto simp: vars_at_def rule_ok_def)
  ultimately show "ready_after R h2 V (vars_at u' (body r)) ctx" by (rule ready_after_cut)
qed

lemma try_rule_ok:
  assumes ev: "ev_ok X ev n c vs" and c: "caller_ok c vs"
    and s: "state_ok X s" and ctx: "ctx_ok X (theap s) ctx" and keys: "u \<in> hkeys (theap s)" "cbinding c \<in> hkeys (theap s)"
    and after: "ready_after (registry_of (penv X)) (theap s) (wanted c vs) (vars_at u [l]) ctx"
    and r: "rule_ok X name r" "sum_list (map (pcost X name) (body r)) + rest_cost X ctx \<le> n"
    and new: "new_unifier (theap s) = (u', h1)"
    and unify: "bi_unify_atoms (Some name) (rule_head r) u' l u h1 = Inr (Some cs, h2)"
  shows "search_ok X c vs (rule_sols X c vs (theap s) name l u ctx r) (s\<lparr>theap := h2\<rparr>)
      (if body r = [] then top_down_finish E ev ctx c (s\<lparr>theap := h2\<rparr>)
       else ev name (Context (body r) 0 u' ctx name) c (s\<lparr>theap := h2\<rparr>)) \<and>
    same_heap (undo_all (Some cs) h2) (theap s) \<and> hkeys (theap s) \<subseteq> hkeys h2"
proof -
  let ?R = "registry_of (penv X)" and ?s = "s\<lparr>theap := h2\<rparr>" and ?ctx = "Context (body r) 0 u' ctx name"
  have hok: "heap_ok (theap s)" using s by (simp add: state_ok_def)
  have fresh: "u' \<notin> hkeys (theap s)" using new_unifier_ok(4) [OF new] by (auto simp: hkeys_def)
  have h2: "heap_ok h2" "hkeys (theap s) \<subseteq> hkeys h2" "u' \<in> hkeys h2"
    "tablename_same (Some name) (table (rule_head r)) (table l)" "same_heap (undo_all (Some cs) h2) (theap s)"
    "\<forall>\<sigma>. models \<sigma> h2 = (models \<sigma> (theap s) \<and> uvals \<sigma> u' (arguments (rule_head r)) = uvals \<sigma> u (arguments l))"
    using unify_atoms_new [OF hok keys(1) new, of name "rule_head r" l] unify by auto
  note goals = rule_sols_body [OF hok fresh keys ctx h2(4,6), of vs]
  note ready = ready_body [OF h2(6) r(1) after refl]
  have s2: "state_ok X ?s" using s h2(1) by (simp add: state_ok_def)
  have ctx2: "ctx_ok X h2 ctx" using ctx_ok_mono [OF ctx h2(2)] .
  have b2: "cbinding c \<in> hkeys h2" using keys(2) h2(2) by blast
  show ?thesis
  proof (cases "body r = []")
    case True
    then have "search_ok X c vs (sols c vs h2 (rest X ctx)) ?s (top_down_finish E ev ctx c ?s)"
      using finish_ok [OF ev c s2, of ctx] ctx2 b2 ready r(2) by simp
    with True goals h2(2,5) show ?thesis by simp
  next
    case False
    then obtain b bs where b: "body r = b # bs" by (cases "body r") auto
    have "ctx_ok X h2 ?ctx" using ctx2 h2(3) r(1) by (simp add: rule_ok_def)
    moreover have "ready ?R h2 (wanted c vs) ?ctx" using ready by (simp add: b vars_at_Cons [of u' b bs])
    moreover have "pcost X name (body r ! 0) + rest_cost X ?ctx \<le> n" using r(2) by (simp add: b)
    moreover have "lit_ok X name (body r ! 0)" using r(1) by (simp add: rule_ok_def b)
    ultimately have "search_ok X c vs (sols c vs h2 (\<lambda>\<sigma>. holds X name (body r ! 0) (vals_at \<sigma> u') \<and> rest X ?ctx \<sigma>)) ?s
        (ev name ?ctx c ?s)"
      using ev_okD [OF ev s2, of "body r" 0 u' ctx name name] b2 by simp
    moreover have "(holds X name (body r ! 0) (vals_at \<sigma> u') \<and> rest X ?ctx \<sigma>) \<longleftrightarrow>
        (\<forall>b \<in> set (body r). holds X name b (vals_at \<sigma> u')) \<and> rest X ctx \<sigma>" for \<sigma> by (simp add: b)
    ultimately show ?thesis using False goals h2(2,5) by simp
  qed
qed


text \<open>What holds whenever the literal \<open>l\<close> of \<open>ctx\<close> is about to be proved.\<close>

definition goal_ok :: "'c prog \<Rightarrow> top_caller \<Rightarrow> string list \<Rightarrow> literal \<Rightarrow> uid \<Rightarrow> td_context \<Rightarrow> td_state \<Rightarrow> bool" where
  "goal_ok X c vs l u ctx s =
     (state_ok X s \<and> ctx_ok X (theap s) ctx \<and> u \<in> hkeys (theap s) \<and> cbinding c \<in> hkeys (theap s) \<and>
      ready_after (registry_of (penv X)) (theap s) (wanted c vs) (vars_at u [l]) ctx)"

lemma goal_ok_next:
  assumes "goal_ok X c vs l u ctx s" "search_ok X c vs S s (Inr b, s')"
  shows "goal_ok X c vs l u ctx s'" "same_heap (theap s') (theap s)"
proof -
  have s: "state_ok X s" using assms(1) by (simp add: goal_ok_def)
  note s' = search_ok_state [OF s assms(2)]
  show "same_heap (theap s') (theap s)" by (rule s'(2))
  have "ready_after (registry_of (penv X)) (theap s') (wanted c vs) (vars_at u [l]) ctx"
    using ready_after_mono [OF _ extends_same [OF s'(2)] subset_refl] assms(1) by (auto simp: goal_ok_def)
  moreover have "ctx_ok X (theap s') ctx" using ctx_ok_mono [OF _ s'(3), of X] assms(1) by (simp add: goal_ok_def)
  ultimately show "goal_ok X c vs l u ctx s'" using s'(1,3) assms(1) by (auto simp: goal_ok_def)
qed

lemma rule_sols_same: "same_heap h h' \<Longrightarrow> rule_sols X c vs h name l u ctx r = rule_sols X c vs h' name l u ctx r"
  unfolding rule_sols_def by (rule sols_same)

lemma search_skip:
  assumes "state_ok X s" "same_heap h (theap s)" "hkeys (theap s) \<subseteq> hkeys h"
  shows "search_ok X c vs {} s (Inr False, s\<lparr>theap := h\<rparr>)"
  unfolding search_ok_def
  by (intro exI [of _ False] exI [of _ "[]"] exI [of _ h] exI [of _ "tworld s"])
    (use assms in \<open>simp add: state_ok_def answers_def\<close>)

lemma try_rules_ok:
  assumes ev: "ev_ok X ev n c vs" and c: "caller_ok c vs"
  shows "goal_ok X c vs l u ctx s \<Longrightarrow>
    \<forall>r \<in> set rs. rule_ok X name r \<and> sum_list (map (pcost X name) (body r)) + rest_cost X ctx \<le> n \<Longrightarrow>
    search_ok X c vs (\<Union>r \<in> set rs. rule_sols X c vs (theap s) name l u ctx r) s (try_rules E ev name l u ctx c rs s)"
proof (induction rs arbitrary: s)
  case Nil
  then show ?case using search_fail [of X] by (simp add: sret_def goal_ok_def)
next
  case (Cons r rs)
  have g: "state_ok X s" "ctx_ok X (theap s) ctx" "u \<in> hkeys (theap s)" "cbinding c \<in> hkeys (theap s)"
    "ready_after (registry_of (penv X)) (theap s) (wanted c vs) (vars_at u [l]) ctx"
    using Cons.prems(1) by (simp_all add: goal_ok_def)
  have r: "rule_ok X name r" "sum_list (map (pcost X name) (body r)) + rest_cost X ctx \<le> n" using Cons.prems(2) by simp_all
  have hok: "heap_ok (theap s)" using g(1) by (simp add: state_ok_def)
  obtain u' h1 where new: "new_unifier (theap s) = (u', h1)" by fastforce
  let ?S = "\<lambda>s. \<Union>r \<in> set rs. rule_sols X c vs (theap s) name l u ctx r"
  have IH: "search_ok X c vs (?S s) s' (try_rules E ev name l u ctx c rs s')"
    if "search_ok X c vs S s (Inr b, s')" for S b s'
  proof -
    have "\<forall>r \<in> set rs. rule_ok X name r \<and> sum_list (map (pcost X name) (body r)) + rest_cost X ctx \<le> n"
      using Cons.prems(2) by simp
    note IH = Cons.IH [OF goal_ok_next(1) [OF Cons.prems(1) that] this]
    have "rule_sols X c vs (theap s') name l u ctx r = rule_sols X c vs (theap s) name l u ctx r" for r
      by (rule rule_sols_same [OF goal_ok_next(2) [OF Cons.prems(1) that]])
    then show ?thesis using IH by (simp only:)
  qed
  obtain res h2 where u2: "bi_unify_atoms (Some name) (rule_head r) u' l u h1 = Inr (res, h2)" "hkeys (theap s) \<subseteq> hkeys h2"
    "case res of
       None \<Rightarrow> same_heap h2 (theap s) \<and> (\<forall>\<sigma>. models \<sigma> (theap s) \<longrightarrow>
         \<not> (tablename_same (Some name) (table (rule_head r)) (table l) \<and> uvals \<sigma> u' (arguments (rule_head r)) = uvals \<sigma> u (arguments l)))
     | Some cs \<Rightarrow> True"
    using unify_atoms_new [OF hok g(3) new, of name "rule_head r" l] by (auto split: option.splits)
  have start: "try_rules E ev name l u ctx c (r # rs) s =
      (case res of None \<Rightarrow> try_rules E ev name l u ctx c rs (s\<lparr>theap := h2\<rparr>)
       | Some cs \<Rightarrow> sbind (if body r = [] then top_down_finish E ev ctx c else ev name (Context (body r) 0 u' ctx name) c) (\<lambda>ok.
           sbind (undo_st cs) (\<lambda>_. if ok \<and> \<not> find_all c then sret True else try_rules E ev name l u ctx c rs)) (s\<lparr>theap := h2\<rparr>))"
    using new u2(1) by (simp add: sbind_def new_bi_unifier_def on_heap_def split: option.splits)
  show ?case
  proof (cases res)
    case None
    have "u' \<notin> hkeys (theap s)" using new_unifier_ok(4) [OF new] by (auto simp: hkeys_def)
    have "rule_sols X c vs (theap s) name l u ctx r = {}"
      unfolding rule_sols_def
    proof (rule sols_none)
      fix \<sigma> assume m: "models \<sigma> (theap s)"
      show "\<not> (gives X name r (table l) (uvals \<sigma> u (arguments l)) \<and> rest X ctx \<sigma>)"
      proof
        assume "gives X name r (table l) (uvals \<sigma> u (arguments l)) \<and> rest X ctx \<sigma>"
        then obtain \<theta> where t: "tablename_same (Some name) (table (rule_head r)) (table l)"
          "map (tval \<theta>) (arguments (rule_head r)) = uvals \<sigma> u (arguments l)" by (auto simp: gives_def)
        let ?\<sigma> = "with_vars \<sigma> u' \<theta>"
        have "u \<noteq> u'" using g(3) \<open>u' \<notin> hkeys (theap s)\<close> by auto
        then have "uvals ?\<sigma> u' (arguments (rule_head r)) = uvals ?\<sigma> u (arguments l)" using t(2) by (simp add: uvals_tval)
        moreover have "models ?\<sigma> (theap s)" using models_with_vars [OF hok \<open>u' \<notin> hkeys (theap s)\<close>] m by simp
        ultimately show False using u2(3) None t(1) by simp
      qed
    qed
    moreover have skip: "search_ok X c vs {} s (Inr False, s\<lparr>theap := h2\<rparr>)"
      using search_skip [OF g(1) _ u2(2)] u2(3) None by simp
    ultimately show ?thesis using search_next [OF skip IH [OF skip]] start None by simp
  next
    case (Some cs)
    note one = try_rule_ok [OF ev c g(1,2,3,4,5) r new u2(1) [unfolded Some], of E]
    obtain res' s' where run: "(if body r = [] then top_down_finish E ev ctx c else ev name (Context (body r) 0 u' ctx name) c) (s\<lparr>theap := h2\<rparr>) = (res', s')"
      by fastforce
    then have ok: "search_ok X c vs (rule_sols X c vs (theap s) name l u ctx r) (s\<lparr>theap := h2\<rparr>) (res', s')"
      using one by (simp split: if_splits)
    then obtain b where b: "res' = Inr b" by (auto simp: search_ok_def)
    obtain s'' where s'': "undo_st cs s' = (Inr (), s'')" "search_ok X c vs (rule_sols X c vs (theap s) name l u ctx r) s (Inr b, s'')"
      using search_undo [OF ok [unfolded b]] one by blast
    have eq: "try_rules E ev name l u ctx c (r # rs) s =
        (if b \<and> \<not> find_all c then (Inr True, s'') else try_rules E ev name l u ctx c rs s'')"
      using run b s''(1) unfolding start Some option.case sbind_def by (simp add: sret_def)
    show ?thesis
    proof (cases "b \<and> \<not> find_all c")
      case True
      with s''(2) search_stop show ?thesis unfolding eq by auto
    next
      case False
      with search_next [OF s''(2) IH [OF s''(2)]] show ?thesis unfolding eq by auto
    qed
  qed
qed

section \<open>Tables\<close>

lemma policy_at_set: "policy_at (set_policy n p w) m = (if m = n then p else policy_at w m)"
  by (simp add: policy_at_def set_policy_def)

lemma head_index_ok:
  assumes w: "world_ok X w" and len: "length (arguments pl) = pwidth X n k"
  shows "\<exists>rs w'. head_index n k (Some pl) w = (Inr rs, w') \<and> world_ok X w' \<and>
    set rs = rule_of_fact k ` {f \<in> sp_facts (pstores X n) k. fact_wanted (Some pl) f} \<union> set (sp_rules (pstores X n) k)"
proof -
  let ?rs = "prules (policy_at w n)"
  have rep: "store_rep (pwidth X n) ?rs (pstores X n)" using w by (simp add: world_ok_def)
  show ?thesis
  proof (cases "rs_has_key k ?rs")
    case False
    then have "k \<notin> sp_fkeys (pstores X n)" "k \<notin> sp_rkeys (pstores X n)"
      using keys_sim [OF rep] by (auto simp: rs_has_key_def rs_keys_def)
    moreover have F: "facts_rep (pwidth X n) (rs_facts ?rs) (sp_facts (pstores X n)) (sp_fkeys (pstores X n))"
      "rules_rep (rs_rules ?rs) (sp_rules (pstores X n)) (sp_rkeys (pstores X n))"
      using rep by (simp_all add: store_rep_def)
    moreover have "map_of (rs_rules ?rs) k = None"
      using False map_of_None_keys [of "rs_rules ?rs" k] by (simp add: rs_has_key_def)
    ultimately have "sp_facts (pstores X n) k = {}" "sp_rules (pstores X n) k = []"
      using facts_repD(3) [OF F(1)] rules_lookup(1) [OF F(2)] by simp_all
    with False w show ?thesis by (simp add: head_index_def)
  next
    case True
    obtain ms rs' where g: "rs_get_rules k (Some pl) ?rs = (Inr (map (rule_of_fact k) ms @ sp_rules (pstores X n) k), rs')"
      "set ms = {f \<in> sp_facts (pstores X n) k. fact_wanted (Some pl) f}" "store_rep (pwidth X n) rs' (pstores X n)"
      using get_rules_ok [OF rep, of k "Some pl"] len by auto
    have "map_of w n \<noteq> None"
    proof
      assume "map_of w n = None"
      then have "?rs = rs_empty" by (simp add: policy_at_def new_policy_def)
      with True show False by (simp add: rs_has_key_def rs_empty_def)
    qed
    then have key: "(map_of (set_policy n p w) m = None) = (map_of w m = None)" for p m
      by (simp add: set_policy_def)
    have "world_ok X (set_policy n ((policy_at w n)\<lparr>prules := rs'\<rparr>) w)"
      unfolding world_ok_def key policy_at_set
    proof
      fix m
      show "(map_of w m = None) = (map_of (pworld X) m = None) \<and>
         plinked (if m = n then policy_at w n\<lparr>prules := rs'\<rparr> else policy_at w m) = plinked (policy_at (pworld X) m) \<and>
         pincludes (if m = n then policy_at w n\<lparr>prules := rs'\<rparr> else policy_at w m) = pincludes (policy_at (pworld X) m) \<and>
         store_rep (pwidth X m) (prules (if m = n then policy_at w n\<lparr>prules := rs'\<rparr> else policy_at w m)) (pstores X m)"
        using w g(3) unfolding world_ok_def by (cases "m = n") simp_all
    qed
    then show ?thesis using True g(1,2) by (simp add: head_index_def on_rules_def)
  qed
qed

text \<open>The plugged literal: constants where the heap has them.\<close>

lemma uplug_ok:
  assumes wf: "wf_heap h"
  shows "\<exists>args. uplug f None h u l = Inr (l\<lparr>arguments := args\<rparr>) \<and> length args = length (arguments l) \<and>
    (\<forall>i < length args. \<forall>v. args ! i = ObjectConstant v \<longrightarrow> (\<forall>\<sigma>. models \<sigma> h \<longrightarrow> uvals \<sigma> u (arguments l) ! i = v)) \<and>
    (\<forall>i < length args. (\<forall>v. arguments l ! i = Variable v \<longrightarrow> determined h {} (v, u)) \<longrightarrow> \<not> is_variable (args ! i))"
proof -
  define val where "val t = (case uapply f None h u t of Inr t' \<Rightarrow> t' | Inl _ \<Rightarrow> t)" for t
  have val: "uapply f None h u t = Inr (val t)" for t using uapply_total [OF wf, of f u t] by (auto simp: val_def)
  let ?args = "map val (arguments l)"
  have "uplug f None h u l = Inr (l\<lparr>arguments := ?args\<rparr>)"
    using map_res_fun [of "arguments l" "uapply f None h u" val] val by (simp add: uplug_def)
  moreover have "eval \<sigma> (t, Some u) = v" if "val t = ObjectConstant v" "models \<sigma> h" for t v \<sigma>
  proof -
    obtain x b where r: "resolve h u t = Inr (x, b)" "\<forall>\<sigma>. models \<sigma> h \<longrightarrow> eval \<sigma> (t, Some u) = eval \<sigma> (x, b)"
      using resolve_ok [OF wf, of u t] by (metis surj_pair)
    then have "x = ObjectConstant v" using that(1) val [of t] by (simp add: uapply_no_caller)
    with r(2) that(2) show ?thesis by simp
  qed
  moreover have "\<not> is_variable (val t)" if "\<forall>v. t = Variable v \<longrightarrow> determined h {} (v, u)" for t
  proof (cases t)
    case (Variable v)
    with that uapply_determined [OF wf, of v u f] val [of t] show ?thesis by auto
  next
    case (ObjectConstant k)
    then have "uvalue u t h = None" using wf_heapD(1) [OF wf, of u t] by (cases "uvalue u t h") fastforce+
    then have "resolve h u t = Inr (t, Some u)" by (simp add: resolve_def ufuel_def rename_apart_def)
    then show ?thesis using val [of t] ObjectConstant by (simp add: uapply_no_caller)
  qed
  ultimately show ?thesis by (intro exI [of _ ?args]) (auto simp: uvals_def)
qed


lemma search_world: "search_ok X c vs S (s\<lparr>tworld := w\<rparr>) r = search_ok X c vs S s r"
  by (simp add: search_ok_def)

definition table_sols ::
    "'c prog \<Rightarrow> top_caller \<Rightarrow> string list \<Rightarrow> uheap \<Rightarrow> string \<Rightarrow> literal \<Rightarrow> uid \<Rightarrow> td_context \<Rightarrow> pyval list set" where
  "table_sols X c vs h name l u ctx = (\<Union>r \<in> rules_for X name (tbl (table l)). rule_sols X c vs h name l u ctx r)"

definition fits :: "'c prog \<Rightarrow> nat \<Rightarrow> td_context \<Rightarrow> literal \<Rightarrow> string \<Rightarrow> bool" where
  "fits X n ctx l name = (length (arguments l) = pwidth X name (tbl (table l)) \<and>
     (\<forall>r \<in> rules_for X name (tbl (table l)). sum_list (map (pcost X name) (body r)) + rest_cost X ctx \<le> n))"

text \<open>A fact that the index leaves out contributes nothing.\<close>

lemma unwanted_fact:
  assumes args: "length args = length (arguments l)"
    "\<forall>i < length args. \<forall>v. args ! i = ObjectConstant v \<longrightarrow> (\<forall>\<sigma>. models \<sigma> h \<longrightarrow> uvals \<sigma> u (arguments l) ! i = v)"
    and f: "\<not> fact_wanted (Some (l\<lparr>arguments := args\<rparr>)) f"
  shows "rule_sols X c vs h name l u ctx (rule_of_fact k f) = {}"
  unfolding rule_sols_def
proof (rule sols_none)
  fix \<sigma> assume m: "models \<sigma> h"
  obtain i v where iv: "(i, v) \<in> set (bound_arguments (l\<lparr>arguments := args\<rparr>))" "fvals f ! i \<noteq> v"
    using f by (auto simp: fact_wanted_def agrees_def list_all_iff)
  have "args ! i = ObjectConstant v" "i < length args"
    using iv(1) by (auto simp: bound_arguments_def in_set_enumerate_eq elim!: is_variable.elims)
  then have "uvals \<sigma> u (arguments l) ! i = v" using args(2) m by blast
  moreover have "map (tval \<theta>) (arguments (rule_head (rule_of_fact k f))) = fvals f" for \<theta>
    by (simp add: rule_of_fact_def mk_literal_def map_idI)
  ultimately show "\<not> (gives X name (rule_of_fact k f) (table l) (uvals \<sigma> u (arguments l)) \<and> rest X ctx \<sigma>)"
    using iv(2) by (auto simp: gives_def)
qed

lemma top_down_th_ok:
  assumes X: "rules_ok X" and ev: "ev_ok X ev n c vs" and c: "caller_ok c vs"
    and g: "goal_ok X c vs l u ctx s" and fit: "fits X n ctx l name"
  shows "search_ok X c vs (table_sols X c vs (theap s) name l u ctx) s (top_down_th E ev name l u ctx c s)"
proof -
  let ?k = "tbl (table l)"
  have s: "state_ok X s" using g by (simp add: goal_ok_def)
  then have wf: "wf_heap (theap s)" by (simp add: state_ok_def heap_ok_def)
  obtain args where a: "uplug (str_id E) None (theap s) u l = Inr (l\<lparr>arguments := args\<rparr>)" "length args = length (arguments l)"
    "\<forall>i < length args. \<forall>v. args ! i = ObjectConstant v \<longrightarrow> (\<forall>\<sigma>. models \<sigma> (theap s) \<longrightarrow> uvals \<sigma> u (arguments l) ! i = v)"
    using uplug_ok [OF wf, of "str_id E" u l] by blast
  let ?pl = "l\<lparr>arguments := args\<rparr>"
  obtain rs w where rs: "head_index name ?k (Some ?pl) (tworld s) = (Inr rs, w)" "world_ok X w"
    "set rs = rule_of_fact ?k ` {f \<in> sp_facts (pstores X name) ?k. fact_wanted (Some ?pl) f} \<union> set (sp_rules (pstores X name) ?k)"
    using head_index_ok [of X "tworld s" ?pl name ?k] s fit a(2) by (auto simp: state_ok_def fits_def)
  have sub: "set rs \<subseteq> rules_for X name ?k" using rs(3) by (auto simp: rules_for_def)
  have "goal_ok X c vs l u ctx (s\<lparr>tworld := w\<rparr>)" using g rs(2) by (simp add: goal_ok_def state_ok_def)
  moreover have "\<forall>r \<in> set rs. rule_ok X name r \<and> sum_list (map (pcost X name) (body r)) + rest_cost X ctx \<le> n"
    using sub X fit by (auto simp: rules_ok_def fits_def)
  ultimately have "search_ok X c vs (\<Union>r \<in> set rs. rule_sols X c vs (theap s) name l u ctx r) s
      (try_rules E ev name l u ctx c rs (s\<lparr>tworld := w\<rparr>))"
    using try_rules_ok [OF ev c, of l u ctx "s\<lparr>tworld := w\<rparr>" rs name E] by (simp add: search_world)
  moreover have "(\<Union>r \<in> set rs. rule_sols X c vs (theap s) name l u ctx r) = table_sols X c vs (theap s) name l u ctx"
  proof
    show "table_sols X c vs (theap s) name l u ctx \<subseteq> (\<Union>r \<in> set rs. rule_sols X c vs (theap s) name l u ctx r)"
    proof
      fix x assume "x \<in> table_sols X c vs (theap s) name l u ctx"
      then obtain r where r: "r \<in> rules_for X name ?k" "x \<in> rule_sols X c vs (theap s) name l u ctx r" by (auto simp: table_sols_def)
      moreover have "r \<in> set rs"
      proof (rule ccontr)
        assume "r \<notin> set rs"
        then obtain f where "r = rule_of_fact ?k f" "\<not> fact_wanted (Some ?pl) f" using r(1) rs(3) by (auto simp: rules_for_def)
        then have "rule_sols X c vs (theap s) name l u ctx r = {}" using unwanted_fact [OF a(2,3)] by blast
        with r(2) show False by blast
      qed
      ultimately show "x \<in> (\<Union>r \<in> set rs. rule_sols X c vs (theap s) name l u ctx r)" by blast
    qed
  qed (use sub in \<open>auto simp: table_sols_def\<close>)
  ultimately show ?thesis using a(1) rs(1) by (simp add: top_down_th_def sbind_def on_world_def)
qed

text \<open>A list of searches for the same goal, as the loop over the included policies runs them.\<close>

lemma try_included_ok:
  assumes each: "\<And>th s. th \<in> set ths \<Longrightarrow> goal_ok X c vs l u ctx s \<Longrightarrow> search_ok X c vs (S th (theap s)) s (f th s)"
    and same: "\<And>th h h'. same_heap h h' \<Longrightarrow> S th h = S th h'"
  shows "goal_ok X c vs l u ctx s \<Longrightarrow> search_ok X c vs (\<Union>th \<in> set ths. S th (theap s)) s (try_included c f ths s)"
  using each
proof (induction ths arbitrary: s)
  case Nil
  then show ?case using search_fail [of X] by (simp add: sret_def goal_ok_def)
next
  case (Cons th ths)
  obtain r s' where run: "f th s = (r, s')" by fastforce
  have one: "search_ok X c vs (S th (theap s)) s (r, s')" using Cons.prems(2) [of th s] Cons.prems(1) run by simp
  then obtain b where b: "r = Inr b" by (auto simp: search_ok_def)
  have eq: "try_included c f (th # ths) s = (if b \<and> \<not> find_all c then (Inr True, s') else try_included c f ths s')"
    using run b by (simp add: sbind_def sret_def)
  show ?case
  proof (cases "b \<and> \<not> find_all c")
    case True
    with one b search_stop show ?thesis unfolding eq by auto
  next
    case False
    note next_ok = goal_ok_next [OF Cons.prems(1) one [unfolded b]]
    have "search_ok X c vs (\<Union>th \<in> set ths. S th (theap s')) s' (try_included c f ths s')"
      using Cons.prems(2) by (intro Cons.IH next_ok(1)) auto
    moreover have "S th (theap s') = S th (theap s)" for th by (rule same [OF next_ok(2)])
    ultimately have "search_ok X c vs (\<Union>th \<in> set ths. S th (theap s)) s' (try_included c f ths s')" by (simp only:)
    from search_next [OF one [unfolded b] this] False show ?thesis unfolding eq by auto
  qed
qed

lemma included_step: "included X n m \<longleftrightarrow> n = m \<or> (\<exists>k \<in> set (pincludes (policy_at (pworld X) n)). included X k m)"
proof -
  let ?r = "{(n, m). m \<in> set (pincludes (policy_at (pworld X) n))}"
  have "(n, m) \<in> ?r\<^sup>* \<longleftrightarrow> n = m \<or> (\<exists>k. (n, k) \<in> ?r \<and> (k, m) \<in> ?r\<^sup>*)"
    by (meson converse_rtranclE converse_rtrancl_into_rtrancl rtrancl.rtrancl_refl)
  then show ?thesis by (auto simp: included_def)
qed

definition inc_sols ::
    "'c prog \<Rightarrow> top_caller \<Rightarrow> string list \<Rightarrow> uheap \<Rightarrow> string \<Rightarrow> literal \<Rightarrow> uid \<Rightarrow> td_context \<Rightarrow> pyval list set" where
  "inc_sols X c vs h name l u ctx = (\<Union>m \<in> {m. included X name m}. table_sols X c vs h m l u ctx)"

lemma inc_sols_step:
  "inc_sols X c vs h name l u ctx = table_sols X c vs h name l u ctx \<union>
     (\<Union>m \<in> set (pincludes (policy_at (pworld X) name)). inc_sols X c vs h m l u ctx)"
  unfolding inc_sols_def using included_step [of X name] by auto

lemma inc_sols_same: "same_heap h h' \<Longrightarrow> inc_sols X c vs h name l u ctx = inc_sols X c vs h' name l u ctx"
  unfolding inc_sols_def table_sols_def using rule_sols_same by (intro SUP_cong refl)

lemma inc_sols_truth:
  assumes "supported X"
  shows "inc_sols X c vs h name l u ctx = sols c vs h (\<lambda>\<sigma>. ptruth X name (table l) (uvals \<sigma> u (arguments l)) \<and> rest X ctx \<sigma>)"
proof -
  have "ptruth X name (table l) (uvals \<sigma> u (arguments l)) \<and> rest X ctx \<sigma> \<longleftrightarrow>
      (\<exists>m \<in> {m. included X name m}. \<exists>r \<in> rules_for X m (tbl (table l)). gives X m r (table l) (uvals \<sigma> u (arguments l)) \<and> rest X ctx \<sigma>)" for \<sigma>
    using assms unfolding supported_def by blast
  then show ?thesis by (simp only: sols_UN) (simp add: inc_sols_def table_sols_def rule_sols_def)
qed

lemma top_down_includes_ok:
  assumes X: "rules_ok X" "costs_ok X" and ev: "ev_ok X ev n c vs" and c: "caller_ok c vs"
  shows "goal_ok X c vs l u ctx s \<Longrightarrow> \<forall>m. included X name m \<longrightarrow> fits X n ctx l m \<Longrightarrow> pdepth X name < d \<Longrightarrow>
    search_ok X c vs (inc_sols X c vs (theap s) name l u ctx) s (top_down_includes d E ev name l u ctx c s)"
proof (induction d arbitrary: name s)
  case (Suc d)
  let ?ms = "pincludes (policy_at (pworld X) name)"
  have fit: "fits X n ctx l name" using Suc.prems(2) by (simp add: included_def)
  obtain r s' where run: "top_down_th E ev name l u ctx c s = (r, s')" by fastforce
  have one: "search_ok X c vs (table_sols X c vs (theap s) name l u ctx) s (r, s')"
    using top_down_th_ok [OF X(1) ev c Suc.prems(1) fit, of E] run by simp
  then obtain b where b: "r = Inr b" by (auto simp: search_ok_def)
  note next_ok = goal_ok_next [OF Suc.prems(1) one [unfolded b]]
  have inc: "pincludes (policy_at (tworld s') name) = ?ms"
    using next_ok(1) by (simp add: goal_ok_def state_ok_def world_ok_def)
  have eq: "top_down_includes (Suc d) E ev name l u ctx c s =
      (if b \<and> \<not> find_all c then (Inr True, s') else try_included c (\<lambda>th. top_down_includes d E ev th l u ctx c) ?ms s')"
    using run b inc by (simp add: sbind_def)
  show ?case
  proof (cases "b \<and> \<not> find_all c")
    case True
    with one b search_stop show ?thesis unfolding eq by (subst inc_sols_step) auto
  next
    case False
    have "search_ok X c vs (inc_sols X c vs (theap s) th l u ctx) s (top_down_includes d E ev th l u ctx c s)"
      if "th \<in> set ?ms" "goal_ok X c vs l u ctx s" for th s
    proof (rule Suc.IH [OF that(2)])
      show "\<forall>m. included X th m \<longrightarrow> fits X n ctx l m" using Suc.prems(2) that(1) included_step [of X name] by blast
      have "pdepth X th < pdepth X name" using X(2) that(1) by (auto simp: costs_ok_def)
      then show "pdepth X th < d" using Suc.prems(3) by simp
    qed
    then have "search_ok X c vs (\<Union>th \<in> set ?ms. inc_sols X c vs (theap s') th l u ctx) s'
        (try_included c (\<lambda>th. top_down_includes d E ev th l u ctx c) ?ms s')"
      by (rule try_included_ok [where S = "\<lambda>th h. inc_sols X c vs h th l u ctx", OF _ inc_sols_same next_ok(1)])
    moreover have "inc_sols X c vs (theap s') th l u ctx = inc_sols X c vs (theap s) th l u ctx" for th
      by (rule inc_sols_same [OF next_ok(2)])
    ultimately have "search_ok X c vs (\<Union>th \<in> set ?ms. inc_sols X c vs (theap s) th l u ctx) s'
        (try_included c (\<lambda>th. top_down_includes d E ev th l u ctx c) ?ms s')" by (simp only:)
    from search_next [OF one [unfolded b] this] False show ?thesis
      unfolding eq by (subst inc_sols_step) auto
  qed
qed simp

end
