(* ===== verification/Query_Answers.thy ===== *)
theory Query_Answers
  imports Top_Down_Correct
begin

text \<open>
  The answers to queries: negated literals, builtins and literals of other policies, the
  evaluator as a whole, the fuel it needs, and \<open>select\<close>. The fuel is bounded by costs of
  literals, which exist whenever no table depends on itself; for such policies there is exactly
  one supported interpretation.
\<close>

declare map_of_eq_Some_iff [simp del] Some_eq_map_of_iff [simp del]

section \<open>Literals that bind nothing new\<close>

definition lit_determined :: "uheap \<Rightarrow> uid \<Rightarrow> literal \<Rightarrow> bool" where
  "lit_determined h u l = (\<forall>v \<in> lit_vars l. determined h {} (v, u))"

lemma determined_same:
  assumes "lit_determined h u l" "models \<sigma> h" "models \<sigma>' h"
  shows "uvals \<sigma> u (arguments l) = uvals \<sigma>' u (arguments l)" "holds X n l (vals_at \<sigma> u) = holds X n l (vals_at \<sigma>' u)"
proof -
  have eq: "vals_at \<sigma> u v = vals_at \<sigma>' u v" if "v \<in> lit_vars l" for v
    using assms that by (auto simp: lit_determined_def determined_def agree_def vals_at_def)
  then show "holds X n l (vals_at \<sigma> u) = holds X n l (vals_at \<sigma>' u)" by (rule holds_cong)
  show "uvals \<sigma> u (arguments l) = uvals \<sigma>' u (arguments l)"
    unfolding uvals_tval by (rule tval_cong) (use eq in \<open>simp add: lit_vars_def\<close>)
qed

lemma finish_determined:
  assumes ev: "ev_ok X ev n c vs" and c: "caller_ok c vs" and g: "goal_ok X c vs l u ctx s"
    and det: "lit_determined (theap s) u l" and cost: "rest_cost X ctx \<le> n"
  shows "search_ok X c vs (sols c vs (theap s) (rest X ctx)) s (top_down_finish E ev ctx c s)"
proof (rule finish_ok [OF ev c])
  have "ready_after (registry_of (penv X)) (theap s) (wanted c vs) ({} \<union> vars_at u [l]) ctx" using g by (simp add: goal_ok_def)
  then show "ready_after (registry_of (penv X)) (theap s) (wanted c vs) {} ctx"
    by (rule ready_after_cut) (use det in \<open>auto simp: vars_at_def lit_determined_def\<close>)
qed (use g cost in \<open>simp_all add: goal_ok_def\<close>)

text \<open>Finishing a determined literal that is true in all valuations of the heap.\<close>

lemma finish_true:
  assumes "ev_ok X ev n c vs" "caller_ok c vs" "goal_ok X c vs l u ctx s" "lit_determined (theap s) u l" "rest_cost X ctx \<le> n"
    and "\<And>\<sigma>. models \<sigma> (theap s) \<Longrightarrow> G \<sigma>"
  shows "search_ok X c vs (sols c vs (theap s) (\<lambda>\<sigma>. G \<sigma> \<and> rest X ctx \<sigma>)) s (top_down_finish E ev ctx c s)"
proof -
  have "sols c vs (theap s) (\<lambda>\<sigma>. G \<sigma> \<and> rest X ctx \<sigma>) = sols c vs (theap s) (rest X ctx)"
    using assms(6) by (intro sols_cong) blast
  with finish_determined [OF assms(1-5)] show ?thesis by simp
qed

section \<open>Negation\<close>

lemma complement_simps [simp]:
  "table (lit_complement l) = table l" "arguments (lit_complement l) = arguments l"
  "negated (lit_complement l) = (\<not> negated l)" "lit_tablename d (lit_complement l) = lit_tablename d l"
  "lit_is_builtin R (lit_complement l) = lit_is_builtin R l"
  by (simp_all add: lit_complement_def lit_tablename_def lit_is_builtin_def)

lemma complement_target [simp]:
  "elsewhere w n (lit_complement l) = elsewhere w n l" "target_of X n (lit_complement l) = target_of X n l"
  unfolding target_of_def elsewhere_def lit_is_update_def by (simp_all only: complement_simps)

lemma lit_ok_complement: "lit_ok X n (lit_complement l) = lit_ok X n l"
  unfolding lit_ok_def by (simp only: complement_simps complement_target)

lemma holds_complement: "holds X n (lit_complement l) \<theta> = (\<not> holds X n l \<theta>)"
  unfolding holds_def atom_holds_def by (simp only: complement_simps complement_target) blast

lemma lit_vars_complement [simp]: "lit_vars (lit_complement l) = lit_vars l"
  by (simp add: lit_vars_def lit_complement_def)

lemma needs_vars: "needs R l \<subseteq> lit_vars l"
  by (auto simp: needs_def lit_vars_def dest: in_set_takeD split: option.splits)

lemma naf_ok:
  assumes ev: "ev_ok X ev n (c\<lparr>find_all := False, save := None\<rparr>) []"
    and g: "goal_ok X c vs l u ctx s" and det: "lit_determined (theap s) u l" and ok: "lit_ok X name l"
    and cost: "pcost X name (lit_complement l) \<le> n"
  shows "\<exists>failed s'. negation_as_failure ev name l u c s = (Inr failed, s') \<and> search_ok X c vs {} s (Inr False, s') \<and>
    (\<forall>\<sigma>. models \<sigma> (theap s) \<longrightarrow> failed = holds X name l (vals_at \<sigma> u))"
proof -
  let ?c = "c\<lparr>find_all := False, save := None\<rparr>" and ?ctx = "Context [lit_complement l] 0 u Root name"
  let ?s = "s\<lparr>tsupport := [], tresults := []\<rparr>"
  have s: "state_ok X ?s" "theap ?s = theap s" using g by (simp_all add: goal_ok_def state_ok_def)
  have "ready (registry_of (penv X)) (theap s) (wanted ?c []) ?ctx"
    using det needs_vars [of "registry_of (penv X)" "lit_complement l"]
    by (auto simp: wanted_def lit_determined_def)
  then have "search_ok X ?c [] (sols ?c [] (theap s) (\<lambda>\<sigma>. holds X name (lit_complement l) (vals_at \<sigma> u) \<and> rest X ?ctx \<sigma>)) ?s
      (ev name ?ctx ?c ?s)"
    using ev_okD [OF ev s(1), of "[lit_complement l]" 0 u Root name name] g ok cost
    by (simp add: goal_ok_def lit_ok_complement)
  moreover have "holds X name (lit_complement l) (vals_at \<sigma> u) \<and> rest X ?ctx \<sigma> \<longleftrightarrow> \<not> holds X name l (vals_at \<sigma> u)" for \<sigma>
    by (simp add: holds_complement)
  ultimately have "search_ok X ?c [] (sols ?c [] (theap s) (\<lambda>\<sigma>. \<not> holds X name l (vals_at \<sigma> u))) ?s (ev name ?ctx ?c ?s)"
    by (simp only:)
  then obtain b new h w where r: "ev name ?ctx ?c ?s = (Inr b, ?s\<lparr>theap := h, tworld := w, tresults := new\<rparr>)"
    "same_heap h (theap s)" "hkeys (theap s) \<subseteq> hkeys h" "world_ok X w"
    "answers ?c [] new b (sols ?c [] (theap s) (\<lambda>\<sigma>. \<not> holds X name l (vals_at \<sigma> u)))"
    unfolding search_ok_def by (elim exE conjE) simp
  let ?s' = "s\<lparr>theap := h, tworld := w\<rparr>"
  have "negation_as_failure ev name l u c s = (Inr (new = []), ?s')"
    using r(1) by (simp add: negation_as_failure_def)
  moreover have "search_ok X c vs {} s (Inr False, ?s')"
    unfolding search_ok_def
    by (intro exI [of _ False] exI [of _ "[]"] exI [of _ h] exI [of _ w]) (use r in \<open>simp add: answers_def\<close>)
  moreover have "(new = []) = holds X name l (vals_at \<sigma> u)" if m: "models \<sigma> (theap s)" for \<sigma>
  proof -
    have "new = [] \<longleftrightarrow> sols ?c [] (theap s) (\<lambda>\<sigma>. \<not> holds X name l (vals_at \<sigma> u)) = {}"
      using r(5) by (auto simp: answers_def)
    also have "\<dots> \<longleftrightarrow> holds X name l (vals_at \<sigma> u)"
    proof
      assume "sols ?c [] (theap s) (\<lambda>\<sigma>. \<not> holds X name l (vals_at \<sigma> u)) = {}"
      then show "holds X name l (vals_at \<sigma> u)" using m unfolding sols_def by blast
    next
      assume "holds X name l (vals_at \<sigma> u)"
      then have "holds X name l (vals_at \<sigma>' u)" if "models \<sigma>' (theap s)" for \<sigma>'
        using determined_same(2) [OF det m that] by blast
      then show "sols ?c [] (theap s) (\<lambda>\<sigma>. \<not> holds X name l (vals_at \<sigma> u)) = {}" by (intro sols_none) blast
    qed
    finally show ?thesis .
  qed
  ultimately show ?thesis by blast
qed

section \<open>Builtins\<close>

lemma builtin_inputs_ok:
  "n \<le> length ts \<Longrightarrow> \<forall>i < n. \<not> is_variable (ts ! i) \<Longrightarrow>
    \<exists>vs. builtin_inputs b n ts = Inr (Some vs) \<and> take n ts = map ObjectConstant vs"
proof (induction n arbitrary: ts)
  case (Suc n)
  then obtain t ts' where ts: "ts = t # ts'" by (cases ts) auto
  then obtain v where t: "t = ObjectConstant v" using Suc.prems(2) by (cases t) fastforce+
  have "\<forall>i < n. \<not> is_variable (ts' ! i)" using Suc.prems(2) ts by (metis Suc_less_eq nth_Cons_Suc)
  with Suc.IH [of ts'] Suc.prems(1) ts t show ?case by fastforce
qed simp

lemma output_terms_ok: "r \<noteq> BNone \<Longrightarrow> r \<noteq> BRaise \<Longrightarrow> \<exists>ws. output_terms r = Inr (map ObjectConstant ws)"
  by (cases r) (auto intro: exI [of _ "[_]"])

lemma map_ObjectConstant_eq: "map ObjectConstant xs = map ObjectConstant ys \<longleftrightarrow> xs = ys"
  by (rule inj_map_eq_map) (simp add: inj_def)

lemma uvals_constants [simp]: "uvals \<sigma> u (map ObjectConstant vs) = vs"
  by (simp add: uvals_def map_idI)

text \<open>Inputs that the heap determines have the values the code is called with.\<close>

lemma determined_inputs:
  assumes wf: "wf_heap h" and n: "n \<le> length (arguments l)" and det: "\<forall>v. Variable v \<in> set (take n (arguments l)) \<longrightarrow> determined h {} (v, u)"
  shows "\<exists>vs. rbind (uplug f None h u l) (\<lambda>pl. builtin_inputs b n (arguments pl)) = Inr (Some vs) \<and>
    (\<forall>\<sigma>. models \<sigma> h \<longrightarrow> take n (uvals \<sigma> u (arguments l)) = vs)"
proof -
  obtain args where a: "uplug f None h u l = Inr (l\<lparr>arguments := args\<rparr>)" "length args = length (arguments l)"
    "\<forall>i < length args. \<forall>v. args ! i = ObjectConstant v \<longrightarrow> (\<forall>\<sigma>. models \<sigma> h \<longrightarrow> uvals \<sigma> u (arguments l) ! i = v)"
    "\<forall>i < length args. (\<forall>v. arguments l ! i = Variable v \<longrightarrow> determined h {} (v, u)) \<longrightarrow> \<not> is_variable (args ! i)"
    using uplug_ok [OF wf, of f u l] by blast
  have "\<not> is_variable (args ! i)" if "i < n" for i
  proof -
    have "arguments l ! i \<in> set (take n (arguments l))" using that n by (auto simp: in_set_conv_nth)
    moreover have "i < length args" using that n a(2) by simp
    moreover have "determined h {} (v, u)" if "arguments l ! i = Variable v" for v
      using det that \<open>arguments l ! i \<in> set (take n (arguments l))\<close> by simp
    ultimately show ?thesis using a(4) by blast
  qed
  then obtain vs where vs: "builtin_inputs b n args = Inr (Some vs)" "take n args = map ObjectConstant vs"
    using builtin_inputs_ok [of n args b] a(2) n by auto
  have len: "length vs = n" using vs(2) a(2) n by (metis length_map length_take min.absorb2)
  have "take n (uvals \<sigma> u (arguments l)) = vs" if m: "models \<sigma> h" for \<sigma>
  proof (rule nth_equalityI)
    show "length (take n (uvals \<sigma> u (arguments l))) = length vs" using n len by (simp add: uvals_def)
  next
    fix i assume i: "i < length (take n (uvals \<sigma> u (arguments l)))"
    then have i: "i < n" "i < length args" using n a(2) by (simp_all add: uvals_def)
    have "args ! i = ObjectConstant (vs ! i)" using vs(2) i len by (metis nth_map nth_take)
    then show "take n (uvals \<sigma> u (arguments l)) ! i = vs ! i" using a(3) i m by simp
  qed
  with a(1) vs(1) show ?thesis by simp
qed

lemma uvals_take_drop: "take n (uvals \<sigma> u ts) = uvals \<sigma> u (take n ts)" "drop n (uvals \<sigma> u ts) = uvals \<sigma> u (drop n ts)"
  by (simp_all add: uvals_def take_map drop_map)

lemma call_builtin_ok:
  assumes ev: "ev_ok X ev n c vs" and c: "caller_ok c vs" and g: "goal_ok X c vs l u ctx s" and cost: "rest_cost X ctx \<le> n"
    and p: "length (arguments l) = length (predargs p)" "num_inputs p \<le> length (predargs p)"
      "num_outputs p > 0 \<longrightarrow> code_of E (code p) args \<noteq> BNone"
    and det: "\<forall>v. Variable v \<in> set (take (num_inputs p) (arguments l)) \<longrightarrow> determined (theap s) {} (v, u)"
    and args: "\<forall>\<sigma>. models \<sigma> (theap s) \<longrightarrow> take (num_inputs p) (uvals \<sigma> u (arguments l)) = args"
  shows "search_ok X c vs (sols c vs (theap s) (\<lambda>\<sigma>. builtin_true E p (uvals \<sigma> u (arguments l)) \<and> rest X ctx \<sigma>)) s
    (call_builtin E ev p l u args ctx c s)"
proof -
  let ?r = "code_of E (code p) args" and ?k = "num_inputs p" and ?B = "\<lambda>\<sigma>. builtin_true E p (uvals \<sigma> u (arguments l))"
  have s: "state_ok X s" "u \<in> hkeys (theap s)" using g by (simp_all add: goal_ok_def)
  have hok: "heap_ok (theap s)" using s(1) by (simp add: state_ok_def)
  have fail: "search_ok X c vs (sols c vs (theap s) (\<lambda>\<sigma>. ?B \<sigma> \<and> rest X ctx \<sigma>)) s (Inr False, s\<lparr>theap := h\<rparr>)"
    if "\<And>\<sigma>. models \<sigma> (theap s) \<Longrightarrow> \<not> ?B \<sigma>" "same_heap h (theap s)" "hkeys (theap s) \<subseteq> hkeys h" for h
    using search_skip [OF s(1) that(2,3), of c vs] sols_none [of "theap s" "\<lambda>\<sigma>. ?B \<sigma> \<and> rest X ctx \<sigma>" c vs] that(1) by simp
  have nochange: "same_heap (theap s) (theap s)" "s\<lparr>theap := theap s\<rparr> = s" by (simp_all add: same_heap_def)
  have false: "search_ok X c vs (sols c vs (theap s) (\<lambda>\<sigma>. ?B \<sigma> \<and> rest X ctx \<sigma>)) s (Inr False, s)"
    if "\<And>\<sigma>. models \<sigma> (theap s) \<Longrightarrow> \<not> ?B \<sigma>"
    using fail [OF that nochange(1)] nochange(2) by simp
  show ?thesis
  proof (cases "?r = BRaise")
    case True
    then have "\<not> ?B \<sigma>" if "models \<sigma> (theap s)" for \<sigma> using args that by (simp add: builtin_true_def)
    from false [OF this] True show ?thesis by (simp add: call_builtin_def sret_def)
  next
    case noraise: False
    show ?thesis
    proof (cases "num_outputs p > 0")
      case False
      then have "take ?k (arguments l) = arguments l" using p(1) by (simp add: num_outputs_def)
      then have ldet: "lit_determined (theap s) u l" using det by (auto simp: lit_determined_def lit_vars_def)
      have B: "?B \<sigma> = truth_value ?r" if "models \<sigma> (theap s)" for \<sigma>
        using args that False noraise by (auto simp: builtin_true_def split: builtin_result.splits)
      have call: "call_builtin E ev p l u args ctx c s = (if truth_value ?r then top_down_finish E ev ctx c s else (Inr False, s))"
        using noraise False by (auto simp: call_builtin_def sret_def split: builtin_result.splits)
      show ?thesis
      proof (cases "truth_value ?r")
        case True
        with finish_true [OF ev c g ldet cost, of ?B E] B call show ?thesis by simp
      qed (use false B call in simp)
    next
      case True
      then obtain ws where ws: "output_terms ?r = Inr (map ObjectConstant ws)" using output_terms_ok [of ?r] p(3) noraise by auto
      have B: "?B \<sigma> = (ws = uvals \<sigma> u (drop ?k (arguments l)))" if "models \<sigma> (theap s)" for \<sigma>
        using args that True noraise ws
        by (auto simp: builtin_true_def map_ObjectConstant_eq uvals_take_drop split: builtin_result.splits)
      obtain u' h1 where new: "new_unifier (theap s) = (u', h1)" by fastforce
      obtain res h2 where u2: "bi_unify_lists (map ObjectConstant ws) u' (drop ?k (arguments l)) u h1 = Inr (res, h2)"
        "heap_ok h2" "hkeys (theap s) \<subseteq> hkeys h2"
        "case res of
           None \<Rightarrow> same_heap h2 (theap s) \<and> (\<forall>\<sigma>. models \<sigma> (theap s) \<longrightarrow> ws \<noteq> uvals \<sigma> u (drop ?k (arguments l)))
         | Some cs \<Rightarrow> same_heap (undo_all (Some cs) h2) (theap s) \<and>
             (\<forall>\<sigma>. models \<sigma> h2 = (models \<sigma> (theap s) \<and> ws = uvals \<sigma> u (drop ?k (arguments l))))"
        using unify_new [OF hok s(2) new, of "map ObjectConstant ws" "drop ?k (arguments l)"]
        unfolding uvals_constants by blast
      have call: "call_builtin E ev p l u args ctx c s =
          (case res of None \<Rightarrow> (Inr False, s\<lparr>theap := h2\<rparr>)
           | Some cs \<Rightarrow> sbind (top_down_finish E ev ctx c) (\<lambda>ok. sbind (undo_st cs) (\<lambda>_. sret ok)) (s\<lparr>theap := h2\<rparr>))"
        using noraise True ws new u2(1)
        by (auto simp: call_builtin_def sbind_def new_bi_unifier_def on_heap_def sret_def split: builtin_result.splits option.splits)
      show ?thesis
      proof (cases res)
        case None
        with u2(3,4) B call fail [of h2] show ?thesis by simp
      next
        case (Some cs)
        let ?s2 = "s\<lparr>theap := h2\<rparr>"
        have h2: "same_heap (undo_all (Some cs) h2) (theap s)"
          "\<forall>\<sigma>. models \<sigma> h2 = (models \<sigma> (theap s) \<and> ws = uvals \<sigma> u (drop ?k (arguments l)))" using u2(4) Some by simp_all
        then have ext: "extends (theap s) h2" by (simp add: extends_def)
        have g2: "goal_ok X c vs l u ctx ?s2"
          using g u2(2,3) ctx_ok_mono [OF _ u2(3), of X ctx] ready_after_mono [OF _ ext subset_refl]
          by (auto simp: goal_ok_def state_ok_def)
        have ldet: "lit_determined h2 u l"
          unfolding lit_determined_def
        proof
          fix v assume "v \<in> lit_vars l"
          then have "Variable v \<in> set (take ?k (arguments l)) \<or> Variable v \<in> set (drop ?k (arguments l))"
            by (metis Un_iff append_take_drop_id lit_vars_def mem_Collect_eq set_append)
          then show "determined h2 {} (v, u)"
          proof
            assume "Variable v \<in> set (take ?k (arguments l))"
            then show ?thesis using det determined_mono [OF _ ext subset_refl] by blast
          next
            assume v: "Variable v \<in> set (drop ?k (arguments l))"
            show ?thesis
              unfolding determined_def
            proof (intro allI impI)
              fix \<sigma> \<sigma>' assume m: "models \<sigma> h2" "models \<sigma>' h2"
              have "uvals \<sigma> u (drop ?k (arguments l)) = uvals \<sigma>' u (drop ?k (arguments l))" using h2(2) m by metis
              then have "eval \<sigma> (Variable v, Some u) = eval \<sigma>' (Variable v, Some u)" using v unfolding uvals_def by (metis map_eq_conv)
              then show "agree {(v, u)} \<sigma> \<sigma>'" by (simp add: agree_def)
            qed
          qed
        qed
        obtain b s' where run: "top_down_finish E ev ctx c ?s2 = (Inr b, s')"
          "search_ok X c vs (sols c vs h2 (rest X ctx)) ?s2 (Inr b, s')"
          using finish_determined [OF ev c g2 _ cost, of E] ldet by (cases "top_down_finish E ev ctx c ?s2") (auto simp: search_ok_def)
        obtain s'' where s'': "undo_st cs s' = (Inr (), s'')" "search_ok X c vs (sols c vs h2 (rest X ctx)) s (Inr b, s'')"
          using search_undo [OF run(2) h2(1) u2(3)] by blast
        have "sols c vs h2 (rest X ctx) = sols c vs (theap s) (\<lambda>\<sigma>. ?B \<sigma> \<and> rest X ctx \<sigma>)"
          using h2(2) B by (auto simp: sols_def)
        moreover have "call_builtin E ev p l u args ctx c s = (Inr b, s'')"
          unfolding call Some option.case sbind_def using run(1) s''(1) by (simp add: sret_def)
        ultimately show ?thesis using s''(2) by simp
      qed
    qed
  qed
qed


section \<open>The evaluator\<close>

lemma costsD:
  assumes "costs_ok X"
  shows "pdepth X n + 1 < pcost X n l" "negated l \<Longrightarrow> pcost X n (lit_complement l) < pcost X n l"
    "\<not> negated l \<Longrightarrow> elsewhere (pworld X) n l \<Longrightarrow> pcost X (the (service (table l))) l < pcost X n l"
    "\<not> elsewhere (pworld X) n l \<Longrightarrow> included X n m \<Longrightarrow> r \<in> rules_for X m (tbl (table l)) \<Longrightarrow>
      sum_list (map (pcost X m) (body r)) < pcost X n l"
  using assms unfolding costs_ok_def by blast+

lemma elsewhere_there: "elsewhere w n l \<Longrightarrow> \<not> elsewhere w (the (service (table l))) l"
  by (auto simp: elsewhere_def)

lemma elsewhere_same:
  assumes "elsewhere (pworld X) n l" "m = the (service (table l))"
  shows "lit_ok X n l = lit_ok X m l" "holds X n l = holds X m l"
proof -
  have t: "target_of X n l = m" "target_of X m l = m"
    using assms elsewhere_there [OF assms(1)] by (simp_all add: target_of_def)
  show "lit_ok X n l = lit_ok X m l" unfolding lit_ok_def t ..
  show "holds X n l = holds X m l"
    by (rule ext) (simp only: holds_def atom_holds_def target_of_def [symmetric] t)
qed

lemma unknown_policy:
  assumes "world_ok X w" "map_of w n = None" "supported X"
  shows "\<not> ptruth X n t vs"
proof -
  have n: "map_of (pworld X) n = None" using assms(1,2) by (simp add: world_ok_def)
  have "included X n m \<Longrightarrow> m = n" for m
    using n included_step [of X n m] by (simp add: policy_at_def new_policy_def)
  moreover have "store_rep (pwidth X n) rs_empty (pstores X n)"
    using assms(1,2) unfolding world_ok_def by (metis new_policy_def option.simps(4) policy.select_convs(1) policy_at_def)
  then have "rules_for X n k = {}" for k
    by (auto simp: rules_for_def store_rep_def facts_rep_def rules_rep_def rs_empty_def)
  ultimately show ?thesis using assms(3) unfolding supported_def by (metis empty_iff)
qed

lemma elsewhere_world: "world_ok X w \<Longrightarrow> elsewhere w n l = elsewhere (pworld X) n l"
  by (simp add: elsewhere_def world_ok_def)

lemma eval_literal_ok:
  assumes X: "prog_ok X" and ev: "\<forall>c vs. caller_ok c vs \<longrightarrow> ev_ok X ev n c vs" and c: "caller_ok c vs"
    and g: "goal_ok X c vs l u ctx s" and ok: "lit_ok X name l" and cost: "pcost X name l + rest_cost X ctx \<le> Suc n"
    and needs: "\<forall>v \<in> needs (registry_of (penv X)) l. determined (theap s) {} (v, u)"
    and ctx: "ctx = Context lits i u prev th" "lits ! i = l" "i < length lits"
  shows "search_ok X c vs (sols c vs (theap s) (\<lambda>\<sigma>. holds X name l (vals_at \<sigma> u) \<and> rest X ctx \<sigma>)) s
    (eval_literal n (penv X) ev name l u ctx c s)" (is "search_ok X c vs (sols c vs _ ?G) s ?run")
proof -
  let ?R = "registry_of (penv X)"
  have costs: "costs_ok X" and sup: "supported X" and rules: "rules_ok X" and bok: "builtins_ok (penv X)"
    using X by (simp_all add: prog_ok_def)
  note cD = costsD [OF costs, where n = name]
  have s: "state_ok X s" using g by (simp add: goal_ok_def)
  then have wf: "wf_heap (theap s)" and w: "world_ok X (tworld s)" by (simp_all add: state_ok_def heap_ok_def)
  have rc: "rest_cost X ctx \<le> n" using cost cD(1) [of l] by linarith
  have ev': "ev_ok X ev n c vs" using ev c by blast
  have save: "(case save c of None \<Rightarrow> False | Some f \<Rightarrow> f l u) = False" using c by (simp add: caller_ok_def)
  have false: "search_ok X c vs (sols c vs (theap s) ?G) s (Inr False, s)" if "\<And>\<sigma>. models \<sigma> (theap s) \<Longrightarrow> \<not> holds X name l (vals_at \<sigma> u)"
    using search_fail [OF s, of c vs] sols_none [of "theap s" ?G c vs] that by simp
  show ?thesis
  proof (cases "negated l")
    case True
    then have det: "lit_determined (theap s) u l" using needs by (simp add: needs_def lit_determined_def)
    obtain args where a: "uplug (str_id (penv X)) None (theap s) u l = Inr (l\<lparr>arguments := args\<rparr>)" "length args = length (arguments l)"
      "\<forall>i < length args. (\<forall>v. arguments l ! i = Variable v \<longrightarrow> determined (theap s) {} (v, u)) \<longrightarrow> \<not> is_variable (args ! i)"
      using uplug_ok [OF wf, of "str_id (penv X)" u l] by blast
    have "\<not> is_variable (args ! i)" if "i < length args" for i
    proof -
      have "determined (theap s) {} (v, u)" if "arguments l ! i = Variable v" for v
      proof -
        have "Variable v \<in> set (arguments l)" using \<open>i < length args\<close> a(2) that by (metis nth_mem)
        with det show ?thesis by (simp add: lit_determined_def lit_vars_def)
      qed
      with a(3) that show ?thesis by blast
    qed
    then have ground: "lit_is_ground (l\<lparr>arguments := args\<rparr>)" by (simp add: lit_is_ground_def list_all_length)
    have "caller_ok (c\<lparr>find_all := False, save := None\<rparr>) []" using c by (simp add: caller_ok_def)
    then have ev0: "ev_ok X ev n (c\<lparr>find_all := False, save := None\<rparr>) []" using ev by blast
    have "pcost X name (lit_complement l) \<le> n" using cost cD(2) [OF True] by linarith
    then obtain failed s' where naf: "negation_as_failure ev name l u c s = (Inr failed, s')" "search_ok X c vs {} s (Inr False, s')"
      "\<forall>\<sigma>. models \<sigma> (theap s) \<longrightarrow> failed = holds X name l (vals_at \<sigma> u)"
      using naf_ok [OF ev0 g det ok] by blast
    have run: "?run = (if failed then top_down_finish (penv X) ev ctx c s' else (Inr False, s'))"
      using save True a(1) ground naf(1) by (simp add: eval_literal_def eval_literal_with_def sbind_def sret_def)
    show ?thesis
    proof (cases failed)
      case fl: True
      note next_ok = goal_ok_next [OF g naf(2)]
      have "lit_determined (theap s') u l"
        using det determined_mono [OF _ extends_same [OF next_ok(2)] subset_refl] by (auto simp: lit_determined_def)
      moreover have "models \<sigma> (theap s') = models \<sigma> (theap s)" for \<sigma> by (rule same_heap_models [OF next_ok(2)])
      ultimately have "search_ok X c vs (sols c vs (theap s') ?G) s' (top_down_finish (penv X) ev ctx c s')"
        using fl naf(3) by (intro finish_true [OF ev' c next_ok(1) _ rc]) simp_all
      then have "search_ok X c vs (sols c vs (theap s) ?G) s' (top_down_finish (penv X) ev ctx c s')"
        using sols_same [OF next_ok(2)] by simp
      from search_next [OF naf(2) this] show ?thesis using run fl by simp
    next
      case False
      then have "sols c vs (theap s) ?G = {}" using naf(3) by (intro sols_none) blast
      with run False naf(2) show ?thesis by simp
    qed
  next
    case pos: False
    show ?thesis
    proof (cases "lit_tablename None l = ''true''")
      case True
      then have "lit_vars l = {}" using ok by (simp add: lit_ok_def lit_vars_def)
      then have "lit_determined (theap s) u l" by (simp add: lit_determined_def)
      from finish_true [OF ev' c g this rc, of "\<lambda>\<sigma>. holds X name l (vals_at \<sigma> u)" "penv X"]
      show ?thesis using True pos save by (simp add: eval_literal_def eval_literal_with_def holds_def atom_holds_def)
    next
      case nottrue: False
      show ?thesis
      proof (cases "lit_tablename None l = ''false''")
        case True
        then show ?thesis using false pos save by (simp add: eval_literal_def eval_literal_with_def holds_def atom_holds_def)
      next
        case notfalse: False
        show ?thesis
        proof (cases "lit_is_builtin ?R l")
          case True
          then obtain p where p: "lookup_builtin (tbl (table l)) ?R = Some p"
            "length (arguments l) = length (predargs p)" "num_inputs p \<le> length (predargs p)"
            using ok nottrue notfalse by (auto simp: lit_ok_def split: option.splits)
          have det: "\<forall>v. Variable v \<in> set (take (num_inputs p) (arguments l)) \<longrightarrow> determined (theap s) {} (v, u)"
            using needs True pos p(1) by (simp add: needs_def)
          have "save c = None" using c by (simp add: caller_ok_def)
          then obtain args where a: "rbind (uplug (str_id (penv X)) None (theap s) u l) (\<lambda>pl. builtin_inputs (save c \<noteq> None) (num_inputs p) (arguments pl)) = Inr (Some args)"
            "\<forall>\<sigma>. models \<sigma> (theap s) \<longrightarrow> take (num_inputs p) (uvals \<sigma> u (arguments l)) = args"
            using determined_inputs [OF wf _ det, of "str_id (penv X)" False] p(2,3) by auto
          have code: "num_outputs p > 0 \<longrightarrow> code_of (penv X) (code p) args \<noteq> BNone"
            using bok p(1) by (auto simp: builtins_ok_def)
          have "?run = call_builtin (penv X) ev p l u args ctx c s"
            using save pos nottrue notfalse True p(1) a(1) by (simp add: eval_literal_def eval_literal_with_def top_down_builtin_def)
          moreover have "holds X name l (vals_at \<sigma> u) = builtin_true (penv X) p (uvals \<sigma> u (arguments l))" for \<sigma>
            using pos nottrue notfalse True p(1) by (simp add: holds_def atom_holds_def uvals_tval)
          ultimately show ?thesis using call_builtin_ok [OF ev' c g rc p(2,3) code det a(2)] by simp
        next
          case nobuiltin: False
          have H: "holds X name l (vals_at \<sigma> u) = ptruth X (target_of X name l) (table l) (uvals \<sigma> u (arguments l))" for \<sigma>
            using pos nottrue notfalse nobuiltin by (simp add: holds_def atom_holds_def uvals_tval target_of_def)
          show ?thesis
          proof (cases "elsewhere (pworld X) name l")
            case True
            let ?m = "the (service (table l))"
            have run: "?run = (if map_of (tworld s) ?m = None then (Inr False, s) else ev ?m ctx c s)"
              using save pos nottrue notfalse nobuiltin True elsewhere_world [OF w] by (simp add: eval_literal_def eval_literal_with_def Let_def)
            show ?thesis
            proof (cases "map_of (tworld s) ?m = None")
              case unknown: True
              have "\<not> holds X name l (vals_at \<sigma> u)" for \<sigma>
                using unknown_policy [OF w unknown sup] H True by (simp add: target_of_def)
              with false run unknown show ?thesis by simp
            next
              case False
              have "pcost X ?m (lits ! i) + rest_cost X (Context lits i u prev th) \<le> n"
                using cost cD(3) [OF pos True] ctx by simp
              moreover have "lit_ok X ?m (lits ! i)" using ok elsewhere_same(1) [OF True refl] ctx(2) by simp
              moreover have "ready ?R (theap s) (wanted c vs) (Context lits i u prev th)"
                using needs g ctx by (simp add: goal_ok_def)
              ultimately have "search_ok X c vs (sols c vs (theap s) (\<lambda>\<sigma>. holds X ?m l (vals_at \<sigma> u) \<and> rest X ctx \<sigma>)) s (ev ?m ctx c s)"
                using ev_okD [OF ev' s, of lits i u prev th ?m] g ctx by (simp add: goal_ok_def)
              then show ?thesis using run False elsewhere_same(2) [OF True refl] by simp
            qed
          next
            case False
            have tgt: "target_of X name l = name" using False by (simp add: target_of_def)
            have "fits X n ctx l m" if "included X name m" for m
            proof -
              have "length (arguments l) = pwidth X m (tbl (table l))"
                using ok nottrue notfalse nobuiltin that tgt by (simp add: lit_ok_def)
              moreover have "sum_list (map (pcost X m) (body r)) + rest_cost X ctx \<le> n" if "r \<in> rules_for X m (tbl (table l))" for r
                using cD(4) [OF False \<open>included X name m\<close> that] cost by linarith
              ultimately show ?thesis by (simp add: fits_def)
            qed
            moreover have "pdepth X name < n" using cD(1) [of l] cost by linarith
            ultimately have "search_ok X c vs (inc_sols X c vs (theap s) name l u ctx) s (top_down_includes n (penv X) ev name l u ctx c s)"
              using top_down_includes_ok [OF rules costs ev' c g] by blast
            then show ?thesis
              using save pos nottrue notfalse nobuiltin False elsewhere_world [OF w] H tgt inc_sols_truth [OF sup]
              by (simp add: eval_literal_def eval_literal_with_def)
          qed
        qed
      qed
    qed
  qed
qed

lemma top_down_eval_ok:
  assumes "prog_ok X"
  shows "\<forall>c vs. caller_ok c vs \<longrightarrow> ev_ok X (top_down_eval n (penv X)) n c vs"
proof (induction n)
  case 0
  have costs: "costs_ok X" using assms by (simp add: prog_ok_def)
  have pos: "(pcost X name l = 0) = False" for name l using costsD(1) [OF costs, of name l] by simp
  show ?case by (auto simp: ev_ok_def pos)
next
  case (Suc n)
  show ?case
  proof (intro allI impI)
    fix c :: top_caller and vs assume c: "caller_ok c vs"
    show "ev_ok X (top_down_eval (Suc n) (penv X)) (Suc n) c vs"
      unfolding ev_ok_def
    proof (intro allI impI)
      fix name lits i u prev th s
      let ?ctx = "Context lits i u prev th"
      assume a: "state_ok X s" "i < length lits" "lit_ok X name (lits ! i)" "ctx_ok X (theap s) ?ctx"
        "cbinding c \<in> hkeys (theap s)" "ready (registry_of (penv X)) (theap s) (wanted c vs) ?ctx"
        "pcost X name (lits ! i) + rest_cost X ?ctx \<le> Suc n"
      have "goal_ok X c vs (lits ! i) u ?ctx s" using a by (simp add: goal_ok_def)
      from eval_literal_ok [OF assms Suc.IH c this a(3,7) _ refl refl a(2)] a(2,6)
      show "search_ok X c vs (sols c vs (theap s) (\<lambda>\<sigma>. holds X name (lits ! i) (vals_at \<sigma> u) \<and> rest X ?ctx \<sigma>)) s
          (top_down_eval (Suc n) (penv X) name ?ctx c s)" by simp
    qed
  qed
qed

end
