(* ===== verification/Select_Correct.thy ===== *)
theory Select_Correct
  imports Query_Answers
begin

text \<open>
  \<open>select\<close>: the formulas it returns are the instances of the query that are true. For policies in
  which no table depends on itself exactly one interpretation is supported, the fuel the search
  needs exists, and so the search always returns.
\<close>

declare map_of_eq_Some_iff [simp del] Some_eq_map_of_iff [simp del]

section \<open>Instances of a query\<close>

definition ground_lit :: "(string \<Rightarrow> pyval) \<Rightarrow> literal \<Rightarrow> literal" where
  "ground_lit \<theta> l = l\<lparr>arguments := map (\<lambda>t. ObjectConstant (tval \<theta> t)) (arguments l)\<rparr>"

fun ground_formula :: "(string \<Rightarrow> pyval) \<Rightarrow> formula \<Rightarrow> formula" where
  "ground_formula \<theta> (FLit l) = FLit (ground_lit \<theta> l)"
| "ground_formula \<theta> (FRule r) = FRule \<lparr>heads = map (ground_lit \<theta>) (heads r), body = map (ground_lit \<theta>) (body r)\<rparr>"
| "ground_formula \<theta> (FFact f) = FFact f"

fun formula_literals :: "formula \<Rightarrow> literal list" where
  "formula_literals (FLit l) = [l]"
| "formula_literals (FRule r) = heads r @ body r"
| "formula_literals (FFact f) = []"

text \<open>The query is safe and fits the tables it asks for.\<close>

definition query_ok :: "'c prog \<Rightarrow> string \<Rightarrow> formula \<Rightarrow> bool" where
  "query_ok X name q =
     (is_datalog q \<and> safe_order (registry_of (penv X)) {} (query_literals q) \<and>
      \<Union> (lit_vars ` set (formula_literals q)) \<subseteq> \<Union> (lit_vars ` set (query_literals q)) \<and>
      (\<forall>l \<in> set (query_literals q). lit_ok X name l))"

definition query_true :: "'c prog \<Rightarrow> string \<Rightarrow> formula \<Rightarrow> (string \<Rightarrow> pyval) \<Rightarrow> bool" where
  "query_true X name q \<theta> = (\<forall>l \<in> set (query_literals q). holds X name l \<theta>)"

definition true_instances :: "'c prog \<Rightarrow> string \<Rightarrow> formula \<Rightarrow> formula set" where
  "true_instances X name q = {ground_formula \<theta> q | \<theta>. query_true X name q \<theta>}"

lemma set_lit_variables: "set (lit_variables l) = Variable ` lit_vars l"
  by (force simp: lit_variables_def lit_vars_def elim: is_variable.elims)

lemma set_fold_variables: "set (fold (\<lambda>l vs. set_union vs (lit_variables l)) ls vs) = set vs \<union> Variable ` \<Union> (lit_vars ` set ls)"
  by (induction ls arbitrary: vs) (auto simp: set_lit_variables)

lemma set_formula_variables: "set (formula_variables q) = Variable ` \<Union> (lit_vars ` set (formula_literals q))"
  by (cases q) (auto simp: formula_variables_def rule_variables_def set_lit_variables set_fold_variables)

lemma plug_ground:
  assumes "has_values vs r (map \<theta> vs)" "lit_vars l \<subseteq> set vs"
  shows "lit_plug (rbinding r) l = ground_lit \<theta> l"
proof -
  have "plug_term (rbinding r) t = ObjectConstant (tval \<theta> t)" if "t \<in> set (arguments l)" for t
  proof (cases t)
    case (Variable v)
    then have "v \<in> set vs" using that assms(2) by (auto simp: lit_vars_def)
    then have "map_of (rbinding r) (Variable v) = Some (ObjectConstant (\<theta> v))" using assms(1) by (simp add: has_values_def)
    then show ?thesis by (simp add: Variable plug_term_def)
  next
    case (ObjectConstant k)
    then show ?thesis using assms(1) by (simp add: plug_term_def has_values_def)
  qed
  then show ?thesis by (simp add: lit_plug_def ground_lit_def)
qed

lemma formula_plug_ground:
  assumes v: "has_values vs r (map \<theta> vs)" and sub: "\<Union> (lit_vars ` set (formula_literals q)) \<subseteq> set vs"
  shows "formula_plug (rbinding r) q = ground_formula \<theta> q"
proof -
  have "lit_plug (rbinding r) l = ground_lit \<theta> l" if "l \<in> set (formula_literals q)" for l
    using plug_ground [OF v] sub that by blast
  then show ?thesis by (cases q) (auto simp: formula_plug_def rule_plug_def rule_plug_heads_def rule_plug_body_def)
qed

section \<open>The search for a query\<close>

definition query_cost :: "'c prog \<Rightarrow> string \<Rightarrow> formula \<Rightarrow> nat" where
  "query_cost X name q = sum_list (map (pcost X name) (query_literals q))"

definition query_values :: "'c prog \<Rightarrow> string \<Rightarrow> formula \<Rightarrow> string list \<Rightarrow> pyval list set" where
  "query_values X name q vs = {map \<theta> vs | \<theta>. query_true X name q \<theta>}"

lemma empty_heap: assumes "new_unifier [] = (u, h)" shows "heap_ok h" "u \<in> hkeys h" "models \<sigma> h"
proof -
  note n = new_unifier_ok [OF assms]
  have none: "steps [] = {}" by (auto simp: steps_def uvalue_def contents_def)
  have "heap_ok []" by (simp add: heap_ok_def wf_heap_def none acyclic_def) (simp add: uvalue_def contents_def)
  moreover have "hkeys [] \<subseteq> hkeys h" by (simp add: hkeys_def)
  ultimately show "heap_ok h" using heap_ok_same [OF _ n(1)] by blast
  show "u \<in> hkeys h" using n(3) by (auto simp: hkeys_def)
  have "models \<sigma> []" by (simp add: models_def uvalue_def contents_def)
  then show "models \<sigma> h" using same_heap_models [OF n(1)] by simp
qed

lemma abduction_ok:
  assumes X: "prog_ok X" "world_ok X w" and q: "query_ok X name q" and n: "query_cost X name q \<le> n"
    and vs: "vs = map term_name (formula_variables q)" and u: "new_unifier [] = (u, h)"
    and c: "c = \<lparr>cvariables = formula_variables q, cbinding = u, find_all = all, save = None\<rparr>"
  shows "\<exists>rs w' b. top_down_abduction n (penv X) name (formula_variables q) (query_literals q) all None w = (Inr rs, w') \<and>
    world_ok X w' \<and> answers c vs rs b (query_values X name q vs)"
proof -
  let ?lits = "query_literals q" and ?R = "registry_of (penv X)"
  let ?s = "\<lparr>theap = h, tworld = w, tsupport = [], tresults = []\<rparr>"
  let ?ev = "top_down_eval n (penv X)"
  note h = empty_heap [OF u]
  have vars: "set vs \<subseteq> \<Union> (lit_vars ` set ?lits)"
    using q by (simp add: vs set_formula_variables query_ok_def image_image)
  have c': "caller_ok c vs"
    by (auto simp: caller_ok_def c vs set_formula_variables)
  have ev: "ev_ok X ?ev n c vs" using top_down_eval_ok [OF X(1)] c' by blast
  have s: "state_ok X ?s" using h(1) X(2) by (simp add: state_ok_def)
  have sols: "sols c vs h (\<lambda>\<sigma>. \<forall>l \<in> set ?lits. holds X name l (vals_at \<sigma> u)) = query_values X name q vs"
  proof -
    have "\<exists>\<sigma>. map \<theta> vs = map (vals_at \<sigma> u) vs \<and> models \<sigma> h \<and> (\<forall>l \<in> set ?lits. holds X name l (vals_at \<sigma> u))"
      if "query_true X name q \<theta>" for \<theta>
      by (rule exI [of _ "with_vars undefined u \<theta>"]) (use that h(3) in \<open>simp add: query_true_def\<close>)
    then show ?thesis by (auto simp: sols_def query_values_def query_true_def c h(3))
  qed
  have "search_ok X c vs (query_values X name q vs) ?s
      (if ?lits = [] then top_down_finish (penv X) ?ev Root c ?s else ?ev name (Context ?lits 0 u Root name) c ?s)"
  proof (cases "?lits = []")
    case True
    then have "vs = []" using vars by simp
    then have "search_ok X c vs (sols c vs h (rest X Root)) ?s (top_down_finish (penv X) ?ev Root c ?s)"
      using finish_ok [OF ev c' s, of Root "penv X"] h(2) by (simp add: c wanted_def)
    moreover have "rest X Root = (\<lambda>_. True)" by (rule ext) simp
    ultimately show ?thesis using True sols by simp
  next
    case False
    then obtain l ls where lits: "?lits = l # ls" by (cases ?lits) auto
    let ?ctx = "Context ?lits 0 u Root name"
    have cov: "covers ?R h {} u ?lits" using q safe_order_covers [of ?R "{}" ?lits u "{}" h] by (simp add: query_ok_def)
    have "ready ?R h (wanted c vs) ?ctx"
      using cov vars unfolding lits by (auto simp: wanted_def c vars_at_def)
    moreover have "ctx_ok X h ?ctx" using h(2) q by (simp add: query_ok_def)
    moreover have "lit_ok X name (?lits ! 0)" using q lits by (simp add: query_ok_def)
    moreover have "pcost X name (?lits ! 0) + rest_cost X ?ctx \<le> n" using n lits by (simp add: query_cost_def)
    ultimately have "search_ok X c vs (sols c vs h (\<lambda>\<sigma>. holds X name (?lits ! 0) (vals_at \<sigma> u) \<and> rest X ?ctx \<sigma>)) ?s (?ev name ?ctx c ?s)"
      using ev_okD [OF ev s, of ?lits 0 u Root name name] h(2) by (simp add: c)
    moreover have "holds X name (?lits ! 0) (vals_at \<sigma> u) \<and> rest X ?ctx \<sigma> \<longleftrightarrow> (\<forall>l \<in> set ?lits. holds X name l (vals_at \<sigma> u))" for \<sigma>
      by (simp add: lits)
    ultimately show ?thesis using False sols by (simp only: if_False)
  qed
  then obtain b new h' w' where run: "(if ?lits = [] then top_down_finish (penv X) ?ev Root c ?s else ?ev name (Context ?lits 0 u Root name) c ?s) =
      (Inr b, ?s\<lparr>theap := h', tworld := w', tresults := [] @ new\<rparr>)" "world_ok X w'" "answers c vs new b (query_values X name q vs)"
    unfolding search_ok_def by (elim exE conjE) simp
  have "top_down_abduction n (penv X) name (formula_variables q) ?lits all None w = (Inr new, w')"
    using run(1) by (cases "?lits = []") (simp_all add: top_down_abduction_def u c)
  with run(2,3) show ?thesis by blast
qed

lemma select_ok:
  assumes X: "prog_ok X" "world_ok X w" and q: "query_ok X name q" and n: "query_cost X name q \<le> n"
  shows "\<exists>rs w'. select_query n (penv X) name q all w = (Inr rs, w') \<and> world_ok X w' \<and>
    (if all then set rs = true_instances X name q
     else length rs \<le> 1 \<and> set rs \<subseteq> true_instances X name q \<and> (rs = [] \<longleftrightarrow> true_instances X name q = {}))"
proof -
  obtain u h where u: "new_unifier [] = (u, h)" by fastforce
  define c where "c = \<lparr>cvariables = formula_variables q, cbinding = u, find_all = all, save = None\<rparr>"
  define vs where "vs = map term_name (formula_variables q)"
  obtain rs w' b where run: "top_down_abduction n (penv X) name (formula_variables q) (query_literals q) all None w = (Inr rs, w')"
    "world_ok X w'" "answers c vs rs b (query_values X name q vs)"
    using abduction_ok [OF X q n vs_def u c_def] by blast
  let ?f = "\<lambda>r. formula_plug (rbinding r) q"
  have sel: "select_query n (penv X) name q all w = (Inr (map ?f rs), w')"
    using run(1) q by (simp add: select_query_def top_down_evaluation_def sbind_def sret_def query_ok_def)
  have sub: "\<Union> (lit_vars ` set (formula_literals q)) \<subseteq> set vs"
    by (simp add: vs_def set_formula_variables image_image)
  have inst: "?f r = ground_formula \<theta> q" if "has_values vs r (map \<theta> vs)" for r \<theta>
    by (rule formula_plug_ground [OF that sub])
  have sound: "set (map ?f rs) \<subseteq> true_instances X name q"
    using run(3) inst by (fastforce simp: answers_def query_values_def true_instances_def)
  have some: "query_values X name q vs = {} \<longleftrightarrow> true_instances X name q = {}"
    by (auto simp: query_values_def true_instances_def)
  show ?thesis
  proof (cases all)
    case True
    have "true_instances X name q \<subseteq> set (map ?f rs)"
    proof
      fix g assume "g \<in> true_instances X name q"
      then obtain \<theta> where t: "g = ground_formula \<theta> q" "query_true X name q \<theta>" by (auto simp: true_instances_def)
      then obtain r where "r \<in> set rs" "has_values vs r (map \<theta> vs)"
        using run(3) True by (auto simp: answers_def query_values_def c_def)
      then show "g \<in> set (map ?f rs)" using inst t(1) by force
    qed
    with sound sel run(2) True show ?thesis by auto
  next
    case False
    then have "length rs \<le> 1 \<and> (rs = [] \<longleftrightarrow> query_values X name q vs = {})"
      using run(3) by (auto simp: answers_def c_def)
    with sound sel run(2) False some show ?thesis by auto
  qed
qed

section \<open>Programs that do not depend on themselves\<close>

text \<open>The table \<open>t\<close> of the policy \<open>n\<close> depends on the tables its rules mention, in \<open>n\<close> and in the policies \<open>n\<close> includes.\<close>

definition depends :: "'c prog \<Rightarrow> ((string \<times> string) \<times> (string \<times> string)) set" where
  "depends X = {((target_of X m b, tbl (table b)), (n, t)) | m b n t.
     included X n m \<and> (\<exists>r \<in> rules_for X m t. b \<in> set (body r))}"

definition includes_of :: "'c prog \<Rightarrow> (string \<times> string) set" where
  "includes_of X = {(m, n). m \<in> set (pincludes (policy_at (pworld X) n))}"

definition nonrecursive :: "'c prog \<Rightarrow> bool" where
  "nonrecursive X = (wf (depends X) \<and> wf (includes_of X))"

text \<open>Everything but the interpretation and the bounds.\<close>

definition program_ok :: "'c prog \<Rightarrow> bool" where
  "program_ok X = (rules_ok X \<and> builtins_ok (penv X) \<and> nonrecursive X)"

subsection \<open>Bounds exist\<close>

lemma finite_includes: "finite (includes_of X)"
proof -
  have "includes_of X \<subseteq> (\<Union>n \<in> set (dkeys (pworld X)). set (pincludes (policy_at (pworld X) n)) \<times> {n})"
  proof clarify
    fix m n assume "(m, n) \<in> includes_of X"
    moreover from this have "map_of (pworld X) n \<noteq> None"
      by (cases "map_of (pworld X) n") (auto simp: includes_of_def policy_at_def new_policy_def)
    ultimately show "(m, n) \<in> (\<Union>n \<in> set (dkeys (pworld X)). set (pincludes (policy_at (pworld X) n)) \<times> {n})"
      by (auto simp: includes_of_def map_of_None_keys)
  qed
  then show ?thesis by (rule finite_subset) auto
qed

lemma finite_included: "finite {m. included X n m}"
proof -
  have "included X n m \<longleftrightarrow> (n, m) \<in> ((includes_of X)\<inverse>)\<^sup>*" for m
    by (simp add: included_def includes_of_def converse_unfold)
  then have "{m. included X n m} \<subseteq> insert n (Domain (includes_of X))"
    by (auto elim: rtranclE)
  then show ?thesis by (rule finite_subset) (simp add: finite_includes finite_Domain)
qed

lemma wf_fixpoint:
  assumes "wf R" "\<And>f g x. (\<And>y. (y, x) \<in> R \<Longrightarrow> f y = g y) \<Longrightarrow> F f x = F g x"
  shows "\<exists>f. \<forall>x. f x = F f x"
proof (intro exI allI)
  fix x
  have "wfrec R F x = F (cut (wfrec R F) R x) x" by (rule wfrec [OF assms(1)])
  also have "\<dots> = F (wfrec R F) x" by (rule assms(2)) (simp add: cut_apply)
  finally show "wfrec R F x = F (wfrec R F) x" .
qed

lemma depth_exists:
  assumes "wf (includes_of X)"
  shows "\<exists>d :: string \<Rightarrow> nat. \<forall>n. \<forall>m \<in> set (pincludes (policy_at (pworld X) n)). d m < d n"
proof -
  let ?ms = "\<lambda>n. pincludes (policy_at (pworld X) n)"
  have "\<exists>d. \<forall>n. d n = sum_list (map (\<lambda>m. Suc (d m)) (?ms n))"
  proof (rule wf_fixpoint [OF assms])
    fix d d' :: "string \<Rightarrow> nat" and n assume "\<And>m. (m, n) \<in> includes_of X \<Longrightarrow> d m = d' m"
    then have "map (\<lambda>m. Suc (d m)) (?ms n) = map (\<lambda>m. Suc (d' m)) (?ms n)" by (simp add: includes_of_def)
    then show "sum_list (map (\<lambda>m. Suc (d m)) (?ms n)) = sum_list (map (\<lambda>m. Suc (d' m)) (?ms n))" by (simp only:)
  qed
  then obtain d where d: "d n = sum_list (map (\<lambda>m. Suc (d m)) (?ms n))" for n by blast
  have "d m < d n" if "m \<in> set (?ms n)" for m n
    using member_le_sum_list [of "Suc (d m)" "map (\<lambda>m. Suc (d m)) (?ms n)"] that d [of n] by auto
  then show ?thesis by blast
qed

definition goal_cost :: "'c prog \<Rightarrow> (string \<Rightarrow> nat) \<Rightarrow> (string \<times> string \<Rightarrow> nat) \<Rightarrow> string \<Rightarrow> literal \<Rightarrow> nat" where
  "goal_cost X d f n l =
     f (target_of X n l, tbl (table l)) + 2 + 2 * d (target_of X n l) +
     (if elsewhere (pworld X) n l then d n + 1 else 0) + (if negated l then 1 else 0)"

definition table_cost :: "'c prog \<Rightarrow> (string \<Rightarrow> nat) \<Rightarrow> (string \<times> string \<Rightarrow> nat) \<Rightarrow> string \<times> string \<Rightarrow> nat" where
  "table_cost X d f = (\<lambda>(n, t). \<Sum>m \<in> {m. included X n m}. \<Sum>r \<in> set (sp_rules (pstores X m) t).
     sum_list (map (goal_cost X d f m) (body r)))"

lemma table_cost_body:
  assumes "included X n m" "r \<in> rules_for X m t"
  shows "sum_list (map (goal_cost X d f m) (body r)) \<le> table_cost X d f (n, t)"
proof (cases "r \<in> set (sp_rules (pstores X m) t)")
  case True
  let ?c = "\<lambda>m r. sum_list (map (goal_cost X d f m) (body r))"
  have "?c m r \<le> sum (?c m) (set (sp_rules (pstores X m) t))" using True by (intro member_le_sum) auto
  also have "\<dots> \<le> (\<Sum>m \<in> {m. included X n m}. sum (?c m) (set (sp_rules (pstores X m) t)))"
    by (rule member_le_sum [where f = "\<lambda>m. sum (?c m) (set (sp_rules (pstores X m) t))"]) (use assms(1) finite_included in auto)
  finally show ?thesis by (simp add: table_cost_def)
next
  case False
  then have "body r = []" using assms(2) by (auto simp: rules_for_def rule_of_fact_def)
  then show ?thesis by simp
qed

lemma goal_cost_body:
  assumes "\<And>x. f x = table_cost X d f x" "included X n m" "r \<in> rules_for X m (tbl (table l))" "target_of X n l = n"
  shows "sum_list (map (goal_cost X d f m) (body r)) < goal_cost X d f n l"
  using table_cost_body [OF assms(2,3), of d f] assms(1) [of "(n, tbl (table l))"] assms(4)
  by (simp add: goal_cost_def)

lemma table_cost_exists:
  assumes "wf (depends X)" shows "\<exists>f. \<forall>x. f x = table_cost X d f x"
proof (rule wf_fixpoint [OF assms])
  fix f g :: "string \<times> string \<Rightarrow> nat" and x assume eq: "\<And>y. (y, x) \<in> depends X \<Longrightarrow> f y = g y"
  obtain n t where x: "x = (n, t)" by (cases x)
  have "goal_cost X d f m b = goal_cost X d g m b"
    if "included X n m" "r \<in> set (sp_rules (pstores X m) t)" "b \<in> set (body r)" for m r b
  proof -
    have "((target_of X m b, tbl (table b)), x) \<in> depends X" using that by (auto simp: depends_def x rules_for_def)
    from eq [OF this] show ?thesis by (simp add: goal_cost_def)
  qed
  then have "map (goal_cost X d f m) (body r) = map (goal_cost X d g m) (body r)"
    if "included X n m" "r \<in> set (sp_rules (pstores X m) t)" for m r using that by simp
  note same = this
  show "table_cost X d f x = table_cost X d g x"
    unfolding x table_cost_def prod.case
    by (intro sum.cong refl arg_cong [where f = sum_list] same) simp_all
qed

lemma costs_exist:
  assumes "nonrecursive X" shows "\<exists>cost depth. costs_ok (X\<lparr>pcost := cost, pdepth := depth\<rparr>)"
proof -
  obtain d where d: "\<And>n m. m \<in> set (pincludes (policy_at (pworld X) n)) \<Longrightarrow> (d m :: nat) < d n"
    using assms depth_exists unfolding nonrecursive_def by blast
  obtain f where f: "\<And>x. f x = table_cost X d f x"
    using assms table_cost_exists [of X d] unfolding nonrecursive_def by blast
  let ?X = "X\<lparr>pcost := goal_cost X d f, pdepth := d\<rparr>"
  have same: "included ?X = included X" "rules_for ?X = rules_for X" "target_of ?X = target_of X"
    by (simp_all add: included_def rules_for_def target_of_def fun_eq_iff)
  have there: "target_of X (the (service (table l))) l = the (service (table l))" if "elsewhere (pworld X) n l" for n l
    using elsewhere_there [OF that] by (simp add: target_of_def)
  have "costs_ok ?X"
    unfolding costs_ok_def same
  proof (intro allI conjI impI ballI; simp)
    fix n l
    show "Suc (d n) < goal_cost X d f n l" by (simp add: goal_cost_def target_of_def)
    show "goal_cost X d f n (lit_complement l) < goal_cost X d f n l" if "negated l"
      using that by (simp add: goal_cost_def)
    show "goal_cost X d f (the (service (table l))) l < goal_cost X d f n l" if "elsewhere (pworld X) n l"
      using that there [OF that] elsewhere_there [OF that] by (simp add: goal_cost_def target_of_def)
    show "sum_list (map (goal_cost X d f m) (body r)) < goal_cost X d f n l"
      if "included X n m" "r \<in> rules_for X m (tbl (table l))" "\<not> elsewhere (pworld X) n l" for m r
      using goal_cost_body [OF f that(1,2)] that(3) by (simp add: target_of_def)
    show "d m < d n" if "m \<in> set (pincludes (policy_at (pworld X) n))" for m using d that by blast
  qed
  then show ?thesis by blast
qed

subsection \<open>The meaning exists\<close>

lemma holds_truth:
  assumes "ptruth X (target_of X n l) (table l) = I (target_of X n l) (table l)"
  shows "holds X n l \<theta> = holds (X\<lparr>ptruth := I\<rparr>) n l \<theta>"
  using assms by (simp add: holds_def atom_holds_def target_of_def Let_def cong: option.case_cong)

lemma gives_truth:
  assumes "\<And>b. b \<in> set (body r) \<Longrightarrow> I (target_of X m b) (table b) = J (target_of X m b) (table b)"
  shows "gives (X\<lparr>ptruth := I\<rparr>) m r t vs = gives (X\<lparr>ptruth := J\<rparr>) m r t vs"
proof -
  have t: "target_of (X\<lparr>ptruth := I\<rparr>) = target_of X" by (simp add: target_of_def fun_eq_iff)
  have "holds (X\<lparr>ptruth := I\<rparr>) m b \<theta> = holds (X\<lparr>ptruth := J\<rparr>) m b \<theta>" if "b \<in> set (body r)" for b \<theta>
    using holds_truth [of "X\<lparr>ptruth := I\<rparr>" m b J \<theta>] assms [OF that] by (simp add: t)
  then show ?thesis by (simp add: gives_def)
qed

definition truth_step :: "'c prog \<Rightarrow> (string \<times> string \<Rightarrow> tablename \<Rightarrow> pyval list \<Rightarrow> bool) \<Rightarrow> string \<times> string \<Rightarrow> tablename \<Rightarrow> pyval list \<Rightarrow> bool" where
  "truth_step X f = (\<lambda>(n, k) t vs. \<exists>m. included X n m \<and>
     (\<exists>r \<in> rules_for X m k. gives (X\<lparr>ptruth := \<lambda>n t. f (n, tbl t) t\<rparr>) m r t vs))"

lemma supported_iff: "supported (X\<lparr>ptruth := I\<rparr>) \<longleftrightarrow>
   (\<forall>n t vs. I n t vs = (\<exists>m. included X n m \<and> (\<exists>r \<in> rules_for X m (tbl t). gives (X\<lparr>ptruth := I\<rparr>) m r t vs)))"
proof -
  have "included (X\<lparr>ptruth := I\<rparr>) = included X" "rules_for (X\<lparr>ptruth := I\<rparr>) = rules_for X"
    by (simp_all add: included_def rules_for_def fun_eq_iff)
  then show ?thesis by (simp add: supported_def)
qed

lemma truth_step_cong:
  assumes "\<And>y. (y, x) \<in> depends X \<Longrightarrow> f y = g y"
  shows "truth_step X f x = truth_step X g x"
proof -
  obtain n k where x: "x = (n, k)" by (cases x)
  have "gives (X\<lparr>ptruth := \<lambda>n t. f (n, tbl t) t\<rparr>) m r t vs = gives (X\<lparr>ptruth := \<lambda>n t. g (n, tbl t) t\<rparr>) m r t vs"
    if "included X n m" "r \<in> rules_for X m k" for m r t vs
  proof (rule gives_truth)
    fix b assume "b \<in> set (body r)"
    then have "((target_of X m b, tbl (table b)), x) \<in> depends X" using that by (auto simp: depends_def x)
    from assms [OF this] show "f (target_of X m b, tbl (table b)) (table b) = g (target_of X m b, tbl (table b)) (table b)" by simp
  qed
  then show ?thesis unfolding truth_step_def x prod.case by (intro ext) (simp cong: conj_cong bex_cong)
qed

lemma supported_exists:
  assumes "wf (depends X)" shows "\<exists>I. supported (X\<lparr>ptruth := I\<rparr>)"
proof -
  obtain f where "\<And>x. f x = truth_step X f x"
    using wf_fixpoint [OF assms, of "truth_step X"] truth_step_cong by blast
  then have "f (n, tbl t) t vs = truth_step X f (n, tbl t) t vs" for n t vs by (simp only:)
  then have "supported (X\<lparr>ptruth := \<lambda>n t. f (n, tbl t) t\<rparr>)" by (simp add: supported_iff truth_step_def)
  then show ?thesis by blast
qed

lemma supported_same:
  assumes wf: "wf (depends X)" and I: "supported (X\<lparr>ptruth := I\<rparr>)" and J: "supported (X\<lparr>ptruth := J\<rparr>)"
  shows "I = J"
proof -
  have "\<forall>t. tbl t = snd x \<longrightarrow> I (fst x) t = J (fst x) t" for x
    using wf
  proof (induction x rule: wf_induct_rule)
    case (less x)
    obtain n k where x: "x = (n, k)" by (cases x)
    have "gives (X\<lparr>ptruth := I\<rparr>) m r t vs = gives (X\<lparr>ptruth := J\<rparr>) m r t vs"
      if "included X n m" "r \<in> rules_for X m k" for m r t vs
    proof (rule gives_truth)
      fix b assume "b \<in> set (body r)"
      then have "((target_of X m b, tbl (table b)), x) \<in> depends X" using that by (auto simp: depends_def x)
      from less [OF this] show "I (target_of X m b) (table b) = J (target_of X m b) (table b)" by simp
    qed
    note same = this
    have "I n t vs = J n t vs" if "tbl t = k" for t vs
    proof -
      have "I n t vs = (\<exists>m. included X n m \<and> (\<exists>r \<in> rules_for X m k. gives (X\<lparr>ptruth := I\<rparr>) m r t vs))"
        using I that unfolding supported_iff by blast
      also have "\<dots> = (\<exists>m. included X n m \<and> (\<exists>r \<in> rules_for X m k. gives (X\<lparr>ptruth := J\<rparr>) m r t vs))"
        using same by blast
      also have "\<dots> = J n t vs" using J that unfolding supported_iff by blast
      finally show ?thesis .
    qed
    then show ?case by (auto simp: x)
  qed
  then show ?thesis by (auto intro!: ext)
qed

section \<open>Queries to nonrecursive policies\<close>

subsection \<open>An example\<close>

text \<open>\<open>p(x) :- q(x), not r(x)\<close> with the facts \<open>q(1)\<close>, \<open>q(2)\<close> and \<open>r(1)\<close>.\<close>

definition example_rule :: rule where
  "example_rule = \<lparr>heads = [lit ''p'' [Variable ''x'']],
     body = [lit ''q'' [Variable ''x''], lit_complement (lit ''r'' [Variable ''x''])]\<rparr>"

definition example_ops :: "rs_op list" where
  "example_ops = [RAdd ''p'' (FRule example_rule),
     RAdd ''q'' (FFact \<lparr>ftable = ''q'', fvals = [VInt 1]\<rparr>), RAdd ''q'' (FFact \<lparr>ftable = ''q'', fvals = [VInt 2]\<rparr>),
     RAdd ''r'' (FFact \<lparr>ftable = ''r'', fvals = [VInt 1]\<rparr>)]"

definition example_world :: world where
  "example_world = [(''test'', (nonrecursive_theory None False)\<lparr>prules := snd (run_ops rs_run example_ops rs_empty)\<rparr>)]"

definition example_prog :: "unit prog" where
  "example_prog = \<lparr>penv = \<lparr>registry_of = no_builtins, code_of = \<lambda>_ _. BNone, str_id = \<lambda>_. []\<rparr>, pworld = example_world,
     pstores = (\<lambda>n. if n = ''test'' then snd (run_ops rs_spec example_ops sp_empty) else sp_empty),
     pwidth = \<lambda>_ _. 1, ptruth = \<lambda>_ _ _. False, pcost = \<lambda>_ _. 0, pdepth = \<lambda>_. 0\<rparr>"

definition example_query :: formula where
  "example_query = FLit (lit ''p'' [Variable ''y''])"

lemma example_world_ok: "world_ok example_prog example_world"
proof -
  have "store_rep (\<lambda>_. 1) (snd (run_ops rs_run example_ops rs_empty)) (snd (run_ops rs_spec example_ops sp_empty))"
  proof (rule conjunct2 [OF run_ops_sim_on])
    fix p s t assume "p \<in> set example_ops" "store_rep (\<lambda>_. 1) s t"
    then show "fst (rs_run p s) = fst (rs_spec p t) \<and> store_rep (\<lambda>_. 1) (snd (rs_run p s)) (snd (rs_spec p t))"
      by (intro rs_run_sim) (auto simp: example_ops_def example_rule_def)
  qed (rule store_rep_empty)
  then show ?thesis
    by (auto simp: world_ok_def example_prog_def example_world_def policy_at_def new_policy_def store_rep_empty)
qed

lemma example_spec:
  "rules_for example_prog n k =
     (if n \<noteq> ''test'' then {}
      else if k = ''p'' then {example_rule}
      else if k = ''q'' then {rule_of_fact ''q'' \<lparr>ftable = ''q'', fvals = [VInt 1]\<rparr>, rule_of_fact ''q'' \<lparr>ftable = ''q'', fvals = [VInt 2]\<rparr>}
      else if k = ''r'' then {rule_of_fact ''r'' \<lparr>ftable = ''r'', fvals = [VInt 1]\<rparr>}
      else {})"
  by (auto simp: rules_for_def example_prog_def example_ops_def sp_empty_def stored_fact_def sp_set_facts_def sp_set_rules_def
      example_rule_def)

lemma example_included: "included example_prog n m \<longleftrightarrow> n = m"
proof -
  have "pincludes (policy_at (pworld example_prog) k) = []" for k
    by (simp add: example_prog_def example_world_def policy_at_def nonrecursive_theory_def new_policy_def)
  then show ?thesis by (simp add: included_def)
qed

lemma rule_of_fact_ok: "rule_ok X n (rule_of_fact k f)"
  by (auto simp: rule_ok_def rule_of_fact_def mk_literal_def lit_vars_def)

lemma example_names:
  "tablename_name None (tn ''p'') = ''p''" "tablename_name None (tn ''q'') = ''q''" "tablename_name None (tn ''r'') = ''r''"
  by code_simp+

lemma example_ok: "program_ok example_prog"
proof -
  have elsewhere: "\<not> elsewhere (pworld example_prog) n l" for n l
    by (simp add: elsewhere_def example_prog_def example_world_def policy_at_def nonrecursive_theory_def new_policy_def)
  have "rule_ok example_prog ''test'' example_rule"
    by (simp add: example_names rule_ok_def example_rule_def lit_def needs_def lit_vars_def lit_complement_def example_prog_def
        no_builtins_def lit_is_builtin_def is_builtin_def lit_ok_def lit_tablename_def)
  then have "rules_ok example_prog" by (simp add: rules_ok_def example_spec rule_of_fact_ok)
  moreover have "builtins_ok (penv example_prog)"
    by (simp add: builtins_ok_def example_prog_def no_builtins_def lookup_builtin_def)
  moreover have "depends example_prog \<subseteq> measure (\<lambda>(n, t). if t = ''p'' then 1 else 0)"
    by (auto simp: depends_def example_included example_spec example_rule_def lit_def lit_complement_def rule_of_fact_def tn_def split: if_splits)
  then have "wf (depends example_prog)" by (rule wf_subset [OF wf_measure])
  moreover have "includes_of example_prog = {}"
    by (simp add: includes_of_def example_prog_def example_world_def policy_at_def nonrecursive_theory_def new_policy_def)
  ultimately show ?thesis by (simp add: program_ok_def nonrecursive_def)
qed

lemma example_query_ok: "query_ok example_prog ''test'' example_query"
  by (simp add: example_names query_ok_def example_query_def is_datalog_def query_literals_def needs_def lit_def lit_is_builtin_def
      is_builtin_def example_prog_def no_builtins_def lit_ok_def lit_tablename_def)

lemma example_supported:
  obtains I where "supported (example_prog\<lparr>ptruth := I\<rparr>)" "program_ok (example_prog\<lparr>ptruth := I\<rparr>)"
    "world_ok (example_prog\<lparr>ptruth := I\<rparr>) example_world" "query_ok (example_prog\<lparr>ptruth := I\<rparr>) ''test'' example_query"
    "penv (example_prog\<lparr>ptruth := I\<rparr>) = penv example_prog"
proof -
  obtain I where I: "supported (example_prog\<lparr>ptruth := I\<rparr>)"
    using example_ok supported_exists unfolding program_ok_def nonrecursive_def by blast
  let ?X = "example_prog\<lparr>ptruth := I\<rparr>"
  have 1: "included ?X = included example_prog" "rules_for ?X = rules_for example_prog" "target_of ?X = target_of example_prog"
    "includes_of ?X = includes_of example_prog"
    by (simp_all add: included_def rules_for_def target_of_def includes_of_def fun_eq_iff)
  have 2: "lit_ok ?X = lit_ok example_prog" by (intro ext, unfold lit_ok_def 1) simp
  have "program_ok ?X" using example_ok unfolding program_ok_def rules_ok_def rule_ok_def nonrecursive_def depends_def 1 2 by simp
  moreover have "world_ok ?X example_world" using example_world_ok by (simp add: world_ok_def)
  moreover have "query_ok ?X ''test'' example_query" using example_query_ok unfolding query_ok_def 2 by simp
  ultimately show ?thesis using that I by simp
qed

text \<open>
  When no table depends on itself through the rules, included policies or references to
  other policies, exactly one interpretation of the tables is supported by the rules and facts.
\<close>

lemma meaning_exists:
  assumes "nonrecursive X" shows "\<exists>!I. supported (X\<lparr>ptruth := I\<rparr>)"
  using assms supported_exists supported_same unfolding nonrecursive_def by blast

lemma bounds_irrelevant:
  fixes X :: "'c prog" defines "Y \<equiv> \<lambda>cost depth. X\<lparr>pcost := cost, pdepth := depth\<rparr>"
  shows "rules_ok (Y c d) = rules_ok X" "supported (Y c d) = supported X" "world_ok (Y c d) = world_ok X"
    "query_ok (Y c d) = query_ok X" "true_instances (Y c d) = true_instances X" "penv (Y c d) = penv X"
proof -
  have 1: "included (Y c d) = included X" "rules_for (Y c d) = rules_for X" "target_of (Y c d) = target_of X"
    by (simp_all add: Y_def included_def rules_for_def target_of_def fun_eq_iff)
  have 2: "lit_ok (Y c d) = lit_ok X" by (intro ext, unfold lit_ok_def 1) (simp add: Y_def)
  have "penv (Y c d) = penv X" "pworld (Y c d) = pworld X" "ptruth (Y c d) = ptruth X" by (simp_all add: Y_def)
  then have "atom_holds (Y c d) = atom_holds X" by (intro ext) (simp only: atom_holds_def)
  then have 3: "holds (Y c d) = holds X" by (simp add: holds_def fun_eq_iff)
  show "penv (Y c d) = penv X" by (simp add: Y_def)
  show "rules_ok (Y c d) = rules_ok X" unfolding rules_ok_def rule_ok_def 1 2 by (simp add: Y_def)
  show "world_ok (Y c d) = world_ok X" by (intro ext, unfold world_ok_def) (simp add: Y_def)
  show "query_ok (Y c d) = query_ok X" by (intro ext, unfold query_ok_def 2) (simp add: Y_def)
  show "true_instances (Y c d) = true_instances X" by (intro ext) (simp add: true_instances_def query_true_def 3)
  have "gives (Y c d) = gives X" by (intro ext) (simp add: gives_def 3)
  then show "supported (Y c d) = supported X" unfolding supported_def 1 by (simp add: Y_def)
qed

lemma select_terminates:
  assumes X: "program_ok X" "supported X"
  shows "\<exists>cost. \<forall>w name q n all. world_ok X w \<longrightarrow> query_ok X name q \<longrightarrow> sum_list (map (cost name) (query_literals q)) \<le> n \<longrightarrow>
    (\<exists>rs w'. select_query n (penv X) name q all w = (Inr rs, w') \<and> world_ok X w' \<and>
      (if all then set rs = true_instances X name q
       else length rs \<le> 1 \<and> set rs \<subseteq> true_instances X name q \<and> (rs = [] \<longleftrightarrow> true_instances X name q = {})))"
proof -
  obtain c d where "costs_ok (X\<lparr>pcost := c, pdepth := d\<rparr>)" using costs_exist X(1) unfolding program_ok_def by blast
  then have ok: "prog_ok (X\<lparr>pcost := c, pdepth := d\<rparr>)"
    using X by (simp add: prog_ok_def bounds_irrelevant program_ok_def)
  have pc: "pcost (X\<lparr>pcost := c, pdepth := d\<rparr>) = c" by simp
  note select_bounded = select_ok [OF ok, unfolded bounds_irrelevant query_cost_def pc]
  show ?thesis
  proof (rule exI [of _ c], intro allI impI)
    fix w name q n all
    assume "world_ok X w" "query_ok X name q" "sum_list (map (c name) (query_literals q)) \<le> n"
    then show "\<exists>rs w'. select_query n (penv X) name q all w = (Inr rs, w') \<and> world_ok X w' \<and>
      (if all then set rs = true_instances X name q
       else length rs \<le> 1 \<and> set rs \<subseteq> true_instances X name q \<and> (rs = [] \<longleftrightarrow> true_instances X name q = {}))"
      using select_bounded by blast
  qed
qed

text \<open>
  C1. A query for all answers returns whenever it is given enough fuel, and the formulas it
  returns are exactly the instances of the query that are true: for a safe query that fits the
  tables, to policies whose rules are safe, fit the tables and do not depend on themselves. The
  policies stand for the same rules and facts afterwards.
\<close>
theorem select_all_correct:
  assumes "program_ok X" "supported X" "world_ok X w" "query_ok X name q"
  shows "\<exists>N. \<forall>n \<ge> N. \<exists>rs w'. select_query n (penv X) name q True w = (Inr rs, w') \<and> world_ok X w' \<and>
    set rs = true_instances X name q"
  using select_terminates [OF assms(1,2)] assms(3,4) by (metis (full_types))

theorem select_all_correct_witness:
  "\<exists>I N rs w'. supported (example_prog\<lparr>ptruth := I\<rparr>) \<and>
     select_query N (penv example_prog) ''test'' example_query True example_world = (Inr rs, w') \<and>
     set rs = true_instances (example_prog\<lparr>ptruth := I\<rparr>) ''test'' example_query"
proof -
  obtain I where I: "supported (example_prog\<lparr>ptruth := I\<rparr>)" "program_ok (example_prog\<lparr>ptruth := I\<rparr>)"
    "world_ok (example_prog\<lparr>ptruth := I\<rparr>) example_world" "query_ok (example_prog\<lparr>ptruth := I\<rparr>) ''test'' example_query"
    "penv (example_prog\<lparr>ptruth := I\<rparr>) = penv example_prog" by (rule example_supported)
  from select_all_correct [OF I(2,1,3,4)] I(1,5) show ?thesis by (metis order_refl)
qed

text \<open>
  C22. A query for one answer returns at most one formula; it is a true instance of the query,
  and there is none exactly when no instance is true.
\<close>
theorem select_one_correct:
  assumes "program_ok X" "supported X" "world_ok X w" "query_ok X name q"
  shows "\<exists>N. \<forall>n \<ge> N. \<exists>rs w'. select_query n (penv X) name q False w = (Inr rs, w') \<and> world_ok X w' \<and>
    length rs \<le> 1 \<and> set rs \<subseteq> true_instances X name q \<and> (rs = [] \<longleftrightarrow> true_instances X name q = {})"
  using select_terminates [OF assms(1,2)] assms(3,4) by (metis (full_types))

theorem select_one_correct_witness:
  "\<exists>I N rs w'. supported (example_prog\<lparr>ptruth := I\<rparr>) \<and>
     select_query N (penv example_prog) ''test'' example_query False example_world = (Inr rs, w') \<and>
     set rs \<subseteq> true_instances (example_prog\<lparr>ptruth := I\<rparr>) ''test'' example_query"
proof -
  obtain I where I: "supported (example_prog\<lparr>ptruth := I\<rparr>)" "program_ok (example_prog\<lparr>ptruth := I\<rparr>)"
    "world_ok (example_prog\<lparr>ptruth := I\<rparr>) example_world" "query_ok (example_prog\<lparr>ptruth := I\<rparr>) ''test'' example_query"
    "penv (example_prog\<lparr>ptruth := I\<rparr>) = penv example_prog" by (rule example_supported)
  from select_one_correct [OF I(2,1,3,4)] I(1,5) show ?thesis by (metis order_refl)
qed

end
