(* ===== verification/Database.thy ===== *)
theory Database
  imports Top_Down
begin

text \<open>
  \<open>database.Database\<close>: a policy that holds tuples, each with the proofs that derive it. Proved to
  behave as a map from tuples to sets of proofs. Queries to it run through the same search as
  those to rules, with \<open>match\<close> in place of unification.
\<close>

declare map_of_eq_Some_iff [simp del] Some_eq_map_of_iff [simp del]

section \<open>Proofs\<close>

record db_proof =
  pbinding :: "(trm, trm) dict"
  prule :: rule

definition dict_eq :: "('k, 'v) dict \<Rightarrow> ('k, 'v) dict \<Rightarrow> bool" where
  "dict_eq b b' = (length b = length b' \<and> list_all (\<lambda>(k, v). map_of b' k = Some v) b)"

definition proof_eq :: "db_proof \<Rightarrow> db_proof \<Rightarrow> bool" where
  "proof_eq p q = (dict_eq (pbinding p) (pbinding q) \<and> rule_eq (prule p) (prule q))"

type_synonym proof_collection = "db_proof list"

definition pc_member :: "db_proof \<Rightarrow> proof_collection \<Rightarrow> bool" where
  "pc_member p ps = list_ex (proof_eq p) ps"

definition pc_isub :: "proof_collection \<Rightarrow> proof_collection \<Rightarrow> proof_collection" where
  "pc_isub ps qs = filter (\<lambda>p. \<not> pc_member p qs) ps"

definition pc_ior :: "proof_collection \<Rightarrow> proof_collection \<Rightarrow> proof_collection" where
  "pc_ior ps qs = fold (\<lambda>p ps. if pc_member p ps then ps else ps @ [p]) qs ps"

definition pc_ge :: "proof_collection \<Rightarrow> db_proof list \<Rightarrow> bool" where
  "pc_ge ps qs = list_all (\<lambda>q. pc_member q ps) qs"

definition pc_le :: "proof_collection \<Rightarrow> db_proof list \<Rightarrow> bool" where
  "pc_le ps qs = list_all (\<lambda>p. pc_member p qs) ps"

definition pc_eq :: "proof_collection \<Rightarrow> proof_collection \<Rightarrow> bool" where
  "pc_eq ps qs = (pc_le ps qs \<and> pc_le qs ps)"

section \<open>Tables of tuples\<close>

record dbtuple =
  dtuple :: "pyval list"
  dproofs :: proof_collection

type_synonym database = "(string, dbtuple list) dict"

record db_event = event +
  proofs :: "db_proof list"

definition argument_names :: "literal \<Rightarrow> pyval list" where
  "argument_names l = map arg_name (arguments l)"

definition db_table :: "string \<Rightarrow> database \<Rightarrow> dbtuple list" where
  "db_table t db = (case map_of db t of None \<Rightarrow> [] | Some ts \<Rightarrow> ts)"

definition db_content :: "string list option \<Rightarrow> database \<Rightarrow> literal list" where
  "db_content tablenames db =
     concat (map (\<lambda>t. map (\<lambda>d. literal_of_tuple t (dtuple d)) (db_table t db))
       (case tablenames of None \<Rightarrow> dkeys db | Some ts \<Rightarrow> ts))"

fun db_contains :: "formula \<Rightarrow> database \<Rightarrow> bool" where
  "db_contains (FLit l) db = (\<not> negated l \<and> list_ex (\<lambda>d. dtuple d = argument_names l) (db_table (tbl (table l)) db))"
| "db_contains _ db = False"

text \<open>\<open>explain\<close> returns \<open>None\<close> when the tuple is not in its table.\<close>

definition db_explain :: "literal \<Rightarrow> database \<Rightarrow> proof_collection option" where
  "db_explain l db =
     (if map_of db (tbl (table l)) = None \<or> \<not> lit_is_ground l then Some []
      else map_option dproofs (find (\<lambda>d. dtuple d = argument_names l) (db_table (tbl (table l)) db)))"

text \<open>A list of proofs compared with a collection by \<open><=\<close> runs the collection's \<open>__ge__\<close>.\<close>

definition db_is_noop :: "bool \<Rightarrow> literal \<Rightarrow> db_proof list \<Rightarrow> database \<Rightarrow> bool" where
  "db_is_noop ins l ps db =
     (case map_of db (tbl (table l)) of
        None \<Rightarrow> \<not> ins
      | Some ts \<Rightarrow>
          (if list_ex (\<lambda>d. dtuple d = argument_names l \<and> pc_ge (dproofs d) ps) ts then ins else \<not> ins))"

fun join_proofs :: "pyval list \<Rightarrow> db_proof list \<Rightarrow> dbtuple list \<Rightarrow> dbtuple list" where
  "join_proofs vs ps [] = [\<lparr>dtuple = vs, dproofs = ps\<rparr>]"
| "join_proofs vs ps (d # ds) =
     (if dtuple d = vs then d\<lparr>dproofs := pc_ior (dproofs d) ps\<rparr> # ds else d # join_proofs vs ps ds)"

definition db_insert_actual :: "literal \<Rightarrow> db_proof list \<Rightarrow> database \<Rightarrow> database" where
  "db_insert_actual l ps db =
     (let t = tbl (table l); vs = argument_names l in
      case map_of db t of
        None \<Rightarrow> AList.update t [\<lparr>dtuple = vs, dproofs = ps\<rparr>] db
      | Some ts \<Rightarrow> AList.update t (join_proofs vs ps ts) db)"

fun remove_proofs :: "pyval list \<Rightarrow> db_proof list \<Rightarrow> dbtuple list \<Rightarrow> dbtuple list" where
  "remove_proofs vs ps [] = []"
| "remove_proofs vs ps (d # ds) =
     (if dtuple d = vs
      then (let left = pc_isub (dproofs d) ps in if left = [] then ds else d\<lparr>dproofs := left\<rparr> # ds)
      else d # remove_proofs vs ps ds)"

definition db_delete_actual :: "literal \<Rightarrow> db_proof list \<Rightarrow> database \<Rightarrow> database" where
  "db_delete_actual l ps db =
     (case map_of db (tbl (table l)) of
        None \<Rightarrow> db
      | Some ts \<Rightarrow> AList.update (tbl (table l)) (remove_proofs (argument_names l) ps ts) db)"

definition db_modify :: "db_event \<Rightarrow> database \<Rightarrow> db_event list res \<times> database" where
  "db_modify e db =
     (case formula e of
        FLit l \<Rightarrow>
          (if negated l then (Inl AssertionError, db)
           else if db_is_noop (is_insert e) l (proofs e) db then (Inr [], db)
           else (Inr [e], if is_insert e then db_insert_actual l (proofs e) db else db_delete_actual l (proofs e) db))
      | _ \<Rightarrow> (Inl AssertionError, db))"

definition db_event_of :: "bool \<Rightarrow> formula \<Rightarrow> db_proof list \<Rightarrow> db_event" where
  "db_event_of ins f ps = \<lparr>formula = f, is_insert = ins, target = None, proofs = ps\<rparr>"

definition db_insert :: "literal \<Rightarrow> db_proof list \<Rightarrow> database \<Rightarrow> db_event list res \<times> database" where
  "db_insert l ps = db_modify (db_event_of True (FLit l) ps)"

definition db_delete :: "literal \<Rightarrow> db_proof list \<Rightarrow> database \<Rightarrow> db_event list res \<times> database" where
  "db_delete l ps = db_modify (db_event_of False (FLit l) ps)"

definition db_update :: "db_event list \<Rightarrow> (database, db_event list) stm" where
  "db_update es = for_st (\<lambda>e changes. sbind (db_modify e) (\<lambda>chs. sret (changes @ chs))) es []"

definition db_update_errors :: "'c registry \<Rightarrow> theories \<Rightarrow> string \<Rightarrow> formula list \<Rightarrow> exc list res" where
  "db_update_errors R ths name fs =
     for_res (\<lambda>f errors. case f of
         FLit l \<Rightarrow> if negated l then Inr (errors @ [PolicyException])
           else rbind (fact_errors R ths (Some name) l) (\<lambda>es. Inr (errors @ es))
       | _ \<Rightarrow> Inr (errors @ [PolicyException])) fs []"

definition db_sub :: "database \<Rightarrow> database \<Rightarrow> (string \<times> pyval list) list" where
  "db_sub db other =
     concat (map (\<lambda>(t, ts).
       map (\<lambda>d. (t, dtuple d))
         (case map_of other t of
            None \<Rightarrow> ts
          | Some os \<Rightarrow> filter (\<lambda>d. \<not> list_ex (\<lambda>o'. dtuple o' = dtuple d) os) ts)) db)"

definition db_add_all :: "database \<Rightarrow> database \<Rightarrow> database" where
  "db_add_all db result =
     fold (\<lambda>(t, d) result. snd (db_insert (literal_of_tuple t (dtuple d)) (dproofs d) result))
       (concat (map (\<lambda>(t, ts). map (Pair t) ts) db)) result"

definition db_or :: "database \<Rightarrow> database \<Rightarrow> database" where
  "db_or db other = db_add_all other (db_add_all db [])"

definition db_arity :: "string \<Rightarrow> database \<Rightarrow> nat option" where
  "db_arity t db = (case db_table t db of [] \<Rightarrow> None | d # _ \<Rightarrow> Some (length (dtuple d)))"
section \<open>Queries\<close>

definition dbtuple_match :: "dbtuple \<Rightarrow> literal \<Rightarrow> uid \<Rightarrow> uheap \<Rightarrow> (undo list option \<times> uheap) res" where
  "dbtuple_match d l u h =
     (if length (dtuple d) \<noteq> length (arguments l) then Inr (None, h)
      else match_loop u (zip (arguments l) (map ObjectConstant (dtuple d))) [] h)"

primrec try_tuples ::
    "'c env \<Rightarrow> evaluator \<Rightarrow> literal \<Rightarrow> uid \<Rightarrow> td_context \<Rightarrow> top_caller \<Rightarrow> dbtuple list \<Rightarrow> (td_state, bool) stm" where
  "try_tuples E ev l u ctx c [] = sret False"
| "try_tuples E ev l u ctx c (d # ds) =
     sbind new_bi_unifier (\<lambda>_.
     sbind (on_heap (dbtuple_match d l u)) (\<lambda>cs.
       case cs of
         None \<Rightarrow> try_tuples E ev l u ctx c ds
       | Some cs \<Rightarrow>
           sbind (top_down_finish E ev ctx c) (\<lambda>ok.
           sbind (undo_st cs) (\<lambda>_.
             if ok \<and> \<not> find_all c then sret True else try_tuples E ev l u ctx c ds))))"

definition db_top_down_th :: "'c env \<Rightarrow> evaluator \<Rightarrow> database \<Rightarrow> literal \<Rightarrow> uid \<Rightarrow> td_context \<Rightarrow> top_caller \<Rightarrow> (td_state, bool) stm" where
  "db_top_down_th E ev db l u ctx c s =
     (case uplug (str_id E) None (theap s) u l of
        Inl e \<Rightarrow> (Inl e, s)
      | Inr _ \<Rightarrow> try_tuples E ev l u ctx c (db_table (tbl (table l)) db) s)"

text \<open>
  Some policies store tuples: their names are the keys of \<open>dbs\<close>. They also have an entry in the
  dictionary of policies, with no rules; they include no other policy.
\<close>

primrec stored_eval :: "nat \<Rightarrow> 'c env \<Rightarrow> (string, database) dict \<Rightarrow> evaluator" where
  "stored_eval 0 E dbs name ctx c = sraise OutOfFuel"
| "stored_eval (Suc n) E dbs name ctx c =
     (case ctx of
        Root \<Rightarrow> sraise AttributeError
      | Context lits i u prev th \<Rightarrow>
          if i < length lits
          then (case map_of dbs name of
              None \<Rightarrow> eval_literal n E (stored_eval n E dbs) name (lits ! i) u ctx c
            | Some db \<Rightarrow> eval_literal_with (db_top_down_th E (stored_eval n E dbs) db (lits ! i) u ctx c)
                E (stored_eval n E dbs) name (lits ! i) u ctx c)
          else sraise IndexError)"

lemma stored_eval_none: "stored_eval n E [] = top_down_eval n E"
proof (induction n)
  case (Suc n)
  show ?case by (intro ext) (simp add: Suc split: td_context.split)
qed (simp add: fun_eq_iff)

text \<open>
  \<open>top_down_evaluation\<close> with a binding: the search starts from the given unifier.
\<close>

definition evaluation_from ::
    "nat \<Rightarrow> 'c env \<Rightarrow> (string, database) dict \<Rightarrow> string \<Rightarrow> trm list \<Rightarrow> literal list \<Rightarrow> uid \<Rightarrow> uheap \<Rightarrow> bool \<Rightarrow> (world, (trm, trm) dict list) stm" where
  "evaluation_from n E dbs name vars lits u h all w =
     (let c = \<lparr>cvariables = vars, cbinding = u, find_all = all, save = None\<rparr>;
          s = \<lparr>theap = h, tworld = w, tsupport = [], tresults = []\<rparr>;
          (r, s) = (if lits = [] then top_down_finish E (stored_eval n E dbs) Root c s
                    else stored_eval n E dbs name (Context lits 0 u Root name) c s)
      in (case r of Inl e \<Rightarrow> (Inl e, tworld s) | Inr _ \<Rightarrow> (Inr (map rbinding (tresults s)), tworld s)))"

lemma evaluation_from_none:
  "new_unifier [] = (u, h) \<Longrightarrow> evaluation_from n E [] name vars lits u h all w = top_down_evaluation n E name vars lits all w"
  by (auto simp: evaluation_from_def top_down_evaluation_def top_down_abduction_def stored_eval_none sbind_def sret_def Let_def
      split: prod.splits sum.splits)

section \<open>A map from tuples to sets of proofs\<close>

text \<open>What proofs are equal by.\<close>

definition proof_key :: "db_proof \<Rightarrow> (trm \<rightharpoonup> trm) \<times> literal list \<times> literal list" where
  "proof_key p = (map_of (pbinding p), rule_key (prule p))"

definition proofs_ok :: "db_proof list \<Rightarrow> bool" where
  "proofs_ok ps = list_all (\<lambda>p. dict_ok (pbinding p)) ps"

lemma dict_eq_iff:
  assumes "dict_ok b" "dict_ok b'" shows "dict_eq b b' \<longleftrightarrow> map_of b = map_of b'"
proof
  assume eq: "dict_eq b b'"
  then have "set b \<subseteq> set b'" by (auto simp: dict_eq_def list_all_iff dest: map_of_SomeD)
  moreover have "card (set b') = card (set b)"
    using assms eq distinct_map [of fst] by (metis dict_eq_def distinct_card)
  ultimately have "set b = set b'" by (simp add: card_subset_eq)
  then show "map_of b = map_of b'" using assms by (metis map_of_inject_set)
next
  assume eq: "map_of b = map_of b'"
  then have "set b = set b'" using assms by (metis map_of_inject_set)
  then have "length b = length b'" using assms by (metis distinct_card distinct_map)
  moreover have "map_of b' k = Some v" if "(k, v) \<in> set b" for k v
    using that eq dict_mem_iff [OF assms(1), of k v] by simp
  ultimately show "dict_eq b b'" by (auto simp: dict_eq_def list_all_iff)
qed

lemma pc_member_iff:
  "proofs_ok ps \<Longrightarrow> dict_ok (pbinding p) \<Longrightarrow> pc_member p ps \<longleftrightarrow> proof_key p \<in> proof_key ` set ps"
  by (auto simp: pc_member_def list_ex_iff proof_eq_def proofs_ok_def list_all_iff proof_key_def dict_eq_iff rule_eq_key)

lemma pc_ge_iff: "proofs_ok ps \<Longrightarrow> proofs_ok qs \<Longrightarrow> pc_ge ps qs \<longleftrightarrow> proof_key ` set qs \<subseteq> proof_key ` set ps"
  by (auto simp: pc_ge_def list_all_iff pc_member_iff proofs_ok_def)

lemma image_filter_diff: "f ` {x \<in> A. f x \<notin> B} = f ` A - B"
  by blast

lemma pc_isub_set:
  assumes "proofs_ok ps" "proofs_ok qs"
  shows "proof_key ` set (pc_isub ps qs) = proof_key ` set ps - proof_key ` set qs"
proof -
  have "pc_member p qs \<longleftrightarrow> proof_key p \<in> proof_key ` set qs" if "p \<in> set ps" for p
    using assms(1) that by (intro pc_member_iff [OF assms(2)]) (simp add: proofs_ok_def list_all_iff)
  then have "set (pc_isub ps qs) = {p \<in> set ps. proof_key p \<notin> proof_key ` set qs}"
    unfolding pc_isub_def set_filter by (intro Collect_cong) blast
  then show ?thesis by (simp only: image_filter_diff)
qed

lemma pc_isub_ok: "proofs_ok ps \<Longrightarrow> proofs_ok (pc_isub ps qs)"
  by (auto simp: pc_isub_def proofs_ok_def list_all_iff)

lemma pc_ior_ok:
  "proofs_ok ps \<Longrightarrow> proofs_ok qs \<Longrightarrow> proofs_ok (pc_ior ps qs) \<and> proof_key ` set (pc_ior ps qs) = proof_key ` set ps \<union> proof_key ` set qs"
proof (induction qs arbitrary: ps)
  case (Cons q qs)
  let ?ps = "if pc_member q ps then ps else ps @ [q]"
  have q: "dict_ok (pbinding q)" "proofs_ok qs" using Cons.prems(2) by (simp_all add: proofs_ok_def)
  have "proofs_ok ?ps" using Cons.prems(1) q(1) by (auto simp: proofs_ok_def)
  moreover have "proof_key ` set ?ps = insert (proof_key q) (proof_key ` set ps)"
    using pc_member_iff [OF Cons.prems(1) q(1)] by auto
  ultimately show ?case using Cons.IH [of ?ps] q(2) by (simp add: pc_ior_def)
qed (simp add: pc_ior_def)

type_synonym 'p proof_table = "string \<Rightarrow> pyval list \<Rightarrow> 'p set option"

definition abs_table :: "dbtuple list \<Rightarrow> pyval list \<Rightarrow> ((trm \<rightharpoonup> trm) \<times> literal list \<times> literal list) set option" where
  "abs_table ts = map_of (map (\<lambda>d. (dtuple d, proof_key ` set (dproofs d))) ts)"

definition db_abs :: "database \<Rightarrow> ((trm \<rightharpoonup> trm) \<times> literal list \<times> literal list) proof_table" where
  "db_abs db t = abs_table (db_table t db)"

definition table_ok :: "dbtuple list \<Rightarrow> bool" where
  "table_ok ts = (distinct (map dtuple ts) \<and> list_all (\<lambda>d. proofs_ok (dproofs d)) ts)"

definition db_ok :: "database \<Rightarrow> bool" where
  "db_ok db = (\<forall>t. table_ok (db_table t db))"

lemma abs_table_None: "abs_table ts vs = None \<longleftrightarrow> vs \<notin> dtuple ` set ts"
  by (auto simp: abs_table_def map_of_None_keys image_image)

lemma abs_table_simps [simp]:
  "abs_table [] = Map.empty" "abs_table (d # ds) = (abs_table ds)(dtuple d \<mapsto> proof_key ` set (dproofs d))"
  by (simp_all add: abs_table_def)

lemma table_ok_simps [simp]:
  "table_ok []" "table_ok (d # ds) \<longleftrightarrow> dtuple d \<notin> dtuple ` set ds \<and> proofs_ok (dproofs d) \<and> table_ok ds"
  by (auto simp: table_ok_def)

text \<open>One event: whether it counts as a change, and the proofs of the tuple after it.\<close>

definition spec_change :: "bool \<Rightarrow> 'p set \<Rightarrow> 'p set option \<Rightarrow> bool \<times> 'p set option" where
  "spec_change ins P old =
     (case old of
        None \<Rightarrow> if ins then (True, Some P) else (False, None)
      | Some S \<Rightarrow>
          if ins then (if P \<subseteq> S then (False, old) else (True, Some (S \<union> P)))
          else if P \<subseteq> S then (True, if S = P then None else Some (S - P))
          else (False, old))"

lemma join_proofs_ok:
  assumes "table_ok ts" "proofs_ok ps"
  shows "table_ok (join_proofs vs ps ts) \<and>
    abs_table (join_proofs vs ps ts) =
      (abs_table ts)(vs \<mapsto> (case abs_table ts vs of None \<Rightarrow> {} | Some S \<Rightarrow> S) \<union> proof_key ` set ps)"
proof -
  have keys: "dtuple ` set (join_proofs vs ps ts) = insert vs (dtuple ` set ts)" for ts
    by (induction ts) auto
  show ?thesis
    using assms(1)
  proof (induction ts)
    case (Cons d ds)
    then show ?case using pc_ior_ok [OF _ assms(2), of "dproofs d"] by (auto simp: keys)
  qed (use assms(2) in simp)
qed

lemma remove_proofs_ok:
  assumes "table_ok ts" "proofs_ok ps"
  shows "table_ok (remove_proofs vs ps ts) \<and>
    abs_table (remove_proofs vs ps ts) =
      (abs_table ts)(vs := case abs_table ts vs of None \<Rightarrow> None
         | Some S \<Rightarrow> if S \<subseteq> proof_key ` set ps then None else Some (S - proof_key ` set ps))"
proof -
  have keys: "dtuple ` set (remove_proofs vs ps ts) \<subseteq> dtuple ` set ts" for ts
    by (induction ts) (auto simp: Let_def split: if_splits)
  show ?thesis
    using assms(1)
  proof (induction ts)
    case (Cons d ds)
    let ?left = "pc_isub (dproofs d) ps" and ?P = "proof_key ` set ps"
    have ok: "proofs_ok (dproofs d)" "table_ok ds" "dtuple d \<notin> dtuple ` set ds" using Cons.prems by simp_all
    have left: "proof_key ` set ?left = proof_key ` set (dproofs d) - ?P" "proofs_ok ?left"
      using pc_isub_set [OF ok(1) assms(2)] pc_isub_ok [OF ok(1)] by auto
    show ?case
    proof (cases "dtuple d = vs")
      case True
      have "?left = [] \<longleftrightarrow> proof_key ` set ?left = {}" by simp
      then have empty: "?left = [] \<longleftrightarrow> proof_key ` set (dproofs d) \<subseteq> ?P" unfolding left(1) by (simp only: Diff_eq_empty_iff)
      have none: "abs_table ds vs = None" using ok(3) True abs_table_None [of ds vs] by simp
      show ?thesis
      proof (cases "?left = []")
        case l: True
        then show ?thesis using True ok(2) empty none by (auto simp: Let_def fun_eq_iff)
      next
        case False
        with True ok left empty show ?thesis by (simp add: Let_def fun_eq_iff)
      qed
    next
      case False
      with Cons.IH ok keys [of ds] show ?thesis by (auto simp: fun_upd_twist)
    qed
  qed (simp add: fun_upd_idem)
qed

lemma db_table_update [simp]: "db_table t' (AList.update t ts db) = (if t' = t then ts else db_table t' db)"
  by (simp add: db_table_def)

lemma db_abs_update: "db_abs (AList.update t ts db) = (db_abs db)(t := abs_table ts)"
  by (intro ext) (simp add: db_abs_def)

lemma noop_iff:
  assumes "db_ok db" "proofs_ok ps"
  shows "db_is_noop ins l ps db \<longleftrightarrow>
    \<not> fst (spec_change ins (proof_key ` set ps) (db_abs db (tbl (table l)) (argument_names l)))"
proof -
  let ?ts = "db_table (tbl (table l)) db" and ?vs = "argument_names l"
  have ok: "table_ok ts \<Longrightarrow> list_ex (\<lambda>d. dtuple d = ?vs \<and> pc_ge (dproofs d) ps) ts \<longleftrightarrow>
      (\<exists>S. abs_table ts ?vs = Some S \<and> proof_key ` set ps \<subseteq> S)" for ts
  proof (induction ts)
    case (Cons d ds)
    note ge = pc_ge_iff [OF _ assms(2), of "dproofs d"]
    show ?case
    proof (cases "dtuple d = ?vs")
      case True
      have "\<not> list_ex (\<lambda>d. dtuple d = ?vs \<and> pc_ge (dproofs d) ps) ds"
        using Cons.prems True by (force simp: list_ex_iff)
      then show ?thesis using True ge Cons.prems by simp
    next
      case False
      then show ?thesis using Cons by simp
    qed
  qed simp
  have "table_ok ?ts" using assms(1) by (simp add: db_ok_def)
  note ok = ok [OF this]
  show ?thesis
  proof (cases "map_of db (tbl (table l))")
    case None
    then have "db_abs db (tbl (table l)) ?vs = None" by (simp add: db_abs_def db_table_def)
    with None show ?thesis by (simp add: db_is_noop_def spec_change_def)
  next
    case (Some ts)
    then have "db_is_noop ins l ps db = (if \<exists>S. abs_table ?ts ?vs = Some S \<and> proof_key ` set ps \<subseteq> S then ins else \<not> ins)"
      using ok by (simp add: db_is_noop_def db_table_def)
    then show ?thesis by (auto simp: spec_change_def db_abs_def split: option.splits)
  qed
qed

lemma db_modify_ok:
  assumes ok: "db_ok db" "proofs_ok (proofs e)" and l: "formula e = FLit l" "\<not> negated l"
    and ch: "(changed, new) = spec_change (is_insert e) (proof_key ` set (proofs e)) (db_abs db (tbl (table l)) (argument_names l))"
  shows "fst (db_modify e db) = Inr (if changed then [e] else []) \<and> db_ok (snd (db_modify e db)) \<and>
    db_abs (snd (db_modify e db)) = (db_abs db)(tbl (table l) := (db_abs db (tbl (table l)))(argument_names l := new))"
proof -
  let ?t = "tbl (table l)" and ?vs = "argument_names l" and ?P = "proof_key ` set (proofs e)"
  let ?ts = "db_table ?t db"
  have ts: "table_ok ?ts" using ok(1) by (simp add: db_ok_def)
  have noop: "db_is_noop (is_insert e) l (proofs e) db \<longleftrightarrow> \<not> changed"
    using noop_iff [OF ok] ch by (metis fst_conv)
  show ?thesis
  proof (cases changed)
    case False
    then have "new = db_abs db ?t ?vs" using ch by (auto simp: spec_change_def split: option.splits if_splits)
    then show ?thesis using False noop l ok(1) by (simp add: db_modify_def fun_upd_idem)
  next
    case changed: True
    show ?thesis
    proof (cases "is_insert e")
      case True
      have ins: "db_insert_actual l (proofs e) db = AList.update ?t (join_proofs ?vs (proofs e) ?ts) db"
        by (auto simp: db_insert_actual_def db_table_def Let_def split: option.splits)
      have "new = Some ((case db_abs db ?t ?vs of None \<Rightarrow> {} | Some S \<Rightarrow> S) \<union> ?P)"
        using ch changed True by (auto simp: spec_change_def split: option.splits if_splits)
      with join_proofs_ok [OF ts ok(2), of ?vs] True changed noop l ok(1) show ?thesis
        by (simp add: db_modify_def ins db_abs_update db_ok_def) (simp add: db_abs_def)
    next
      case False
      then obtain S where S: "db_abs db ?t ?vs = Some S" "?P \<subseteq> S" "new = (if S = ?P then None else Some (S - ?P))"
        using ch changed by (auto simp: spec_change_def split: option.splits if_splits)
      then have "map_of db ?t \<noteq> None" by (cases "map_of db ?t") (simp_all add: db_abs_def db_table_def)
      then have del: "db_delete_actual l (proofs e) db = AList.update ?t (remove_proofs ?vs (proofs e) ?ts) db"
        by (auto simp: db_delete_actual_def db_table_def)
      have "new = (if S \<subseteq> ?P then None else Some (S - ?P))" using S(2,3) by auto
      with remove_proofs_ok [OF ts ok(2), of ?vs] S(1) False changed noop l ok(1) show ?thesis
        by (simp add: db_modify_def del db_abs_update db_ok_def) (simp add: db_abs_def)
    qed
  qed
qed

text \<open>All events in turn.\<close>

definition event_lit :: "db_event \<Rightarrow> literal" where
  "event_lit e = (case formula e of FLit l \<Rightarrow> l | _ \<Rightarrow> undefined)"

definition db_event_ok :: "db_event \<Rightarrow> bool" where
  "db_event_ok e = (is_atom (formula e) \<and> proofs_ok (proofs e))"

fun spec_db_update ::
    "db_event list \<Rightarrow> ((trm \<rightharpoonup> trm) \<times> literal list \<times> literal list) proof_table \<Rightarrow>
     db_event list \<times> ((trm \<rightharpoonup> trm) \<times> literal list \<times> literal list) proof_table" where
  "spec_db_update [] A = ([], A)"
| "spec_db_update (e # es) A =
     (let t = tbl (table (event_lit e)); vs = argument_names (event_lit e);
          (changed, new) = spec_change (is_insert e) (proof_key ` set (proofs e)) (A t vs);
          (chs, A) = spec_db_update es (A(t := (A t)(vs := new)))
      in ((if changed then [e] else []) @ chs, A))"

lemma db_update_run:
  assumes "db_ok db" "list_all db_event_ok es"
  shows "fst (for_st (\<lambda>e changes. sbind (db_modify e) (\<lambda>chs. sret (changes @ chs))) es chs db) =
      Inr (chs @ fst (spec_db_update es (db_abs db))) \<and>
    db_ok (snd (for_st (\<lambda>e changes. sbind (db_modify e) (\<lambda>chs. sret (changes @ chs))) es chs db)) \<and>
    db_abs (snd (for_st (\<lambda>e changes. sbind (db_modify e) (\<lambda>chs. sret (changes @ chs))) es chs db)) =
      snd (spec_db_update es (db_abs db))"
  using assms
proof (induction es arbitrary: chs db)
  case (Cons e es)
  obtain l where l: "formula e = FLit l" "\<not> negated l" "proofs_ok (proofs e)" and el: "event_lit e = l"
    using Cons.prems(2) by (cases "formula e") (auto simp: db_event_ok_def event_lit_def)
  obtain changed new where ch: "(changed, new) =
      spec_change (is_insert e) (proof_key ` set (proofs e)) (db_abs db (tbl (table l)) (argument_names l))"
    by (metis surj_pair)
  note m = db_modify_ok [OF Cons.prems(1) l(3,1,2) ch]
  then obtain db' where db': "db_modify e db = (Inr (if changed then [e] else []), db')" "db_ok db'"
    "db_abs db' = (db_abs db)(tbl (table l) := (db_abs db (tbl (table l)))(argument_names l := new))"
    by (metis surjective_pairing)
  note ih = Cons.IH [OF db'(2), of "chs @ (if changed then [e] else [])"]
  have "spec_db_update (e # es) (db_abs db) =
      (let (chs, A) = spec_db_update es (db_abs db') in ((if changed then [e] else []) @ chs, A))"
    by (simp add: el ch [symmetric] db'(3) Let_def)
  then show ?case
    using ih Cons.prems(2) by (simp add: sbind_def sret_def db'(1) split_beta)
qed (simp add: sret_def)

lemma db_table_key: "d \<in> set (db_table t db) \<Longrightarrow> t \<in> fst ` set db"
  using map_of_Some_keys [of db t] by (cases "map_of db t") (simp_all add: db_table_def)

text \<open>
  C21. A database behaves as a map from the tuples of each table to sets of proofs: an insertion
  adds proofs, a deletion takes them away when all are there, a tuple goes with its last proof,
  and the events that count as changes are those the map says. The contents are the tuples of
  the map.
\<close>
theorem database_refines_proof_sets:
  assumes "list_all db_event_ok es"
  shows "\<exists>db. db_update es [] = (Inr (fst (spec_db_update es (\<lambda>_ _. None))), db) \<and>
    db_abs db = snd (spec_db_update es (\<lambda>_ _. None)) \<and>
    set (db_content None db) = {literal_of_tuple t vs | t vs. db_abs db t vs \<noteq> None}"
proof -
  have empty: "db_ok []" "db_abs [] = (\<lambda>_ _. None)" by (simp_all add: db_ok_def db_abs_def db_table_def fun_eq_iff)
  have run: "fst (db_update es []) = Inr (fst (spec_db_update es (\<lambda>_ _. None)))"
    "db_abs (snd (db_update es [])) = snd (spec_db_update es (\<lambda>_ _. None))"
    using db_update_run [OF empty(1) assms, of "[]"] empty(2) by (simp_all add: db_update_def)
  define db where "db = snd (db_update es [])"
  have db: "db_update es [] = (Inr (fst (spec_db_update es (\<lambda>_ _. None))), db)"
    "db_abs db = snd (spec_db_update es (\<lambda>_ _. None))"
    using run by (simp_all add: db_def prod_eq_iff)
  have "set (db_content None db) = {literal_of_tuple t (dtuple d) | t d. d \<in> set (db_table t db)}"
    unfolding db_content_def option.case using db_table_key [where db = db] by (simp add: set_eq_iff image_iff) metis
  also have "\<dots> = {literal_of_tuple t vs | t vs. db_abs db t vs \<noteq> None}"
    by (auto simp: db_abs_def abs_table_None)
  finally show ?thesis using db by blast
qed


definition proof_example :: db_proof where
  "proof_example = \<lparr>pbinding = [(Variable ''x'', ObjectConstant (VInt 1))], prule = rule_example\<rparr>"

definition p1_event :: "bool \<Rightarrow> db_proof list \<Rightarrow> db_event" where
  "p1_event ins ps = db_event_of ins (FLit (lit ''p'' [ObjectConstant (VInt 1)])) ps"

theorem database_refines_proof_sets_witness:
  "\<exists>db. db_update [p1_event True [proof_example], p1_event False [proof_example]] [] =
     (Inr [p1_event True [proof_example], p1_event False [proof_example]], db) \<and> db_content None db = []"
proof -
  let ?es = "[p1_event True [proof_example], p1_event False [proof_example]]"
  have "list_all db_event_ok ?es" by code_simp
  from database_refines_proof_sets [OF this]
  obtain db where db: "db_update ?es [] = (Inr (fst (spec_db_update ?es (\<lambda>_ _. None))), db)"
    "db_abs db = snd (spec_db_update ?es (\<lambda>_ _. None))"
    "set (db_content None db) = {literal_of_tuple t vs | t vs. db_abs db t vs \<noteq> None}" by blast
  have run: "spec_db_update ?es (\<lambda>_ _. None) = (?es, \<lambda>_ _. None)"
    by (simp add: spec_change_def event_lit_def p1_event_def db_event_of_def fun_eq_iff Let_def)
  with db(2,3) have "set (db_content None db) = {}" by simp
  with db(1) run show ?thesis by simp
qed

text \<open>
  Deleting a tuple without naming its proofs is reported as a change and changes nothing.
\<close>

theorem delete_reports_no_change:
  "db_update [p1_event True [proof_example], p1_event False []] [] =
     (Inr [p1_event True [proof_example], p1_event False []], snd (db_update [p1_event True [proof_example]] []))"
  by (simp add: db_update_def db_modify_def db_is_noop_def p1_event_def db_event_of_def sbind_def sret_def lit_def
      pc_ge_def db_insert_actual_def db_delete_actual_def pc_isub_def pc_member_def argument_names_def tn_def)


end
