(* ===== verification/Materialized.thy ===== *)
theory Materialized
  imports Database
begin

text \<open>
  \<open>materialized.py\<close>: a policy that stores the contents of its views. Rules are turned into delta
  rules, which say how a change of one table changes another; events wait in a queue, and each
  one that is processed may add more. The loop runs on a number of events (fuel), the queries
  inside it on a number of calls.
\<close>

declare map_of_eq_Some_iff [simp del] Some_eq_map_of_iff [simp del]

section \<open>Delta rules\<close>

record delta_rule =
  trigger :: literal
  delta_head :: literal
  delta_body :: "literal list"
  original :: rule

definition mk_delta :: "'c registry \<Rightarrow> literal \<Rightarrow> literal \<Rightarrow> literal list \<Rightarrow> rule \<Rightarrow> delta_rule" where
  "mk_delta R trig head ls orig =
     \<lparr>trigger = trig, delta_head = head,
      delta_body = sorted_by literal_lt (filter (\<lambda>l. \<not> lit_is_builtin R l) ls) @ sorted_by literal_lt (filter (lit_is_builtin R) ls),
      original = orig\<rparr>"

text \<open>What delta rules are equal by, and hashed by.\<close>

definition delta_key :: "delta_rule \<Rightarrow> literal \<times> literal \<times> literal list" where
  "delta_key d = (trigger d, delta_head d, delta_body d)"

definition delta_variables :: "delta_rule \<Rightarrow> trm list" where
  "delta_variables d =
     fold (\<lambda>l vs. set_union vs (lit_variables l)) (delta_body d)
       (set_union (lit_variables (trigger d)) (lit_variables (delta_head d)))"

definition delta_tablenames :: "bool \<Rightarrow> delta_rule \<Rightarrow> string list" where
  "delta_tablenames body_only d =
     fold (\<lambda>l ts. set_add (lit_tablename None l) ts) (delta_body d)
       (set_add (lit_tablename None (trigger d)) (if body_only then [] else [lit_tablename None (delta_head d)]))"

type_synonym counter = "(string, int) dict"

record delta_theory =
  dt_rules :: "(string, (literal \<times> literal \<times> literal list, delta_rule) oset) dict"
  dt_originals :: "rule list"
  dt_views :: counter
  dt_tables :: counter

definition dt_empty :: delta_theory where
  "dt_empty = \<lparr>dt_rules = [], dt_originals = [], dt_views = [], dt_tables = []\<rparr>"

definition count_up :: "string \<Rightarrow> counter \<Rightarrow> counter" where
  "count_up t d = (case map_of d t of Some n \<Rightarrow> AList.update t (n + 1) d | None \<Rightarrow> AList.update t 1 d)"

definition count_down :: "string \<Rightarrow> counter \<Rightarrow> counter" where
  "count_down t d =
     (case map_of d t of
        Some n \<Rightarrow> if n - 1 = 0 then AList.delete t d else AList.update t (n - 1) d
      | None \<Rightarrow> d)"

definition insert_delta :: "delta_rule \<Rightarrow> delta_theory \<Rightarrow> delta_theory" where
  "insert_delta d th =
     (let k = tbl (table (trigger d)) in
      th\<lparr>dt_views := count_up (tbl (table (delta_head d))) (dt_views th),
         dt_tables := fold count_up (delta_tablenames False d) (dt_tables th),
         dt_rules := AList.update k
           (snd (oset_add delta_key d (case map_of (dt_rules th) k of None \<Rightarrow> oset_empty | Some s \<Rightarrow> s))) (dt_rules th)\<rparr>)"

definition delete_delta :: "delta_rule \<Rightarrow> (delta_theory, unit) stm" where
  "delete_delta d th =
     (let k = tbl (table (trigger d));
          th = th\<lparr>dt_views := count_down (tbl (table (delta_head d))) (dt_views th),
                  dt_tables := fold count_down (delta_tablenames False d) (dt_tables th)\<rparr>
      in case map_of (dt_rules th) k of
           None \<Rightarrow> (Inl KeyError, th)
         | Some s \<Rightarrow>
             (let s = snd (oset_discard delta_key d s)
              in (Inr (), th\<lparr>dt_rules := if oset_len s = 0 then AList.delete k (dt_rules th) else AList.update k s (dt_rules th)\<rparr>)))"

text \<open>One delta rule for each literal of the reordered body that is no builtin.\<close>

definition rule_deltas :: "'c registry \<Rightarrow> rule \<Rightarrow> delta_rule list res" where
  "rule_deltas R r =
     rbind (reorder_for_safety R r) (\<lambda>r.
       Inr (map (\<lambda>(i, l). mk_delta R l (rule_head r) (take i (body r) @ drop (i + 1) (body r)) r)
         (filter (\<lambda>(i, l). \<not> lit_is_builtin R l) (enumerate 0 (body r)))))"

definition compute_delta_rules :: "'c registry \<Rightarrow> rule list \<Rightarrow> delta_rule list res" where
  "compute_delta_rules R rs = rbind (map_res (rule_deltas R) rs) (\<lambda>ds. Inr (concat ds))"

text \<open>
  \<open>reorder_for_safety\<close> changes the body of its argument in place, so the rule that is handed to
  \<open>compute_delta_rules\<close> has its body ordered afterwards: in the set of original rules, in the event,
  and in what the caller does with the rule next.
\<close>

definition ordered :: "'c registry \<Rightarrow> rule \<Rightarrow> rule" where
  "ordered R r = (case reorder_for_safety R r of Inl _ \<Rightarrow> r | Inr r' \<Rightarrow> r')"

definition is_original :: "rule \<Rightarrow> delta_theory \<Rightarrow> bool" where
  "is_original r th = list_ex (rule_eq r) (dt_originals th)"

definition dt_insert :: "'c registry \<Rightarrow> rule \<Rightarrow> (delta_theory, bool) stm" where
  "dt_insert R r th =
     (if \<not> is_regular_rule (FRule r) then (Inl AssertionError, th)
      else if is_original r th then (Inr False, th)
      else (case compute_delta_rules R [r] of
         Inl e \<Rightarrow> (Inl e, th)
       | Inr ds \<Rightarrow> (let th = fold insert_delta ds th in (Inr True, th\<lparr>dt_originals := dt_originals th @ [ordered R r]\<rparr>))))"

definition dt_delete :: "'c registry \<Rightarrow> rule \<Rightarrow> (delta_theory, bool) stm" where
  "dt_delete R r th =
     (if \<not> is_original r th then (Inr False, th)
      else (case compute_delta_rules R [r] of
         Inl e \<Rightarrow> (Inl e, th)
       | Inr ds \<Rightarrow> sbind (for_st (\<lambda>d _. delete_delta d) ds ())
           (\<lambda>_ th. (Inr True, th\<lparr>dt_originals := filter (\<lambda>s. \<not> rule_eq r s) (dt_originals th)\<rparr>)) th))"

definition dt_modify :: "'c registry \<Rightarrow> db_event \<Rightarrow> rule \<Rightarrow> (delta_theory, db_event list) stm" where
  "dt_modify R e r =
     sbind (if is_insert e then dt_insert R r else dt_delete R r) (\<lambda>changed. sret (if changed then [e\<lparr>formula := FRule (ordered R r)\<rparr>] else []))"

definition rules_with_trigger :: "string \<Rightarrow> delta_theory \<Rightarrow> delta_rule list" where
  "rules_with_trigger t th = (case map_of (dt_rules th) t of None \<Rightarrow> [] | Some s \<Rightarrow> oset_list s)"

definition is_view :: "string \<Rightarrow> delta_theory \<Rightarrow> bool" where
  "is_view t th = (map_of (dt_views th) t \<noteq> None)"

definition is_known :: "string \<Rightarrow> delta_theory \<Rightarrow> bool" where
  "is_known t th = (map_of (dt_tables th) t \<noteq> None)"

definition base_tables :: "delta_theory \<Rightarrow> string list" where
  "base_tables th = filter (\<lambda>t. \<not> is_view t th) (dkeys (dt_tables th))"

definition dt_arity :: "string \<Rightarrow> delta_theory \<Rightarrow> nat option" where
  "dt_arity t th =
     map_option (\<lambda>r. length (arguments (rule_head r))) (find (\<lambda>r. tbl (table (rule_head r)) = t) (dt_originals th))"

fun dt_contains :: "formula \<Rightarrow> delta_theory \<Rightarrow> bool" where
  "dt_contains (FRule r) th = is_original r th"
| "dt_contains _ th = False"

section \<open>Self-joins\<close>

text \<open>
  A table that occurs more than once in a body is replaced by copies of itself. The code renames
  the tables of the rule in place; here the renamed rule is returned.
\<close>

definition new_table_name :: "string \<Rightarrow> nat \<Rightarrow> nat \<Rightarrow> string" where
  "new_table_name name arity index = ''___'' @ name @ ''_'' @ nat_str arity @ ''_'' @ nat_str index"

type_synonym occurrences = "(string \<times> nat, nat) dict"

definition rename_occurrence ::
    "literal \<Rightarrow> literal list \<times> occurrences \<times> occurrences \<Rightarrow> literal list \<times> occurrences \<times> occurrences" where
  "rename_occurrence l = (\<lambda>(ls, occ, global).
     (let ta = (lit_tablename None l, length (arguments l)) in
      case map_of occ ta of
        None \<Rightarrow> (ls @ [l], AList.update ta 1 occ, global)
      | Some n \<Rightarrow>
          (ls @ [l\<lparr>table := (table l)\<lparr>tbl := new_table_name (fst ta) (snd ta) n\<rparr>\<rparr>],
           AList.update ta (n + 1) occ,
           AList.update ta (case map_of global ta of None \<Rightarrow> 1 | Some m \<Rightarrow> max n m) global)))"

definition copy_rule :: "string \<Rightarrow> nat \<Rightarrow> nat \<Rightarrow> rule" where
  "copy_rule t arity i =
     (let args = map (\<lambda>j. Variable (''x'' @ nat_str j)) [0..<arity] in
      \<lparr>heads = [mk_literal (create_from_tablename (new_table_name t arity i) None True) args False []],
       body = [mk_literal (create_from_tablename t None True) args False []]\<rparr>)"

definition eliminate_self_joins :: "rule list \<Rightarrow> rule list" where
  "eliminate_self_joins rs =
     (let (results, global) = fold (\<lambda>r (results, global).
          (let (ls, _, global) = fold rename_occurrence (body r) ([], [], global)
           in (results @ [r\<lparr>body := ls\<rparr>], global))) rs ([], [])
      in results @ concat (map (\<lambda>((t, arity), n). map (copy_rule t arity) [1..<n + 1]) global))"

section \<open>The theory\<close>

record mview =
  mv_db :: database
  mv_delta :: delta_theory
  mv_queue :: "db_event list"

definition mv_new :: mview where
  "mv_new = \<lparr>mv_db = [], mv_delta = dt_empty, mv_queue = []\<rparr>"

type_synonym mv_state = "mview \<times> world"

definition mv_get :: "(mview \<Rightarrow> 'a) \<Rightarrow> (mv_state, 'a) stm" where
  "mv_get f s = (Inr (f (fst s)), s)"

definition enqueue :: "db_event \<Rightarrow> (mv_state, unit) stm" where
  "enqueue e s = (Inr (), ((fst s)\<lparr>mv_queue := mv_queue (fst s) @ [e]\<rparr>, snd s))"

definition on_delta :: "(delta_theory, 'a) stm \<Rightarrow> (mv_state, 'a) stm" where
  "on_delta f s = (case f (mv_delta (fst s)) of (r, th) \<Rightarrow> (r, ((fst s)\<lparr>mv_delta := th\<rparr>, snd s)))"

definition on_db :: "(database, 'a) stm \<Rightarrow> (mv_state, 'a) stm" where
  "on_db f s = (case f (mv_db (fst s)) of (r, db) \<Rightarrow> (r, ((fst s)\<lparr>mv_db := db\<rparr>, snd s)))"

text \<open>The policy's own tuples are those of \<open>mv_db\<close>; \<open>dbs\<close> are those of other policies.\<close>

definition mv_evaluate ::
    "nat \<Rightarrow> 'c env \<Rightarrow> (string, database) dict \<Rightarrow> string \<Rightarrow> trm list \<Rightarrow> literal list \<Rightarrow> uid \<Rightarrow> uheap \<Rightarrow> bool \<Rightarrow>
     (mv_state, (trm, trm) dict list) stm" where
  "mv_evaluate k E dbs name vars lits u h all s =
     (case evaluation_from k E (AList.update name (mv_db (fst s)) dbs) name vars lits u h all (snd s) of
        (r, w) \<Rightarrow> (r, (fst s, w)))"

definition enqueue_any :: "db_event \<Rightarrow> (mv_state, unit) stm" where
  "enqueue_any e =
     (case formula e of
        FLit l \<Rightarrow> sbind (mv_get mv_delta) (\<lambda>th. if is_view (tbl (table l)) th then sraise AssertionError else enqueue e)
      | FRule r \<Rightarrow> for_st (\<lambda>r' _. enqueue \<lparr>formula = FRule r', is_insert = is_insert e, target = target e, proofs = []\<rparr>)
          (eliminate_self_joins [r]) ()
      | FFact _ \<Rightarrow> sraise AttributeError)"

text \<open>The bindings are grouped by the atom they give; the groups are in the order of their first binding.\<close>

definition group_bindings :: "literal \<Rightarrow> rule \<Rightarrow> (trm, trm) dict list \<Rightarrow> (literal, db_proof list) dict" where
  "group_bindings l orig bindings =
     fold (\<lambda>b d. AList.update (lit_plug b l)
         ((case map_of d (lit_plug b l) of None \<Rightarrow> [] | Some ps \<Rightarrow> ps) @ [\<lparr>pbinding = b, prule = orig\<rparr>]) d) bindings []"

definition process_new_bindings :: "(trm, trm) dict list \<Rightarrow> literal \<Rightarrow> bool \<Rightarrow> rule \<Rightarrow> (mv_state, unit) stm" where
  "process_new_bindings bindings l ins orig =
     for_st (\<lambda>(a, ps) _. enqueue (db_event_of ins (FLit a) ps)) (group_bindings l orig bindings) ()"

definition propagate_rule ::
    "nat \<Rightarrow> 'c env \<Rightarrow> (string, database) dict \<Rightarrow> string \<Rightarrow> literal \<Rightarrow> bool \<Rightarrow> delta_rule \<Rightarrow> (mv_state, unit) stm" where
  "propagate_rule k E dbs name l ins d =
     (let (u, h) = new_unifier []; (u', h) = new_unifier h in
      case bi_unify_atoms (Some name) (trigger d) u l u' h of
        Inl e \<Rightarrow> sraise e
      | Inr (None, _) \<Rightarrow> sret ()
      | Inr (Some _, h) \<Rightarrow>
          sbind (mv_evaluate k E dbs name (delta_variables d) (delta_body d) u h True) (\<lambda>bindings.
            process_new_bindings bindings (delta_head d) (if negated (trigger d) then \<not> ins else ins) (original d)))"

definition propagate :: "nat \<Rightarrow> 'c env \<Rightarrow> (string, database) dict \<Rightarrow> string \<Rightarrow> literal \<Rightarrow> bool \<Rightarrow> (mv_state, unit) stm" where
  "propagate k E dbs name l ins =
     sbind (mv_get (\<lambda>v. rules_with_trigger (tbl (table l)) (mv_delta v))) (\<lambda>ds.
       for_st (\<lambda>d _. propagate_rule k E dbs name l ins d) ds ())"

definition process_event ::
    "nat \<Rightarrow> 'c env \<Rightarrow> (string, database) dict \<Rightarrow> string \<Rightarrow> db_event \<Rightarrow> (mv_state, db_event list) stm" where
  "process_event k E dbs name e =
     (case formula e of
        FRule r \<Rightarrow>
          if \<not> is_regular_rule (FRule r) then sraise AttributeError
          else sbind (on_delta (dt_modify (registry_of E) e r)) (\<lambda>changes.
            if changes = [] then sret []
            else (let r = ordered (registry_of E) r; (u, h) = new_unifier [] in
              sbind (mv_evaluate k E dbs name (rule_variables r) (body r) u h True) (\<lambda>bindings.
              sbind (process_new_bindings bindings (rule_head r) (is_insert e) r) (\<lambda>_. sret changes))))
      | FLit l \<Rightarrow> sbind (propagate k E dbs name l (is_insert e)) (\<lambda>_. on_db (db_modify e))
      | FFact _ \<Rightarrow> sraise AttributeError)"

fun process_queue ::
    "nat \<Rightarrow> nat \<Rightarrow> 'c env \<Rightarrow> (string, database) dict \<Rightarrow> string \<Rightarrow> db_event list \<Rightarrow> (mv_state, db_event list) stm" where
  "process_queue n k E dbs name history s =
     (case mv_queue (fst s) of
        [] \<Rightarrow> (Inr history, s)
      | e # rest \<Rightarrow>
          (case n of
             0 \<Rightarrow> (Inl OutOfFuel, s)
           | Suc n \<Rightarrow> sbind (process_event k E dbs name e)
               (\<lambda>chs. process_queue n k E dbs name (history @ chs)) ((fst s)\<lparr>mv_queue := rest\<rparr>, snd s)))"

definition mv_update ::
    "nat \<Rightarrow> nat \<Rightarrow> 'c env \<Rightarrow> (string, database) dict \<Rightarrow> string \<Rightarrow> db_event list \<Rightarrow> (mv_state, db_event list) stm" where
  "mv_update n k E dbs name es =
     sbind (for_st (\<lambda>e _. if \<not> is_datalog (formula e) then sraise AssertionError else enqueue_any e) es ())
       (\<lambda>_. process_queue n k E dbs name [])"

definition mv_insert ::
    "nat \<Rightarrow> nat \<Rightarrow> 'c env \<Rightarrow> (string, database) dict \<Rightarrow> string \<Rightarrow> formula \<Rightarrow> (mv_state, db_event list) stm" where
  "mv_insert n k E dbs name f = mv_update n k E dbs name [db_event_of True f []]"

definition mv_delete ::
    "nat \<Rightarrow> nat \<Rightarrow> 'c env \<Rightarrow> (string, database) dict \<Rightarrow> string \<Rightarrow> formula \<Rightarrow> (mv_state, db_event list) stm" where
  "mv_delete n k E dbs name f = mv_update n k E dbs name [db_event_of False f []]"

definition mv_modify ::
    "nat \<Rightarrow> nat \<Rightarrow> 'c env \<Rightarrow> (string, database) dict \<Rightarrow> string \<Rightarrow> db_event \<Rightarrow> (mv_state, db_event list) stm" where
  "mv_modify n k E dbs name e = sbind (enqueue_any e) (\<lambda>_. process_queue n k E dbs name [])"

definition mv_update_errors :: "'c registry \<Rightarrow> theories \<Rightarrow> string \<Rightarrow> formula list \<Rightarrow> exc list res" where
  "mv_update_errors R ths name fs =
     for_res (\<lambda>f errors.
         if \<not> is_datalog f then Inl AssertionError
         else (case f of
             FLit l \<Rightarrow> rbind (fact_errors R ths (Some name) l) (\<lambda>es. Inr (errors @ es))
           | FRule r \<Rightarrow> rbind (rule_errors R ths (Some name) r) (\<lambda>es. Inr (errors @ es))
           | FFact _ \<Rightarrow> Inl AttributeError)) fs []"

definition mv_arity :: "string \<Rightarrow> mview \<Rightarrow> nat option" where
  "mv_arity t v = (case db_arity t (mv_db v) of Some (Suc n) \<Rightarrow> Some (Suc n) | _ \<Rightarrow> dt_arity t (mv_delta v))"

definition mv_contains :: "formula \<Rightarrow> mview \<Rightarrow> bool" where
  "mv_contains f v = (db_contains f (mv_db v) \<or> dt_contains f (mv_delta v))"

text \<open>\<open>explain\<close>: a proof tree, from the first proof of each tuple.\<close>

datatype proof_tree = ProofTree literal "proof_tree list"

fun leaves :: "proof_tree \<Rightarrow> literal list" where
  "leaves (ProofTree l ts) = (if ts = [] then [l] else concat (map leaves ts))"

fun explain_aux :: "nat \<Rightarrow> database \<Rightarrow> literal \<Rightarrow> proof_tree option res" where
  "explain_aux 0 db l = Inl OutOfFuel"
| "explain_aux (Suc n) db l =
     (if negated l then Inr (Some (ProofTree l []))
      else (case db_explain l db of
         None \<Rightarrow> Inr None
       | Some [] \<Rightarrow> Inr (Some (ProofTree l []))
       | Some (p # _) \<Rightarrow>
           rbind (for_res (\<lambda>b acc.
               case acc of
                 None \<Rightarrow> Inr None
               | Some ts \<Rightarrow> rbind (explain_aux n db b) (\<lambda>t. Inr (map_option (\<lambda>t. ts @ [t]) t)))
               (body (rule_plug (pbinding p) (prule p))) (Some []))
             (\<lambda>ts. Inr (map_option (ProofTree l) ts))))"

definition mv_explain :: "nat \<Rightarrow> formula \<Rightarrow> mview \<Rightarrow> proof_tree list option res" where
  "mv_explain n f v =
     (case f of
        FLit l \<Rightarrow> if negated l then Inl AssertionError
          else rbind (explain_aux n (mv_db v) l) (\<lambda>t. Inr (map_option (\<lambda>t. [t]) t))
      | _ \<Rightarrow> Inl AssertionError)"

end
