(* ===== verification/Delta_Rules.thy ===== *)
theory Delta_Rules
  imports Materialized
begin

text \<open>
  The bookkeeping of delta rules: which tables are views, which are known, and which delta rules
  a table triggers follow from the set of rules that were inserted and not deleted. Elimination
  of self-joins leaves no table twice in a body.
\<close>

declare map_of_eq_Some_iff [simp del] Some_eq_map_of_iff [simp del]

section \<open>Counters\<close>

text \<open>A counter represents the multiset of the names it counts.\<close>

definition counter_rep :: "counter \<Rightarrow> string multiset \<Rightarrow> bool" where
  "counter_rep c M = (\<forall>t. map_of c t = (if t \<in># M then Some (int (count M t)) else None))"

lemma count_up_rep: "counter_rep c M \<Longrightarrow> counter_rep (count_up t c) (add_mset t M)"
  by (auto simp: counter_rep_def count_up_def not_in_iff)

lemma count_down_rep:
  assumes "counter_rep c M" "t \<in># M" shows "counter_rep (count_down t c) (M - {#t#})"
proof -
  obtain N where M: "M = add_mset t N" using assms(2) by (metis insert_DiffM)
  then have c: "map_of c t = Some (int (count N t) + 1)" "map_of c s = (if s \<in># N then Some (int (count N s)) else None)" if "s \<noteq> t" for s
    using assms(1) that by (auto simp: counter_rep_def)
  show ?thesis
  proof (cases "t \<in># N")
    case True
    then show ?thesis using assms(1) by (auto simp: counter_rep_def count_down_def M)
  next
    case False
    then show ?thesis using assms(1) by (auto simp: counter_rep_def count_down_def M not_in_iff)
  qed
qed

lemma count_up_list: "counter_rep c M \<Longrightarrow> counter_rep (fold count_up ts c) (M + mset ts)"
proof (induction ts arbitrary: c M)
  case (Cons t ts)
  from Cons.IH [OF count_up_rep [OF Cons.prems]] show ?case by simp
qed simp

lemma count_down_list: "counter_rep c M \<Longrightarrow> mset ts \<subseteq># M \<Longrightarrow> counter_rep (fold count_down ts c) (M - mset ts)"
proof (induction ts arbitrary: c M)
  case (Cons t ts)
  have t: "t \<in># M" "mset ts \<subseteq># M - {#t#}" using Cons.prems(2) by (simp_all add: insert_subset_eq_iff)
  have "counter_rep (fold count_down ts (count_down t c)) (M - {#t#} - mset ts)"
    by (rule Cons.IH [OF count_down_rep [OF Cons.prems(1) t(1)] t(2)])
  then show ?case by simp
qed simp

section \<open>The delta rules of a rule\<close>

type_synonym dkey = "literal \<times> literal \<times> literal list"

definition delta_sort :: "'c registry \<Rightarrow> literal list \<Rightarrow> literal list" where
  "delta_sort R ls = sorted_by literal_lt (filter (\<lambda>l. \<not> lit_is_builtin R l) ls) @ sorted_by literal_lt (filter (lit_is_builtin R) ls)"

lemma delta_sort_cong:
  assumes "mset xs = mset ys" "named_free xs" shows "delta_sort R xs = delta_sort R ys"
proof -
  have n: "named_free (filter P zs)" if "named_free zs" for P zs
    using that by (simp add: named_free_def list_all_iff)
  have "named_free ys" using assms by (metis list_all_iff named_free_def mset_eq_setD)
  moreover have "mset (filter P xs) = mset (filter P ys)" for P using assms(1) by (simp add: mset_filter)
  ultimately have "sorted_by literal_lt (filter P xs) = sorted_by literal_lt (filter P ys)" for P
    using sorted_literals_eq [of "filter P xs" "filter P ys"] n assms(2) by blast
  then show ?thesis by (simp only: delta_sort_def)
qed

lemma mset_delta_sort: "mset (delta_sort R ls) = mset ls"
  by (simp add: delta_sort_def)

definition rule_keys :: "'c registry \<Rightarrow> rule \<Rightarrow> dkey multiset" where
  "rule_keys R r = {#(l, rule_head r, delta_sort R (remove1 l (body r))). l \<in># filter_mset (\<lambda>l. \<not> lit_is_builtin R l) (mset (body r))#}"

lemma mset_without: "i < length xs \<Longrightarrow> mset (take i xs @ drop (i + 1) xs) = mset (remove1 (xs ! i) xs)"
proof -
  assume i: "i < length xs"
  have "mset xs = mset (take i xs @ xs ! i # drop (i + 1) xs)" using i by (metis Suc_eq_plus1 id_take_nth_drop)
  then show ?thesis by simp
qed

lemma enumerated_keys:
  assumes "named_free b"
  shows "mset (map (\<lambda>(i, l). delta_key (mk_delta R l h (take i b @ drop (i + 1) b) r)) (filter (\<lambda>(i, l). \<not> lit_is_builtin R l) (enumerate 0 b)))
    = {#(l, h, delta_sort R (remove1 l b)). l \<in># filter_mset (\<lambda>l. \<not> lit_is_builtin R l) (mset b)#}"
proof -
  have key: "delta_key (mk_delta R (b ! i) h (take i b @ drop (i + 1) b) r) = (b ! i, h, delta_sort R (remove1 (b ! i) b))"
    if "i < length b" for i
  proof -
    have "named_free (take i b @ drop (i + 1) b)"
      using assms by (auto simp: named_free_def list_all_iff dest: in_set_takeD in_set_dropD)
    then show ?thesis using delta_sort_cong [OF mset_without [OF that]] by (simp add: delta_key_def mk_delta_def delta_sort_def)
  qed
  have en: "(i, l) \<in> set (enumerate 0 b) \<Longrightarrow> i < length b \<and> l = b ! i" for i l
    by (auto simp: in_set_enumerate_eq)
  have "map (\<lambda>(i, l). delta_key (mk_delta R l h (take i b @ drop (i + 1) b) r)) (filter (\<lambda>(i, l). \<not> lit_is_builtin R l) (enumerate 0 b))
      = map (\<lambda>(i, l). (l, h, delta_sort R (remove1 l b))) (filter (\<lambda>(i, l). \<not> lit_is_builtin R l) (enumerate 0 b))"
    using key en by (intro map_cong refl) fastforce
  also have "\<dots> = map (\<lambda>l. (l, h, delta_sort R (remove1 l b))) (map snd (filter (\<lambda>(i, l). \<not> lit_is_builtin R l) (enumerate 0 b)))"
    by (simp add: split_beta)
  also have "map snd (filter (\<lambda>(i, l). \<not> lit_is_builtin R l) (enumerate 0 b)) = filter (\<lambda>l. \<not> lit_is_builtin R l) b"
  proof -
    have "map snd (filter (\<lambda>(i, l). P l) (enumerate n b)) = filter P b" for P n
      by (induction b arbitrary: n) auto
    then show ?thesis .
  qed
  finally show ?thesis by (simp add: mset_filter)
qed

lemma rule_keys_perm:
  assumes "mset b' = mset (body r)" "named_free (body r)"
  shows "{#(l, rule_head r, delta_sort R (remove1 l b')). l \<in># filter_mset (\<lambda>l. \<not> lit_is_builtin R l) (mset b')#} = rule_keys R r"
proof -
  have "delta_sort R (remove1 l b') = delta_sort R (remove1 l (body r))" for l
  proof (rule delta_sort_cong)
    show "mset (remove1 l b') = mset (remove1 l (body r))" using assms(1) by simp
    show "named_free (remove1 l b')"
      using assms by (auto simp: named_free_def list_all_iff dest: notin_set_remove1 mset_eq_setD)
  qed
  then show ?thesis by (simp add: rule_keys_def assms(1))
qed

text \<open>The rules the theory is meant for.\<close>

definition delta_rule_ok :: "rule \<Rightarrow> bool" where
  "delta_rule_ok r = (is_regular_rule (FRule r) \<and> named_free (heads r) \<and> named_free (body r) \<and> distinct (body r))"

definition orderable :: "'c registry \<Rightarrow> rule \<Rightarrow> bool" where
  "orderable R r = (\<exists>ls. mset ls = mset (body r) \<and> safe_order R {} ls)"

lemma rule_deltas_ok:
  assumes "delta_rule_ok r"
  shows "if orderable R r then \<exists>ds. rule_deltas R r = Inr ds \<and> mset (map delta_key ds) = rule_keys R r
    else rule_deltas R r = Inl PolicyException"
proof -
  have r: "is_rule (FRule r)" using assms by (simp add: delta_rule_ok_def)
  show ?thesis
  proof (cases "reorder_for_safety R r")
    case (Inl e)
    with reorder_ok [OF r, of R] show ?thesis by (simp add: rule_deltas_def orderable_def)
  next
    case (Inr r')
    then have r': "r' = r\<lparr>body := body r'\<rparr>" "mset (body r') = mset (body r)" "safe_order R {} (body r')"
      using reorder_ok [OF r, of R] by simp_all
    have "orderable R r" using r'(2,3) by (auto simp: orderable_def)
    have n: "named_free (body r)" "named_free (body r')"
      using assms r'(2) by (auto simp: delta_rule_ok_def named_free_def list_all_iff dest: mset_eq_setD)
    let ?ds = "map (\<lambda>(i, l). mk_delta R l (rule_head r') (take i (body r') @ drop (i + 1) (body r')) r')
         (filter (\<lambda>(i, l). \<not> lit_is_builtin R l) (enumerate 0 (body r')))"
    have "rule_head r' = rule_head r" using r'(1) by (metis rule.select_convs(1) rule.surjective rule.update_convs(2))
    then have "mset (map delta_key ?ds) = rule_keys R r"
      using enumerated_keys [OF n(2), of R "rule_head r'" r'] rule_keys_perm [OF r'(2) n(1), of R]
      by (simp add: comp_def case_prod_unfold)
    moreover have "rule_deltas R r = Inr ?ds" by (simp add: rule_deltas_def Inr)
    ultimately have "\<exists>ds. rule_deltas R r = Inr ds \<and> mset (map delta_key ds) = rule_keys R r" by blast
    then show ?thesis by (subst if_P [OF \<open>orderable R r\<close>])
  qed
qed

lemma rule_keys_inter:
  assumes "delta_rule_ok r" "delta_rule_ok s" "x \<in># rule_keys R r" "x \<in># rule_keys R s"
  shows "rule_eq r s"
proof -
  obtain l h ls where x: "x = (l, h, ls)" by (cases x)
  have b: "mset (body t) = add_mset l (mset ls) \<and> rule_head t = h" if "x \<in># rule_keys R t" for t
    using that by (auto simp: rule_keys_def x mset_delta_sort)
  obtain h1 h2 where h: "heads r = [h1]" "heads s = [h2]"
    using assms(1,2) by (auto simp: delta_rule_ok_def length_Suc_conv)
  have "mset (body r) = mset (body s)" "h1 = h2" using b [OF assms(3)] b [OF assms(4)] h by auto
  then have "sorted_by literal_lt (body r) = sorted_by literal_lt (body s)"
    using sorted_literals_eq assms(1,2) by (simp add: delta_rule_ok_def)
  with h \<open>h1 = h2\<close> show ?thesis by (auto simp: rule_eq_key rule_key_def)
qed

lemma rule_keys_eq:
  assumes "delta_rule_ok r" "delta_rule_ok s" "rule_eq r s"
  shows "rule_keys R r = rule_keys R s"
proof -
  have "mset (body s) = mset (body r)"
    using assms sorted_literals_eq [of "body r" "body s"] by (simp add: rule_eq_def delta_rule_ok_def)
  moreover obtain h1 h2 where h: "heads r = [h1]" "heads s = [h2]"
    using assms(1,2) by (auto simp: delta_rule_ok_def length_Suc_conv)
  then have "rule_head r = rule_head s" using assms(3) by (simp add: rule_eq_def)
  ultimately show ?thesis
    using rule_keys_perm [of "body s" r R] assms(1) by (simp add: rule_keys_def delta_rule_ok_def)
qed

lemma rule_keys_once: "delta_rule_ok r \<Longrightarrow> count (rule_keys R r) x \<le> 1"
proof -
  assume r: "delta_rule_ok r"
  obtain l h ls where x: "x = (l, h, ls)" by (cases x)
  have "count (rule_keys R r) x \<le> count (image_mset fst (rule_keys R r)) l"
    by (simp add: x count_image_mset) (metis (no_types, lifting) count_inI finite_set_mset finite_vimageI le0 member_le_sum not_in_iff vimage_singleton_eq IntI finite_Int fst_conv)
  also have "image_mset fst (rule_keys R r) = filter_mset (\<lambda>l. \<not> lit_is_builtin R l) (mset (body r))"
    by (simp add: rule_keys_def multiset.map_comp comp_def)
  also have "count \<dots> l \<le> count (mset (body r)) l" by simp
  also have "\<dots> \<le> 1" using r by (simp add: delta_rule_ok_def distinct_count_atmost_1)
  finally show ?thesis .
qed

section \<open>What the theory holds\<close>

definition head_table :: "dkey \<Rightarrow> string" where
  "head_table x = tbl (table (fst (snd x)))"

definition trigger_table :: "dkey \<Rightarrow> string" where
  "trigger_table x = tbl (table (fst x))"

fun key_tables :: "dkey \<Rightarrow> string list" where
  "key_tables (l, h, ls) = fold (\<lambda>l ts. set_add (lit_tablename None l) ts) ls (set_add (lit_tablename None l) [lit_tablename None h])"

lemma delta_key_facts:
  "tbl (table (delta_head d)) = head_table (delta_key d)" "tbl (table (trigger d)) = trigger_table (delta_key d)"
  "delta_tablenames False d = key_tables (delta_key d)"
  by (simp_all add: head_table_def trigger_table_def delta_key_def delta_tablenames_def)

definition delta_index_rep :: "(string, (dkey, delta_rule) oset) dict \<Rightarrow> dkey multiset \<Rightarrow> bool" where
  "delta_index_rep d K = (\<forall>k. case map_of d k of
       None \<Rightarrow> \<forall>x \<in># K. trigger_table x \<noteq> k
     | Some s \<Rightarrow> oset_ok delta_key s \<and> oset_list s \<noteq> [] \<and> delta_key ` set (oset_list s) = {x. x \<in># K \<and> trigger_table x = k})"

definition keys_rep :: "delta_theory \<Rightarrow> dkey multiset \<Rightarrow> bool" where
  "keys_rep th K = (counter_rep (dt_views th) (image_mset head_table K) \<and>
     counter_rep (dt_tables th) (\<Sum>\<^sub># (image_mset (\<lambda>x. mset (key_tables x)) K)) \<and> delta_index_rep (dt_rules th) K)"

lemma index_at: "delta_index_rep d K \<Longrightarrow> map_of d k = None \<Longrightarrow> x \<in># K \<Longrightarrow> trigger_table x \<noteq> k"
  by (auto simp: delta_index_rep_def dest!: spec [of _ k])

lemma index_at_Some:
  assumes "delta_index_rep d K" "map_of d k = Some s"
  shows "oset_ok delta_key s \<and> oset_list s \<noteq> [] \<and> delta_key ` set (oset_list s) = {x. x \<in># K \<and> trigger_table x = k}"
  using spec [OF assms(1) [unfolded delta_index_rep_def], of k] assms(2) by simp

lemma insert_delta_rep:
  assumes K: "keys_rep th K" and new: "delta_key d \<notin># K"
  shows "keys_rep (insert_delta d th) (add_mset (delta_key d) K)" "dt_originals (insert_delta d th) = dt_originals th"
proof -
  let ?k = "trigger_table (delta_key d)"
  let ?s = "case map_of (dt_rules th) ?k of None \<Rightarrow> oset_empty | Some s \<Rightarrow> s"
  have idx: "delta_index_rep (dt_rules th) K" using K by (simp add: keys_rep_def)
  have s: "oset_ok delta_key ?s" "delta_key ` set (oset_list ?s) = {x. x \<in># K \<and> trigger_table x = ?k}"
    using index_at [OF idx] index_at_Some [OF idx] by (auto simp: os.invar_empty os.list_empty split: option.split)
  have "\<not> oset_contains delta_key d ?s" using new s by (simp add: os.contains_iff)
  then have add: "oset_ok delta_key (snd (oset_add delta_key d ?s))" "oset_list (snd (oset_add delta_key d ?s)) = oset_list ?s @ [d]"
    using os.list_add [OF s(1), of d] os.invar_add [OF s(1), of d] by simp_all
  have "delta_index_rep (AList.update ?k (snd (oset_add delta_key d ?s)) (dt_rules th)) (add_mset (delta_key d) K)"
    unfolding delta_index_rep_def
  proof
    fix k
    show "case map_of (AList.update ?k (snd (oset_add delta_key d ?s)) (dt_rules th)) k of
        None \<Rightarrow> \<forall>x \<in># add_mset (delta_key d) K. trigger_table x \<noteq> k
      | Some s \<Rightarrow> oset_ok delta_key s \<and> oset_list s \<noteq> [] \<and>
          delta_key ` set (oset_list s) = {x. x \<in># add_mset (delta_key d) K \<and> trigger_table x = k}"
    proof (cases "k = ?k")
      case True
      have "delta_key ` set (oset_list ?s @ [d]) = {x. x \<in># add_mset (delta_key d) K \<and> trigger_table x = ?k}"
        unfolding set_append image_Un s(2) by auto
      then show ?thesis using True add by simp
    next
      case False
      then show ?thesis using idx by (auto simp: delta_index_rep_def dest!: spec [of _ k] split: option.splits)
    qed
  qed
  then show "keys_rep (insert_delta d th) (add_mset (delta_key d) K)"
    using K count_up_rep [of "dt_views th" "image_mset head_table K" "head_table (delta_key d)"]
      count_up_list [of "dt_tables th" "\<Sum>\<^sub># (image_mset (\<lambda>x. mset (key_tables x)) K)" "key_tables (delta_key d)"]
    by (simp add: keys_rep_def insert_delta_def delta_key_facts Let_def add.commute)
  show "dt_originals (insert_delta d th) = dt_originals th" by (simp add: insert_delta_def Let_def)
qed

lemma insert_deltas_rep:
  "keys_rep th K \<Longrightarrow> distinct (map delta_key ds) \<Longrightarrow> \<forall>d \<in> set ds. delta_key d \<notin># K \<Longrightarrow>
    keys_rep (fold insert_delta ds th) (K + mset (map delta_key ds)) \<and> dt_originals (fold insert_delta ds th) = dt_originals th"
proof (induction ds arbitrary: th K)
  case (Cons d ds)
  have "delta_key d \<notin># K" using Cons.prems(3) by simp
  note step = insert_delta_rep [OF Cons.prems(1) this]
  have "\<forall>e \<in> set ds. delta_key e \<noteq> delta_key d"
    using Cons.prems(2) by (metis distinct.simps(2) image_eqI list.set_map list.simps(9))
  then have "\<forall>e \<in> set ds. delta_key e \<notin># add_mset (delta_key d) K" using Cons.prems(3) by simp
  from Cons.IH [OF step(1) _ this] Cons.prems(2) step(2) show ?case by simp
qed simp

lemma delete_delta_rep:
  assumes K: "keys_rep th (add_mset (delta_key d) K)" and new: "delta_key d \<notin># K"
  shows "\<exists>th'. delete_delta d th = (Inr (), th') \<and> keys_rep th' K \<and> dt_originals th' = dt_originals th"
proof -
  let ?k = "trigger_table (delta_key d)"
  have idx: "delta_index_rep (dt_rules th) (add_mset (delta_key d) K)" using K by (simp add: keys_rep_def)
  obtain s where s: "map_of (dt_rules th) ?k = Some s"
    using index_at [OF idx, of ?k "delta_key d"] by (cases "map_of (dt_rules th) ?k") auto
  note S = index_at_Some [OF idx s]
  let ?s = "snd (oset_discard delta_key d s)"
  have ok: "oset_ok delta_key ?s" "oset_list ?s = filter (\<lambda>y. delta_key y \<noteq> delta_key d) (oset_list s)"
    using S os.invar_discard [of delta_key s d] os.list_discard [of delta_key s d] by simp_all
  have keys: "delta_key ` set (oset_list ?s) = {x. x \<in># K \<and> trigger_table x = ?k}"
  proof -
    have "delta_key ` set (oset_list ?s) = delta_key ` set (oset_list s) - {delta_key d}" unfolding ok(2) by auto
    also have "\<dots> = {x. x \<in># K \<and> trigger_table x = ?k}" using S new by auto
    finally show ?thesis .
  qed
  have len: "oset_len ?s = 0 \<longleftrightarrow> oset_list ?s = []" using os.len_list [OF ok(1)] by simp
  let ?rules = "if oset_len ?s = 0 then AList.delete ?k (dt_rules th) else AList.update ?k ?s (dt_rules th)"
  have "delta_index_rep ?rules K"
    unfolding delta_index_rep_def
  proof
    fix k
    show "case map_of ?rules k of None \<Rightarrow> \<forall>x \<in># K. trigger_table x \<noteq> k
      | Some s \<Rightarrow> oset_ok delta_key s \<and> oset_list s \<noteq> [] \<and> delta_key ` set (oset_list s) = {x. x \<in># K \<and> trigger_table x = k}"
    proof (cases "k = ?k")
      case True
      show ?thesis
      proof (cases "oset_list ?s = []")
        case empty: True
        then have "{x. x \<in># K \<and> trigger_table x = ?k} = {}" using keys by simp
        then show ?thesis using True empty len by auto
      next
        case False
        then show ?thesis using True len ok(1) keys by simp
      qed
    next
      case False
      then show ?thesis using idx by (auto simp: delta_index_rep_def dest!: spec [of _ k] split: option.splits)
    qed
  qed
  moreover have "counter_rep (count_down (head_table (delta_key d)) (dt_views th)) (image_mset head_table K)"
    using K count_down_rep [of "dt_views th" "image_mset head_table (add_mset (delta_key d) K)" "head_table (delta_key d)"]
    by (simp add: keys_rep_def)
  moreover have "counter_rep (fold count_down (key_tables (delta_key d)) (dt_tables th)) (\<Sum>\<^sub># (image_mset (\<lambda>x. mset (key_tables x)) K))"
    using K count_down_list [of "dt_tables th" "\<Sum>\<^sub># (image_mset (\<lambda>x. mset (key_tables x)) (add_mset (delta_key d) K))" "key_tables (delta_key d)"]
    by (simp add: keys_rep_def)
  ultimately show ?thesis
    by (cases "oset_len ?s = 0") (simp_all add: delete_delta_def delta_key_facts Let_def s keys_rep_def)
qed

lemma delete_deltas_rep:
  "keys_rep th (K + mset (map delta_key ds)) \<Longrightarrow> distinct (map delta_key ds) \<Longrightarrow> \<forall>d \<in> set ds. delta_key d \<notin># K \<Longrightarrow>
    \<exists>th'. for_st (\<lambda>d _. delete_delta d) ds () th = (Inr (), th') \<and> keys_rep th' K \<and> dt_originals th' = dt_originals th"
proof (induction ds arbitrary: th)
  case (Cons d ds)
  let ?K = "K + mset (map delta_key ds)"
  have "keys_rep th (add_mset (delta_key d) ?K)" "delta_key d \<notin># ?K" using Cons.prems by auto
  from delete_delta_rep [OF this]
  obtain th1 where th1: "delete_delta d th = (Inr (), th1)" "keys_rep th1 ?K" "dt_originals th1 = dt_originals th" by blast
  from Cons.IH [OF th1(2)] Cons.prems(2,3) th1(1,3) show ?case by (simp add: sbind_def)
qed (simp add: sret_def)


section \<open>Insertions and deletions of rules\<close>

definition all_keys :: "'c registry \<Rightarrow> rule list \<Rightarrow> dkey multiset" where
  "all_keys R rs = \<Sum>\<^sub># (image_mset (rule_keys R) (mset rs))"

definition dt_rep :: "'c registry \<Rightarrow> delta_theory \<Rightarrow> rule list \<Rightarrow> bool" where
  "dt_rep R th rs = (dt_originals th = rs \<and> list_all (\<lambda>r. delta_rule_ok r \<and> orderable R r) rs \<and>
     distinct (map rule_key rs) \<and> keys_rep th (all_keys R rs))"

lemma in_all_keys: "x \<in># all_keys R rs \<longleftrightarrow> (\<exists>r \<in> set rs. x \<in># rule_keys R r)"
  by (auto simp: all_keys_def)

lemma distinct_keys:
  assumes "delta_rule_ok r" "mset (map delta_key ds) = rule_keys R r" shows "distinct (map delta_key ds)"
  unfolding distinct_count_atmost_1
proof
  fix x
  have "count (mset (map delta_key ds)) x \<le> 1" unfolding assms(2) by (rule rule_keys_once [OF assms(1)])
  then show "count (mset (map delta_key ds)) x = (if x \<in> set (map delta_key ds) then 1 else 0)"
    by (metis One_nat_def count_greater_zero_iff le_Suc_eq le_zero_eq nat_less_le neq0_conv set_mset_mset)
qed

lemma is_original_iff: "is_original r th \<longleftrightarrow> rule_key r \<in> rule_key ` set (dt_originals th)"
  by (auto simp: is_original_def list_ex_iff rule_eq_key)

text \<open>The reference: a list of rules, no two of them equal, their bodies in a safe order.\<close>

datatype dt_op = DInsert rule | DDelete rule

fun dt_run :: "'c registry \<Rightarrow> dt_op \<Rightarrow> delta_theory \<Rightarrow> bool res \<times> delta_theory" where
  "dt_run R (DInsert r) th = dt_insert R r th"
| "dt_run R (DDelete r) th = dt_delete R r th"

fun dt_spec :: "'c registry \<Rightarrow> dt_op \<Rightarrow> rule list \<Rightarrow> bool res \<times> rule list" where
  "dt_spec R (DInsert r) rs =
     (if rule_key r \<in> rule_key ` set rs then (Inr False, rs)
      else if \<not> orderable R r then (Inl PolicyException, rs)
      else (Inr True, rs @ [ordered R r]))"
| "dt_spec R (DDelete r) rs =
     (if rule_key r \<in> rule_key ` set rs then (Inr True, filter (\<lambda>s. rule_key s \<noteq> rule_key r) rs) else (Inr False, rs))"

fun op_rule :: "dt_op \<Rightarrow> rule" where
  "op_rule (DInsert r) = r" | "op_rule (DDelete r) = r"

lemma compute_deltas_one:
  assumes "delta_rule_ok r"
  shows "if orderable R r then \<exists>ds. compute_delta_rules R [r] = Inr ds \<and> mset (map delta_key ds) = rule_keys R r
    else compute_delta_rules R [r] = Inl PolicyException"
  using rule_deltas_ok [OF assms, of R] by (auto simp: compute_delta_rules_def split: if_splits)

lemma orderable_eq:
  assumes "delta_rule_ok r" "delta_rule_ok s" "rule_key r = rule_key s" shows "orderable R r = orderable R s"
proof -
  have "mset (body r) = mset (body s)"
    using assms sorted_literals_eq [of "body r" "body s"] by (simp add: rule_key_def delta_rule_ok_def)
  then show ?thesis by (simp add: orderable_def)
qed

lemma ordered_ok:
  assumes "delta_rule_ok r" "orderable R r"
  shows "delta_rule_ok (ordered R r) \<and> orderable R (ordered R r) \<and> rule_key (ordered R r) = rule_key r \<and>
    rule_keys R (ordered R r) = rule_keys R r"
proof -
  have "is_rule (FRule r)" using assms(1) by (simp add: delta_rule_ok_def )
  from reorder_ok [OF this, of R] assms(2) obtain r' where r': "reorder_for_safety R r = Inr r'"
    "r' = r\<lparr>body := body r'\<rparr>" "mset (body r') = mset (body r)"
    by (auto simp: orderable_def split: sum.splits)
  then have o: "ordered R r = r\<lparr>body := body r'\<rparr>" by (simp add: ordered_def)
  have n: "named_free (body r)" "named_free (body r')" "set (body r') = set (body r)" "distinct (body r')"
    using assms(1) r'(3) mset_eq_setD [OF r'(3)] mset_eq_imp_distinct_iff [OF r'(3)]
    by (simp_all add: delta_rule_ok_def named_free_def list_all_iff)
  have ok: "delta_rule_ok (ordered R r)"
    using assms(1) n mset_eq_length [OF r'(3)] unfolding o by (auto simp: delta_rule_ok_def)
  have "rule_key (ordered R r) = rule_key r"
    using sorted_literals_eq [OF n(2,1)] r'(3) by (simp add: o rule_key_def)
  moreover have "orderable R (ordered R r)" using assms(2) r'(3) by (simp add: o orderable_def)
  ultimately show ?thesis using ok rule_keys_eq [OF ok assms(1), of R] by (simp add: rule_eq_key)
qed

lemma dt_insert_sim:
  assumes rep: "dt_rep R th rs" and ok: "delta_rule_ok r"
  shows "fst (dt_insert R r th) = fst (dt_spec R (DInsert r) rs) \<and> dt_rep R (snd (dt_insert R r th)) (snd (dt_spec R (DInsert r) rs))"
proof (cases "rule_key r \<in> rule_key ` set rs")
  case True
  then have "is_original r th" using rep by (simp add: is_original_iff dt_rep_def)
  then show ?thesis using True rep ok by (simp add: dt_insert_def delta_rule_ok_def)
next
  case new: False
  then have org: "\<not> is_original r th" using rep by (simp add: is_original_iff dt_rep_def)
  have reg: "is_regular_rule (FRule r)" using ok by (simp add: delta_rule_ok_def)
  show ?thesis
  proof (cases "orderable R r")
    case False
    with compute_deltas_one [OF ok, of R] new org reg rep show ?thesis by (simp add: dt_insert_def)
  next
    case True
    with compute_deltas_one [OF ok, of R] obtain ds
      where ds: "compute_delta_rules R [r] = Inr ds" "mset (map delta_key ds) = rule_keys R r" by auto
    have keys: "keys_rep th (all_keys R rs)" using rep by (simp add: dt_rep_def)
    have "\<forall>d \<in> set ds. delta_key d \<notin># all_keys R rs"
    proof
      fix d assume "d \<in> set ds"
      then have x: "delta_key d \<in># rule_keys R r" unfolding ds(2) [symmetric] by simp
      show "delta_key d \<notin># all_keys R rs"
      proof
        assume "delta_key d \<in># all_keys R rs"
        then obtain s where s: "s \<in> set rs" "delta_key d \<in># rule_keys R s" by (auto simp: in_all_keys)
        have "delta_rule_ok s" using rep s(1) by (auto simp: dt_rep_def list_all_iff)
        from rule_keys_inter [OF ok this x s(2)] s(1) new show False by (simp add: rule_eq_key)
      qed
    qed
    from insert_deltas_rep [OF keys distinct_keys [OF ok ds(2)] this]
    have th': "keys_rep (fold insert_delta ds th) (all_keys R (rs @ [ordered R r]))" "dt_originals (fold insert_delta ds th) = rs"
      using ds(2) rep ordered_ok [OF ok True] by (simp_all add: all_keys_def dt_rep_def add.commute)
    have "keys_rep (fold insert_delta ds th\<lparr>dt_originals := os\<rparr>) K = keys_rep (fold insert_delta ds th) K" for os K
      by (simp add: keys_rep_def)
    then show ?thesis
      using th' new org reg True ds(1) rep ordered_ok [OF ok True] by (simp add: dt_insert_def Let_def dt_rep_def)
  qed
qed

lemma dt_delete_sim:
  assumes rep: "dt_rep R th rs" and ok: "delta_rule_ok r"
  shows "fst (dt_delete R r th) = fst (dt_spec R (DDelete r) rs) \<and> dt_rep R (snd (dt_delete R r th)) (snd (dt_spec R (DDelete r) rs))"
proof (cases "rule_key r \<in> rule_key ` set rs")
  case False
  then have "\<not> is_original r th" using rep by (simp add: is_original_iff dt_rep_def)
  then show ?thesis using False rep by (simp add: dt_delete_def)
next
  case True
  then obtain s where s: "s \<in> set rs" "rule_key s = rule_key r" by auto
  then have org: "is_original r th" using rep True by (simp add: is_original_iff dt_rep_def)
  have sok: "delta_rule_ok s" "orderable R s" using rep s(1) by (auto simp: dt_rep_def list_all_iff)
  have "orderable R r" using orderable_eq [OF ok sok(1), of R] s(2) sok(2) by simp
  with compute_deltas_one [OF ok, of R] obtain ds
    where ds: "compute_delta_rules R [r] = Inr ds" "mset (map delta_key ds) = rule_keys R r" by auto
  have dist: "distinct (map rule_key rs)" using rep by (simp add: dt_rep_def)
  let ?rs = "filter (\<lambda>t. rule_key t \<noteq> rule_key r) rs"
  have rs: "mset rs = add_mset s (mset ?rs)"
  proof -
    obtain xs ys where split: "rs = xs @ s # ys" using s(1) by (meson split_list)
    then have "filter (\<lambda>t. rule_key t \<noteq> rule_key r) rs = xs @ ys"
      using dist s(2) by (simp add: filter_key_id)
    then show ?thesis by (simp add: split)
  qed
  have "rule_keys R s = rule_keys R r" using rule_keys_eq [OF sok(1) ok] s(2) by (simp add: rule_eq_key)
  then have K: "all_keys R rs = all_keys R ?rs + mset (map delta_key ds)"
    unfolding all_keys_def rs ds(2) by (simp only: image_mset_add_mset sum_mset.add_mset add.commute)
  have "\<forall>d \<in> set ds. delta_key d \<notin># all_keys R ?rs"
  proof
    fix d assume "d \<in> set ds"
    then have x: "delta_key d \<in># rule_keys R r" unfolding ds(2) [symmetric] by simp
    show "delta_key d \<notin># all_keys R ?rs"
    proof
      assume "delta_key d \<in># all_keys R ?rs"
      then obtain t where t: "t \<in> set rs" "rule_key t \<noteq> rule_key r" "delta_key d \<in># rule_keys R t" by (auto simp: in_all_keys)
      have "delta_rule_ok t" using rep t(1) by (auto simp: dt_rep_def list_all_iff)
      from rule_keys_inter [OF ok this x t(3)] t(2) show False by (simp add: rule_eq_key)
    qed
  qed
  from delete_deltas_rep [OF _ distinct_keys [OF ok ds(2)] this, of th] rep K
  obtain th' where th': "for_st (\<lambda>d _. delete_delta d) ds () th = (Inr (), th')" "keys_rep th' (all_keys R ?rs)" "dt_originals th' = rs"
    by (auto simp: dt_rep_def)
  have same: "keys_rep (th'\<lparr>dt_originals := os\<rparr>) K = keys_rep th' K" for os K by (simp add: keys_rep_def)
  have "filter (\<lambda>t. \<not> rule_eq r t) rs = ?rs" by (rule filter_cong) (auto simp: rule_eq_key)
  then show ?thesis
    using th' org True ds(1) rep dist
    by (simp add: dt_delete_def sbind_def dt_rep_def same distinct_map_filter) (auto simp: list_all_iff)
qed

text \<open>
  C20. After any insertions and deletions of rules, the theory of delta rules answers as a set of
  rules: a rule is inserted once, an unsafe one is refused, one that is absent is not deleted and
  nothing else is raised. The rules are kept with their bodies in a safe order. The views are the tables in the
  heads of the rules with a body literal that is no builtin, and a table triggers one delta rule for each of its occurrences in a body.
\<close>
theorem delta_theory_refines_rules:
  assumes "list_all (\<lambda>p. delta_rule_ok (op_rule p)) ops"
  shows "\<exists>th rs. run_ops (dt_run R) ops dt_empty = (fst (run_ops (dt_spec R) ops []), th) \<and>
    rs = snd (run_ops (dt_spec R) ops []) \<and> dt_originals th = rs \<and>
    (\<forall>t. is_view t th = (\<exists>r \<in> set rs. tbl (table (rule_head r)) = t \<and> (\<exists>l \<in> set (body r). \<not> lit_is_builtin R l))) \<and>
    (\<forall>t. delta_key ` set (rules_with_trigger t th) =
       {(l, rule_head r, delta_sort R (remove1 l (body r))) | l r. r \<in> set rs \<and> l \<in> set (body r) \<and> \<not> lit_is_builtin R l \<and> tbl (table l) = t})"
proof -
  have empty: "dt_rep R dt_empty []"
    by (simp add: dt_rep_def dt_empty_def keys_rep_def counter_rep_def delta_index_rep_def all_keys_def)
  have sim: "fst (dt_run R p th) = fst (dt_spec R p rs) \<and> dt_rep R (snd (dt_run R p th)) (snd (dt_spec R p rs))"
    if "p \<in> set ops" "dt_rep R th rs" for p th rs
  proof -
    have "delta_rule_ok (op_rule p)" using assms that(1) by (simp add: list_all_iff)
    then show ?thesis using dt_insert_sim [OF that(2)] dt_delete_sim [OF that(2)] by (cases p) simp_all
  qed
  define th where "th = snd (run_ops (dt_run R) ops dt_empty)"
  define rs where "rs = snd (run_ops (dt_spec R) ops [])"
  have run: "fst (run_ops (dt_run R) ops dt_empty) = fst (run_ops (dt_spec R) ops [])" and rep: "dt_rep R th rs"
    using run_ops_sim_on [of ops "dt_rep R" "dt_run R" "dt_spec R", OF sim empty] by (simp_all add: th_def rs_def)
  have keys: "keys_rep th (all_keys R rs)" "dt_originals th = rs" using rep by (simp_all add: dt_rep_def)
  have K: "x \<in># all_keys R rs \<longleftrightarrow> (\<exists>r \<in> set rs. \<exists>l \<in> set (body r). \<not> lit_is_builtin R l \<and> x = (l, rule_head r, delta_sort R (remove1 l (body r))))" for x
    by (auto simp: in_all_keys rule_keys_def)
  have view: "is_view t th = (\<exists>x. x \<in># all_keys R rs \<and> head_table x = t)" for t
    using keys(1) by (auto simp: is_view_def keys_rep_def counter_rep_def)
  have "is_view t th = (\<exists>r \<in> set rs. tbl (table (rule_head r)) = t \<and> (\<exists>l \<in> set (body r). \<not> lit_is_builtin R l))" for t
    unfolding view K by (auto simp: head_table_def)
  moreover have "delta_key ` set (rules_with_trigger t th) =
       {(l, rule_head r, delta_sort R (remove1 l (body r))) | l r. r \<in> set rs \<and> l \<in> set (body r) \<and> \<not> lit_is_builtin R l \<and> tbl (table l) = t}" for t
  proof -
    have idx: "delta_index_rep (dt_rules th) (all_keys R rs)" using keys(1) by (simp add: keys_rep_def)
    have "delta_key ` set (rules_with_trigger t th) = {x. x \<in># all_keys R rs \<and> trigger_table x = t}"
    proof (cases "map_of (dt_rules th) t")
      case None
      then have "{x. x \<in># all_keys R rs \<and> trigger_table x = t} = {}" using index_at [OF idx None] by blast
      with None show ?thesis by (simp add: rules_with_trigger_def)
    next
      case (Some s)
      with index_at_Some [OF idx Some] show ?thesis by (simp add: rules_with_trigger_def)
    qed
    also have "\<dots> = {(l, rule_head r, delta_sort R (remove1 l (body r))) | l r.
        r \<in> set rs \<and> l \<in> set (body r) \<and> \<not> lit_is_builtin R l \<and> tbl (table l) = t}"
      unfolding K by (auto simp: trigger_table_def)
    finally show ?thesis .
  qed
  moreover have "run_ops (dt_run R) ops dt_empty = (fst (run_ops (dt_spec R) ops []), th)"
    using run by (simp add: th_def prod_eq_iff)
  ultimately show ?thesis
    by (intro exI [of _ th] exI [of _ rs] conjI allI) (simp_all only: rs_def keys(2))
qed


theorem delta_theory_refines_rules_witness:
  "\<exists>th. run_ops (dt_run no_builtins) [DInsert rule_example, DInsert rule_example] dt_empty = ([Inr True, Inr False], th) \<and>
     is_view ''p'' th \<and> \<not> is_view ''q'' th"
proof -
  let ?ops = "[DInsert rule_example, DInsert rule_example]"
  have ok: "list_all (\<lambda>p. delta_rule_ok (op_rule p)) ?ops" by code_simp
  have nb: "\<not> lit_is_builtin no_builtins l" for l by (simp add: lit_is_builtin_def is_builtin_def no_builtins_def)
  have "safe_order no_builtins {} (body rule_example)"
    by (simp add: rule_example_def needs_def nb lit_vars_def lit_def lit_complement_def)
  then have o: "orderable no_builtins rule_example" by (auto simp: orderable_def)
  have rok: "delta_rule_ok rule_example" by code_simp
  have "ordered no_builtins rule_example = rule_example" by code_simp
  then have b0: "rule_head (ordered no_builtins rule_example) = lit ''p'' [Variable ''x'']" "body (ordered no_builtins rule_example) = body rule_example"
    by (simp_all add: rule_example_def)
  have b: "lit ''q'' [Variable ''x'', ObjectConstant (VInt 1)] \<in> set (body rule_example)" "rule_head rule_example = lit ''p'' [Variable ''x'']"
    by (simp_all add: rule_example_def)
  from delta_theory_refines_rules [OF ok, of no_builtins]
  obtain th where th: "run_ops (dt_run no_builtins) ?ops dt_empty = (fst (run_ops (dt_spec no_builtins) ?ops []), th)"
    "\<forall>t. is_view t th = (\<exists>r \<in> set (snd (run_ops (dt_spec no_builtins) ?ops [])). tbl (table (rule_head r)) = t \<and>
       (\<exists>l \<in> set (body r). \<not> lit_is_builtin no_builtins l))" by blast
  have "run_ops (dt_spec no_builtins) ?ops [] = ([Inr True, Inr False], [ordered no_builtins rule_example])"
    using ordered_ok [OF rok o] by (simp add: o)
  with th b b0 nb show ?thesis by (auto simp: lit_def tn_def)
qed

section \<open>Self-joins\<close>

lemma nat_str_digits: "set (nat_str n) \<subseteq> {c. 48 \<le> (of_char c :: nat) \<and> of_char c \<le> (57 :: nat)}"
proof (induction n rule: nat_str.induct)
  case (1 n)
  have "of_char (char_of (48 + k :: nat)) = 48 + k" if "k < 10" for k :: nat using that by simp
  then show ?case using 1 by (subst nat_str.simps) auto
qed

fun str_nat :: "nat \<Rightarrow> string \<Rightarrow> nat" where
  "str_nat a [] = a"
| "str_nat a (c # cs) = str_nat (10 * a + (of_char c - 48)) cs"

lemma str_nat_append: "str_nat a (xs @ ys) = str_nat (str_nat a xs) ys"
  by (induction xs arbitrary: a) auto

lemma str_nat_str: "str_nat 0 (nat_str n) = n"
proof (induction n rule: nat_str.induct)
  case (1 n)
  show ?case
  proof (cases "n < 10")
    case True
    then show ?thesis by (subst nat_str.simps) simp
  next
    case False
    have "of_char (char_of (48 + n mod 10)) = 48 + n mod 10" by (simp add: order.strict_trans [OF mod_less_divisor])
    then show ?thesis using 1 False by (subst nat_str.simps) (simp add: str_nat_append)
  qed
qed

lemma nat_str_eq [simp]: "nat_str n = nat_str m \<longleftrightarrow> n = m"
  by (metis str_nat_str)

lemma no_underscore: "CHR ''_'' \<notin> set (nat_str n)"
  using nat_str_digits [of n] by auto

lemma last_piece: "c \<notin> set a \<Longrightarrow> c \<notin> set b \<Longrightarrow> xs @ c # a = ys @ c # b \<Longrightarrow> xs = ys \<and> a = b"
proof (induction xs arbitrary: ys)
  case Nil
  then show ?case by (cases ys) auto
next
  case (Cons x xs)
  show ?case
  proof (cases ys)
    case Nil
    with Cons.prems show ?thesis by auto
  next
    case (Cons y ys')
    with Cons.prems Cons.IH [of ys'] show ?thesis by auto
  qed
qed

lemma new_table_name_eq: "new_table_name t a n = new_table_name t' a' n' \<longleftrightarrow> t = t' \<and> a = a' \<and> n = n'"
proof
  assume "new_table_name t a n = new_table_name t' a' n'"
  then have "(t @ CHR ''_'' # nat_str a) @ CHR ''_'' # nat_str n = (t' @ CHR ''_'' # nat_str a') @ CHR ''_'' # nat_str n'"
    by (simp add: new_table_name_def)
  from last_piece [OF no_underscore no_underscore this]
  have 1: "t @ CHR ''_'' # nat_str a = t' @ CHR ''_'' # nat_str a'" "n = n'" by simp_all
  from last_piece [OF no_underscore no_underscore 1(1)] 1(2) show "t = t' \<and> a = a' \<and> n = n'" by simp
qed simp

definition occurrence :: "literal \<Rightarrow> string \<times> nat" where
  "occurrence l = (lit_tablename None l, length (arguments l))"

text \<open>Literals of the policy itself, over tables that are no copies.\<close>

definition local_literal :: "literal \<Rightarrow> bool" where
  "local_literal l = (service (table l) = None \<and> modal (table l) = None \<and> \<not> startswith (tbl (table l)) ''___'')"

lemma local_tablename: "service (table l) = None \<Longrightarrow> modal (table l) = None \<Longrightarrow> lit_tablename None l = tbl (table l)"
  by (simp add: lit_tablename_def tablename_name_def or_else_def truthy_def)

lemma new_table_name_start: "startswith (new_table_name t a n) ''___''"
  by (simp add: startswith_def new_table_name_def)

text \<open>A literal of the new body, when the literals \<open>p\<close> have been done.\<close>

definition named_from :: "literal list \<Rightarrow> literal \<Rightarrow> bool" where
  "named_from p l = (service (table l) = None \<and> modal (table l) = None \<and>
     (occurrence l \<in> occurrence ` set p \<and> \<not> startswith (tbl (table l)) ''___'' \<or>
      (\<exists>t a n. 0 < n \<and> n < count (mset (map occurrence p)) (t, a) \<and> occurrence l = (new_table_name t a n, a))))"

definition renamed :: "literal list \<Rightarrow> literal list \<Rightarrow> bool" where
  "renamed p ls = (distinct (map occurrence ls) \<and> (\<forall>l \<in> set ls. named_from p l))"

lemma named_from_more:
  assumes "named_from p l" shows "named_from (p @ [l']) l"
proof -
  have "n < count (mset (map occurrence p)) ta \<Longrightarrow> n < count (mset (map occurrence (p @ [l']))) ta" for n ta
    by (simp add: less_SucI del: mset_map)
  then show ?thesis using assms unfolding named_from_def by (metis Un_iff image_Un set_append)
qed

lemma named_from_split:
  assumes "named_from p l"
  obtains "occurrence l \<in> occurrence ` set p" "\<not> startswith (tbl (table l)) ''___''" "fst (occurrence l) = tbl (table l)"
    | t a n where "n < count (mset (map occurrence p)) (t, a)" "occurrence l = (new_table_name t a n, a)"
  using assms local_tablename [of l] unfolding named_from_def by (auto simp: occurrence_def simp del: mset_map)

definition counted :: "literal list \<Rightarrow> occurrences \<Rightarrow> bool" where
  "counted p occ = (\<forall>ta. map_of occ ta =
     (let n = count (mset (map occurrence p)) ta in if n = 0 then None else Some n))"

lemma rename_step:
  assumes l: "local_literal l" and p: "counted p occ" "renamed p ls"
  shows "\<exists>ls' occ' global'. rename_occurrence l (ls, occ, global) = (ls', occ', global') \<and>
    counted (p @ [l]) occ' \<and> renamed (p @ [l]) ls'"
proof -
  let ?ta = "occurrence l" and ?c = "count (mset (map occurrence p))"
  have name: "?ta = (tbl (table l), length (arguments l))"
    using l local_tablename by (simp add: occurrence_def local_literal_def)
  have old: "named_from p x" "named_from (p @ [l]) x" if "x \<in> set ls" for x
    using p(2) that named_from_more by (auto simp: renamed_def)
  have add: "renamed (p @ [l]) (ls @ [l'])" if "\<And>x. x \<in> set ls \<Longrightarrow> occurrence x \<noteq> occurrence l'" "named_from (p @ [l]) l'" for l'
    using p(2) old that by (force simp: renamed_def)
  show ?thesis
  proof (cases "?c ?ta = 0")
    case True
    then have none: "map_of occ (lit_tablename None l, length (arguments l)) = None"
      using p(1) by (auto simp: counted_def Let_def occurrence_def)
    have "occurrence x \<noteq> ?ta" if x: "x \<in> set ls" for x
    proof -
      have "?ta \<notin> occurrence ` set p" using True by (simp add: not_in_iff [symmetric])
      moreover have "?ta \<noteq> (new_table_name t a n, a)" for t a n
        using new_table_name_start [of t a n] l by (auto simp: name local_literal_def)
      ultimately show ?thesis using old(1) [OF x] by (elim named_from_split) (metis image_eqI, metis)
    qed
    moreover have "named_from (p @ [l]) l" using l by (simp add: local_literal_def named_from_def)
    ultimately have "renamed (p @ [l]) (ls @ [l])" by (rule add)
    moreover have "counted (p @ [l]) (AList.update ?ta 1 occ)"
      using p(1) True by (simp add: counted_def Let_def del: mset_map count_image_mset)
    ultimately show ?thesis using none by (simp add: rename_occurrence_def Let_def occurrence_def)
  next
    case False
    let ?n = "?c ?ta"
    let ?l = "l\<lparr>table := (table l)\<lparr>tbl := new_table_name (tbl (table l)) (length (arguments l)) ?n\<rparr>\<rparr>"
    have some: "map_of occ (lit_tablename None l, length (arguments l)) = Some ?n"
      using p(1) False by (auto simp: counted_def Let_def occurrence_def)
    have ln: "service (table ?l) = None" "modal (table ?l) = None"
      "occurrence ?l = (new_table_name (fst ?ta) (snd ?ta) ?n, snd ?ta)"
      using l local_tablename [of ?l] by (simp_all add: local_literal_def name) (simp add: occurrence_def)
    have "occurrence x \<noteq> occurrence ?l" if x: "x \<in> set ls" for x
      using old(1) [OF x]
    proof (cases rule: named_from_split)
      case 1
      then show ?thesis using new_table_name_start ln(3) by (metis fst_conv)
    next
      case 2
      then show ?thesis using ln(3) by (auto simp: new_table_name_eq)
    qed
    moreover have "named_from (p @ [l]) ?l"
    proof -
      have "?n < count (mset (map occurrence (p @ [l]))) (fst ?ta, snd ?ta)" by (simp del: mset_map)
      then show ?thesis unfolding named_from_def using ln False by blast
    qed
    ultimately have "renamed (p @ [l]) (ls @ [?l])" by (rule add)
    moreover have "counted (p @ [l]) (AList.update ?ta (?n + 1) occ)"
      using p(1) False by (simp add: counted_def Let_def del: mset_map count_image_mset)
    ultimately show ?thesis using some local_tablename [of l] l
      by (simp add: rename_occurrence_def Let_def occurrence_def local_literal_def)
  qed
qed

lemma rename_all:
  "list_all local_literal ls \<Longrightarrow> counted p occ \<Longrightarrow> renamed p rs \<Longrightarrow>
    \<exists>rs' occ' global'. fold rename_occurrence ls (rs, occ, global) = (rs', occ', global') \<and> renamed (p @ ls) rs'"
proof (induction ls arbitrary: p rs occ global)
  case (Cons l ls)
  then obtain rs1 occ1 global1 where one: "rename_occurrence l (rs, occ, global) = (rs1, occ1, global1)"
    "counted (p @ [l]) occ1" "renamed (p @ [l]) rs1"
    using rename_step [of l p occ rs global] by auto
  with Cons.IH [OF _ one(2,3)] Cons.prems(1) show ?case by simp
qed simp

text \<open>
  C35. The rules that replace a rule whose body mentions tables of its own policy have no table
  with the same number of columns twice in a body, so that a change of a table is seen by one
  literal of each body.
\<close>
theorem self_joins_eliminated:
  assumes "list_all local_literal (body r)"
  shows "\<forall>r' \<in> set (eliminate_self_joins [r]). distinct (map occurrence (body r'))"
proof -
  have "counted [] []" "renamed [] []" by (simp_all add: counted_def renamed_def)
  from rename_all [OF assms this, of "[]"]
  obtain rs occ global where "fold rename_occurrence (body r) ([], [], []) = (rs, occ, global)" "renamed (body r) rs" by auto
  then show ?thesis by (auto simp: eliminate_self_joins_def renamed_def copy_rule_def Let_def)
qed

theorem self_joins_eliminated_witness:
  "let q = (\<lambda>x. lit ''q'' [Variable x]); r = \<lparr>heads = [lit ''p'' []], body = [q ''x'', q ''y'']\<rparr> in
   list_all local_literal (body r) \<and> length (eliminate_self_joins [r]) = 2 \<and>
   list_all (\<lambda>r'. distinct (map occurrence (body r'))) (eliminate_self_joins [r])"
proof -
  let ?r = "\<lparr>heads = [lit ''p'' []], body = [lit ''q'' [Variable ''x''], lit ''q'' [Variable ''y'']]\<rparr>"
  have 1: "list_all local_literal (body ?r)" by code_simp
  have 2: "length (eliminate_self_joins [?r]) = 2" by code_simp
  from self_joins_eliminated [OF 1] 1 2 show ?thesis by (simp only: Let_def list_all_iff)
qed


end
