(* ===== verification/Materialized_Runs.thy ===== *)
theory Materialized_Runs
  imports Delta_Rules
begin

text \<open>
  Runs of materialized policies in which the stored views are not what the rules say, an update
  raises, or an update does not return.
\<close>

definition plain_env :: "unit env" where
  "plain_env = \<lparr>registry_of = no_builtins, code_of = \<lambda>_ _. BNone, str_id = \<lambda>_. []\<rparr>"

definition plain_world :: world where
  "plain_world = [(''m'', nonrecursive_theory None False)]"

definition run_view :: "nat \<Rightarrow> formula list \<Rightarrow> formula list \<Rightarrow> mv_state \<Rightarrow> exc option \<times> mv_state" where
  "run_view n inserts deletes s =
     (case mv_update n 40 plain_env [] ''m'' (map (\<lambda>f. db_event_of True f []) inserts @ map (\<lambda>f. db_event_of False f []) deletes) s of
        (Inl e, s) \<Rightarrow> (Some e, s) | (Inr _, s) \<Rightarrow> (None, s))"

definition view_tuples :: "string \<Rightarrow> mv_state \<Rightarrow> pyval list list" where
  "view_tuples t s = map dtuple (db_table t (mv_db (fst s)))"

definition var1 :: "string \<Rightarrow> string \<Rightarrow> literal" where
  "var1 t x = lit t [Variable x]"

definition val1 :: "string \<Rightarrow> int \<Rightarrow> formula" where
  "val1 t i = FLit (lit t [ObjectConstant (VInt i)])"

definition one_rule :: "literal \<Rightarrow> literal list \<Rightarrow> formula" where
  "one_rule h b = FRule \<lparr>heads = [h], body = b\<rparr>"

text \<open>
  The body of a delta rule is sorted by table names, not ordered for safety: a safe rule is
  accepted, and then inserting \<open>q(1)\<close> raises. (The rule itself is evaluated in a safe order, whatever the order it is
  given in.)
\<close>

theorem delta_body_not_safe:
  "let r = one_rule (var1 ''p'' ''x'') [var1 ''q'' ''x'', lit ''r'' [Variable ''x'', Variable ''y''], lit_complement (var1 ''a'' ''y'')]
   in fst (run_view 10 [r, val1 ''q'' 1] [] (mv_new, plain_world)) = Some AssertionError"
  by code_simp

lemma unordered_rule_evaluated:
  "view_tuples ''p'' (snd (run_view 10 [val1 ''q'' 1, one_rule (var1 ''p'' ''x'') [lit_complement (var1 ''a'' ''x''), var1 ''q'' ''x'']] []
     (mv_new, plain_world))) = [[VInt 1]]"
  by code_simp

text \<open>
  Rules with the same self-join share the copies of the table; deleting one of them deletes the
  rule that fills the copy, and the tuples of the other rule go too.
\<close>

theorem copies_are_shared:
  "let q = one_rule (lit ''p'' [Variable ''x'', Variable ''y'']) [var1 ''q'' ''x'', var1 ''q'' ''y''];
       r = one_rule (lit ''r'' [Variable ''x'', Variable ''y'']) [var1 ''q'' ''x'', var1 ''q'' ''y'']
   in view_tuples ''p'' (snd (run_view 40 [q, r, val1 ''q'' 1] [] (mv_new, plain_world))) = [[VInt 1, VInt 1]] \<and>
      view_tuples ''p'' (snd (run_view 40 [q, r, val1 ''q'' 1] [r] (mv_new, plain_world))) = []"
  by code_simp

text \<open>One event of the queue; \<open>None\<close> when there is none or it raises.\<close>

definition mv_step :: "nat \<Rightarrow> 'c env \<Rightarrow> (string, database) dict \<Rightarrow> string \<Rightarrow> mv_state \<Rightarrow> mv_state option" where
  "mv_step k E dbs name s =
     (case mv_queue (fst s) of
        [] \<Rightarrow> None
      | e # rest \<Rightarrow> (case process_event k E dbs name e ((fst s)\<lparr>mv_queue := rest\<rparr>, snd s) of
          (Inl _, _) \<Rightarrow> None | (Inr _, s') \<Rightarrow> Some s'))"

lemma process_queue_forever:
  assumes closed: "\<And>s. s \<in> S \<Longrightarrow> \<exists>s' \<in> S. mv_step k E dbs name s = Some s'"
  shows "s \<in> S \<Longrightarrow> fst (process_queue n k E dbs name history s) = Inl OutOfFuel"
proof (induction n arbitrary: history s)
  case 0
  obtain s' where "mv_step k E dbs name s = Some s'" using closed [OF 0] by blast
  then obtain e rest where "mv_queue (fst s) = e # rest" by (auto simp: mv_step_def split: list.splits)
  then show ?case by (subst process_queue.simps) simp
next
  case (Suc n)
  obtain s' where s': "mv_step k E dbs name s = Some s'" "s' \<in> S" using closed [OF Suc.prems] by blast
  then obtain e rest chs where "mv_queue (fst s) = e # rest"
    "process_event k E dbs name e ((fst s)\<lparr>mv_queue := rest\<rparr>, snd s) = (Inr chs, s')"
    by (auto simp: mv_step_def split: list.splits prod.splits sum.splits)
  with Suc.IH [OF s'(2), of "history @ chs"] show ?case
    by (subst process_queue.simps) (simp add: sbind_def)
qed

primrec mv_steps :: "nat \<Rightarrow> mv_state \<Rightarrow> mv_state option" where
  "mv_steps 0 s = Some s"
| "mv_steps (Suc n) s = (case mv_step 40 plain_env [] ''m'' s of None \<Rightarrow> None | Some s \<Rightarrow> mv_steps n s)"

definition recursive_events :: "db_event list" where
  "recursive_events = map (\<lambda>f. db_event_of True f [])
     [one_rule (var1 ''p'' ''x'') [var1 ''q'' ''x''], one_rule (var1 ''p'' ''x'') [var1 ''p'' ''x''], val1 ''q'' 1]"

definition recursive_start :: mv_state where
  "recursive_start = (mv_new\<lparr>mv_queue := recursive_events\<rparr>, plain_world)"

text \<open>The state the run ends up in: the event that waits gives itself again.\<close>

definition waiting_event :: db_event where
  "waiting_event = db_event_of True (val1 ''p'' 1)
     [\<lparr>pbinding = [(Variable ''x'', ObjectConstant (VInt 1))], prule = \<lparr>heads = [var1 ''p'' ''x''], body = [var1 ''p'' ''x'']\<rparr>\<rparr>]"

definition loop_delta :: delta_rule where
  "loop_delta = mk_delta no_builtins (var1 ''p'' ''x'') (var1 ''p'' ''x'') [] \<lparr>heads = [var1 ''p'' ''x''], body = [var1 ''p'' ''x'']\<rparr>"

definition looping :: "mv_state \<Rightarrow> bool" where
  "looping s = (mv_queue (fst s) = [waiting_event] \<and> rules_with_trigger ''p'' (mv_delta (fst s)) = [loop_delta])"

lemma propagate_loop:
  "propagate_rule 40 plain_env [] ''m'' (lit ''p'' [ObjectConstant (VInt 1)]) True loop_delta s = enqueue waiting_event s"
proof -
  have unify: "(let (u, h) = new_unifier []; (u', h) = new_unifier h in
      (u, bi_unify_atoms (Some ''m'') (trigger loop_delta) u (lit ''p'' [ObjectConstant (VInt 1)]) u' h)) =
      (1, Inr (Some [(Variable ''x'', 1)], [(1, [(Variable ''x'', ObjectConstant (VInt 1), Some 2)]), (2, [])]))"
    by code_simp
  have val_x: "uapply (\<lambda>_. []) None [(Suc 0, [(Variable ''x'', ObjectConstant (VInt 1), Some 2)]), (2, [])] (Suc 0) (Variable ''x'') = Inr (ObjectConstant (VInt 1))"
    by code_simp
  have d: "delta_variables loop_delta = [Variable ''x'']" "delta_body loop_delta = []" "\<not> negated (trigger loop_delta)" by code_simp+
  have group: "group_bindings (delta_head loop_delta) (original loop_delta) [[(Variable ''x'', ObjectConstant (VInt 1))]] =
      [(lit ''p'' [ObjectConstant (VInt 1)], proofs waiting_event)]" by code_simp
  have ev: "db_event_of True (FLit (lit ''p'' [ObjectConstant (VInt 1)])) (proofs waiting_event) = waiting_event"
    by (simp add: waiting_event_def db_event_of_def val1_def)
  show ?thesis
    using unify unfolding propagate_rule_def
    by (simp add: d sbind_def mv_evaluate_def evaluation_from_def record_answer_def val_x plain_env_def
        process_new_bindings_def group ev enqueue_def sret_def split: prod.splits)
qed

lemma looping_step:
  assumes "looping s" shows "\<exists>s'. mv_step 40 plain_env [] ''m'' s = Some s' \<and> looping s'"
proof -
  let ?l = "lit ''p'' [ObjectConstant (VInt 1)]" and ?s = "((fst s)\<lparr>mv_queue := []\<rparr>, snd s)"
  have q: "mv_queue (fst s) = [waiting_event]" "rules_with_trigger ''p'' (mv_delta (fst s)) = [loop_delta]"
    using assms by (simp_all add: looping_def)
  have w: "formula waiting_event = FLit ?l" "is_insert waiting_event" "tbl (table ?l) = ''p''"
    by (simp_all add: waiting_event_def db_event_of_def val1_def lit_def tn_def)
  have "propagate 40 plain_env [] ''m'' ?l True ?s = (Inr (), ((fst s)\<lparr>mv_queue := [waiting_event]\<rparr>, snd s))"
    using q(2) by (simp add: propagate_def mv_get_def sbind_def w(3) propagate_loop enqueue_def sret_def)
  moreover have "\<exists>chs db'. db_modify waiting_event db = (Inr chs, db')" for db
    by (simp add: db_modify_def w lit_def)
  then obtain chs db' where "db_modify waiting_event (mv_db (fst s)) = (Inr chs, db')" by blast
  ultimately have "mv_step 40 plain_env [] ''m'' s = Some ((fst s)\<lparr>mv_queue := [waiting_event], mv_db := db'\<rparr>, snd s)"
    using q(1) w(2) by (simp add: mv_step_def process_event_def w(1) sbind_def on_db_def)
  then show ?thesis using q(2) by (simp add: looping_def)
qed

lemma diverges:
  assumes "mv_steps m s = Some s'" "looping s'"
  shows "fst (process_queue n 40 plain_env [] ''m'' history s) = Inl OutOfFuel"
proof -
  let ?S = "{s. \<exists>m s'. mv_steps m s = Some s' \<and> looping s'}"
  have "\<exists>s1 \<in> ?S. mv_step 40 plain_env [] ''m'' s = Some s1" if "s \<in> ?S" for s
  proof -
    obtain m s' where m: "mv_steps m s = Some s'" "looping s'" using \<open>s \<in> ?S\<close> by blast
    show ?thesis
    proof (cases m)
      case 0
      then have "looping s" using m by simp
      from looping_step [OF this] obtain s1 where s1: "mv_step 40 plain_env [] ''m'' s = Some s1" "looping s1" by blast
      have "mv_steps 0 s1 = Some s1" by simp
      with s1 show ?thesis by blast
    next
      case (Suc k)
      with m obtain s1 where "mv_step 40 plain_env [] ''m'' s = Some s1" "mv_steps k s1 = Some s'" by (auto split: option.splits)
      with m(2) show ?thesis by blast
    qed
  qed
  from process_queue_forever [of ?S, OF this] assms show ?thesis by blast
qed

text \<open>
  The queue of a policy with a recursive rule may never become empty: an event is propagated
  even when its tuple and proofs are stored already. In this run, after \<open>p(x) :- q(x)\<close> and \<open>p(x) :- p(x)\<close>
  the insertion of \<open>q(1)\<close> gives an event that waits and that gives itself again, so the loop over the queue runs on for
  every number of events; the fuel 40 of the queries inside is enough for each of them.
\<close>
theorem recursive_update_diverges:
  "fst (mv_update n 40 plain_env [] ''m'' recursive_events (mv_new, plain_world)) = Inl OutOfFuel"
proof -
  have start: "for_st (\<lambda>e _. if \<not> is_datalog (formula e) then sraise AssertionError else enqueue_any e) recursive_events () (mv_new, plain_world) =
      (Inr (), recursive_start)"
  proof -
    have elim: "eliminate_self_joins [\<lparr>heads = [var1 ''p'' ''x''], body = [var1 t ''x'']\<rparr>] = [\<lparr>heads = [var1 ''p'' ''x''], body = [var1 t ''x'']\<rparr>]" for t
      by (simp add: eliminate_self_joins_def rename_occurrence_def Let_def)
    have d: "is_datalog (one_rule (var1 ''p'' ''x'') [l])" "is_datalog (val1 ''q'' 1)" "\<not> is_view t dt_empty" for l t
      by (simp_all add: one_rule_def val1_def is_datalog_def var1_def lit_def lit_is_atom_def is_view_def dt_empty_def)
    have rule: "enqueue_any (db_event_of True (one_rule (var1 ''p'' ''x'') [var1 t ''x'']) []) s =
        (Inr (), ((fst s)\<lparr>mv_queue := mv_queue (fst s) @ [db_event_of True (one_rule (var1 ''p'' ''x'') [var1 t ''x'']) []]\<rparr>, snd s))" for t s
      by (simp add: enqueue_any_def db_event_of_def one_rule_def elim sbind_def sret_def enqueue_def)
    have fact: "mv_delta (fst s) = dt_empty \<Longrightarrow> enqueue_any (db_event_of True (val1 ''q'' 1) []) s =
        (Inr (), ((fst s)\<lparr>mv_queue := mv_queue (fst s) @ [db_event_of True (val1 ''q'' 1) []]\<rparr>, snd s))" for s
      by (simp add: enqueue_any_def db_event_of_def val1_def sbind_def mv_get_def enqueue_def d)
    have form: "formula (db_event_of True f []) = f" for f by (simp add: db_event_of_def)
    show ?thesis
      by (simp add: recursive_start_def recursive_events_def sbind_def sret_def rule fact form d mv_new_def)
  qed
  have "case mv_steps 6 recursive_start of None \<Rightarrow> False | Some s \<Rightarrow> looping s" by code_simp
  then obtain s where "mv_steps 6 recursive_start = Some s" "looping s" by (auto split: option.splits)
  from diverges [OF this] have "fst (process_queue n 40 plain_env [] ''m'' [] recursive_start) = Inl OutOfFuel" by simp
  then show ?thesis by (simp add: mv_update_def sbind_def start)
qed


end
