(* ===== verification/Trigger_Registry.thy ===== *)
theory Trigger_Registry
  imports Dep_Graph Policy
begin

text \<open>
  The triggers of the agnostic policy engine (\<open>agnostic.py\<close>: \<open>Trigger\<close>, \<open>TriggerRegistry\<close>):
  which callbacks run when some tables change. The registry keeps an index from each table to the
  triggers whose own table depends on it, computed from the dependency graph of all rules.

  The index is proved to be exact whenever it was computed after the last change of the graph,
  and an index from before a batch of rule changes is proved to find every trigger that the
  batch can affect.
\<close>

declare map_of_eq_Some_iff [simp del] Some_eq_map_of_iff [simp del]

section \<open>Triggers and their registry\<close>

text \<open>
  What a trigger runs: a callback of the outside world, the publication of a policy table, or the
  execution of actions for a table of a policy.
\<close>

datatype callback = External nat | PubPolicyResult | ExecuteTable "string option" string

text \<open>Triggers compare by identity, which \<open>tr_id\<close> stands for.\<close>

record trigger =
  tr_id :: nat
  tr_table :: string
  tr_policy :: "string option"
  tr_callback :: callback
  tr_modal :: "string option"

record trigger_registry =
  dep_graph_of :: dep_graph
  triggers :: "trigger list"
  tindex :: "(string, trigger list) dict"
  tfresh :: nat

definition registry_new :: "dep_graph \<Rightarrow> trigger_registry" where
  "registry_new g = \<lparr>dep_graph_of = g, triggers = [], tindex = [], tfresh = 0\<rparr>"

text \<open>\<open>str(None)\<close> is \<open>'None'\<close>.\<close>

definition full_table :: "trigger \<Rightarrow> string" where
  "full_table tr = build_service_table (case tr_policy tr of Some p \<Rightarrow> p | None \<Rightarrow> ''None'') (tr_table tr)"

text \<open>The tables that a trigger depends on; the search leaves its marks in the graph.\<close>

definition trigger_deps :: "trigger \<Rightarrow> (trigger_registry, string list) stm" where
  "trigger_deps tr reg =
     (case dependencies (full_table tr) (dep_graph_of reg) of
        Inl e \<Rightarrow> (Inl e, reg)
      | Inr (deps, g) \<Rightarrow>
          (Inr (case deps of None \<Rightarrow> [full_table tr] | Some ds \<Rightarrow> ds), reg\<lparr>dep_graph_of := g\<rparr>))"

definition index_add :: "trigger \<Rightarrow> string \<Rightarrow> (string, trigger list) dict \<Rightarrow> (string, trigger list) dict" where
  "index_add tr t ix = AList.update t (case map_of ix t of Some trs \<Rightarrow> set_add tr trs | None \<Rightarrow> [tr]) ix"

definition add_indexes :: "trigger \<Rightarrow> (trigger_registry, unit) stm" where
  "add_indexes tr = sbind (trigger_deps tr) (\<lambda>deps reg. (Inr (), reg\<lparr>tindex := fold (index_add tr) deps (tindex reg)\<rparr>))"

definition index_discard :: "trigger \<Rightarrow> string \<Rightarrow> (trigger_registry, unit) stm" where
  "index_discard tr t reg =
     (case map_of (tindex reg) t of
        None \<Rightarrow> (Inl KeyError, reg)
      | Some trs \<Rightarrow> (Inr (), reg\<lparr>tindex := AList.update t (removeAll tr trs) (tindex reg)\<rparr>))"

definition delete_indexes :: "trigger \<Rightarrow> (trigger_registry, unit) stm" where
  "delete_indexes tr = sbind (trigger_deps tr) (\<lambda>deps. for_st (\<lambda>t _. index_discard tr t) deps ())"

definition register_table ::
    "string \<Rightarrow> string option \<Rightarrow> callback \<Rightarrow> string option \<Rightarrow> (trigger_registry, trigger) stm" where
  "register_table tablename pol cb mdl reg =
     (let tr = \<lparr>tr_id = tfresh reg, tr_table = tablename, tr_policy = pol, tr_callback = cb, tr_modal = mdl\<rparr>
      in sbind (add_indexes tr) (\<lambda>_. sret tr)
           (reg\<lparr>triggers := set_add tr (triggers reg), tfresh := tfresh reg + 1\<rparr>))"

definition unregister :: "trigger \<Rightarrow> (trigger_registry, unit) stm" where
  "unregister tr reg =
     (if tr \<in> set (triggers reg) then delete_indexes tr (reg\<lparr>triggers := removeAll tr (triggers reg)\<rparr>)
      else (Inl KeyError, reg))"

definition update_dependencies :: "(trigger_registry, unit) stm" where
  "update_dependencies reg = for_st (\<lambda>tr _. add_indexes tr) (triggers reg) () (reg\<lparr>tindex := []\<rparr>)"

datatype changed_item = ChangedBy event | ChangedTable string

text \<open>An atom is looked up by its \<open>table\<close>, a fact has none.\<close>

fun changed_tables :: "changed_item \<Rightarrow> string list res" where
  "changed_tables (ChangedTable t) = Inr [t]"
| "changed_tables (ChangedBy e) =
     (case formula e of
        FRule r \<Rightarrow> Inr (map (\<lambda>l. global_tablename (target e) (table l)) (heads r))
      | FLit l \<Rightarrow> Inr [global_tablename (target e) (table l)]
      | FFact _ \<Rightarrow> Inl AttributeError)"

definition index_of_table :: "trigger_registry \<Rightarrow> string \<Rightarrow> trigger list" where
  "index_of_table reg t = (case map_of (tindex reg) t of Some trs \<Rightarrow> trs | None \<Rightarrow> [])"

definition relevant_triggers :: "changed_item list \<Rightarrow> trigger_registry \<Rightarrow> trigger list res" where
  "relevant_triggers items reg =
     rbind (for_res (\<lambda>i ts. rbind (changed_tables i) (\<lambda>us. Inr (set_union ts us))) items []) (\<lambda>ts.
       Inr (fold (\<lambda>t trs. set_union trs (index_of_table reg t)) ts []))"

type_synonym table_key = "string \<times> string option \<times> string option"

definition trigger_key :: "trigger \<Rightarrow> table_key" where
  "trigger_key tr = (tr_table tr, tr_policy tr, tr_modal tr)"

definition triggers_by_table :: "trigger list \<Rightarrow> (table_key, trigger list) dict" where
  "triggers_by_table trs =
     fold (\<lambda>tr d. case map_of d (trigger_key tr) of
         None \<Rightarrow> AList.update (trigger_key tr) [tr] d
       | Some xs \<Rightarrow> AList.update (trigger_key tr) (xs @ [tr]) d) trs []"

section \<open>The index is exact\<close>

text \<open>What the full table of a trigger reaches in the graph.\<close>

definition reaches :: "dep_graph \<Rightarrow> string \<Rightarrow> string set" where
  "reaches g t = (edge_rel g)\<^sup>* `` {t}"

definition index_exact :: "trigger_registry \<Rightarrow> bool" where
  "index_exact reg = (graph_wf (dep_graph_of reg) \<and>
     (\<forall>t. set (index_of_table reg t) = {tr \<in> set (triggers reg). t \<in> reaches (dep_graph_of reg) (full_table tr)}))"

definition same_edges :: "dep_graph \<Rightarrow> dep_graph \<Rightarrow> bool" where
  "same_edges g g' = (edges g' = edges g \<and> dkeys (nodes g') = dkeys (nodes g) \<and> graph.more g' = graph.more g)"

lemma same_edges_refl [simp]: "same_edges g g"
  by (simp add: same_edges_def)

lemma same_edges_trans: "same_edges g h \<Longrightarrow> same_edges h k \<Longrightarrow> same_edges g k"
  by (simp add: same_edges_def)

lemma same_edges_wf: "same_edges g h \<Longrightarrow> graph_wf g = graph_wf h"
  unfolding same_edges_def by (rule wf_keys_edges [symmetric]) blast+

lemma same_edges_reaches: "same_edges g h \<Longrightarrow> reaches h t = reaches g t"
  unfolding same_edges_def reaches_def by (elim conjE) (simp only: rel_edges [of h g])

lemma edge_from_node: "graph_wf g \<Longrightarrow> (u, v) \<in> edge_rel g \<Longrightarrow> u \<in> node_set g"
  using edges_of_mem [OF _ refl, of g u] by (force simp: graph_wf_def edge_rel_def)

lemma reaches_outside: "graph_wf g \<Longrightarrow> t \<notin> node_set g \<Longrightarrow> reaches g t = {t}"
  unfolding reaches_def by (auto elim: converse_rtranclE dest: edge_from_node)

lemma trigger_deps_ok:
  assumes "graph_wf (dep_graph_of reg)"
  shows "\<exists>ds g. trigger_deps tr reg = (Inr ds, reg\<lparr>dep_graph_of := g\<rparr>) \<and> same_edges (dep_graph_of reg) g \<and>
    set ds = reaches (dep_graph_of reg) (full_table tr)"
proof -
  let ?g = "dep_graph_of reg" and ?t = "full_table tr"
  obtain r g' where d: "dependencies ?t ?g = Inr (r, g')" "edges g' = edges ?g" "dkeys (nodes g') = dkeys (nodes ?g)"
    "graph.more g' = graph.more ?g" "if ?t \<in> node_set ?g then \<exists>ds. r = Some ds \<and> set ds = (edge_rel ?g)\<^sup>* `` {?t} else r = None"
    using dependencies_ok [OF assms, of ?t] by blast
  then show ?thesis
    using reaches_outside [OF assms, of ?t]
    by (cases "?t \<in> node_set ?g") (auto simp: trigger_deps_def same_edges_def reaches_def)
qed

lemma index_add_lookup:
  "(case map_of (fold (index_add tr) ds ix) t of Some trs \<Rightarrow> set trs | None \<Rightarrow> {}) =
   (case map_of ix t of Some trs \<Rightarrow> set trs | None \<Rightarrow> {}) \<union> (if t \<in> set ds then {tr} else {})"
  by (induction ds arbitrary: ix) (auto simp: index_add_def split: option.splits)

lemma set_index_of_table: "set (index_of_table reg t) = (case map_of (tindex reg) t of Some trs \<Rightarrow> set trs | None \<Rightarrow> {})"
  by (simp add: index_of_table_def split: option.splits)

lemma add_indexes_ok:
  assumes "graph_wf (dep_graph_of reg)"
  shows "\<exists>reg'. add_indexes tr reg = (Inr (), reg') \<and> triggers reg' = triggers reg \<and> tfresh reg' = tfresh reg \<and>
    same_edges (dep_graph_of reg) (dep_graph_of reg') \<and>
    (\<forall>t. set (index_of_table reg' t) = set (index_of_table reg t) \<union> (if t \<in> reaches (dep_graph_of reg) (full_table tr) then {tr} else {}))"
proof -
  obtain ds g where d: "trigger_deps tr reg = (Inr ds, reg\<lparr>dep_graph_of := g\<rparr>)" "same_edges (dep_graph_of reg) g"
    "set ds = reaches (dep_graph_of reg) (full_table tr)" using trigger_deps_ok [OF assms, of tr] by blast
  then show ?thesis by (simp add: add_indexes_def sbind_def set_index_of_table index_add_lookup)
qed
lemma register_exact:
  assumes "index_exact reg"
  shows "\<exists>tr reg'. register_table t p cb m reg = (Inr tr, reg') \<and> index_exact reg' \<and>
    set (triggers reg') = insert tr (set (triggers reg)) \<and> trigger_key tr = (t, p, m) \<and> tr_callback tr = cb \<and>
    same_edges (dep_graph_of reg) (dep_graph_of reg')"
proof -
  let ?tr = "\<lparr>tr_id = tfresh reg, tr_table = t, tr_policy = p, tr_callback = cb, tr_modal = m\<rparr>"
  let ?r = "reg\<lparr>triggers := set_add ?tr (triggers reg), tfresh := tfresh reg + 1\<rparr>"
  have wf: "graph_wf (dep_graph_of reg)" using assms by (simp add: index_exact_def)
  obtain reg' where r: "add_indexes ?tr ?r = (Inr (), reg')" "triggers reg' = triggers ?r" "same_edges (dep_graph_of reg) (dep_graph_of reg')"
    "\<forall>u. set (index_of_table reg' u) = set (index_of_table ?r u) \<union> (if u \<in> reaches (dep_graph_of reg) (full_table ?tr) then {?tr} else {})"
    using add_indexes_ok [of ?r ?tr] wf by auto
  have "set (index_of_table ?r u) = set (index_of_table reg u)" for u by (simp add: index_of_table_def)
  then have "index_exact reg'"
    using assms r same_edges_wf [OF r(3)] same_edges_reaches [OF r(3)] unfolding index_exact_def by auto
  with r show ?thesis by (simp add: register_table_def Let_def sbind_def sret_def trigger_key_def)
qed

text \<open>Discarding from tables whose entries are there.\<close>

lemma index_discard_all:
  assumes "\<forall>t \<in> set ds. map_of (tindex reg) t \<noteq> None"
  shows "\<exists>reg'. for_st (\<lambda>t _. index_discard tr t) ds () reg = (Inr (), reg') \<and> triggers reg' = triggers reg \<and>
    dep_graph_of reg' = dep_graph_of reg \<and> tfresh reg' = tfresh reg \<and>
    (\<forall>t. set (index_of_table reg' t) = set (index_of_table reg t) - (if t \<in> set ds then {tr} else {})) \<and>
    dom (map_of (tindex reg')) = dom (map_of (tindex reg))"
  using assms
proof (induction ds arbitrary: reg)
  case Nil
  then show ?case by (simp add: sret_def)
next
  case (Cons d ds)
  obtain trs where trs: "map_of (tindex reg) d = Some trs" using Cons.prems by auto
  let ?r = "reg\<lparr>tindex := AList.update d (removeAll tr trs) (tindex reg)\<rparr>"
  have here: "index_discard tr d reg = (Inr (), ?r)" by (simp add: index_discard_def trs)
  have "\<forall>t \<in> set ds. map_of (tindex ?r) t \<noteq> None" using Cons.prems by simp
  from Cons.IH [OF this] obtain reg' where r: "for_st (\<lambda>t _. index_discard tr t) ds () ?r = (Inr (), reg')"
    "triggers reg' = triggers ?r" "dep_graph_of reg' = dep_graph_of ?r" "tfresh reg' = tfresh ?r"
    "\<forall>t. set (index_of_table reg' t) = set (index_of_table ?r t) - (if t \<in> set ds then {tr} else {})"
    "dom (map_of (tindex reg')) = dom (map_of (tindex ?r))" by blast
  have "set (index_of_table ?r t) = set (index_of_table reg t) - (if t = d then {tr} else {})" for t
    using trs by (auto simp: index_of_table_def)
  with r trs show ?case by (auto simp: sbind_def here)
qed

lemma unregister_exact:
  assumes ex: "index_exact reg" and tr: "tr \<in> set (triggers reg)"
  shows "\<exists>reg'. unregister tr reg = (Inr (), reg') \<and> index_exact reg' \<and> set (triggers reg') = set (triggers reg) - {tr} \<and>
    same_edges (dep_graph_of reg) (dep_graph_of reg')"
proof -
  let ?r = "reg\<lparr>triggers := removeAll tr (triggers reg)\<rparr>" and ?g = "dep_graph_of reg"
  have wf: "graph_wf ?g" and ix: "\<And>t. set (index_of_table reg t) = {tr \<in> set (triggers reg). t \<in> reaches ?g (full_table tr)}"
    using ex by (simp_all add: index_exact_def)
  obtain ds g where d: "trigger_deps tr ?r = (Inr ds, ?r\<lparr>dep_graph_of := g\<rparr>)" "same_edges ?g g" "set ds = reaches ?g (full_table tr)"
    using trigger_deps_ok [of ?r tr] wf by auto
  let ?s = "?r\<lparr>dep_graph_of := g\<rparr>"
  have same: "index_of_table ?s t = index_of_table reg t" for t by (simp add: index_of_table_def)
  have "map_of (tindex ?s) t \<noteq> None" if "t \<in> set ds" for t
  proof -
    have "tr \<in> set (index_of_table reg t)" using ix [of t] tr d(3) that by auto
    then show ?thesis by (cases "map_of (tindex reg) t") (simp_all add: index_of_table_def)
  qed
  then have "\<forall>t \<in> set ds. map_of (tindex ?s) t \<noteq> None" by blast
  then obtain reg' where r: "for_st (\<lambda>t _. index_discard tr t) ds () ?s = (Inr (), reg')" "triggers reg' = triggers ?s"
    "dep_graph_of reg' = g" "\<forall>t. set (index_of_table reg' t) = set (index_of_table ?s t) - (if t \<in> set ds then {tr} else {})"
    using index_discard_all [where ds = ds and tr = tr and reg = ?s] by auto
  have "index_exact reg'"
    using r ix d(3) same wf same_edges_wf [OF d(2)] same_edges_reaches [OF d(2)] unfolding index_exact_def by auto
  with d r tr show ?thesis by (simp add: unregister_def delete_indexes_def sbind_def)
qed

lemma add_all_indexes:
  assumes "graph_wf (dep_graph_of reg)"
  shows "\<exists>reg'. for_st (\<lambda>tr _. add_indexes tr) trs () reg = (Inr (), reg') \<and> triggers reg' = triggers reg \<and>
    same_edges (dep_graph_of reg) (dep_graph_of reg') \<and>
    (\<forall>t. set (index_of_table reg' t) = set (index_of_table reg t) \<union> {tr \<in> set trs. t \<in> reaches (dep_graph_of reg) (full_table tr)})"
  using assms
proof (induction trs arbitrary: reg)
  case Nil
  then show ?case by (simp add: sret_def)
next
  case (Cons tr trs)
  obtain r where r: "add_indexes tr reg = (Inr (), r)" "triggers r = triggers reg" "same_edges (dep_graph_of reg) (dep_graph_of r)"
    "\<forall>t. set (index_of_table r t) = set (index_of_table reg t) \<union> (if t \<in> reaches (dep_graph_of reg) (full_table tr) then {tr} else {})"
    using add_indexes_ok [OF Cons.prems, of tr] by blast
  have "graph_wf (dep_graph_of r)" using Cons.prems same_edges_wf [OF r(3)] by simp
  from Cons.IH [OF this] obtain r' where r': "for_st (\<lambda>tr _. add_indexes tr) trs () r = (Inr (), r')" "triggers r' = triggers r"
    "same_edges (dep_graph_of r) (dep_graph_of r')"
    "\<forall>t. set (index_of_table r' t) = set (index_of_table r t) \<union> {tr \<in> set trs. t \<in> reaches (dep_graph_of r) (full_table tr)}" by blast
  with r same_edges_trans [OF r(3) r'(3)] same_edges_reaches [OF r(3)] show ?case by (auto simp: sbind_def)
qed

text \<open>Recomputing the index needs no index that is exact, only a well-formed graph.\<close>

lemma update_dependencies_exact:
  assumes "graph_wf (dep_graph_of reg)"
  shows "\<exists>reg'. update_dependencies reg = (Inr (), reg') \<and> index_exact reg' \<and> triggers reg' = triggers reg \<and>
    same_edges (dep_graph_of reg) (dep_graph_of reg')"
proof -
  obtain r where r: "for_st (\<lambda>tr _. add_indexes tr) (triggers reg) () (reg\<lparr>tindex := []\<rparr>) = (Inr (), r)" "triggers r = triggers reg"
    "same_edges (dep_graph_of reg) (dep_graph_of r)"
    "\<forall>t. set (index_of_table r t) = {tr \<in> set (triggers reg). t \<in> reaches (dep_graph_of reg) (full_table tr)}"
    using add_all_indexes [of "reg\<lparr>tindex := []\<rparr>" "triggers reg"] assms by (auto simp: index_of_table_def)
  then have "index_exact r"
    using assms same_edges_wf [OF r(3)] same_edges_reaches [OF r(3)] by (simp add: index_exact_def)
  with r show ?thesis by (simp add: update_dependencies_def)
qed

lemma index_exact_new: "graph_wf g \<Longrightarrow> index_exact (registry_new g)"
  by (simp add: index_exact_def registry_new_def index_of_table_def)

section \<open>Lookups\<close>

definition tables_of_items :: "changed_item list \<Rightarrow> string set" where
  "tables_of_items items = {t. \<exists>i \<in> set items. \<exists>ts. changed_tables i = Inr ts \<and> t \<in> set ts}"

definition items_ok :: "changed_item list \<Rightarrow> bool" where
  "items_ok items = (\<forall>i \<in> set items. \<exists>ts. changed_tables i = Inr ts)"

lemma set_fold_set_union: "set (fold (\<lambda>t trs. set_union trs (f t)) ts trs) = set trs \<union> (\<Union>t \<in> set ts. set (f t))"
  by (induction ts arbitrary: trs) auto

lemma relevant_lookup:
  assumes "items_ok items"
  shows "\<exists>trs. relevant_triggers items reg = Inr trs \<and> set trs = (\<Union>t \<in> tables_of_items items. set (index_of_table reg t))"
proof -
  have "items_ok items \<Longrightarrow> \<exists>us. for_res (\<lambda>i ts. rbind (changed_tables i) (\<lambda>us. Inr (set_union ts us))) items ts = Inr us \<and>
      set us = set ts \<union> tables_of_items items" for ts
  proof (induction items arbitrary: ts)
    case (Cons i items)
    then obtain us where us: "changed_tables i = Inr us" by (auto simp: items_ok_def)
    have "tables_of_items (i # items) = set us \<union> tables_of_items items" using us by (auto simp: tables_of_items_def)
    with Cons.IH [of "set_union ts us"] Cons.prems us show ?case by (auto simp: items_ok_def)
  qed (simp add: tables_of_items_def)
  from this [of "[]"] assms obtain us where
    "for_res (\<lambda>i ts. rbind (changed_tables i) (\<lambda>us. Inr (set_union ts us))) items [] = Inr us" "set us = tables_of_items items" by auto
  then show ?thesis by (simp add: relevant_triggers_def set_fold_set_union)
qed

text \<open>
  Registries whose index is recomputed with every change of the rules. Inside one update the engine
  goes through other states: it changes the graph first, maintains the execution triggers, looks the triggers up with
  the old index, and only then recomputes the index; that lookup is the subject of \<open>old_index_finds_all\<close>.
\<close>

inductive registry_reachable :: "trigger_registry \<Rightarrow> bool" where
  new: "graph_wf g \<Longrightarrow> registry_reachable (registry_new g)"
| registered: "registry_reachable reg \<Longrightarrow> register_table t p cb m reg = (Inr tr, reg') \<Longrightarrow> registry_reachable reg'"
| unregistered: "registry_reachable reg \<Longrightarrow> tr \<in> set (triggers reg) \<Longrightarrow> unregister tr reg = (r, reg') \<Longrightarrow> registry_reachable reg'"
| new_rules: "registry_reachable reg \<Longrightarrow> graph_wf g \<Longrightarrow> update_dependencies (reg\<lparr>dep_graph_of := g\<rparr>) = (r, reg') \<Longrightarrow>
    registry_reachable reg'"

lemma reachable_exact: "registry_reachable reg \<Longrightarrow> index_exact reg"
proof (induction rule: registry_reachable.induct)
  case (registered reg t p cb m tr reg')
  then show ?case using register_exact [of reg t p cb m] by auto
next
  case (unregistered reg tr r reg')
  then show ?case using unregister_exact [of reg tr] by auto
next
  case (new_rules reg g r reg')
  then show ?case using update_dependencies_exact [of "reg\<lparr>dep_graph_of := g\<rparr>"] by auto
qed (rule index_exact_new)

lemma index_exactD:
  assumes "index_exact reg"
  shows "set (index_of_table reg t) = {tr \<in> set (triggers reg). (full_table tr, t) \<in> (edge_rel (dep_graph_of reg))\<^sup>*}"
proof -
  have "set (index_of_table reg t) = {tr \<in> set (triggers reg). t \<in> reaches (dep_graph_of reg) (full_table tr)}"
    using assms unfolding index_exact_def by blast
  then show ?thesis unfolding reaches_def Image_singleton_iff .
qed

text \<open>
  C12. However triggers are registered and taken back and the rules are changed, as long as the index was
  recomputed after the last change of the rules, a lookup finds exactly the triggers whose table depends on a
  changed one, through any chain of rules; it raises nothing, and neither does taking back a
  registered trigger.
\<close>

theorem relevant_triggers_exact:
  assumes "registry_reachable reg" "items_ok items"
  shows "\<exists>trs. relevant_triggers items reg = Inr trs \<and>
    set trs = {tr \<in> set (triggers reg). \<exists>t \<in> tables_of_items items. (full_table tr, t) \<in> (edge_rel (dep_graph_of reg))\<^sup>*} \<and>
    (\<forall>tr \<in> set (triggers reg). fst (unregister tr reg) = Inr ())"
proof -
  have ex: "index_exact reg" using assms(1) by (rule reachable_exact)
  note ix = index_exactD [OF ex]
  have "fst (unregister tr reg) = Inr ()" if "tr \<in> set (triggers reg)" for tr
    using unregister_exact [OF ex that] by (elim exE conjE) simp
  moreover obtain trs where trs: "relevant_triggers items reg = Inr trs" "set trs = (\<Union>t \<in> tables_of_items items. set (index_of_table reg t))"
    using relevant_lookup [OF assms(2)] by blast
  moreover have "set trs = {tr \<in> set (triggers reg). \<exists>t \<in> tables_of_items items. (full_table tr, t) \<in> (edge_rel (dep_graph_of reg))\<^sup>*}"
    unfolding trs(2) ix by blast
  ultimately show ?thesis by blast
qed

text \<open>The graph of \<open>p(x) :- q(x, 1), not r(x)\<close> in policy \<open>a\<close>, and a trigger on \<open>a:p\<close>.\<close>

definition in_a :: "formula \<Rightarrow> event" where
  "in_a f = (ins f)\<lparr>target := Some ''a''\<rparr>"

definition rules_only :: selection where
  "rules_only = \<lparr>include_atoms = False, select_head = None, select_body = None\<rparr>"

definition graph_of_events :: "event list \<Rightarrow> dep_graph" where
  "graph_of_events evs = (case formula_update rules_only evs (dep_empty True) of Inr (_, g) \<Rightarrow> g | Inl _ \<Rightarrow> dep_empty True)"

lemma graph_of_events_ok:
  assumes "valid_events rules_only evs {#}"
  shows "dep_of rules_only (graph_of_events evs) (fold spec_event evs {#})" "head_to_body (graph_of_events evs)"
    "graph_wf (graph_of_events evs)"
proof -
  show d: "dep_of rules_only (graph_of_events evs) (fold spec_event evs {#})" and "head_to_body (graph_of_events evs)"
    using formula_update_ok [OF dep_of_empty [of rules_only True] assms, of "[]"] by (auto simp: graph_of_events_def formula_update_def)
  show "graph_wf (graph_of_events evs)"
    by (rule dep_of_edges(1) [OF d]) (rule valid_events_ok [OF assms], simp)
qed

definition registry_with_p :: trigger_registry where
  "registry_with_p = snd (register_table ''p'' (Some ''a'') (External 0) None (registry_new (graph_of_events [in_a (FRule rule_example)])))"

lemma registry_with_p_reachable: "registry_reachable registry_with_p"
proof -
  have v: "valid_events rules_only [in_a (FRule rule_example)] {#}" by code_simp
  have new: "registry_reachable (registry_new (graph_of_events [in_a (FRule rule_example)]))"
    by (rule registry_reachable.new) (rule graph_of_events_ok(3) [OF v])
  obtain tr reg' where r: "register_table ''p'' (Some ''a'') (External 0) None (registry_new (graph_of_events [in_a (FRule rule_example)])) = (Inr tr, reg')"
    using register_exact [OF reachable_exact [OF new]] by blast
  from registry_reachable.registered [OF new r] show ?thesis by (simp add: registry_with_p_def r)
qed

theorem relevant_triggers_exact_witness:
  "\<exists>trs. relevant_triggers [ChangedTable ''a:r'', ChangedTable ''a:s''] registry_with_p = Inr trs \<and>
    set trs = set (triggers registry_with_p) \<and> map trigger_key (triggers registry_with_p) = [(''p'', Some ''a'', None)]"
proof -
  let ?items = "[ChangedTable ''a:r'', ChangedTable ''a:s'']" and ?E = "edge_rel (dep_graph_of registry_with_p)"
  have "items_ok ?items" by (simp add: items_ok_def)
  from relevant_triggers_exact [OF registry_with_p_reachable this] obtain trs where
    trs: "relevant_triggers ?items registry_with_p = Inr trs"
      "set trs = {tr \<in> set (triggers registry_with_p). \<exists>t \<in> tables_of_items ?items. (full_table tr, t) \<in> ?E\<^sup>*}" by blast
  have k: "map trigger_key (triggers registry_with_p) = [(''p'', Some ''a'', None)]" by code_simp
  have f: "map full_table (triggers registry_with_p) = [''a:p'']" by code_simp
  have "graph_edge_in ''a:p'' ''a:r'' True (dep_graph_of registry_with_p)" by code_simp
  then have "(''a:p'', ''a:r'') \<in> ?E\<^sup>*" by (auto simp: graph_edge_in_def intro: edge_relI)
  moreover have "''a:r'' \<in> tables_of_items ?items" by (auto simp: tables_of_items_def)
  ultimately have "set trs = set (triggers registry_with_p)" using f unfolding trs(2) by (auto simp: map_eq_Cons_conv)
  with trs(1) k show ?thesis by (intro exI [of _ trs] conjI)
qed

section \<open>Lookups before the index is recomputed\<close>

text \<open>The marks of a search do not matter.\<close>

lemma dep_of_same_edges:
  assumes "same_edges g g'" "dep_of sel g FS" shows "dep_of sel g' FS" "head_to_body g' = head_to_body g"
proof -
  have fields: "node_refcounts g' = node_refcounts g" "edge_refcounts g' = edge_refcounts g" "store g' = store g"
    "modal_index g' = modal_index g" and h: "head_to_body g' = head_to_body g"
    using assms(1) by (cases g; cases g'; simp add: same_edges_def)+
  have "edges g' = edges g" "dkeys (nodes g') = dkeys (nodes g)" using assms(1) by (simp_all add: same_edges_def)
  then show "dep_of sel g' FS"
    using assms(2) fields unfolding dep_of_def bag_rep_def node_set_def edges_of_def h by simp
  show "head_to_body g' = head_to_body g" by (rule h)
qed

text \<open>New edges start at heads of the batch.\<close>

lemma new_edges_from_heads:
  assumes "dep_of sel g FS" "head_to_body g" "dep_of sel g' (fold spec_event evs FS)" "head_to_body g'"
    "\<And>ft. ft \<in># FS \<Longrightarrow> formula_ok sel (fst ft)" "valid_events sel evs FS" "(u, v) \<in> edge_rel g'" "(u, v) \<notin> edge_rel g"
  shows "u \<in> tables_of_items (map ChangedBy evs)"
proof -
  have ok': "formula_ok sel (fst ft)" if "ft \<in># fold spec_event evs FS" for ft using valid_events_ok [OF assms(6,5) that] .
  obtain l where l: "(v, l) \<in> set (edges_of g' u)" "(v, l) \<notin> set (edges_of g u)" using assms(7,8) by (auto simp: edge_rel_def)
  obtain ft where ft: "ft \<in># fold spec_event evs FS" "(u, v, l) \<in> dep_edges sel True ft" "ft \<notin># FS"
    using l dep_of_edges(2) [OF assms(3) ok'] dep_of_edges(2) [OF assms(1,5)] assms(2,4) by auto
  have "ft \<in># fold spec_event evs FS \<Longrightarrow> ft \<in># FS \<or> (\<exists>e \<in> set evs. event_key e = ft)" for FS
  proof (induction evs arbitrary: FS)
    case (Cons e evs)
    from Cons.IH [of "spec_event e FS"] Cons.prems show ?case by (auto simp: spec_event_def dest: in_diffD split: if_splits)
  qed simp
  with ft obtain e where e: "e \<in> set evs" "event_key e = ft" by blast
  then obtain r where r: "formula e = FRule r" using ft(2) by (auto simp: dep_edges_def event_key_def split: formula.splits)
  with e ft(2) have "\<exists>h \<in> set (heads r). u = global_tablename (target e) (table h)"
    by (auto simp: dep_edges_def event_key_def dep_heads_def Let_def split: if_splits)
  then have "u \<in> set (map (\<lambda>l. global_tablename (target e) (table l)) (heads r))" by auto
  moreover have "changed_tables (ChangedBy e) = Inr (map (\<lambda>l. global_tablename (target e) (table l)) (heads r))" using r by simp
  moreover have "ChangedBy e \<in> set (map ChangedBy evs)" using e(1) by simp
  ultimately show ?thesis unfolding tables_of_items_def by blast
qed

text \<open>
  C13. The engine looks up the triggers of a batch of rule changes with the index from before the
  batch. Nothing is missed: every registered trigger whose table depends, by the rules after the
  batch, on a table that the batch changes is found by the old index.
\<close>

theorem old_index_finds_all:
  assumes "registry_reachable reg" "dep_of rules_only (dep_graph_of reg) FS" "head_to_body (dep_graph_of reg)"
    "\<And>ft. ft \<in># FS \<Longrightarrow> formula_ok rules_only (fst ft)" "valid_events rules_only evs FS"
    "items_ok (map ChangedBy evs)"
  shows "\<exists>ch g trs. formula_update rules_only evs (dep_graph_of reg) = Inr (ch, g) \<and>
    relevant_triggers (map ChangedBy evs) (reg\<lparr>dep_graph_of := g\<rparr>) = Inr trs \<and>
    {tr \<in> set (triggers reg). \<exists>t \<in> tables_of_items (map ChangedBy evs). (full_table tr, t) \<in> (edge_rel g)\<^sup>*} \<subseteq> set trs"
proof -
  let ?T = "tables_of_items (map ChangedBy evs)" and ?E = "edge_rel (dep_graph_of reg)"
  obtain ch g where g: "formula_update rules_only evs (dep_graph_of reg) = Inr (ch, g)" "dep_of rules_only g (fold spec_event evs FS)"
    "head_to_body g" using formula_update_ok [OF assms(2,5), of "[]"] assms(3) by (auto simp: formula_update_def)
  note ix = index_exactD [OF reachable_exact [OF assms(1)]]
  have new: "u \<in> ?T" if "(u, v) \<in> edge_rel g" "(u, v) \<notin> ?E" for u v
    using new_edges_from_heads [OF assms(2,3) g(2,3) assms(4,5) that] by blast
  have walk: "\<exists>t \<in> ?T. (x, t) \<in> ?E\<^sup>*" if "(x, t) \<in> (edge_rel g)\<^sup>*" "t \<in> ?T" for x t
    using that
  proof (induction rule: converse_rtrancl_induct)
    case (step x y)
    then show ?case using new [of x y] by (cases "(x, y) \<in> ?E") (auto intro: converse_rtrancl_into_rtrancl)
  qed auto
  obtain trs where trs: "relevant_triggers (map ChangedBy evs) (reg\<lparr>dep_graph_of := g\<rparr>) = Inr trs"
    "set trs = (\<Union>t \<in> ?T. set (index_of_table reg t))"
    using relevant_lookup [OF assms(6), of "reg\<lparr>dep_graph_of := g\<rparr>"] by (auto simp: index_of_table_def)
  have "{tr \<in> set (triggers reg). \<exists>t \<in> ?T. (full_table tr, t) \<in> (edge_rel g)\<^sup>*} \<subseteq> set trs"
    using walk unfolding trs(2) ix by blast
  with g(1) trs(1) show ?thesis by blast
qed


text \<open>\<open>q(x, y) :- s(x)\<close> is added: the trigger on \<open>p\<close> is found.\<close>

definition q_rule :: rule where
  "q_rule = \<lparr>heads = [lit ''q'' [Variable ''x'', Variable ''y'']], body = [lit ''s'' [Variable ''x'']]\<rparr>"

theorem old_index_finds_all_witness:
  "\<exists>ch g trs. formula_update rules_only [in_a (FRule q_rule)] (dep_graph_of registry_with_p) = Inr (ch, g) \<and>
     relevant_triggers [ChangedBy (in_a (FRule q_rule))] (registry_with_p\<lparr>dep_graph_of := g\<rparr>) = Inr trs \<and>
     (\<forall>tr \<in> set (triggers registry_with_p). (full_table tr, ''a:q'') \<in> (edge_rel g)\<^sup>* \<longrightarrow> tr \<in> set trs)"
proof -
  let ?ev0 = "[in_a (FRule rule_example)]" and ?evs = "[in_a (FRule q_rule)]" and ?g = "graph_of_events [in_a (FRule rule_example)]"
  have v0: "valid_events rules_only ?ev0 {#}" by code_simp
  have fs: "fold spec_event ?ev0 {#} = {#(FRule rule_example, Some ''a'')#}"
    by (simp add: spec_event_def event_key_def in_a_def ins_def)
  have ok: "formula_ok rules_only (FRule rule_example)" "formula_ok rules_only (FRule q_rule)" by code_simp+
  have v: "valid_events rules_only ?evs {#(FRule rule_example, Some ''a'')#}" using ok by (simp add: in_a_def ins_def)
  have "same_edges ?g (dep_graph_of registry_with_p)"
    using register_exact [OF index_exact_new [OF graph_of_events_ok(3) [OF v0]], of "''p''" "Some ''a''" "External 0" None]
    by (auto simp: registry_new_def registry_with_p_def)
  note dep = dep_of_same_edges [OF this graph_of_events_ok(1) [OF v0, unfolded fs]]
  have "items_ok (map ChangedBy ?evs)" by (simp add: items_ok_def in_a_def ins_def)
  from old_index_finds_all [OF registry_with_p_reachable dep(1) _ _ v this] dep(2) graph_of_events_ok(2) [OF v0] ok
  obtain ch g trs where r: "formula_update rules_only ?evs (dep_graph_of registry_with_p) = Inr (ch, g)"
    "relevant_triggers (map ChangedBy ?evs) (registry_with_p\<lparr>dep_graph_of := g\<rparr>) = Inr trs"
    "{tr \<in> set (triggers registry_with_p). \<exists>t \<in> tables_of_items (map ChangedBy ?evs). (full_table tr, t) \<in> (edge_rel g)\<^sup>*} \<subseteq> set trs"
    by auto
  have "changed_tables (ChangedBy (in_a (FRule q_rule))) = Inr [''a:q'']" by code_simp
  then have "''a:q'' \<in> tables_of_items (map ChangedBy ?evs)" by (simp add: tables_of_items_def)
  with r show ?thesis by auto
qed

end
