(* ===== verification/Runtime.thy ===== *)
theory Runtime
  imports Trigger_Registry Top_Down Column_Refs Rule_Analysis
begin

text \<open>
  The agnostic policy engine (\<open>agnostic.py\<close>: \<open>Runtime\<close> and the parts of \<open>DseRuntime\<close> that react
  to its updates): the dictionary of policies, the dependency graph of all their rules, the
  triggers, and the events that wait for a schema.

  The dictionary of policies is the \<open>world\<close> of the theory Policy: policies of the kinds
  nonrecursive, action and datasource, under their keys. What stands outside the repository's
  code is a field of the environment: the generated parser, and whether the bus knows a service.
  What the engine does to the outside world is a list of effects, in order.
\<close>

declare map_of_eq_Some_iff [simp del] Some_eq_map_of_iff [simp del]

section \<open>State\<close>

record 'c rt_env =
  datalog_env :: "'c env"
  search_fuel :: nat
  parse_policy :: "world \<Rightarrow> string \<Rightarrow> formula list res"
  service_exists :: "string \<Rightarrow> bool"

datatype outcome =
    Called nat table_key "literal list" "literal list"
  | Published string "pyval list list"
  | LoggedExecution string string "pyval list"
  | SentRequest string string "pyval list"
  | LoggedError exc
  | Subscribed string string
  | Unsubscribed string string

record sub_data =
  sd_trigger :: trigger
  sd_to_add :: "literal list"
  sd_to_rem :: "literal list"

text \<open>The attributes of a policy object that do not follow its key.\<close>

record policy_attrs =
  pa_name :: string
  pa_id :: "string option"

record runtime =
  rt_theory :: world
  rt_attrs :: "(string, policy_attrs) dict"
  rt_registry :: trigger_registry
  execution_triggers :: "(string, trigger) dict"
  disabled_events :: "event list"
  error_events :: "(event \<times> exc list) list"
  policy_sub_data :: "(table_key, sub_data) dict"
  on_dse :: bool
  enable_execute_action :: bool
  rt_effects :: "outcome list"

definition runtime_new :: "bool \<Rightarrow> bool \<Rightarrow> runtime" where
  "runtime_new dse enable =
     \<lparr>rt_theory = [], rt_attrs = [], rt_registry = registry_new (dep_empty True), execution_triggers = [],
      disabled_events = [], error_events = [], policy_sub_data = [], on_dse = dse, enable_execute_action = enable,
      rt_effects = []\<rparr>"

definition on_theory :: "(world, 'a) stm \<Rightarrow> (runtime, 'a) stm" where
  "on_theory f rt = (case f (rt_theory rt) of (r, w) \<Rightarrow> (r, rt\<lparr>rt_theory := w\<rparr>))"

definition on_registry :: "(trigger_registry, 'a) stm \<Rightarrow> (runtime, 'a) stm" where
  "on_registry f rt = (case f (rt_registry rt) of (r, g) \<Rightarrow> (r, rt\<lparr>rt_registry := g\<rparr>))"

definition lift_res :: "'a res \<Rightarrow> ('s, 'a) stm" where
  "lift_res r s = (r, s)"

definition effect :: "outcome \<Rightarrow> (runtime, unit) stm" where
  "effect x rt = (Inr (), rt\<lparr>rt_effects := rt_effects rt @ [x]\<rparr>)"

section \<open>Policies\<close>

datatype rule_class = NonrecursiveRuleTheory | ActionTheory | DatasourcePolicyTheory
datatype theory_class = RuleClass rule_class | DatabaseClass | MaterializedViewClass

text \<open>The class for a kind; Z3 is not available.\<close>

definition policy_class :: "string option \<Rightarrow> theory_class res" where
  "policy_class kind =
     (let k = (case kind of None \<Rightarrow> NONRECURSIVE_POLICY_TYPE | Some k \<Rightarrow> to_lower k) in
      if k = NONRECURSIVE_POLICY_TYPE then Inr (RuleClass NonrecursiveRuleTheory)
      else if k = ACTION_POLICY_TYPE then Inr (RuleClass ActionTheory)
      else if k = ''database'' then Inr DatabaseClass
      else if k = ''materialized'' then Inr MaterializedViewClass
      else if k = DATASOURCE_POLICY_TYPE then Inr (RuleClass DatasourcePolicyTheory)
      else Inl PolicyException)"

definition policy_of_class :: "rule_class \<Rightarrow> policy" where
  "policy_of_class c = (case c of NonrecursiveRuleTheory \<Rightarrow> nonrecursive_theory None True
     | ActionTheory \<Rightarrow> action_theory None True | DatasourcePolicyTheory \<Rightarrow> datasource_theory None True)"

definition add_policy_obj_to_runtime :: "string \<Rightarrow> string option \<Rightarrow> policy \<Rightarrow> (runtime, unit) stm" where
  "add_policy_obj_to_runtime name pid p rt =
     (if map_of (rt_theory rt) name \<noteq> None then (Inl KeyError, rt)
      else (Inr (), rt\<lparr>rt_theory := AList.update name p (rt_theory rt),
                       rt_attrs := AList.update name \<lparr>pa_name = name, pa_id = pid\<rparr> (rt_attrs rt)\<rparr>))"

definition create_policy :: "string \<Rightarrow> rule_class \<Rightarrow> string option \<Rightarrow> (runtime, unit) stm" where
  "create_policy name c pid = add_policy_obj_to_runtime name pid (policy_of_class c)"

text \<open>A policy is renamed in the dictionary; the object keeps its name.\<close>

definition rename_policy :: "string \<Rightarrow> string \<Rightarrow> (runtime, unit) stm" where
  "rename_policy old new rt =
     (if map_of (rt_theory rt) new \<noteq> None then (Inl KeyError, rt)
      else (case (map_of (rt_theory rt) old, map_of (rt_attrs rt) old) of
         (Some p, Some a) \<Rightarrow>
           (Inr (), rt\<lparr>rt_theory := AList.delete old (AList.update new p (rt_theory rt)),
                       rt_attrs := AList.delete old (AList.update new a (rt_attrs rt))\<rparr>)
       | _ \<Rightarrow> (Inl KeyError, rt)))"

definition policy_names :: "runtime \<Rightarrow> string list" where
  "policy_names rt = dkeys (rt_theory rt)"

definition assert_policy_exists :: "string \<Rightarrow> runtime \<Rightarrow> unit res" where
  "assert_policy_exists name rt = (if map_of (rt_theory rt) name = None then Inl PolicyRuntimeException else Inr ())"

text \<open>
  The key of the policy that a name or an id stands for. A name with another id is not an error:
  the function ends without a result.
\<close>

definition py_str :: "string option \<Rightarrow> string" where
  "py_str x = (case x of None \<Rightarrow> ''None'' | Some s \<Rightarrow> s)"

definition policy_object :: "string option \<Rightarrow> string option \<Rightarrow> runtime \<Rightarrow> string option res" where
  "policy_object name pid rt =
     (if \<not> truthy name \<and> \<not> truthy pid then Inl AssertionError
      else if truthy name then
        (if \<not> truthy pid then (if map_of (rt_theory rt) (the name) = None then Inl KeyError else Inr name)
         else (case map_of (rt_attrs rt) (the name) of
           None \<Rightarrow> Inl KeyError
         | Some a \<Rightarrow> Inr (if py_str (pa_id a) = py_str pid then name else None)))
      else (case find (\<lambda>n. map_option (py_str \<circ> pa_id) (map_of (rt_attrs rt) n) = Some (py_str pid)) (policy_names rt) of
           None \<Rightarrow> Inl KeyError
         | Some n \<Rightarrow> Inr (Some n)))"

definition policy_type :: "string \<Rightarrow> runtime \<Rightarrow> string res" where
  "policy_type name rt =
     rbind (policy_object (Some name) None rt) (\<lambda>k. case k of
       None \<Rightarrow> Inl AttributeError
     | Some k \<Rightarrow> Inr (pkind (policy_at (rt_theory rt) k)))"

definition get_target :: "string option \<Rightarrow> runtime \<Rightarrow> string res" where
  "get_target name rt =
     (case name of
        None \<Rightarrow> (case rt_theory rt of [(n, _)] \<Rightarrow> Inr n | _ \<Rightarrow> Inl PolicyException)
      | Some n \<Rightarrow> if map_of (rt_theory rt) n = None then Inl PolicyException else Inr n)"

definition name_of :: "string \<Rightarrow> runtime \<Rightarrow> string" where
  "name_of key rt = (case map_of (rt_attrs rt) key of None \<Rightarrow> key | Some a \<Rightarrow> pa_name a)"

definition get_target_name :: "string option \<Rightarrow> runtime \<Rightarrow> string res" where
  "get_target_name name rt = rbind (get_target name rt) (\<lambda>k. Inr (name_of k rt))"

definition find_policy_name :: "string \<Rightarrow> runtime \<Rightarrow> string res" where
  "find_policy_name x rt =
     (if map_of (rt_theory rt) x \<noteq> None then Inr x
      else (case find (\<lambda>(k, a). pa_id a = Some x) (rt_attrs rt) of
         None \<Rightarrow> Inl KeyError
       | Some (k, a) \<Rightarrow> Inr (pa_name a)))"

definition rt_theories :: "runtime \<Rightarrow> theories" where
  "rt_theories rt = Some (map (\<lambda>(k, p). (k, \<lparr>pi_schema = pschema p, pi_kind = pkind p, pi_name = name_of k rt\<rparr>)) (rt_theory rt))"
section \<open>Events that wait for a schema\<close>

fun eliminate_column_references :: "theories \<Rightarrow> string option \<Rightarrow> formula \<Rightarrow> formula res" where
  "eliminate_column_references ths dflt (FLit l) = rbind (lit_eliminate_column_references ths dflt [] l) (\<lambda>l. Inr (FLit l))"
| "eliminate_column_references ths dflt (FRule r) = rbind (rule_eliminate_column_references ths dflt r) (\<lambda>r. Inr (FRule r))"
| "eliminate_column_references ths dflt (FFact f) = Inl AttributeError"

fun check_schema_consistency :: "theories \<Rightarrow> string option \<Rightarrow> formula \<Rightarrow> exc list res" where
  "check_schema_consistency ths th (FLit l) = Inr (literal_schema_consistency ths th l)"
| "check_schema_consistency ths th (FRule r) = Inr (rule_check_schema ths th r)"
| "check_schema_consistency ths th (FFact f) = Inl AttributeError"

definition with_formula :: "formula \<Rightarrow> event \<Rightarrow> event" where
  "with_formula f e = \<lparr>formula = f, is_insert = is_insert e, target = target e\<rparr>"

record limbo =
  enabled :: "event list"
  disabled :: "event list"
  limbo_errors :: "(event \<times> exc list) list"

text \<open>
  One event: the formula is replaced in the event itself. The event counts as enabled before it
  is checked against the schemas.
\<close>

definition process_limbo_event :: "theories \<Rightarrow> bool \<Rightarrow> event \<Rightarrow> limbo \<Rightarrow> limbo res" where
  "process_limbo_event ths persistent e l =
     (case eliminate_column_references ths (target e) (formula e) of
        Inl IncompleteSchemaException \<Rightarrow>
          if persistent then Inl PolicyException else Inr (l\<lparr>disabled := disabled l @ [e]\<rparr>)
      | Inl PolicyException \<Rightarrow> Inr (l\<lparr>limbo_errors := limbo_errors l @ [(e, [PolicyException])]\<rparr>)
      | Inl x \<Rightarrow> Inl x
      | Inr f \<Rightarrow>
          (let e = with_formula f e; l = l\<lparr>enabled := enabled l @ [e]\<rparr> in
           rbind (check_schema_consistency ths (target e) f) (\<lambda>errs.
             Inr (if errs \<noteq> [] then l\<lparr>limbo_errors := limbo_errors l @ [(e, errs)]\<rparr> else l))))"

definition process_limbo_events :: "theories \<Rightarrow> bool \<Rightarrow> event list \<Rightarrow> limbo res" where
  "process_limbo_events ths persistent events =
     for_res (process_limbo_event ths persistent) events \<lparr>enabled = [], disabled = [], limbo_errors = []\<rparr>"

section \<open>Contents of tables\<close>

text \<open>\<open>arity\<close>: first what the policy knows, then the policy that the table's name mentions.\<close>

definition runtime_arity :: "string \<Rightarrow> string option \<Rightarrow> string option \<Rightarrow> (runtime, nat option) stm" where
  "runtime_arity t theory mdl rt =
     (case get_target theory rt of
        Inl e \<Rightarrow> (Inl e, rt)
      | Inr k \<Rightarrow>
          sbind (on_theory (policy_arity k (Inl t) mdl)) (\<lambda>a.
            case a of
              Some n \<Rightarrow> sret (Some n)
            | None \<Rightarrow>
                (case parse_service_table t of
                   (None, _) \<Rightarrow> sret None
                 | (Some pol, tablename) \<Rightarrow> (\<lambda>rt.
                     if map_of (rt_theory rt) pol = None then (Inr None, rt)
                     else on_theory (policy_arity pol (Inl tablename) mdl) rt))) rt)"

definition contents_query :: "string \<Rightarrow> nat \<Rightarrow> string option \<Rightarrow> string" where
  "contents_query t n mdl =
     (let atom = t @ ''('' @ join_with '','' (map (\<lambda>i. ''x'' @ nat_str i) [0..<n]) @ '')''
      in case mdl of None \<Rightarrow> atom | Some m \<Rightarrow> m @ ''['' @ atom @ '']'')"

definition table_contents_queries :: "string \<Rightarrow> string option \<Rightarrow> string option \<Rightarrow> (runtime, string list option) stm" where
  "table_contents_queries t pol mdl =
     sbind (runtime_arity t pol mdl) (\<lambda>a. sret (map_option (\<lambda>n. [contents_query t n mdl]) a))"

definition parse1 :: "'c rt_env \<Rightarrow> string \<Rightarrow> runtime \<Rightarrow> formula res" where
  "parse1 E s rt = rbind (parse_policy E (rt_theory rt) s) (\<lambda>fs. case fs of [] \<Rightarrow> Inl IndexError | f # _ \<Rightarrow> Inr f)"

definition select_obj :: "'c rt_env \<Rightarrow> formula \<Rightarrow> string \<Rightarrow> (runtime, formula list) stm" where
  "select_obj E query k = on_theory (select_query (search_fuel E) (datalog_env E) k query True)"

definition select_string :: "'c rt_env \<Rightarrow> string \<Rightarrow> string \<Rightarrow> (runtime, formula list) stm" where
  "select_string E s k rt =
     (case parse_policy E (rt_theory rt) s of
        Inl e \<Rightarrow> (Inl e, rt)
      | Inr fs \<Rightarrow> if length fs \<noteq> 1 then (Inl AssertionError, rt) else select_obj E (hd fs) k rt)"

definition answer_literals :: "formula list \<Rightarrow> literal list" where
  "answer_literals fs = [l. FLit l \<leftarrow> fs]"

text \<open>The sets are kept as lists; they are only compared and subtracted as sets.\<close>

definition query_contents :: "'c rt_env \<Rightarrow> string option \<Rightarrow> string \<Rightarrow> literal list \<Rightarrow> (runtime, literal list) stm" where
  "query_contents E pol query data rt =
     (case rbind (get_target pol rt) (\<lambda>k. rbind (parse1 E query rt) (\<lambda>q. Inr (k, q))) of
        Inl e \<Rightarrow> (Inl e, rt)
      | Inr (k, q) \<Rightarrow> sbind (select_obj E q k) (\<lambda>fs. sret (set_union data (answer_literals fs))) rt)"

type_synonym table_data = "(table_key, literal list) dict"

definition key_contents :: "'c rt_env \<Rightarrow> table_key \<Rightarrow> table_data \<Rightarrow> (runtime, table_data) stm" where
  "key_contents E key data =
     (case key of (t, pol, mdl) \<Rightarrow>
        sbind (\<lambda>rt. lift_res (get_target pol rt) rt) (\<lambda>_.
        sbind (table_contents_queries t pol mdl) (\<lambda>qs.
        sbind (for_st (query_contents E pol) (case qs of None \<Rightarrow> [] | Some qs \<Rightarrow> qs) []) (\<lambda>ls.
          sret (AList.update key ls data)))))"

definition compute_table_contents :: "'c rt_env \<Rightarrow> table_key list \<Rightarrow> (runtime, table_data) stm" where
  "compute_table_contents E keys = for_st (key_contents E) keys []"

section \<open>Callbacks\<close>

definition argument_values :: "literal \<Rightarrow> pyval list" where
  "argument_values l = map arg_name (arguments l)"

text \<open>\<open>execute_action\<close>; sending the request is an effect.\<close>

definition execute_action :: "'c rt_env \<Rightarrow> string \<Rightarrow> string \<Rightarrow> pyval list \<Rightarrow> (runtime, unit) stm" where
  "execute_action E srv action args rt =
     (if \<not> enable_execute_action rt then (Inr (), rt)
      else sbind (effect (LoggedExecution srv action args)) (\<lambda>_.
        if \<not> service_exists E srv then sraise PolicyException
        else if action = [] then sraise PolicyException
        else effect (SentRequest srv action args)) rt)"

definition execute_table ::
    "'c rt_env \<Rightarrow> string option \<Rightarrow> string \<Rightarrow> literal list \<Rightarrow> literal list \<Rightarrow> (runtime, unit) stm" where
  "execute_table E theory t old new =
     (case parse_service_table t of (srv, tablename) \<Rightarrow>
        for_st (\<lambda>l _ rt.
          (case execute_action E (py_str (or_else srv theory)) tablename (argument_values l) rt of
             (Inl PolicyException, rt) \<Rightarrow> effect (LoggedError PolicyException) rt
           | r \<Rightarrow> r)) (set_minus new old) ())"

definition pub_policy_result :: "table_key \<Rightarrow> literal list \<Rightarrow> literal list \<Rightarrow> (runtime, unit) stm" where
  "pub_policy_result key old new rt =
     (case map_of (policy_sub_data rt) key of
        None \<Rightarrow> (Inl KeyError, rt)
      | Some sd \<Rightarrow>
          effect (Published (full_table (sd_trigger sd)) (map argument_values new))
            (rt\<lparr>policy_sub_data := AList.update key
                 (sd\<lparr>sd_to_add := set_minus new old, sd_to_rem := set_minus old new\<rparr>) (policy_sub_data rt)\<rparr>))"

definition run_callback ::
    "'c rt_env \<Rightarrow> table_key \<Rightarrow> literal list \<Rightarrow> literal list \<Rightarrow> trigger \<Rightarrow> (runtime, unit) stm" where
  "run_callback E key old new tr =
     (case tr_callback tr of
        External i \<Rightarrow> effect (Called i key old new)
      | PubPolicyResult \<Rightarrow> pub_policy_result key old new
      | ExecuteTable pol t \<Rightarrow> execute_table E pol t old new)"

text \<open>The callbacks of the tables whose contents differ.\<close>

definition contents_of :: "table_data \<Rightarrow> table_key \<Rightarrow> literal list" where
  "contents_of data key = (case map_of data key of Some ls \<Rightarrow> ls | None \<Rightarrow> [])"

definition run_triggers ::
    "'c rt_env \<Rightarrow> (table_key, trigger list) dict \<Rightarrow> table_data \<Rightarrow> table_data \<Rightarrow> (runtime, unit) stm" where
  "run_triggers E table_triggers old new =
     for_st (\<lambda>(key, trs) _.
       let a = contents_of old key; b = contents_of new key in
       if set a \<noteq> set b then for_st (\<lambda>tr _. run_callback E key a b tr) trs () else sret ()) table_triggers ()"

section \<open>Execution triggers\<close>

text \<open>
  \<open>_maintain_triggers\<close>: a trigger for each table that is the head of a rule with the modal
  execute. The callbacks made by one call share the variables \<open>policy\<close> and \<open>tablename\<close> of that call,
  so that all of them act on the last table.
\<close>

definition EXECUTE :: string where
  "EXECUTE = ''execute''"

definition register_execution :: "string option \<times> string \<Rightarrow> string \<Rightarrow> (runtime, unit) stm" where
  "register_execution shared t =
     (case parse_service_table t of (pol, tablename) \<Rightarrow>
        sbind (on_registry (register_table tablename pol (ExecuteTable (fst shared) (snd shared)) (Some EXECUTE))) (\<lambda>tr rt.
          (Inr (), rt\<lparr>execution_triggers := AList.update t tr (execution_triggers rt)\<rparr>)))"

definition remove_stale_trigger :: "string list \<Rightarrow> string \<Rightarrow> (runtime, unit) stm" where
  "remove_stale_trigger current t rt =
     (if t \<in> set current then (Inr (), rt)
      else (case map_of (execution_triggers rt) t of
         None \<Rightarrow> (Inr (), rt)
       | Some tr \<Rightarrow>
           (case on_registry (unregister tr) rt of
              (Inl KeyError, rt) \<Rightarrow> (Inr (), rt)
            | (Inl e, rt) \<Rightarrow> (Inl e, rt)
            | (Inr _, rt) \<Rightarrow> (Inr (), rt\<lparr>execution_triggers := AList.delete t (execution_triggers rt)\<rparr>))))"

definition maintain_triggers :: "(runtime, unit) stm" where
  "maintain_triggers rt =
     (if \<not> on_dse rt then (Inr (), rt)
      else (let current = remdups (tables_with_modal EXECUTE (dep_graph_of (rt_registry rt)));
                missing = filter (\<lambda>t. map_of (execution_triggers rt) t = None) current;
                shared = (if missing = [] then (None, []) else parse_service_table (last missing))
            in sbind (for_st (\<lambda>t _. register_execution shared t) missing ()) (\<lambda>_ rt.
                 for_st (\<lambda>t _. remove_stale_trigger current t) (dkeys (execution_triggers rt)) () rt) rt))"

section \<open>Updates\<close>

datatype update_result = Rejected "exc list" | Accepted "event list"

definition runtime_actual_events :: "event list \<Rightarrow> runtime \<Rightarrow> event list res" where
  "runtime_actual_events events rt =
     for_res (\<lambda>e actual. rbind (get_target (target e) rt) (\<lambda>k.
         rbind (Policy.actual_events k [e] (rt_theory rt)) (\<lambda>es. Inr (actual @ es)))) events []"

definition group_events_by_target :: "event list \<Rightarrow> (string option, event list) dict" where
  "group_events_by_target events =
     fold (\<lambda>e d. case map_of d (target e) of
         None \<Rightarrow> AList.update (target e) [e] d
       | Some es \<Rightarrow> AList.update (target e) (es @ [e]) d) events []"

definition update_errors :: "'c rt_env \<Rightarrow> string \<Rightarrow> event list \<Rightarrow> world \<Rightarrow> exc list res" where
  "update_errors E k events w =
     (let R = registry_of (datalog_env E) in
      if pkind (policy_at w k) = ACTION_POLICY_TYPE then action_update_errors R k events w
      else update_would_cause_errors R k events w)"

definition all_update_errors :: "'c rt_env \<Rightarrow> (string option, event list) dict \<Rightarrow> runtime \<Rightarrow> exc list res" where
  "all_update_errors E by_target rt =
     for_res (\<lambda>(th, es) errors. rbind (get_target th rt) (\<lambda>k.
         rbind (update_errors E k es (rt_theory rt)) (\<lambda>errs. Inr (errors @ errs)))) by_target []"

definition update_graph :: "event list \<Rightarrow> (trigger_registry, change list) stm" where
  "update_graph events reg =
     (case formula_update rules_only events (dep_graph_of reg) of
        Inl e \<Rightarrow> (Inl e, reg)
      | Inr (chs, g) \<Rightarrow> (Inr chs, reg\<lparr>dep_graph_of := g\<rparr>))"

text \<open>A recursive batch is taken back.\<close>

definition reject_recursion :: "change list \<Rightarrow> (trigger_registry, bool) stm" where
  "reject_recursion chs reg =
     (if chs = [] then (Inr False, reg)
      else (case has_cycle (dep_graph_of reg) of
         Inl e \<Rightarrow> (Inl e, reg)
       | Inr (False, g) \<Rightarrow> (Inr False, reg\<lparr>dep_graph_of := g\<rparr>)
       | Inr (True, g) \<Rightarrow>
           (case undo_changes chs g of
              Inl e \<Rightarrow> (Inl e, reg\<lparr>dep_graph_of := g\<rparr>)
            | Inr g \<Rightarrow> (Inr True, reg\<lparr>dep_graph_of := g\<rparr>))))"

text \<open>Every target gets all events of the batch.\<close>

definition apply_events :: "'c rt_env \<Rightarrow> (string option, event list) dict \<Rightarrow> event list \<Rightarrow> (runtime, event list) stm" where
  "apply_events E by_target events =
     for_st (\<lambda>(th, es) changes rt.
         case get_target th rt of
           Inl e \<Rightarrow> (Inl e, rt)
         | Inr k \<Rightarrow> sbind (on_theory (update_policy (registry_of (datalog_env E)) k events)) (\<lambda>chs. sret (changes @ chs)) rt)
       by_target []"

definition with_triggers ::
    "'c rt_env \<Rightarrow> trigger list \<Rightarrow> (runtime, 'a) stm \<Rightarrow> (runtime, 'a) stm" where
  "with_triggers E trs act =
     (let table_triggers = triggers_by_table trs in
      sbind (compute_table_contents E (dkeys table_triggers)) (\<lambda>old.
      sbind act (\<lambda>x.
      sbind (compute_table_contents E (dkeys table_triggers)) (\<lambda>new.
      sbind (run_triggers E table_triggers old new) (\<lambda>_. sret x)))))"

definition accept_events :: "'c rt_env \<Rightarrow> event list \<Rightarrow> (runtime, update_result) stm" where
  "accept_events E events =
     sbind maintain_triggers (\<lambda>_.
     sbind (\<lambda>rt. lift_res (relevant_triggers (map ChangedBy events) (rt_registry rt)) rt) (\<lambda>trs.
     sbind (on_registry update_dependencies) (\<lambda>_.
     sbind (with_triggers E trs (apply_events E (group_events_by_target events) events)) (\<lambda>changes.
       sret (Accepted changes)))))"

definition update_obj_datalog :: "'c rt_env \<Rightarrow> event list \<Rightarrow> (runtime, update_result) stm" where
  "update_obj_datalog E events =
     sbind (\<lambda>rt. lift_res (runtime_actual_events events rt) rt) (\<lambda>events.
     if events = [] then sret (Accepted [])
     else sbind (\<lambda>rt. lift_res (all_update_errors E (group_events_by_target events) rt) rt) (\<lambda>errors.
       if errors \<noteq> [] then sret (Rejected errors)
       else sbind (on_registry (update_graph events)) (\<lambda>chs.
            sbind (on_registry (reject_recursion chs)) (\<lambda>recursive.
              if recursive then sret (Rejected [PolicyException]) else accept_events E events))))"

text \<open>Targets are resolved first; unknown ones are reported together.\<close>

definition resolve_targets :: "string option \<Rightarrow> event list \<Rightarrow> runtime \<Rightarrow> exc list \<times> event list" where
  "resolve_targets theory events rt =
     fold (\<lambda>e (errors, es).
       let th = (case target e of None \<Rightarrow> theory | t \<Rightarrow> t) in
       (case get_target_name th rt of
          Inl x \<Rightarrow> (errors @ [x], es @ [e\<lparr>target := th\<rparr>])
        | Inr n \<Rightarrow> (errors, es @ [e\<lparr>target := Some n\<rparr>]))) events ([], [])"

definition update_obj :: "'c rt_env \<Rightarrow> event list \<Rightarrow> string option \<Rightarrow> bool \<Rightarrow> (runtime, update_result) stm" where
  "update_obj E events theory persistent rt =
     (case resolve_targets theory events rt of (errors, events) \<Rightarrow>
        if errors \<noteq> [] then (Inr (Rejected errors), rt)
        else (case process_limbo_events (rt_theories rt) persistent events of
           Inl e \<Rightarrow> (Inl e, rt)
         | Inr l \<Rightarrow>
             (let errors = concat (map snd (limbo_errors l)) in
              if errors \<noteq> [] then (Inr (Rejected errors), rt)
              else sbind (update_obj_datalog E (enabled l)) (\<lambda>r rt.
                case r of
                  Rejected es \<Rightarrow> (Inr (Rejected es), rt)
                | Accepted chs \<Rightarrow> (Inr (Accepted chs), rt\<lparr>disabled_events := disabled_events rt @ disabled l\<rparr>)) rt)))"

definition insert_obj :: "'c rt_env \<Rightarrow> formula \<Rightarrow> string option \<Rightarrow> (runtime, update_result) stm" where
  "insert_obj E f theory = update_obj E [\<lparr>formula = f, is_insert = True, target = theory\<rparr>] theory False"

definition delete_obj :: "'c rt_env \<Rightarrow> formula \<Rightarrow> string option \<Rightarrow> (runtime, update_result) stm" where
  "delete_obj E f theory = update_obj E [\<lparr>formula = f, is_insert = False, target = theory\<rparr>] theory False"

definition update_string :: "'c rt_env \<Rightarrow> bool \<Rightarrow> string \<Rightarrow> string option \<Rightarrow> (runtime, update_result) stm" where
  "update_string E inserting s theory rt =
     (case parse_policy E (rt_theory rt) s of
        Inl e \<Rightarrow> (Inl e, rt)
      | Inr fs \<Rightarrow> update_obj E (map (\<lambda>f. \<lparr>formula = f, is_insert = inserting, target = theory\<rparr>) fs) theory False rt)"

section \<open>Schemas, deletion and initialisation\<close>

text \<open>An event that a new schema enables is applied at once; what goes wrong is remembered.\<close>

definition apply_enabled :: "'c rt_env \<Rightarrow> event \<Rightarrow> (runtime, unit) stm" where
  "apply_enabled E e =
     sbind (update_obj_datalog E [e]) (\<lambda>r rt.
       case r of
         Accepted _ \<Rightarrow> (Inr (), rt)
       | Rejected errs \<Rightarrow> (Inr (), rt\<lparr>error_events := error_events rt @ [(e, errs)]\<rparr>))"

definition set_policy_schema :: "'c rt_env \<Rightarrow> string \<Rightarrow> (string, col list) dict \<Rightarrow> bool \<Rightarrow> (runtime, unit) stm" where
  "set_policy_schema E name d cpl rt =
     (if map_of (rt_theory rt) name = None then (Inl CongressException, rt)
      else if schema_true (policy_at (rt_theory rt) name) then (Inl CongressException, rt)
      else (let rt = rt\<lparr>rt_theory := set_schema name (schema_of_dict d cpl) (rt_theory rt)\<rparr> in
        (case process_limbo_events (rt_theories rt) False (disabled_events rt) of
           Inl e \<Rightarrow> (Inl e, rt)
         | Inr l \<Rightarrow>
             for_st (\<lambda>e _. apply_enabled E e) (enabled l) ()
               (rt\<lparr>disabled_events := disabled l, error_events := error_events rt @ limbo_errors l\<rparr>))))"

definition references_to_policy :: "'c rt_env \<Rightarrow> string \<Rightarrow> (runtime, rule list) stm" where
  "references_to_policy E name =
     (\<lambda>rt. for_st (\<lambda>k refs. sbind (on_theory (policy_statements k)) (\<lambda>rs.
         sret (refs @ filter (\<lambda>r. list_ex (\<lambda>t. startswith t (name @ '':''))
           (rule_tablenames (registry_of (datalog_env E)) None False False True r)) rs))) (policy_names rt) [] rt)"

text \<open>
  A policy is emptied by events, so that the schemas and the graph follow, and then removed under
  the name that was found.
\<close>

definition delete_policy :: "'c rt_env \<Rightarrow> string \<Rightarrow> bool \<Rightarrow> (runtime, unit) stm" where
  "delete_policy E name_or_id no_dangling =
     sbind (\<lambda>rt. lift_res (find_policy_name name_or_id rt) rt) (\<lambda>name.
     sbind (if no_dangling then references_to_policy E name else sret []) (\<lambda>refs.
     if refs \<noteq> [] then sraise DanglingReference
     else sbind (\<lambda>rt. if map_of (rt_theory rt) name = None then (Inl KeyError, rt) else on_theory (content name None) rt) (\<lambda>rules.
     sbind (update_obj E (map (\<lambda>r. \<lparr>formula = FRule r, is_insert = False, target = Some name\<rparr>) rules) None False) (\<lambda>r.
       case r of
         Rejected _ \<Rightarrow> sraise PolicyException
       | Accepted _ \<Rightarrow> (\<lambda>rt.
           (Inr (), rt\<lparr>disabled_events := filter (\<lambda>e. target e \<noteq> Some name) (disabled_events rt),
              rt_theory := AList.delete name (rt_theory rt), rt_attrs := AList.delete name (rt_attrs rt)\<rparr>))))))"

definition initialize_datasource :: "'c rt_env \<Rightarrow> string \<Rightarrow> (string, col list) dict \<Rightarrow> (runtime, unit) stm" where
  "initialize_datasource E name d rt =
     (case create_policy name DatasourcePolicyTheory None rt of
        (Inl KeyError, rt) \<Rightarrow> (Inl DatasourceNameInUse, rt)
      | (Inl e, rt) \<Rightarrow> (Inl e, rt)
      | (Inr _, rt) \<Rightarrow>
          (case set_policy_schema E name d False rt of
             (Inr _, rt) \<Rightarrow> (Inr (), rt)
           | (Inl _, rt) \<Rightarrow> sbind (delete_policy E name False) (\<lambda>_. sraise DatasourceCreationError) rt))"

definition initialize_policy_tables :: "'c rt_env \<Rightarrow> string list \<Rightarrow> fact list \<Rightarrow> string option \<Rightarrow> (runtime, unit) stm" where
  "initialize_policy_tables E tablenames facts theory rt =
     (case get_target theory rt of
        Inl e \<Rightarrow> (Inl e, rt)
      | Inr k \<Rightarrow>
          sbind (\<lambda>rt. lift_res (relevant_triggers
              (map (\<lambda>t. ChangedTable (build_service_table (name_of k rt) t)) (remdups tablenames)) (rt_registry rt)) rt) (\<lambda>trs.
            with_triggers E trs (sbind (on_theory (initialize_tables k tablenames facts)) (\<lambda>_. sret ()))) rt)"

section \<open>Questions\<close>

definition runtime_tablenames ::
    "'c rt_env \<Rightarrow> bool \<Rightarrow> bool \<Rightarrow> string option \<Rightarrow> bool \<Rightarrow> (runtime, string list) stm" where
  "runtime_tablenames E body_only include_builtin theory_name include_modal rt =
     (let names = (\<lambda>k. on_theory (theory_tablenames (registry_of (datalog_env E)) k body_only include_builtin include_modal True))
      in if truthy theory_name then
           (if map_of (rt_theory rt) (the theory_name) = None then (Inr [], rt)
            else sbind (names (the theory_name)) (\<lambda>ts. sret (set_union [] ts)) rt)
         else for_st (\<lambda>k tables. sbind (names k) (\<lambda>ts. sret (set_union tables ts))) (policy_names rt) [] rt)"

definition get_tablenames :: "'c rt_env \<Rightarrow> string \<Rightarrow> (runtime, string list option) stm" where
  "get_tablenames E source rt =
     (if map_of (rt_theory rt) source = None then (Inr None, rt)
      else sbind (runtime_tablenames E False False (Some source) False) (\<lambda>ts. sret (Some ts)) rt)"

definition get_tablename :: "'c rt_env \<Rightarrow> string \<Rightarrow> string \<Rightarrow> (runtime, string option) stm" where
  "get_tablename E source t =
     sbind (get_tablenames E source) (\<lambda>ts. sret (case ts of None \<Rightarrow> None | Some ts \<Rightarrow> if t \<in> set ts then Some t else None))"

definition get_row_data :: "'c rt_env \<Rightarrow> string \<Rightarrow> string \<Rightarrow> (runtime, pyval list list) stm" where
  "get_row_data E t source =
     sbind (get_tablename E source t) (\<lambda>found.
     if \<not> truthy found then sraise NotFound
     else sbind (table_contents_queries (the found) (Some source) None) (\<lambda>qs.
       case qs of
         None \<Rightarrow> sraise CongressException
       | Some [] \<Rightarrow> sraise IndexError
       | Some (q # _) \<Rightarrow>
           sbind (\<lambda>rt. lift_res (rbind (parse1 E q rt) (\<lambda>f. rbind (get_target (Some source) rt) (\<lambda>k. Inr (f, k)))) rt) (\<lambda>(f, k).
           sbind (select_obj E f k) (\<lambda>fs. sret (map argument_values (remdups (answer_literals fs)))))))"

definition reserved_tablename :: "string \<Rightarrow> bool" where
  "reserved_tablename t = startswith t ''___''"

definition register_trigger ::
    "string \<Rightarrow> callback \<Rightarrow> string option \<Rightarrow> string option \<Rightarrow> (runtime, trigger) stm" where
  "register_trigger t cb pol mdl rt =
     (case get_target_name pol rt of
        Inl e \<Rightarrow> (Inl e, rt)
      | Inr n \<Rightarrow> on_registry (register_table t (Some n) cb mdl) rt)"

definition unregister_trigger :: "trigger \<Rightarrow> (runtime, unit) stm" where
  "unregister_trigger tr = on_registry (unregister tr)"

definition runtime_find_subpolicy ::
    "string list \<Rightarrow> string list \<Rightarrow> string list \<Rightarrow> string option \<Rightarrow> (runtime, rule list) stm" where
  "runtime_find_subpolicy required prohibited outs theory =
     sbind (\<lambda>rt. lift_res (get_target theory rt) rt) (\<lambda>k.
     sbind (on_theory (content k None)) (\<lambda>rules. lift_res (find_subpolicy rules required prohibited outs)))"

definition get_action_names :: "'c rt_env \<Rightarrow> string \<Rightarrow> (runtime, pyval list) stm" where
  "get_action_names E k rt =
     (if map_of (rt_theory rt) k = None then (Inr [], rt)
      else (case parse1 E ''action(x)'' rt of
         Inl e \<Rightarrow> (Inl e, rt)
       | Inr q \<Rightarrow> sbind (select_obj E q k) (\<lambda>fs. sret (map (\<lambda>l. hd (argument_values l)) (answer_literals fs))) rt))"


end
