(* ===== verification/Projection.thy ===== *)
theory Projection
  imports Runtime
begin

text \<open>
  Simulation (\<open>agnostic.py\<close>: \<open>simulate\<close>, \<open>project\<close>, \<open>project_updates\<close>,
  \<open>resolve_conflicts\<close>): a sequence of updates and actions is applied to a policy, a query is
  asked, and the updates are undone.

  The temporary theory of a projection stands in the dictionary under a key that no policy has; it
  does not know the other policies.
\<close>

declare map_of_eq_Some_iff [simp del] Some_eq_map_of_iff [simp del]

section \<open>Updates\<close>

fun formula_tablename :: "formula \<Rightarrow> string res" where
  "formula_tablename (FLit l) = Inr (lit_tablename None l)"
| "formula_tablename (FRule r) = Inr (rule_tablename None r)"
| "formula_tablename (FFact f) = Inl AttributeError"

fun formula_is_update :: "formula \<Rightarrow> bool" where
  "formula_is_update (FLit l) = lit_is_update l"
| "formula_is_update (FRule r) = rule_is_update r"
| "formula_is_update (FFact f) = False"

fun formula_invert_update :: "formula \<Rightarrow> formula" where
  "formula_invert_update (FLit l) = FLit (lit_invert_update l)"
| "formula_invert_update (FRule r) = FRule (rule_invert_update r)"
| "formula_invert_update (FFact f) = FFact f"

fun formula_make_update :: "bool \<Rightarrow> formula \<Rightarrow> formula" where
  "formula_make_update i (FLit l) = FLit (lit_make_update i l)"
| "formula_make_update i (FRule r) = FRule (rule_make_update i r)"
| "formula_make_update i (FFact f) = FFact f"

text \<open>The formula that an update is about, without its sign and its policy.\<close>

fun plain_formula :: "formula \<Rightarrow> formula" where
  "plain_formula (FLit l) = FLit (lit_drop_theory (lit_drop_update l))"
| "plain_formula (FRule r) = FRule (rule_drop_theory (rule_drop_update r))"
| "plain_formula (FFact f) = FFact f"

fun formula_theory_name :: "formula \<Rightarrow> string option" where
  "formula_theory_name (FLit l) = lit_theory_name l"
| "formula_theory_name (FRule r) = rule_theory_name r"
| "formula_theory_name (FFact f) = None"

definition resolve_conflicts :: "literal list \<Rightarrow> literal list" where
  "resolve_conflicts atoms =
     (let neg = remdups (filter (\<lambda>a. \<not> endswith (tbl (table a)) ''+'' \<and> endswith (tbl (table a)) ''-'') atoms);
          result = remdups (filter (\<lambda>a. endswith (tbl (table a)) ''+'' \<or> \<not> endswith (tbl (table a)) ''-'') atoms)
      in fold (\<lambda>a result. if lit_invert_update a \<notin> set result then set_add a result else result) neg result)"

definition project_updates :: "'c rt_env \<Rightarrow> formula \<Rightarrow> string \<Rightarrow> (world, formula option) stm" where
  "project_updates E delta theory w =
     (let th = the (or_else (formula_theory_name delta) (Some theory)) in
      if map_of w th = None then (Inl KeyError, w)
      else (case formula_tablename delta of
         Inl e \<Rightarrow> (Inl e, w)
       | Inr t \<Rightarrow>
           sbind (update_policy (registry_of (datalog_env E)) th [event_of (endswith t ''+'') (plain_formula delta)]) (\<lambda>changed.
             sret (if changed \<noteq> [] then Some (formula_invert_update delta) else None)) w))"

section \<open>Projection\<close>

definition TEMP_KEY :: string where
  "TEMP_KEY = ''<temp>''"

record projection =
  pj_undos :: "formula list"
  pj_last_results :: "literal list"
  pj_uuids :: nat

definition define_temp :: "'c rt_env \<Rightarrow> formula list \<Rightarrow> (world, unit) stm" where
  "define_temp E fs = sbind (define_policy (registry_of (datalog_env E)) TEMP_KEY fs) (\<lambda>_. sret ())"

text \<open>What an action contributes to the temporary theory; \<open>False\<close> when it does not apply.\<close>

definition project_invocation :: "'c rt_env \<Rightarrow> string \<Rightarrow> formula \<Rightarrow> literal list \<Rightarrow> (world, bool) stm" where
  "project_invocation E actth f last_results =
     (case f of
        FLit l \<Rightarrow>
          if negated l \<or> \<not> lit_is_ground l then sraise AssertionError
          else sbind (define_temp E [f]) (\<lambda>_. sret True)
      | FRule r \<Rightarrow>
          sbind (define_temp E (map FLit last_results)) (\<lambda>_.
          sbind (top_down_evaluation (search_fuel E) (datalog_env E) actth (formula_variables f) (body r) False) (\<lambda>bindings.
            case bindings of
              [] \<Rightarrow> sret False
            | b # _ \<Rightarrow>
                (let grounds = filter lit_is_ground (rule_plug_heads b r) in
                 if list_ex negated grounds then sraise AssertionError
                 else sbind (define_temp E (map FLit grounds)) (\<lambda>_. sret True))))
      | FFact _ \<Rightarrow> sraise AttributeError)"

definition consequence_literals :: "'c rt_env \<Rightarrow> string \<Rightarrow> (string \<Rightarrow> bool) \<Rightarrow> (world, literal list) stm" where
  "consequence_literals E k p =
     sbind (consequences (search_fuel E) (datalog_env E) k (Some p) None) (\<lambda>fs. sret (answer_literals fs))"

definition update_tablename :: "string \<Rightarrow> bool" where
  "update_tablename t = (endswith t ''+'' \<or> endswith t ''-'')"

text \<open>
  The updates of an action: the consequences that are updates, without the deletions of what is
  also inserted, with new identifiers for variables. The results for the next action are asked
  after the updates are added to the temporary theory.
\<close>

definition project_action :: "'c rt_env \<Rightarrow> (nat \<Rightarrow> string) \<Rightarrow> string \<Rightarrow> projection \<Rightarrow> (world, formula list \<times> projection) stm" where
  "project_action E uuid actth pj =
     sbind (consequence_literals E actth update_tablename) (\<lambda>updates.
       let us = map FLit (resolve_conflicts updates);
           vars = fold (\<lambda>f vs. set_union vs (formula_variables f)) us [];
           us = skolemize (\<lambda>i. uuid (pj_uuids pj + i)) us
       in sbind (for_st (\<lambda>u _. sbind (insert_formula (registry_of (datalog_env E)) TEMP_KEY u) (\<lambda>_. sret ())) us ()) (\<lambda>_.
          sbind (consequence_literals E actth (\<lambda>t. t = ''result'')) (\<lambda>results.
            sret (us, pj\<lparr>pj_last_results := filter lit_is_ground results, pj_uuids := pj_uuids pj + length vars\<rparr>))))"

definition project_formula ::
    "'c rt_env \<Rightarrow> (nat \<Rightarrow> string) \<Rightarrow> string \<Rightarrow> string \<Rightarrow> pyval list \<Rightarrow> formula \<Rightarrow> projection \<Rightarrow> (world, projection) stm" where
  "project_formula E uuid policyth actth actions f pj =
     sbind (lift_res (formula_tablename f)) (\<lambda>t.
     sbind (if VStr t \<notin> set actions then
              (if formula_is_update f then sret (Some ([f], pj)) else sraise PolicyException)
            else sbind (project_invocation E actth f (pj_last_results pj)) (\<lambda>applies.
              if applies then sbind (project_action E uuid actth pj) (\<lambda>x. sret (Some x)) else sret None)) (\<lambda>r.
       case r of
         None \<Rightarrow> sret pj
       | Some (updates, pj) \<Rightarrow>
           sbind (for_st (\<lambda>u undos. sbind (project_updates E u policyth) (\<lambda>undo.
               sret (case undo of None \<Rightarrow> undos | Some x \<Rightarrow> undos @ [x]))) updates (pj_undos pj)) (\<lambda>undos.
             sret (pj\<lparr>pj_undos := undos\<rparr>))))"

definition include_in :: "string \<Rightarrow> string \<Rightarrow> world \<Rightarrow> world" where
  "include_in k other w = set_policy k ((policy_at w k)\<lparr>pincludes := pincludes (policy_at w k) @ [other]\<rparr>) w"

definition exclude_from :: "string \<Rightarrow> string \<Rightarrow> world \<Rightarrow> world" where
  "exclude_from k other w = set_policy k ((policy_at w k)\<lparr>pincludes := remove1 other (pincludes (policy_at w k))\<rparr>) w"

text \<open>
  The action theory includes the temporary theory and the policy while the sequence is applied. An
  exception leaves both of them included.
\<close>

definition project :: "'c rt_env \<Rightarrow> (nat \<Rightarrow> string) \<Rightarrow> formula list \<Rightarrow> string \<Rightarrow> string \<Rightarrow> nat \<Rightarrow> (runtime, formula list \<times> nat) stm" where
  "project E uuid sequence policyth actth next_uuid =
     (\<lambda>rt. if map_of (rt_theory rt) actth = None \<or> map_of (rt_theory rt) policyth = None then (Inl KeyError, rt)
      else
        sbind (on_theory (\<lambda>w.
            let w = include_in actth TEMP_KEY (set_policy TEMP_KEY (nonrecursive_theory None False) w)
            in (Inr (), if actth \<noteq> policyth then include_in actth policyth w else w))) (\<lambda>_.
        sbind (get_action_names E actth) (\<lambda>actions.
        sbind (on_theory (for_st (project_formula E uuid policyth actth actions) sequence
            \<lparr>pj_undos = [], pj_last_results = [], pj_uuids = next_uuid\<rparr>)) (\<lambda>pj.
        sbind (on_theory (\<lambda>w.
            let w = (if actth \<noteq> policyth then exclude_from actth policyth w else w)
            in (Inr (), AList.delete TEMP_KEY (exclude_from actth TEMP_KEY w)))) (\<lambda>_.
          sret (rev (pj_undos pj), pj_uuids pj))))) rt)"

section \<open>Simulation\<close>

definition formula_diff :: "formula list \<Rightarrow> formula list \<Rightarrow> formula list" where
  "formula_diff xs ys = filter (\<lambda>x. x \<notin> set ys) xs"

definition simulate_obj ::
    "'c rt_env \<Rightarrow> (nat \<Rightarrow> string) \<Rightarrow> formula \<Rightarrow> string \<Rightarrow> formula list \<Rightarrow> string \<Rightarrow> bool \<Rightarrow> (runtime, formula list) stm" where
  "simulate_obj E uuid query theory sequence actth delta rt =
     (if \<not> is_datalog query \<or> \<not> list_all is_extended_datalog sequence then (Inl AssertionError, rt)
      else (case get_target (Some theory) rt of
         Inl e \<Rightarrow> (Inl e, rt)
       | Inr k \<Rightarrow>
           sbind (if delta then select_obj E query k else sret []) (\<lambda>oldresult.
           sbind (project E uuid sequence theory actth 0) (\<lambda>(undo, n).
           sbind (select_obj E query k) (\<lambda>result.
           sbind (project E uuid undo theory actth n) (\<lambda>_.
             let result = remdups result; oldresult = remdups oldresult in
             sret (if delta then map (formula_make_update True) (formula_diff result oldresult) @
                       map (formula_make_update False) (formula_diff oldresult result)
                   else result))))) rt))"

definition simulate ::
    "'c rt_env \<Rightarrow> (nat \<Rightarrow> string) \<Rightarrow> formula \<Rightarrow> string \<Rightarrow> formula list \<Rightarrow> string \<Rightarrow> bool \<Rightarrow> (runtime, formula list) stm" where
  "simulate E uuid query theory sequence actth delta rt =
     (case rbind (get_target (Some theory) rt) (\<lambda>_. get_target (Some actth) rt) of
        Inl e \<Rightarrow> (Inl e, rt)
      | Inr _ \<Rightarrow> simulate_obj E uuid query theory sequence actth delta rt)"

definition simulate_string ::
    "'c rt_env \<Rightarrow> (nat \<Rightarrow> string) \<Rightarrow> string \<Rightarrow> string \<Rightarrow> string \<Rightarrow> string \<Rightarrow> bool \<Rightarrow> (runtime, formula list) stm" where
  "simulate_string E uuid query theory sequence actth delta rt =
     (case rbind (parse_policy E (rt_theory rt) query) (\<lambda>qs.
           if length qs > 1 then Inl PolicyException else if qs = [] then Inl IndexError
           else rbind (parse_policy E (rt_theory rt) sequence) (\<lambda>fs. Inr (hd qs, fs))) of
        Inl e \<Rightarrow> (Inl e, rt)
      | Inr (q, fs) \<Rightarrow> simulate_obj E uuid q theory fs actth delta rt)"

end
