(* ===== verification/Policy_Update.thy ===== *)
theory Policy_Update
  imports Policy
begin

text \<open>
  What an update of a policy does: the specification keeps one list of rules for all policies,
  where an insertion adds a rule unless an equal one is there and a deletion removes the equal one.
  \<open>update\<close> of \<open>NonrecursiveRuleTheory\<close> is proved to follow it, and to keep every learned schema of
  every policy equal to the bag of tables that the stored rules mention. The last section has the
  updates where the code leaves that path.
\<close>

declare map_of_eq_Some_iff [simp del] Some_eq_map_of_iff [simp del]

section \<open>Bags of mentioned tables\<close>

type_synonym bags = "string \<Rightarrow> string multiset"

definition tables_in :: "string \<Rightarrow> (string \<times> string) list \<Rightarrow> string multiset" where
  "tables_in m ps = mset (map snd (filter (\<lambda>p. fst p = m) ps))"

lemma tables_in_simps [simp]:
  "tables_in m [] = {#}"
  "tables_in m (p # ps) = (if fst p = m then add_mset (snd p) (tables_in m ps) else tables_in m ps)"
  "tables_in m (ps @ qs) = tables_in m ps + tables_in m qs"
  by (simp_all add: tables_in_def)

lemma count_tables_in: "count (tables_in m ps) t = count (mset ps) (m, t)"
  by (induction ps) auto

lemma diff_add_mset_swap: "(M :: 'a multiset) - {#x#} - N = M - add_mset x N"
  by (rule multiset_eqI) simp

text \<open>Which policies there are, which know the others, and which learn their schema.\<close>

definition shape :: "world \<Rightarrow> string \<Rightarrow> (bool \<times> bool) option" where
  "shape w m = map_option (\<lambda>p. (plinked p, case pschema p of None \<Rightarrow> False | Some s \<Rightarrow> \<not> complete s)) (map_of w m)"

definition stores :: "world \<Rightarrow> string \<Rightarrow> rule_store option" where
  "stores w m = map_option prules (map_of w m)"

definition learning :: "(string \<Rightarrow> (bool \<times> bool) option) \<Rightarrow> string \<Rightarrow> bool" where
  "learning S m = (case S m of None \<Rightarrow> False | Some (_, b) \<Rightarrow> b)"

definition schemas_ok :: "world \<Rightarrow> bags \<Rightarrow> bool" where
  "schemas_ok w B = (\<forall>m p. map_of w m = Some p \<longrightarrow>
     (\<exists>s. pschema p = Some s \<and> (complete s \<or> schema_rep s (B m))))"

text \<open>Only schemas differ.\<close>

definition same_but_schemas :: "world \<Rightarrow> world \<Rightarrow> bool" where
  "same_but_schemas w w' = (shape w' = shape w \<and> stores w' = stores w)"

lemma same_but_schemas_refl [simp]: "same_but_schemas w w"
  by (simp add: same_but_schemas_def)

lemma same_but_schemas_trans: "same_but_schemas u v \<Longrightarrow> same_but_schemas v w \<Longrightarrow> same_but_schemas u w"
  by (simp add: same_but_schemas_def)

lemma shape_known: "shape w m = None \<longleftrightarrow> map_of w m = None"
  by (simp add: shape_def)

lemma set_schema_same:
  assumes "map_of w m = Some p" "pschema p = Some s" "complete s' = complete s"
  shows "same_but_schemas w (set_schema m s' w)"
  using assms by (auto simp: same_but_schemas_def shape_def stores_def set_schema_def set_policy_def policy_at_def fun_eq_iff)

lemma set_schema_ok:
  assumes "schemas_ok w B" "map_of w m = Some p" "schema_rep s (B' m)" "\<And>u. u \<noteq> m \<Longrightarrow> B' u = B u"
  shows "schemas_ok (set_schema m s w) B'"
  using assms by (auto simp: schemas_ok_def set_schema_def set_policy_def policy_at_def)

lemma schema_update_complete: "schema_update f ins s = Inr (ch, s') \<Longrightarrow> complete s' = complete s"
  by (auto simp: schema_update_def Let_def rbind_Inr_iff split: option.splits if_splits)

lemma schema_revert_complete: "schema_revert ch s = Inr s' \<Longrightarrow> complete s' = complete s"
  by (auto simp: schema_revert_def Let_def split: option.splits if_splits)

section \<open>One table is mentioned or forgotten\<close>

definition change_place :: "string \<Rightarrow> schema_change \<Rightarrow> string \<times> string" where
  "change_place n c = ((if truthy (sc_theory c) then the (sc_theory c) else n), sc_table c)"

text \<open>What a recorded change says, given the bag after the update.\<close>

definition change_good :: "bool \<Rightarrow> string \<Rightarrow> schema_change \<Rightarrow> bags \<Rightarrow> bool" where
  "change_good ins n c B = (sc_insert c = ins \<and>
     (ins \<or> sc_cols c \<noteq> None \<or> snd (change_place n c) \<in># B (fst (change_place n c))))"

definition bag_step :: "bool \<Rightarrow> string \<Rightarrow> string \<Rightarrow> bags \<Rightarrow> bags" where
  "bag_step ins m t B = B(m := if ins then add_mset t (B m) else B m - {#t#})"

lemma schema_update_change:
  assumes "schema_rep s M" "schema_item f = Inr (t, k, th)" "schema_update f ins s = Inr (ch, s')"
  shows "if ins \<or> t \<in># M
    then \<exists>c. ch = Some c \<and> sc_table c = t \<and> sc_theory c = th \<and> sc_insert c = ins \<and> (ins \<or> sc_cols c \<noteq> None \<or> t \<in># M - {#t#})
    else ch = None"
proof -
  obtain cnt where cnt: "scount s = Some cnt"
    "\<And>u. map_of cnt u = (if u \<in># M then Some (int (count M u)) else None)" "\<And>u. schema_contains u s = (u \<in># M)"
    using assms(1) by (auto simp: schema_rep_def)
  have two: "int (count M t) > 1 \<Longrightarrow> t \<in># M - {#t#}" by (auto simp: in_diff_count)
  show ?thesis
    using assms(2,3) cnt(1) cnt(2) [of t] cnt(3) [of t] two
    by (auto simp: schema_update_def schema_contains_def Let_def split: if_splits option.splits)
qed

lemma schema_revert_ok:
  assumes "schema_rep s M" "if sc_insert c then sc_table c \<in># M else sc_cols c \<noteq> None \<or> sc_table c \<in># M"
  shows "\<exists>s'. schema_revert (Some c) s = Inr s' \<and>
    schema_rep s' (if sc_insert c then M - {#sc_table c#} else add_mset (sc_table c) M)"
proof -
  let ?t = "sc_table c"
  obtain cnt where cnt: "scount s = Some cnt"
    "\<And>u. map_of cnt u = (if u \<in># M then Some (int (count M u)) else None)" "\<And>u. schema_contains u s = (u \<in># M)"
    using assms(1) by (auto simp: schema_rep_def)
  have one: "count M ?t \<le> 1 \<Longrightarrow> ?t \<notin># M - {#?t#}" "count M ?t > 1 \<Longrightarrow> ?t \<in># M - {#?t#}" by (auto simp: not_in_iff in_diff_count)
  have other: "u \<noteq> ?t \<Longrightarrow> u \<in># M - {#?t#} \<longleftrightarrow> u \<in># M" for u by (auto simp: in_diff_count)
  show ?thesis
  proof (cases "sc_insert c")
    case True
    have rem: "count M ?t > 1 \<Longrightarrow> u \<in># M - {#?t#} \<longleftrightarrow> u \<in># M" for u
      using one(2) other [of u] True assms(2) by (cases "u = ?t") auto
    from True assms(2) cnt one other rem show ?thesis
      by (cases "count M ?t > 1") (auto simp: schema_revert_def schema_rep_def schema_contains_def of_nat_diff Let_def)
  next
    case False
    with assms(2) cnt show ?thesis
      by (cases "?t \<in># M") (auto simp: schema_revert_def schema_rep_def schema_contains_def Let_def not_in_iff)
  qed
qed

lemma update_lit_ok:
  assumes ok: "schemas_ok w B" and m: "map_of w m = Some p" and item: "schema_item f = Inr (t, k, th)"
  shows "\<exists>ch w'. update_lit_schema m f ins w = (Inr ch, w') \<and> same_but_schemas w w' \<and>
    schemas_ok w' (if learning (shape w) m then bag_step ins m t B else B) \<and>
    (if learning (shape w) m \<and> (ins \<or> t \<in># B m)
     then \<exists>c. ch = Some c \<and> sc_table c = t \<and> sc_theory c = th \<and> sc_insert c = ins \<and>
        (ins \<or> sc_cols c \<noteq> None \<or> t \<in># bag_step ins m t B m)
     else ch = None)"
proof -
  obtain s where s: "pschema p = Some s" "complete s \<or> schema_rep s (B m)" using ok m by (auto simp: schemas_ok_def)
  have l: "learning (shape w) m \<longleftrightarrow> \<not> complete s" using m s(1) by (simp add: learning_def shape_def)
  have pa: "policy_at w m = p" using m by (simp add: policy_at_def)
  show ?thesis
  proof (cases "complete s")
    case True with l pa s ok show ?thesis by (simp add: update_lit_schema_def)
  next
    case False
    with s have rep: "schema_rep s (B m)" by simp
    obtain ch s' where u: "schema_update f ins s = Inr (ch, s')" "schema_rep s' (bag_step ins m t B m)"
      using schema_update_ok [OF rep item, of ins] by (auto simp: bag_step_def)
    have "schemas_ok (set_schema m s' w) (bag_step ins m t B)"
      by (rule set_schema_ok [where B' = "bag_step ins m t B", OF ok m u(2)]) (simp add: bag_step_def)
    with u(1) False pa s(1) l set_schema_same [OF m s(1) schema_update_complete [OF u(1)]]
      schema_update_change [OF rep item u(1)]
    show ?thesis by (auto simp: update_lit_schema_def bag_step_def)
  qed
qed
section \<open>All the tables of a formula\<close>

definition target_policy :: "string \<Rightarrow> literal \<Rightarrow> string" where
  "target_policy n l = the (or_else (service (table l)) (Some n))"

text \<open>The policies and literals whose schemas a rule of policy \<open>n\<close> is told to.\<close>

definition lit_steps :: "'c registry \<Rightarrow> (string \<Rightarrow> (bool \<times> bool) option) \<Rightarrow> string \<Rightarrow> literal list \<Rightarrow> (string \<times> literal) list" where
  "lit_steps R S n ls =
     map (\<lambda>l. (target_policy n l, l)) (filter (\<lambda>l. \<not> lit_is_builtin R l \<and> S (target_policy n l) \<noteq> None) ls)"

definition learned_places :: "(string \<Rightarrow> (bool \<times> bool) option) \<Rightarrow> (string \<times> literal) list \<Rightarrow> (string \<times> string) list" where
  "learned_places S sts = map (\<lambda>(m, l). (m, tbl (table l))) (filter (\<lambda>(m, l). learning S m) sts)"

definition step_schema :: "bool \<Rightarrow> string \<times> literal \<Rightarrow> schema_change option list \<Rightarrow> (world, schema_change option list) stm" where
  "step_schema ins st chs = sbind (update_lit_schema (fst st) (FLit (snd st)) ins) (\<lambda>ch. sret (chs @ [ch]))"

definition bags_after :: "bool \<Rightarrow> (string \<times> string) list \<Rightarrow> bags \<Rightarrow> bags" where
  "bags_after ins ps B = (\<lambda>m. if ins then B m + tables_in m ps else B m - tables_in m ps)"

lemma bags_after_simps:
  "bags_after ins [] B = B" "bags_after ins ps (bag_step ins m t B) = bags_after ins ((m, t) # ps) B"
  by (auto simp: bags_after_def bag_step_def fun_eq_iff diff_add_mset_swap)

definition somes :: "'a option list \<Rightarrow> 'a list" where
  "somes xs = [x. Some x \<leftarrow> xs]"

lemma somes_simps [simp]:
  "somes [] = []" "somes (None # xs) = somes xs" "somes (Some x # xs) = x # somes xs" "somes (xs @ ys) = somes xs @ somes ys"
  by (simp_all add: somes_def)

text \<open>The service of the literal leads back to the policy it was learned in.\<close>

definition steps_ok :: "(string \<Rightarrow> (bool \<times> bool) option) \<Rightarrow> string \<Rightarrow> (string \<times> literal) list \<Rightarrow> bool" where
  "steps_ok S n sts = (\<forall>(m, l) \<in> set sts. S m \<noteq> None \<and> m = target_policy n l)"

lemma target_policy_place: "target_policy n l = (if truthy (service (table l)) then the (service (table l)) else n)"
  by (auto simp: target_policy_def or_else_def truthy_def split: option.splits)

definition places_changed :: "bool \<Rightarrow> (string \<times> string) list \<Rightarrow> bags \<Rightarrow> (string \<times> string) list" where
  "places_changed ins ps B = (if ins then ps else filter (\<lambda>(m, t). t \<in># B m) ps)"

lemma places_changed_step:
  assumes "distinct (p # ps) \<or> ins"
  shows "places_changed ins ps (bag_step ins (fst p) (snd p) B) = places_changed ins ps B"
proof (cases ins)
  case False
  with assms have "q \<noteq> p" if "q \<in> set ps" for q using that by auto
  then have "snd q \<in># bag_step ins (fst p) (snd p) B (fst q) \<longleftrightarrow> snd q \<in># B (fst q)" if "q \<in> set ps" for q
  proof -
    have "\<not> (fst q = fst p \<and> snd q = snd p)" using \<open>\<And>q. q \<in> set ps \<Longrightarrow> q \<noteq> p\<close> [OF that] by (auto simp: prod_eq_iff)
    moreover have "u \<in># M - {#v#} \<longleftrightarrow> u \<in># M" if "u \<noteq> v" for u v :: string and M using that by (auto simp: in_diff_count)
    ultimately show ?thesis using False by (auto simp: bag_step_def)
  qed
  then show ?thesis using False by (auto simp: places_changed_def split_beta intro!: filter_cong)
qed (simp add: places_changed_def)

lemma count_bags_after_other:
  assumes "(m, t) \<notin> set ps" shows "t \<in># bags_after False ps B m \<longleftrightarrow> t \<in># B m"
proof -
  have "count (mset ps) (m, t) = 0" using assms by (simp add: count_eq_zero_iff)
  then show ?thesis by (simp only: bags_after_def in_diff_count count_tables_in if_False count_greater_zero_iff)
qed

lemma schema_steps_ok:
  assumes "schemas_ok w B" "steps_ok (shape w) n sts"
  shows "\<exists>chs' w'. for_st (step_schema ins) sts chs w = (Inr (chs @ chs'), w') \<and> same_but_schemas w w' \<and>
    schemas_ok w' (bags_after ins (learned_places (shape w) sts) B) \<and>
    (ins \<or> distinct (learned_places (shape w) sts) \<longrightarrow>
      map (change_place n) (somes chs') = places_changed ins (learned_places (shape w) sts) B \<and>
      (\<forall>c \<in> set (somes chs'). change_good ins n c (bags_after ins (learned_places (shape w) sts) B)))"
  using assms
proof (induction sts arbitrary: w B chs)
  case Nil
  then show ?case by (simp add: sret_def learned_places_def bags_after_simps places_changed_def)
next
  case (Cons st sts)
  obtain m l where st: "st = (m, l)" by (cases st)
  let ?t = "tbl (table l)" and ?S = "shape w"
  have tgt: "m = target_policy n l" and known: "?S m \<noteq> None" using Cons.prems(2) st by (auto simp: steps_ok_def)
  obtain p where p: "map_of w m = Some p" using known by (auto simp: shape_known)
  let ?B = "if learning ?S m then bag_step ins m ?t B else B"
  obtain ch w1 where u: "update_lit_schema m (FLit l) ins w = (Inr ch, w1)" "same_but_schemas w w1" "schemas_ok w1 ?B"
    "if learning ?S m \<and> (ins \<or> ?t \<in># B m)
     then \<exists>c. ch = Some c \<and> sc_table c = ?t \<and> sc_theory c = service (table l) \<and> sc_insert c = ins \<and>
        (ins \<or> sc_cols c \<noteq> None \<or> ?t \<in># bag_step ins m ?t B m)
     else ch = None"
    using update_lit_ok [OF Cons.prems(1) p, of "FLit l" ?t "length (arguments l)" "service (table l)" ins] by auto
  have S1: "shape w1 = ?S" using u(2) by (simp add: same_but_schemas_def)
  let ?ps = "learned_places ?S sts"
  have ps: "learned_places ?S (st # sts) = (if learning ?S m then (m, ?t) # ?ps else ?ps)" by (simp add: learned_places_def st)
  have after: "bags_after ins ?ps ?B = bags_after ins (learned_places ?S (st # sts)) B" by (simp add: ps bags_after_simps)
  obtain chs' w' where IH: "for_st (step_schema ins) sts (chs @ [ch]) w1 = (Inr ((chs @ [ch]) @ chs'), w')"
    "same_but_schemas w1 w'" "schemas_ok w' (bags_after ins ?ps ?B)"
    "ins \<or> distinct ?ps \<longrightarrow> map (change_place n) (somes chs') = places_changed ins ?ps ?B \<and>
      (\<forall>c \<in> set (somes chs'). change_good ins n c (bags_after ins ?ps ?B))"
    using Cons.IH [OF u(3), of "chs @ [ch]"] Cons.prems(2) S1 by (auto simp: steps_ok_def)
  have run: "for_st (step_schema ins) (st # sts) chs w = (Inr (chs @ ch # chs'), w')"
    using IH(1) u(1) by (simp add: step_schema_def sbind_def sret_def st)
  have here: "somes [ch] = [] \<and> places_changed ins (learned_places ?S (st # sts)) B = places_changed ins ?ps ?B \<or>
    (\<exists>c. ch = Some c \<and> change_good ins n c (bags_after ins ?ps ?B) \<and>
     places_changed ins (learned_places ?S (st # sts)) B = change_place n c # places_changed ins ?ps ?B)"
    if d: "ins \<or> distinct (learned_places ?S (st # sts))"
  proof (cases "learning ?S m \<and> (ins \<or> ?t \<in># B m)")
    case False
    with u(4) have "ch = None" by simp
    then show ?thesis using False d places_changed_step [of "(m, ?t)" ?ps ins B] by (auto simp: ps places_changed_def)
  next
    case True
    then obtain c where c: "ch = Some c" "sc_table c = ?t" "sc_theory c = service (table l)" "sc_insert c = ins"
      "ins \<or> sc_cols c \<noteq> None \<or> ?t \<in># bag_step ins m ?t B m" using u(4) by auto
    have place: "change_place n c = (m, ?t)" using c(2,3) tgt by (simp add: change_place_def target_policy_place)
    have new: "ins \<or> (m, ?t) \<notin> set ?ps" using d True by (auto simp: ps)
    have "change_good ins n c (bags_after ins ?ps ?B)"
      using c(4,5) True new place count_bags_after_other [of m ?t ?ps ?B] by (auto simp: change_good_def)
    moreover have "places_changed ins (learned_places ?S (st # sts)) B = (m, ?t) # places_changed ins ?ps ?B"
      using True d places_changed_step [of "(m, ?t)" ?ps ins B] by (auto simp: ps places_changed_def)
    ultimately show ?thesis using c(1) place by auto
  qed
  have "map (change_place n) (somes (ch # chs')) = places_changed ins (learned_places ?S (st # sts)) B \<and>
    (\<forall>c \<in> set (somes (ch # chs')). change_good ins n c (bags_after ins ?ps ?B))"
    if d: "ins \<or> distinct (learned_places ?S (st # sts))"
  proof -
    have "ins \<or> distinct ?ps" using d by (auto simp: ps split: if_splits)
    with here [OF d] IH(4) show ?thesis by (cases ch) auto
  qed
  then show ?case using run IH(3) same_but_schemas_trans [OF u(2) IH(2)] unfolding after by blast
qed

text \<open>Taking the recorded changes back.\<close>

definition revert_step :: "string \<Rightarrow> schema_change option \<Rightarrow> unit \<Rightarrow> (world, unit) stm" where
  "revert_step n change u w =
     (case change of
        None \<Rightarrow> (Inr (), w)
      | Some ch \<Rightarrow>
          if truthy (sc_theory ch) then
            (let m = the (sc_theory ch) in if map_of w m = None then (Inl KeyError, w) else revert_on m ch w)
          else revert_on n ch w)"

lemma revert_schema_steps:
  "revert_schema n chs w = (if \<not> plinked (policy_at w n) then (Inr (), w) else for_st (revert_step n) chs () w)"
  by (simp add: revert_schema_def revert_step_def [abs_def])

definition reverted :: "string \<Rightarrow> bool \<Rightarrow> schema_change list \<Rightarrow> bags \<Rightarrow> bags" where
  "reverted n ins cs B = bags_after (\<not> ins) (map (change_place n) cs) B"

lemma revert_one_ok:
  assumes "schemas_ok w B" "change_place n c = (m, t)" "learning (shape w) m"
    "if sc_insert c then t \<in># B m else sc_cols c \<noteq> None \<or> t \<in># B m"
  shows "\<exists>w'. revert_step n (Some c) u w = (Inr (), w') \<and> same_but_schemas w w' \<and>
    schemas_ok w' (bag_step (\<not> sc_insert c) m t B)"
proof -
  obtain p where p: "map_of w m = Some p" using assms(3) by (auto simp: learning_def shape_def split: option.splits)
  with assms(1) obtain s where s0: "pschema p = Some s" "complete s \<or> schema_rep s (B m)" by (auto simp: schemas_ok_def)
  with p assms(3) have s: "pschema p = Some s" "schema_rep s (B m)" by (auto simp: learning_def shape_def)
  have t: "sc_table c = t" and m: "m = (if truthy (sc_theory c) then the (sc_theory c) else n)"
    using assms(2) by (auto simp: change_place_def)
  obtain s' where s': "schema_revert (Some c) s = Inr s'" "schema_rep s' (if sc_insert c then B m - {#t#} else add_mset t (B m))"
    using schema_revert_ok [OF s(2), of c] assms(4) t by auto
  have "schemas_ok (set_schema m s' w) (bag_step (\<not> sc_insert c) m t B)"
    by (rule set_schema_ok [where B' = "bag_step (\<not> sc_insert c) m t B", OF assms(1) p])
      (use s'(2) in \<open>simp_all add: bag_step_def split: if_splits\<close>)
  moreover have "revert_step n (Some c) u w = revert_on m c w" using p m by (auto simp: revert_step_def Let_def)
  moreover have "revert_on m c w = (Inr (), set_schema m s' w)" using p s(1) s'(1) by (simp add: revert_on_def policy_at_def)
  ultimately show ?thesis using set_schema_same [OF p s(1) schema_revert_complete [OF s'(1)]] by auto
qed

lemma revert_all_ok:
  assumes "schemas_ok w B" "\<forall>c \<in> set (somes chs). change_good ins n c B \<and> learning (shape w) (fst (change_place n c))"
    "ins \<Longrightarrow> \<forall>m. tables_in m (map (change_place n) (somes chs)) \<subseteq># B m"
  shows "\<exists>w'. for_st (revert_step n) chs () w = (Inr (), w') \<and> same_but_schemas w w' \<and>
    schemas_ok w' (reverted n ins (somes chs) B)"
  using assms
proof (induction chs arbitrary: w B)
  case Nil
  then show ?case by (simp add: sret_def reverted_def bags_after_simps)
next
  case (Cons ch chs)
  show ?case
  proof (cases ch)
    case None
    have "for_st (revert_step n) (ch # chs) () w = for_st (revert_step n) chs () w"
      by (simp add: None sbind_def revert_step_def)
    with Cons.IH [OF Cons.prems(1)] Cons.prems(2,3) None show ?thesis by simp
  next
    case (Some c)
    obtain m t where mt: "change_place n c = (m, t)" by (cases "change_place n c")
    have good: "change_good ins n c B" "learning (shape w) m" using Cons.prems(2) Some mt by auto
    have tt: "ins \<Longrightarrow> t \<in># B m"
      using Cons.prems(3) Some mt by (auto dest!: spec [of _ m] mset_subset_eqD [where x = t])
    have ci: "sc_insert c = ins" using good by (simp add: change_good_def)
    obtain w1 where w1: "revert_step n (Some c) () w = (Inr (), w1)" "same_but_schemas w w1"
      "schemas_ok w1 (bag_step (\<not> ins) m t B)"
      using revert_one_ok [OF Cons.prems(1) mt good(2), of "()"] good(1) tt mt ci by (auto simp: change_good_def)
    have S1: "shape w1 = shape w" using w1(2) by (simp add: same_but_schemas_def)
    have "change_good ins n c' (bag_step (\<not> ins) m t B) \<and> learning (shape w1) (fst (change_place n c'))"
      if "c' \<in> set (somes chs)" for c'
      using Cons.prems(2) that Some S1 by (auto simp: change_good_def bag_step_def)
    moreover have "tables_in u (map (change_place n) (somes chs)) \<subseteq># bag_step (\<not> ins) m t B u" if "ins" for u
      using Cons.prems(3) [OF that] Some mt that
      by (auto dest!: spec [of _ u] simp: bag_step_def insert_subset_eq_iff split: if_splits)
    ultimately obtain w' where w': "for_st (revert_step n) chs () w1 = (Inr (), w')" "same_but_schemas w1 w'"
      "schemas_ok w' (reverted n ins (somes chs) (bag_step (\<not> ins) m t B))"
      using Cons.IH [OF w1(3)] by blast
    have "reverted n ins (somes chs) (bag_step (\<not> ins) m t B) = reverted n ins (somes (ch # chs)) B"
      by (simp add: reverted_def bags_after_simps Some mt)
    with w' w1(1) same_but_schemas_trans [OF w1(2) w'(2)] Some show ?thesis by (simp add: sbind_def)
  qed
qed

lemma reverted_back:
  assumes "map (change_place n) cs = places_changed ins ps B" "ins \<or> distinct ps"
  shows "reverted n ins cs (bags_after ins ps B) = B"
proof (cases ins)
  case True with assms show ?thesis by (simp add: reverted_def bags_after_def places_changed_def fun_eq_iff)
next
  case False
  have one: "count (mset (filter P ps)) x = (if P x then count (mset ps) x else 0)" for P x by (induction ps) auto
  have le: "count (mset ps) x \<le> 1" for x using assms(2) False by (cases x) (simp add: distinct_count_atmost_1)
  have "count (B m - tables_in m ps + tables_in m (filter (\<lambda>(m, t). t \<in># B m) ps)) t = count (B m) t" for m t
  proof (cases "t \<in># B m")
    case True
    then have "count (mset ps) (m, t) \<le> count (B m) t" using count_greater_zero_iff [of "B m" t] le [of "(m, t)"] by linarith
    with True show ?thesis by (simp add: count_tables_in one)
  next
    case False
    then have "count (B m) t = 0" by (simp add: not_in_iff)
    with False show ?thesis by (simp add: count_tables_in one)
  qed
  then show ?thesis using False assms(1)
    by (auto simp: reverted_def bags_after_def places_changed_def fun_eq_iff multiset_eq_iff)
qed

section \<open>The schemas after a formula was told\<close>

fun as_plain_rule :: "formula \<Rightarrow> rule" where
  "as_plain_rule (FLit l) = \<lparr>heads = [l], body = []\<rparr>"
| "as_plain_rule (FRule r) = r"
| "as_plain_rule (FFact f) = \<lparr>heads = [], body = []\<rparr>"

definition rule_steps :: "'c registry \<Rightarrow> (string \<Rightarrow> (bool \<times> bool) option) \<Rightarrow> string \<Rightarrow> rule \<Rightarrow> (string \<times> literal) list" where
  "rule_steps R S n r = (n, rule_head r) # lit_steps R S n (body r)"

text \<open>The tables, with their policies, that a rule of policy \<open>n\<close> mentions for the schemas.\<close>

definition mentions :: "'c registry \<Rightarrow> (string \<Rightarrow> (bool \<times> bool) option) \<Rightarrow> string \<Rightarrow> rule \<Rightarrow> (string \<times> string) list" where
  "mentions R S n r = (if S n = Some (True, True) then learned_places S (rule_steps R S n r) else [])"

definition local_head :: "string \<Rightarrow> rule \<Rightarrow> bool" where
  "local_head n r = (n = target_policy n (rule_head r))"

lemma update_lit_shape: "map_of w m \<noteq> None \<Longrightarrow> shape (snd (update_lit_schema m f ins w)) = shape w"
  using set_schema_same [of w m] schema_update_complete
  by (auto simp: update_lit_schema_def policy_at_def same_but_schemas_def split: option.splits sum.splits)

lemma body_steps:
  "shape w = S \<Longrightarrow> for_st (body_lit_schema R n ins) ls chs w = for_st (step_schema ins) (lit_steps R S n ls) chs w"
proof (induction ls arbitrary: w chs)
  case Nil
  then show ?case by (simp add: lit_steps_def)
next
  case (Cons l ls)
  let ?m = "target_policy n l"
  show ?case
  proof (cases "lit_is_builtin R l \<or> map_of w ?m = None")
    case True
    then have "body_lit_schema R n ins l chs w = (Inr chs, w)" "lit_steps R S n (l # ls) = lit_steps R S n ls"
      using Cons.prems by (auto simp: body_lit_schema_def lit_steps_def target_policy_def shape_def)
    with Cons.IH [OF Cons.prems] show ?thesis by (simp add: sbind_def)
  next
    case False
    then have b: "body_lit_schema R n ins l chs w = step_schema ins (?m, l) chs w"
      by (auto simp: body_lit_schema_def step_schema_def target_policy_def Let_def)
    have steps: "lit_steps R S n (l # ls) = (?m, l) # lit_steps R S n ls"
      using False Cons.prems by (auto simp: lit_steps_def shape_def)
    have "shape (snd (step_schema ins (?m, l) chs w)) = S"
      using update_lit_shape [of w ?m "FLit l" ins] False Cons.prems
      by (auto simp: step_schema_def sbind_def sret_def split: prod.splits sum.splits)
    then show ?thesis using Cons.IH unfolding steps by (auto simp: sbind_def b split: prod.splits sum.splits)
  qed
qed

lemma update_rule_steps:
  assumes n: "map_of w n = Some p" "pschema p \<noteq> None" and f: "f = FRule r \<or> f = FLit (rule_head r) \<and> body r = []"
  shows "update_rule_schema R n f ins w =
    (if shape w n = Some (True, True) then for_st (step_schema ins) (rule_steps R (shape w) n r) [] w else (Inr [], w))"
proof -
  obtain s where s: "pschema p = Some s" using n(2) by auto
  have pa: "policy_at w n = p" using n(1) by (simp add: policy_at_def)
  have sh: "shape w n = Some (plinked p, \<not> complete s)" using n(1) s by (simp add: shape_def)
  show ?thesis
  proof (cases "plinked p \<and> \<not> complete s")
    case False
    then show ?thesis using pa s sh by (auto simp: update_rule_schema_def)
  next
    case True
    let ?u = "update_lit_schema n (FLit (rule_head r)) ins"
    have step: "step_schema ins (n, rule_head r) [] w = (case ?u w of (Inl e, w) \<Rightarrow> (Inl e, w) | (Inr ch, w) \<Rightarrow> (Inr [ch], w))"
      by (simp add: step_schema_def sbind_def sret_def cong: sum.case_cong)
    have S1: "shape (snd (?u w)) = shape w" using update_lit_shape n(1) by simp
    have body: "for_st (body_lit_schema R n ins) (body r) [ch] (snd (?u w)) =
        for_st (step_schema ins) (lit_steps R (shape w) n (body r)) [ch] (snd (?u w))" for ch
      by (rule body_steps [OF S1])
    have "update_rule_schema R n (FRule r) ins w = for_st (step_schema ins) (rule_steps R (shape w) n r) [] w"
      using body by (cases "?u w"; cases "fst (?u w)") (simp_all add: update_rule_schema_def pa s True rule_steps_def sbind_def step)
    moreover have "update_rule_schema R n (FLit (rule_head r)) ins w = for_st (step_schema ins) (rule_steps R (shape w) n r) [] w"
      if "body r = []"
      using that by (simp add: update_rule_schema_def pa s True rule_steps_def lit_steps_def step_schema_def sbind_def sret_def
          split: prod.splits sum.splits)
    ultimately show ?thesis using f sh True by auto
  qed
qed

lemma rule_steps_ok: "local_head n r \<Longrightarrow> shape w n \<noteq> None \<Longrightarrow> steps_ok (shape w) n (rule_steps R (shape w) n r)"
  by (auto simp: steps_ok_def rule_steps_def lit_steps_def local_head_def)

lemma learned_learning: "p \<in> set (learned_places S sts) \<Longrightarrow> learning S (fst p)"
  by (auto simp: learned_places_def)

lemma update_rule_schema_ok:
  assumes ok: "schemas_ok w B" and n: "map_of w n = Some p" and r: "local_head n r"
    and f: "f = FRule r \<or> f = FLit (rule_head r) \<and> body r = []"
  shows "\<exists>chs w'. update_rule_schema R n f ins w = (Inr chs, w') \<and> same_but_schemas w w' \<and>
    schemas_ok w' (bags_after ins (mentions R (shape w) n r) B) \<and>
    (\<forall>w2. ins \<or> distinct (mentions R (shape w) n r) \<longrightarrow> shape w2 = shape w \<longrightarrow> schemas_ok w2 (bags_after ins (mentions R (shape w) n r) B) \<longrightarrow>
       (\<exists>w3. revert_schema n chs w2 = (Inr (), w3) \<and> same_but_schemas w2 w3 \<and> schemas_ok w3 B))"
proof -
  have s: "pschema p \<noteq> None" using ok n by (auto simp: schemas_ok_def)
  note u = update_rule_steps [OF n s f, of R ins]
  let ?ps = "mentions R (shape w) n r"
  show ?thesis
  proof (cases "shape w n = Some (True, True)")
    case False
    then have ps: "?ps = []" by (simp add: mentions_def)
    have "revert_schema n [] w2 = (Inr (), w2)" for w2 by (simp add: revert_schema_def sret_def)
    with u False ok show ?thesis by (auto simp: ps bags_after_simps)
  next
    case True
    let ?sts = "rule_steps R (shape w) n r"
    have ps: "?ps = learned_places (shape w) ?sts" using True by (simp add: mentions_def)
    obtain chs w' where run: "for_st (step_schema ins) ?sts [] w = (Inr chs, w')" "same_but_schemas w w'"
      "schemas_ok w' (bags_after ins ?ps B)"
      "ins \<or> distinct ?ps \<longrightarrow> map (change_place n) (somes chs) = places_changed ins ?ps B \<and>
       (\<forall>c \<in> set (somes chs). change_good ins n c (bags_after ins ?ps B))"
      using schema_steps_ok [OF ok, of n ?sts ins "[]"] rule_steps_ok [OF r, of w R] True ps by auto
    have "\<exists>w3. revert_schema n chs w2 = (Inr (), w3) \<and> same_but_schemas w2 w3 \<and> schemas_ok w3 B"
      if w2: "shape w2 = shape w" "schemas_ok w2 (bags_after ins ?ps B)" and d: "ins \<or> distinct ?ps" for w2
    proof -
      have places: "map (change_place n) (somes chs) = places_changed ins ?ps B"
        and good: "\<forall>c \<in> set (somes chs). change_good ins n c (bags_after ins ?ps B)" using run(4) d by auto
      note S2 = w2(1)
      have "shape w2 n = Some (True, True)" using True S2 by simp
      then have "plinked (policy_at w2 n)" by (auto simp: shape_def policy_at_def)
      then have rv: "revert_schema n chs w2 = for_st (revert_step n) chs () w2" by (simp add: revert_schema_steps)
      have l: "learning (shape w2) (fst (change_place n c))" if "c \<in> set (somes chs)" for c
      proof -
        have "change_place n c \<in> set (map (change_place n) (somes chs))" using that by simp
        then have "change_place n c \<in> set ?ps" unfolding places by (auto simp: places_changed_def split: if_splits)
        then show ?thesis unfolding ps S2 by (rule learned_learning)
      qed
      have sub: "\<forall>m. tables_in m (map (change_place n) (somes chs)) \<subseteq># bags_after ins ?ps B m" if ins
        using that places by (simp add: places_changed_def bags_after_def)
      obtain w3 where "for_st (revert_step n) chs () w2 = (Inr (), w3)" "same_but_schemas w2 w3"
        "schemas_ok w3 (reverted n ins (somes chs) (bags_after ins ?ps B))"
        using revert_all_ok [OF w2(2), where chs = chs and n = n and ins = ins] good l sub by blast
      with rv reverted_back [OF places] d show ?thesis by auto
    qed
    with u True run(1-3) show ?thesis by auto
  qed
qed

section \<open>The rules of all policies\<close>

type_synonym rule_base = "(string \<times> rule) list"

text \<open>Entries are equal when their policy, table and fact or rule are.\<close>

definition entry_key :: "string \<times> rule \<Rightarrow> string \<times> string \<times> (fact + literal list \<times> literal list)" where
  "entry_key e = (case e of (n, r) \<Rightarrow> let k = tbl (table (rule_head r)) in
     (n, k, if body r = [] then Inl (fact_of_args k (arguments (rule_head r))) else Inr (rule_key r)))"

definition facts_in :: "string \<Rightarrow> string \<Rightarrow> rule_base \<Rightarrow> fact set" where
  "facts_in n k L = {fact_of_args k (arguments (rule_head r)) |r. (n, r) \<in> set L \<and> body r = [] \<and> tbl (table (rule_head r)) = k}"

definition rules_in :: "string \<Rightarrow> string \<Rightarrow> rule_base \<Rightarrow> rule list" where
  "rules_in n k L = map snd (filter (\<lambda>(m, r). m = n \<and> body r \<noteq> [] \<and> tbl (table (rule_head r)) = k) L)"

definition stores_ok :: "(string \<Rightarrow> string \<Rightarrow> nat) \<Rightarrow> (string \<Rightarrow> rule_store option) \<Rightarrow> rule_base \<Rightarrow> bool" where
  "stores_ok W st L = (\<forall>m rs. st m = Some rs \<longrightarrow>
     (\<exists>sp. store_rep (W m) rs sp \<and> (\<forall>k. sp_facts sp k = facts_in m k L \<and> sp_rules sp k = rules_in m k L)))"

definition rule_ok_for :: "(string \<Rightarrow> string \<Rightarrow> nat) \<Rightarrow> string \<Rightarrow> rule \<Rightarrow> bool" where
  "rule_ok_for W n r = (length (heads r) = 1 \<and> local_head n r \<and> \<not> negated (rule_head r) \<and>
     (body r = [] \<longrightarrow> length (arguments (rule_head r)) = W n (tbl (table (rule_head r)))))"

definition base_insert :: "string \<times> rule \<Rightarrow> rule_base \<Rightarrow> rule_base" where
  "base_insert e L = (if entry_key e \<in> entry_key ` set L then L else L @ [e])"

definition base_delete :: "string \<times> rule \<Rightarrow> rule_base \<Rightarrow> rule_base" where
  "base_delete e L = filter (\<lambda>d. entry_key d \<noteq> entry_key e) L"

lemma facts_in_entry:
  "body r = [] \<Longrightarrow> k = tbl (table (rule_head r)) \<Longrightarrow>
    fact_of_args k (arguments (rule_head r)) \<in> facts_in n k L \<longleftrightarrow> entry_key (n, r) \<in> entry_key ` set L"
  by (force simp: facts_in_def entry_key_def Let_def image_iff split: if_splits)

lemma rules_in_entry:
  "body r \<noteq> [] \<Longrightarrow> rule_key r \<in> rule_key ` set (rules_in n (tbl (table (rule_head r))) L) \<longleftrightarrow> entry_key (n, r) \<in> entry_key ` set L"
  by (force simp: rules_in_def entry_key_def Let_def image_iff split: if_splits)

lemma facts_in_insert:
  "facts_in m k (L @ [(n, r)]) =
    (if m = n \<and> body r = [] \<and> k = tbl (table (rule_head r)) then insert (fact_of_args k (arguments (rule_head r))) (facts_in m k L)
     else facts_in m k L)"
  by (auto simp: facts_in_def)

lemma rules_in_insert:
  "rules_in m k (L @ [(n, r)]) = (if m = n \<and> body r \<noteq> [] \<and> k = tbl (table (rule_head r)) then rules_in m k L @ [r] else rules_in m k L)"
  by (simp add: rules_in_def)

lemma facts_in_delete:
  "facts_in m k (base_delete (n, r) L) =
    (if m = n \<and> body r = [] \<and> k = tbl (table (rule_head r)) then facts_in m k L - {fact_of_args k (arguments (rule_head r))}
     else facts_in m k L)"
  by (auto simp: facts_in_def base_delete_def entry_key_def Let_def split: if_splits)

lemma rules_in_delete:
  "rules_in m k (base_delete (n, r) L) =
    (if m = n \<and> body r \<noteq> [] \<and> k = tbl (table (rule_head r)) then filter (\<lambda>s. rule_key s \<noteq> rule_key r) (rules_in m k L)
     else rules_in m k L)"
  by (induction L) (auto simp: rules_in_def base_delete_def entry_key_def Let_def split: if_splits)

lemma base_delete_absent: "entry_key e \<notin> entry_key ` set L \<Longrightarrow> base_delete e L = L"
  unfolding base_delete_def by (rule filter_key_id)

lemma store_insert:
  assumes sp: "store_rep (W n) rs sp" "\<forall>k. sp_facts sp k = facts_in n k L \<and> sp_rules sp k = rules_in n k L" and r: "rule_ok_for W n r"
  shows "\<exists>rs' sp'. rs_add_rule (tbl (table (rule_head r))) (FRule r) rs = (Inr (entry_key (n, r) \<notin> entry_key ` set L), rs') \<and>
    store_rep (W n) rs' sp' \<and> (\<forall>k. sp_facts sp' k = facts_in n k (base_insert (n, r) L) \<and> sp_rules sp' k = rules_in n k (base_insert (n, r) L))"
proof -
  let ?k = "tbl (table (rule_head r))" and ?op = "RAdd (tbl (table (rule_head r))) (FRule r)"
  have ok: "rs_op_ok (W n) ?op" using r by (auto simp: rule_ok_for_def)
  note sim = rs_run_sim [OF ok sp(1)]
  have out: "fst (rs_spec ?op sp) = RBool (entry_key (n, r) \<notin> entry_key ` set L)"
    using sp(2) facts_in_entry [of r ?k n L] rules_in_entry [of r n L] by (cases "body r = []") (simp_all add: stored_fact_def)
  obtain rs' where "rs_add_rule ?k (FRule r) rs = (Inr (entry_key (n, r) \<notin> entry_key ` set L), rs')"
    using sim out by (cases "rs_add_rule ?k (FRule r) rs"; cases "fst (rs_add_rule ?k (FRule r) rs)") (auto simp: bool_out_def)
  moreover have "sp_facts (snd (rs_spec ?op sp)) k = facts_in n k (base_insert (n, r) L) \<and>
      sp_rules (snd (rs_spec ?op sp)) k = rules_in n k (base_insert (n, r) L)" for k
    using sp(2) facts_in_entry [of r ?k n L] rules_in_entry [of r n L]
    by (cases "body r = []"; cases "entry_key (n, r) \<in> entry_key ` set L")
      (simp_all add: stored_fact_def base_insert_def facts_in_insert rules_in_insert sp_set_facts_def sp_set_rules_def insert_absorb)
  ultimately show ?thesis using sim by auto
qed

lemma store_delete:
  assumes sp: "store_rep (W n) rs sp" "\<forall>k. sp_facts sp k = facts_in n k L \<and> sp_rules sp k = rules_in n k L"
  shows "\<exists>rs' sp'. rs_discard_rule (tbl (table (rule_head r))) (FRule r) rs = (Inr (entry_key (n, r) \<in> entry_key ` set L), rs') \<and>
    store_rep (W n) rs' sp' \<and> (\<forall>k. sp_facts sp' k = facts_in n k (base_delete (n, r) L) \<and> sp_rules sp' k = rules_in n k (base_delete (n, r) L))"
proof -
  let ?k = "tbl (table (rule_head r))" and ?op = "RDiscard (tbl (table (rule_head r))) (FRule r)"
  have ok: "rs_op_ok (W n) ?op" by simp
  note sim = rs_run_sim [OF ok sp(1)]
  have out: "fst (rs_spec ?op sp) = RBool (entry_key (n, r) \<in> entry_key ` set L)"
    using sp(2) facts_in_entry [of r ?k n L] rules_in_entry [of r n L] by (cases "body r = []") (simp_all add: stored_fact_def Let_def)
  obtain rs' where "rs_discard_rule ?k (FRule r) rs = (Inr (entry_key (n, r) \<in> entry_key ` set L), rs')"
    using sim out by (cases "rs_discard_rule ?k (FRule r) rs"; cases "fst (rs_discard_rule ?k (FRule r) rs)") (auto simp: bool_out_def)
  moreover have "sp_facts (snd (rs_spec ?op sp)) k = facts_in n k (base_delete (n, r) L) \<and>
      sp_rules (snd (rs_spec ?op sp)) k = rules_in n k (base_delete (n, r) L)" for k
    using sp(2) by (cases "body r = []")
      (simp_all add: stored_fact_def facts_in_delete rules_in_delete sp_set_facts_def sp_set_rules_def Let_def)
  ultimately show ?thesis using sim by auto
qed

lemma stores_ok_change:
  assumes "stores_ok W st L" "store_rep (W n) rs' sp'" "\<forall>k. sp_facts sp' k = facts_in n k L' \<and> sp_rules sp' k = rules_in n k L'"
    "\<And>m k. m \<noteq> n \<Longrightarrow> facts_in m k L' = facts_in m k L \<and> rules_in m k L' = rules_in m k L"
  shows "stores_ok W (st(n \<mapsto> rs')) L'"
  using assms unfolding stores_ok_def by (auto 4 3)

lemma on_rules_ok:
  assumes "map_of w n = Some p" "F (prules p) = (Inr b, rs')"
  shows "\<exists>w'. sbind (set_dirty n) (\<lambda>_. on_rules n F) w = (Inr b, w') \<and> shape w' = shape w \<and>
    (\<forall>B. schemas_ok w B \<longrightarrow> schemas_ok w' B) \<and> stores w' = (stores w)(n \<mapsto> rs')"
  using assms
  by (auto simp: sbind_def set_dirty_def on_rules_def set_policy_def policy_at_def shape_def schemas_ok_def stores_def fun_eq_iff)

lemma stores_okD:
  assumes "stores_ok W (stores w) L" "map_of w n = Some p"
  obtains sp where "store_rep (W n) (prules p) sp" "\<forall>k. sp_facts sp k = facts_in n k L \<and> sp_rules sp k = rules_in n k L"
proof -
  have "stores w n = Some (prules p)" using assms(2) by (simp add: stores_def)
  with assms(1) that show thesis unfolding stores_ok_def by blast
qed

lemma insert_actual_ok:
  assumes st: "stores_ok W (stores w) L" and n: "map_of w n = Some p" and f: "as_rule f = Inr r" and r: "rule_ok_for W n r"
  shows "\<exists>w'. insert_actual n f w = (Inr (entry_key (n, r) \<notin> entry_key ` set L), w') \<and> shape w' = shape w \<and>
    (\<forall>B. schemas_ok w B \<longrightarrow> schemas_ok w' B) \<and> stores_ok W (stores w') (base_insert (n, r) L)"
proof -
  from st n obtain sp where sp: "store_rep (W n) (prules p) sp" "\<forall>k. sp_facts sp k = facts_in n k L \<and> sp_rules sp k = rules_in n k L"
    by (rule stores_okD)
  obtain rs' sp' where s': "rs_add_rule (tbl (table (rule_head r))) (FRule r) (prules p) = (Inr (entry_key (n, r) \<notin> entry_key ` set L), rs')"
    "store_rep (W n) rs' sp'" "\<forall>k. sp_facts sp' k = facts_in n k (base_insert (n, r) L) \<and> sp_rules sp' k = rules_in n k (base_insert (n, r) L)"
    using store_insert [OF sp r] by blast
  have "stores_ok W ((stores w)(n \<mapsto> rs')) (base_insert (n, r) L)"
    by (rule stores_ok_change [OF st s'(2,3)]) (simp add: base_insert_def facts_in_insert rules_in_insert)
  with on_rules_ok [where F = "rs_add_rule (tbl (table (rule_head r))) (FRule r)", OF n s'(1)] f
  show ?thesis by (auto simp: insert_actual_def)
qed

lemma delete_actual_ok:
  assumes st: "stores_ok W (stores w) L" and n: "map_of w n = Some p" and f: "as_rule f = Inr r"
  shows "\<exists>w'. delete_actual n f w = (Inr (entry_key (n, r) \<in> entry_key ` set L), w') \<and> shape w' = shape w \<and>
    (\<forall>B. schemas_ok w B \<longrightarrow> schemas_ok w' B) \<and> stores_ok W (stores w') (base_delete (n, r) L)"
proof -
  from st n obtain sp where sp: "store_rep (W n) (prules p) sp" "\<forall>k. sp_facts sp k = facts_in n k L \<and> sp_rules sp k = rules_in n k L"
    by (rule stores_okD)
  obtain rs' sp' where s': "rs_discard_rule (tbl (table (rule_head r))) (FRule r) (prules p) = (Inr (entry_key (n, r) \<in> entry_key ` set L), rs')"
    "store_rep (W n) rs' sp'" "\<forall>k. sp_facts sp' k = facts_in n k (base_delete (n, r) L) \<and> sp_rules sp' k = rules_in n k (base_delete (n, r) L)"
    using store_delete [where W = W and L = L, OF sp] by blast
  have "stores_ok W ((stores w)(n \<mapsto> rs')) (base_delete (n, r) L)"
    by (rule stores_ok_change [OF st s'(2,3)]) (simp add: facts_in_delete rules_in_delete)
  with on_rules_ok [where F = "rs_discard_rule (tbl (table (rule_head r))) (FRule r)", OF n s'(1)] f
  show ?thesis by (auto simp: delete_actual_def)
qed

section \<open>Updates follow the specification\<close>

text \<open>The bag of tables that the stored rules mention in policy \<open>m\<close>.\<close>

definition base_bag :: "'c registry \<Rightarrow> (string \<Rightarrow> (bool \<times> bool) option) \<Rightarrow> rule_base \<Rightarrow> bags" where
  "base_bag R S L m = (\<Sum>(n, r) \<in># mset L. tables_in m (mentions R S n r))"

definition base_ok :: "'c registry \<Rightarrow> (string \<Rightarrow> string \<Rightarrow> nat) \<Rightarrow> world \<Rightarrow> rule_base \<Rightarrow> bool" where
  "base_ok R W w L = (stores_ok W (stores w) L \<and> schemas_ok w (base_bag R (shape w) L) \<and>
     distinct (map entry_key L) \<and> (\<forall>(n, r) \<in> set L. rule_ok_for W n r))"

text \<open>The rule that an event stores: an atom is a rule without a body, bodies are put in a safe order.\<close>

definition event_rule :: "'c registry \<Rightarrow> event \<Rightarrow> rule res" where
  "event_rule R e = rbind (reorder_formula R (formula e)) as_rule"

definition base_update :: "'c registry \<Rightarrow> string \<Rightarrow> event \<Rightarrow> rule_base \<Rightarrow> bool \<times> rule_base" where
  "base_update R n e L = (case event_rule R e of
     Inl _ \<Rightarrow> (False, L)
   | Inr r \<Rightarrow>
       if is_insert e then (entry_key (n, r) \<notin> entry_key ` set L, base_insert (n, r) L)
       else (entry_key (n, r) \<in> entry_key ` set L, base_delete (n, r) L))"

fun base_updates :: "'c registry \<Rightarrow> string \<Rightarrow> event list \<Rightarrow> rule_base \<Rightarrow> event list \<times> rule_base" where
  "base_updates R n [] L = ([], L)"
| "base_updates R n (e # es) L =
     (let (b, L) = base_update R n e L; (chs, L) = base_updates R n es L in (if b then e # chs else chs, L))"

text \<open>
  An event is fine when its rule is safe and local; a deletion must be of a rule that is there or
  that mentions no table twice.
\<close>

definition event_ok :: "'c registry \<Rightarrow> (string \<Rightarrow> string \<Rightarrow> nat) \<Rightarrow> (string \<Rightarrow> (bool \<times> bool) option) \<Rightarrow> string \<Rightarrow> event \<Rightarrow> rule_base \<Rightarrow> bool" where
  "event_ok R W S n e L =
     (is_datalog (formula e) \<and>
      (case event_rule R e of Inl _ \<Rightarrow> False | Inr r \<Rightarrow> rule_ok_for W n r \<and>
         (is_insert e \<or> entry_key (n, r) \<in> entry_key ` set L \<or> distinct (mentions R S n r))))"

fun events_ok :: "'c registry \<Rightarrow> (string \<Rightarrow> string \<Rightarrow> nat) \<Rightarrow> (string \<Rightarrow> (bool \<times> bool) option) \<Rightarrow> string \<Rightarrow> event list \<Rightarrow> rule_base \<Rightarrow> bool" where
  "events_ok R W S n [] L = True"
| "events_ok R W S n (e # es) L = (event_ok R W S n e L \<and> events_ok R W S n es (snd (base_update R n e L)))"

lemma mentions_perm:
  assumes "rule_head r = rule_head r'" "mset (body r) = mset (body r')"
  shows "mset (mentions R S n r) = mset (mentions R S n r')"
  using assms by (simp add: mentions_def rule_steps_def lit_steps_def learned_places_def)

lemma tables_in_perm: "mset ps = mset qs \<Longrightarrow> tables_in m ps = tables_in m qs"
  by (rule multiset_eqI) (simp add: count_tables_in)

text \<open>Entries with the same key mention the same tables.\<close>

lemma mentions_key:
  assumes "entry_key (n, r) = entry_key (n, r')" "length (heads r) = 1" "length (heads r') = 1"
  shows "mset (mentions R S n r) = mset (mentions R S n r')"
proof -
  have k: "tbl (table (rule_head r)) = tbl (table (rule_head r'))" and b: "body r = [] \<longleftrightarrow> body r' = []"
    using assms(1) by (auto simp: entry_key_def Let_def split: if_splits)
  show ?thesis
  proof (cases "body r = []")
    case True
    with b k show ?thesis by (simp add: mentions_def rule_steps_def lit_steps_def learned_places_def)
  next
    case False
    with b assms(1) have rk: "rule_key r = rule_key r'" by (simp add: entry_key_def Let_def)
    have h: "mset (heads r) = mset (heads r')" "mset (body r) = mset (body r')"
      using rk unfolding rule_key_def prod.inject by (metis mset_sorted_by)+
    then have "rule_head r = rule_head r'" using assms(2,3) by (cases "heads r"; cases "heads r'") auto
    with h show ?thesis by (intro mentions_perm)
  qed
qed

lemma base_bag_insert: "base_bag R S (L @ [(n, r)]) m = base_bag R S L m + tables_in m (mentions R S n r)"
  by (simp add: base_bag_def)

lemma base_bag_delete:
  assumes "distinct (map entry_key L)" "\<forall>(n, r) \<in> set L. length (heads r) = 1" "length (heads r) = 1" "entry_key (n, r) \<in> entry_key ` set L"
  shows "base_bag R S (base_delete (n, r) L) m = base_bag R S L m - tables_in m (mentions R S n r)"
proof -
  obtain d where d: "d \<in> set L" "entry_key d = entry_key (n, r)" using assms(4) by auto
  obtain r' where r': "d = (n, r')" using d(2) by (cases d) (auto simp: entry_key_def Let_def)
  obtain as bs where L: "L = as @ d # bs" using d(1) by (auto simp: in_set_conv_decomp)
  have "base_delete (n, r) L = as @ bs"
    using assms(1) d(2) by (auto simp: base_delete_def L filter_id_conv rev_image_eqI intro!: arg_cong2 [where f = append])
  moreover have "tables_in m (mentions R S n r') = tables_in m (mentions R S n r)"
    using d r' assms(2,3) by (intro tables_in_perm mentions_key) auto
  ultimately show ?thesis by (simp add: base_bag_def L r')
qed

lemma event_rule_cases:
  assumes "event_rule R e = Inr r" "is_datalog (formula e)"
  obtains r0 where "formula e = FRule r0 \<or> formula e = FLit (rule_head r0) \<and> body r0 = []"
    "rule_head r0 = rule_head r" "mset (body r0) = mset (body r)"
proof (cases "formula e")
  case (FRule r0)
  then have ro: "reorder_for_safety R r0 = Inr r" using assms(1) by (auto simp: event_rule_def rbind_Inr_iff)
  have "is_rule (FRule r0)" using assms(2) FRule by (auto simp: is_datalog_def)
  from reorder_ok [OF this, of R] ro have "r = r0\<lparr>body := body r\<rparr>" "mset (body r) = mset (body r0)" by simp_all
  with FRule show thesis by (intro that [of r0]) (simp_all, metis rule.select_convs(1) rule.surjective rule.update_convs(2))
next
  case (FLit l)
  then have "r = \<lparr>heads = [l], body = []\<rparr>" using assms(1) by (auto simp: event_rule_def split: if_splits)
  with FLit show thesis by (intro that [of r]) auto
qed (use assms in \<open>auto simp: event_rule_def\<close>)

lemma base_entries:
  assumes "base_ok R W w L" "rule_ok_for W n r"
  shows "distinct (map entry_key (base_insert (n, r) L))" "\<forall>(n, r) \<in> set (base_insert (n, r) L). rule_ok_for W n r"
    "distinct (map entry_key (base_delete (n, r) L))" "\<forall>(n, r) \<in> set (base_delete (n, r) L). rule_ok_for W n r"
  using assms by (auto simp: base_ok_def base_insert_def base_delete_def distinct_map_filter)

lemma update_event_ok:
  assumes base: "base_ok R W w L" and n: "map_of w n = Some p" and e: "event_ok R W (shape w) n e L"
  shows "\<exists>w'. update_event R n e chs w = (Inr (if fst (base_update R n e L) then chs @ [e] else chs), w') \<and>
    shape w' = shape w \<and> base_ok R W w' (snd (base_update R n e L))"
proof -
  obtain r where r: "event_rule R e = Inr r" "rule_ok_for W n r" and dg: "is_datalog (formula e)"
    and del: "is_insert e \<or> entry_key (n, r) \<in> entry_key ` set L \<or> distinct (mentions R (shape w) n r)"
    using e by (auto simp: event_ok_def split: sum.splits)
  obtain r0 where r0: "formula e = FRule r0 \<or> formula e = FLit (rule_head r0) \<and> body r0 = []"
    "rule_head r0 = rule_head r" "mset (body r0) = mset (body r)" using event_rule_cases [OF r(1) dg] by blast
  obtain f where f: "reorder_formula R (formula e) = Inr f" "as_rule f = Inr r"
    using r(1) by (auto simp: event_rule_def rbind_Inr_iff)
  let ?S = "shape w" and ?B = "base_bag R (shape w) L" and ?in = "is_insert e" and ?k = "entry_key (n, r) \<in> entry_key ` set L"
  let ?M = "mentions R ?S n r0"
  have M: "tables_in m ?M = tables_in m (mentions R ?S n r)" for m
    by (intro tables_in_perm mentions_perm r0)
  have dM: "distinct ?M = distinct (mentions R ?S n r)" by (intro mset_eq_imp_distinct_iff mentions_perm r0)
  have B: "schemas_ok w ?B" and st: "stores_ok W (stores w) L" using base by (simp_all add: base_ok_def)
  have loc: "local_head n r0" using r(2) r0(2) by (simp add: rule_ok_for_def local_head_def)
  obtain cs w1 where u: "update_rule_schema R n (formula e) ?in w = (Inr cs, w1)" "same_but_schemas w w1"
    "schemas_ok w1 (bags_after ?in ?M ?B)"
    "\<And>w2. ?in \<or> distinct ?M \<Longrightarrow> shape w2 = ?S \<Longrightarrow> schemas_ok w2 (bags_after ?in ?M ?B) \<Longrightarrow>
       \<exists>w3. revert_schema n cs w2 = (Inr (), w3) \<and> same_but_schemas w2 w3 \<and> schemas_ok w3 ?B"
    using update_rule_schema_ok [OF B n loc r0(1), of R ?in] by blast
  have w1: "shape w1 = ?S" "stores w1 = stores w" using u(2) by (simp_all add: same_but_schemas_def)
  then obtain p1 where p1: "map_of w1 n = Some p1" using n by (auto simp: fun_eq_iff stores_def dest!: spec [of _ n])
  have st1: "stores_ok W (stores w1) L" using st w1 by simp
  let ?L = "if ?in then base_insert (n, r) L else base_delete (n, r) L" and ?ch = "?k \<noteq> ?in"
  obtain w2 where w2: "(if ?in then insert_actual n f else delete_actual n f) w1 = (Inr ?ch, w2)" "shape w2 = ?S"
    "\<And>B. schemas_ok w1 B \<Longrightarrow> schemas_ok w2 B" "stores_ok W (stores w2) ?L"
    using insert_actual_ok [OF st1 p1 f(2) r(2)] delete_actual_ok [OF st1 p1 f(2)] w1(1) by (cases ?in) auto
  have upd: "base_update R n e L = (?ch, ?L)" using r(1) by (simp add: base_update_def)
  have run: "update_event R n e chs w =
      (if ?ch then (Inr (chs @ [e]), w2) else sbind (revert_schema n cs) (\<lambda>_. sret chs) w2)"
    using u(1) w2(1) f(1) by (simp add: update_event_def sbind_def sret_def split: if_splits)
  note entries = base_entries [OF base r(2)]
  show ?thesis
  proof (cases ?ch)
    case True
    have one: "\<forall>(n, r) \<in> set L. length (heads r) = 1" "length (heads r) = 1" "distinct (map entry_key L)"
      using base r(2) by (auto simp: base_ok_def rule_ok_for_def)
    have "bags_after ?in ?M ?B = base_bag R ?S ?L"
    proof (cases ?in)
      case ins: True
      with True show ?thesis by (simp add: bags_after_def fun_eq_iff M base_insert_def base_bag_insert)
    next
      case del: False
      with True have ?k by simp
      from base_bag_delete [OF one(3) one(1) one(2) this, of R ?S] del show ?thesis by (simp add: bags_after_def fun_eq_iff M)
    qed
    then have "schemas_ok w2 (base_bag R ?S ?L)" using w2(3) [OF u(3)] by simp
    with True upd run w2 entries show ?thesis by (cases ?in) (auto simp: base_ok_def)
  next
    case False
    have same: "?L = L" using False base_delete_absent [of "(n, r)" L] by (auto simp: base_insert_def)
    have "?in \<or> distinct ?M" using False del dM by auto
    then obtain w3 where "revert_schema n cs w2 = (Inr (), w3)" "same_but_schemas w2 w3" "schemas_ok w3 ?B"
      using u(4) [OF _ w2(2) w2(3) [OF u(3)]] by blast
    with False upd run w2 base same show ?thesis
      by (auto simp: base_ok_def same_but_schemas_def sbind_def sret_def)
  qed
qed

lemma update_events_ok:
  assumes "base_ok R W w L" "map_of w n \<noteq> None" "events_ok R W (shape w) n events L"
  shows "\<exists>w'. for_st (update_event R n) events chs w = (Inr (chs @ fst (base_updates R n events L)), w') \<and>
    shape w' = shape w \<and> base_ok R W w' (snd (base_updates R n events L))"
  using assms
proof (induction events arbitrary: w L chs)
  case Nil
  then show ?case by (simp add: sret_def)
next
  case (Cons e es)
  obtain p where p: "map_of w n = Some p" using Cons.prems(2) by auto
  obtain b L1 where b: "base_update R n e L = (b, L1)" by (cases "base_update R n e L")
  obtain w1 where w1: "update_event R n e chs w = (Inr (if b then chs @ [e] else chs), w1)" "shape w1 = shape w" "base_ok R W w1 L1"
    using update_event_ok [OF Cons.prems(1) p, of e chs] Cons.prems(3) b by auto
  have "map_of w1 n \<noteq> None" using w1(2) Cons.prems(2) shape_known by metis
  from Cons.IH [OF w1(3) this, of "if b then chs @ [e] else chs"] Cons.prems(3) w1 b
  show ?case by (auto simp: sbind_def split_beta)
qed

text \<open>
  C2. Updating a policy is refined by adding and removing rules of a list: when the rules of the
  events are safe and have heads of the policy itself, and deletions are of rules that are there
  or mention no table twice, \<open>update\<close> does not raise, it returns exactly the events that
  changed the list, and afterwards the stores hold the rules of the new list and every learned
  schema (of the policy and of all others) counts exactly the tables that the list mentions.
\<close>

theorem update_refines_rule_list:
  assumes "base_ok R W w L" "map_of w n \<noteq> None" "events_ok R W (shape w) n events L"
  shows "\<exists>w'. update_policy R n events w = (Inr (fst (base_updates R n events L)), w') \<and>
    base_ok R W w' (snd (base_updates R n events L))"
  using update_events_ok [OF assms, of "[]"] by (auto simp: update_policy_def)

text \<open>Policies without rules, and their schemas, stand for the empty list.\<close>

lemma base_ok_new:
  assumes "\<forall>p \<in> set (map snd w). prules p = rs_empty \<and> (\<exists>c. pschema p = Some (schema_new c))"
  shows "base_ok R W w []"
proof -
  have "prules p = rs_empty \<and> (\<exists>c. pschema p = Some (schema_new c))" if "map_of w m = Some p" for m p
    using bspec [OF assms, of p] map_of_SomeD [OF that] by (force simp: image_iff)
  moreover have "store_rep (W m) rs_empty sp_empty" for m by (rule store_rep_empty)
  ultimately show ?thesis using schema_rep_new
    by (fastforce simp: base_ok_def stores_ok_def stores_def schemas_ok_def base_bag_def facts_in_def rules_in_def sp_empty_def)
qed

definition two_policies :: world where
  "two_policies = [(''a'', nonrecursive_theory None True), (''b'', nonrecursive_theory None True)]"

text \<open>\<open>p(x) :- b:q(x)\<close>\<close>

definition remote_rule :: rule where
  "remote_rule = \<lparr>heads = [lit ''p'' [Variable ''x'']],
     body = [(lit ''q'' [Variable ''x''])\<lparr>table := \<lparr>tbl = ''q'', service = Some ''b'', modal = None\<rparr>\<rparr>]\<rparr>"

definition remote_events :: "event list" where
  "remote_events = [event_of True (FRule remote_rule), event_of True (FRule remote_rule),
     event_of False (FLit (lit ''p'' [ObjectConstant (VInt 1)])), event_of False (FRule remote_rule)]"

theorem update_refines_rule_list_witness:
  "\<exists>w'. update_policy no_builtins ''a'' remote_events two_policies =
     (Inr [event_of True (FRule remote_rule), event_of False (FRule remote_rule)], w') \<and>
   base_ok no_builtins (\<lambda>_ _. 1) w' []"
proof -
  have new: "base_ok no_builtins (\<lambda>_ _. 1) two_policies []"
    by (rule base_ok_new) (auto simp: two_policies_def nonrecursive_theory_def new_policy_def)
  have known: "map_of two_policies ''a'' \<noteq> None" by (simp add: two_policies_def)
  have ok: "events_ok no_builtins (\<lambda>_ _. 1) (shape two_policies) ''a'' remote_events []" by code_simp
  have "base_updates no_builtins ''a'' remote_events [] =
      ([event_of True (FRule remote_rule), event_of False (FRule remote_rule)], [])" by code_simp
  with update_refines_rule_list [OF new known ok] show ?thesis by simp
qed

section \<open>Where the code leaves the specification\<close>

definition schema_tables :: "string \<Rightarrow> world \<Rightarrow> string list" where
  "schema_tables n w = (case pschema (policy_at w n) of None \<Rightarrow> [] | Some s \<Rightarrow> dkeys (smap s))"

text \<open>
  The schemas are told about a rule before its body is put in order: when no order is safe the
  update raises and the schemas keep the tables of the rejected rule (\<open>p(x) :- not b:q(x)\<close>).
\<close>

definition unsafe_rule :: rule where
  "unsafe_rule = remote_rule\<lparr>body := map lit_complement (body remote_rule)\<rparr>"

theorem rejected_rule_teaches_schema:
  "let (r, w) = update_policy no_builtins ''a'' [event_of True (FRule unsafe_rule)] two_policies
   in r = Inl PolicyException \<and> schema_tables ''a'' w = [''p''] \<and> schema_tables ''b'' w = [''q'']"
  by code_simp

text \<open>
  The changes of a deletion that finds no rule are taken back first to last. With two facts in
  table \<open>q\<close>, deleting the absent rule \<open>q(x) :- q(x)\<close> raises an AssertionError after the table
  was dropped from the schema, and the facts stay.
\<close>

definition two_facts :: "event list" where
  "two_facts = map (\<lambda>i. event_of True (FLit (lit ''q'' [ObjectConstant (VInt i)]))) [1, 2]"

definition loop_rule :: rule where
  "loop_rule = \<lparr>heads = [lit ''q'' [Variable ''x'']], body = [lit ''q'' [Variable ''x'']]\<rparr>"

theorem absent_delete_asserts:
  "let (_, w) = update_policy no_builtins ''a'' two_facts two_policies;
       (r, w') = update_policy no_builtins ''a'' [event_of False (FRule loop_rule)] w
   in r = Inl AssertionError \<and> schema_tables ''a'' w = [''q''] \<and> schema_tables ''a'' w' = [] \<and>
      fst (content ''a'' (Some [''q'']) w') = fst (content ''a'' (Some [''q'']) w)"
  by code_simp

text \<open>
  \<open>initialize_tables\<close> asks \<open>if self.schema\<close>, which is false for a schema without tables: the facts
  of a fresh policy never reach its schema. When the schema has a table they do, and filling a
  table twice counts its facts twice although the first ones are gone.
\<close>

definition q_facts :: "int list \<Rightarrow> fact list" where
  "q_facts is = map (\<lambda>i. \<lparr>ftable = ''q'', fvals = [VInt i]\<rparr>) is"

definition table_count :: "string \<Rightarrow> string \<Rightarrow> world \<Rightarrow> int option" where
  "table_count n t w = Option.bind (pschema (policy_at w n)) (\<lambda>s. Option.bind (scount s) (\<lambda>c. map_of c t))"

theorem initialize_tables_and_schema:
  "let (_, u) = initialize_tables ''a'' [''q''] (q_facts [1, 2]) two_policies;
       (_, v) = update_policy no_builtins ''a'' [hd two_facts] two_policies;
       (_, v1) = initialize_tables ''a'' [''q''] (q_facts [3]) v;
       (_, v2) = initialize_tables ''a'' [''q''] (q_facts [4]) v1
   in schema_tables ''a'' u = [] \<and> table_count ''a'' ''q'' v2 = Some 3 \<and>
      (case fst (content ''a'' (Some [''q'']) v2) of Inr rs \<Rightarrow> length rs = 1 | Inl _ \<Rightarrow> False)"
  by code_simp


end
