(* ===== verification/Projection_Undo.thy ===== *)
theory Projection_Undo
  imports Projection Policy_Update
begin

text \<open>
  A projection can be taken back: a sequence of updates and then the updates it returned leave every
  rule store and every learned schema as they were, on the level of the list of rules that
  Policy_Update relates them to. The last sections have what the code does when the sequence is not
  fine, and what conflicting updates of one action do.
\<close>

declare map_of_eq_Some_iff [simp del] Some_eq_map_of_iff [simp del]

section \<open>Updates with a sign\<close>

definition update_target :: "string \<Rightarrow> formula \<Rightarrow> string" where
  "update_target policyth f = the (or_else (formula_theory_name f) (Some policyth))"

definition adds :: "formula \<Rightarrow> bool" where
  "adds f = (case formula_tablename f of Inr t \<Rightarrow> endswith t ''+'' | Inl _ \<Rightarrow> False)"

definition signed_event :: "formula \<Rightarrow> event" where
  "signed_event f = event_of (adds f) (plain_formula f)"

definition one_head :: "formula \<Rightarrow> bool" where
  "one_head f = (case f of FLit _ \<Rightarrow> True | FRule r \<Rightarrow> length (heads r) = 1 | FFact _ \<Rightarrow> False)"

lemma tablename_sign: "endswith (tablename_name None t) [c] = endswith (tbl t) [c]" if "tbl t \<noteq> []"
  using that by (auto simp: tablename_name_def endswith_one split: option.splits)

lemma update_not_empty: "lit_is_update l \<Longrightarrow> tbl (table l) \<noteq> []"
  by (auto simp: lit_is_update_def tablename_is_update_def endswith_def)

lemma invert_lit:
  assumes "lit_is_update l"
  shows "lit_is_update (lit_invert_update l)" "lit_drop_update (lit_invert_update l) = lit_drop_update l"
    "endswith (tbl (table (lit_invert_update l))) ''+'' \<longleftrightarrow> \<not> endswith (tbl (table l)) ''+''"
    "service (table (lit_invert_update l)) = service (table l)"
    "lit_invert_update (lit_invert_update l) = l"
  using assms
  by (auto simp: lit_is_update_def tablename_is_update_def lit_invert_update_def lit_drop_update_def lit_modify_table_def
      tablename_invert_update_def tablename_drop_update_def endswith_one split_beta intro!: literal.equality tablename.equality)
    (metis append_butlast_last_id)+

lemma lit_adds: "lit_is_update l \<Longrightarrow> endswith (lit_tablename None l) ''+'' = endswith (tbl (table l)) ''+''"
  by (simp add: lit_tablename_def tablename_sign update_not_empty)

lemma invert_formula:
  assumes "formula_is_update f" "one_head f"
  shows "formula_is_update (formula_invert_update f)" "plain_formula (formula_invert_update f) = plain_formula f"
    "adds (formula_invert_update f) \<longleftrightarrow> \<not> adds f" "update_target p (formula_invert_update f) = update_target p f"
    "one_head (formula_invert_update f)"
proof -
  show "formula_is_update (formula_invert_update f)" using assms invert_lit(1)
    by (cases f) (auto simp: one_head_def rule_is_update_def rule_invert_update_def rule_copy_def length_Suc_conv)
  show "plain_formula (formula_invert_update f) = plain_formula f" using assms invert_lit(2)
    by (cases f) (auto simp: one_head_def rule_is_update_def rule_invert_update_def rule_copy_def length_Suc_conv rule_drop_update_def)
  show "adds (formula_invert_update f) \<longleftrightarrow> \<not> adds f" using assms invert_lit(1,3)
    by (cases f) (auto simp: one_head_def rule_is_update_def rule_invert_update_def rule_copy_def length_Suc_conv adds_def
        rule_tablename_def lit_adds)
  show "update_target p (formula_invert_update f) = update_target p f" using assms invert_lit(4)
    by (cases f) (auto simp: one_head_def rule_is_update_def rule_invert_update_def rule_copy_def length_Suc_conv update_target_def
        rule_theory_name_def lit_theory_name_def)
  show "one_head (formula_invert_update f)" using assms
    by (cases f) (auto simp: one_head_def rule_invert_update_def rule_copy_def)
qed

section \<open>The list of rules\<close>

definition same_keys :: "rule_base \<Rightarrow> rule_base \<Rightarrow> bool" where
  "same_keys L L' = (mset (map entry_key L) = mset (map entry_key L'))"

lemma same_keys_set: "same_keys L L' \<Longrightarrow> entry_key ` set L = entry_key ` set L'"
  unfolding same_keys_def by (metis set_map set_mset_mset)

lemma same_keys_trans: "same_keys L M \<Longrightarrow> same_keys M N \<Longrightarrow> same_keys L N"
  by (simp add: same_keys_def)

lemma map_key_filter: "map entry_key (filter (\<lambda>d. entry_key d \<noteq> k) L) = filter (\<lambda>x. x \<noteq> k) (map entry_key L)"
  by (induction L) auto

lemma base_update_same:
  assumes "same_keys L L'"
  shows "fst (base_update R n e L) = fst (base_update R n e L') \<and> same_keys (snd (base_update R n e L)) (snd (base_update R n e L'))"
proof -
  have "mset (map entry_key (base_delete d L)) = mset (map entry_key (base_delete d L'))" for d
    using assms unfolding base_delete_def map_key_filter by (simp add: same_keys_def del: mset_map)
  then show ?thesis
    using same_keys_set [OF assms] assms
    by (cases "event_rule R e") (auto simp: base_update_def base_insert_def same_keys_def)
qed

definition inverse_event :: "event \<Rightarrow> event" where
  "inverse_event e = \<lparr>formula = formula e, is_insert = \<not> is_insert e, target = target e\<rparr>"

lemma event_rule_inverse: "event_rule R (inverse_event e) = event_rule R e"
  by (simp add: event_rule_def inverse_event_def)

text \<open>An update that changed the list is undone by its inverse.\<close>

lemma base_update_inverse:
  assumes "distinct (map entry_key L)" "base_update R n e L = (True, L1)"
  shows "event_rule R e = Inr r \<Longrightarrow> entry_key (n, r) \<in> entry_key ` set L1 = is_insert e"
    and "same_keys (snd (base_update R n (inverse_event e) L1)) L"
proof -
  obtain r where r: "event_rule R e = Inr r" using assms(2) by (auto simp: base_update_def split: sum.splits)
  let ?x = "(n, r)"
  show 1: "entry_key (n, r') \<in> entry_key ` set L1 = is_insert e" if "event_rule R e = Inr r'" for r'
    using assms(2) that by (auto simp: base_update_def base_insert_def base_delete_def split: if_splits)
  show "same_keys (snd (base_update R n (inverse_event e) L1)) L"
  proof (cases "is_insert e")
    case True
    then have L1: "L1 = L @ [?x]" "entry_key ?x \<notin> entry_key ` set L" using assms(2) r by (auto simp: base_update_def base_insert_def split: if_splits)
    then have "base_delete ?x L1 = L" using base_delete_absent [OF L1(2)] by (simp add: base_delete_def)
    with r True show ?thesis
      by (simp only: base_update_def event_rule_inverse) (simp add: inverse_event_def same_keys_def)
  next
    case False
    then have L1: "L1 = base_delete ?x L" "entry_key ?x \<in> entry_key ` set L" using assms(2) r by (auto simp: base_update_def split: if_splits)
    have "entry_key ?x \<notin> entry_key ` set L1" using 1 [OF r] False by simp
    then have "snd (base_update R n (inverse_event e) L1) = L1 @ [?x]"
      using r False by (simp only: base_update_def event_rule_inverse) (simp add: inverse_event_def base_insert_def)
    moreover have "add_mset k (mset (filter (\<lambda>x. x \<noteq> k) ks)) = mset ks" if "distinct ks" "k \<in> set ks" for k and ks :: "'k list"
    proof -
      have "filter (\<lambda>x. x \<noteq> k) ks = remove1 k ks"
        using distinct_remove1_removeAll [OF that(1), of k] by (simp add: removeAll_filter_not_eq eq_commute)
      then show ?thesis using that(2) by (simp only: mset_remove1) simp
    qed
    from this [of "map entry_key L" "entry_key ?x"] have "add_mset (entry_key ?x) (mset (map entry_key L1)) = mset (map entry_key L)"
      using assms(1) L1(2) unfolding L1(1) base_delete_def map_key_filter by (simp del: mset_map)
    ultimately show ?thesis by (simp add: same_keys_def)
  qed
qed

text \<open>The specification of a sequence of updates, with what undoes them, the last one first.\<close>

fun spec_project :: "'c registry \<Rightarrow> string \<Rightarrow> formula list \<Rightarrow> rule_base \<Rightarrow> formula list \<times> rule_base" where
  "spec_project R p [] L = ([], L)"
| "spec_project R p (f # fs) L =
     (let (b, L) = base_update R (update_target p f) (signed_event f) L; (us, L) = spec_project R p fs L
      in (if b then us @ [formula_invert_update f] else us, L))"

fun updates_ok ::
    "'c registry \<Rightarrow> (string \<Rightarrow> string \<Rightarrow> nat) \<Rightarrow> (string \<Rightarrow> (bool \<times> bool) option) \<Rightarrow> string \<Rightarrow> formula list \<Rightarrow> rule_base \<Rightarrow> bool" where
  "updates_ok R W S p [] L = True"
| "updates_ok R W S p (f # fs) L =
     (formula_is_update f \<and> one_head f \<and> S (update_target p f) \<noteq> None \<and>
      event_ok R W S (update_target p f) (signed_event f) L \<and>
      updates_ok R W S p fs (snd (base_update R (update_target p f) (signed_event f) L)))"

lemma spec_project_append:
  "spec_project R p (fs @ gs) L = (let (us, L) = spec_project R p fs L; (vs, L) = spec_project R p gs L in (vs @ us, L))"
  by (induction fs arbitrary: L) (auto simp: split_beta Let_def)

lemma updates_ok_append:
  "updates_ok R W S p (fs @ gs) L \<longleftrightarrow> updates_ok R W S p fs L \<and> updates_ok R W S p gs (snd (spec_project R p fs L))"
  by (induction fs arbitrary: L) (auto simp: split_beta Let_def)

lemma signed_event_inverse:
  "formula_is_update f \<Longrightarrow> one_head f \<Longrightarrow> signed_event (formula_invert_update f) = inverse_event (signed_event f)"
  by (simp add: signed_event_def inverse_event_def invert_formula event_of_def)
lemma base_update_distinct: "distinct (map entry_key L) \<Longrightarrow> distinct (map entry_key (snd (base_update R n e L)))"
  by (auto simp: base_update_def base_insert_def base_delete_def distinct_map_filter split: sum.splits)

lemma same_keys_distinct: "same_keys L L' \<Longrightarrow> distinct (map entry_key L) = distinct (map entry_key L')"
  unfolding same_keys_def by (rule mset_eq_imp_distinct_iff)

lemma event_ok_same: "same_keys L L' \<Longrightarrow> event_ok R W S n e L = event_ok R W S n e L'"
  by (auto simp: event_ok_def same_keys_set split: sum.splits)

lemma updates_same:
  assumes "same_keys L L'"
  shows "updates_ok R W S p fs L = updates_ok R W S p fs L' \<and> fst (spec_project R p fs L) = fst (spec_project R p fs L') \<and>
    same_keys (snd (spec_project R p fs L)) (snd (spec_project R p fs L'))"
  using assms
proof (induction fs arbitrary: L L')
  case (Cons f fs)
  let ?n = "update_target p f" and ?e = "signed_event f"
  note u = base_update_same [OF Cons.prems, of R ?n ?e]
  show ?case
    using Cons.IH [OF u [THEN conjunct2]] event_ok_same [OF Cons.prems, of R W S ?n ?e] u by (simp add: split_beta Let_def)
qed simp

lemma inverse_ok:
  assumes "event_ok R W S n e L" "distinct (map entry_key L)" "base_update R n e L = (True, L1)"
  shows "event_ok R W S n (inverse_event e) L1"
proof -
  obtain r where r: "event_rule R e = Inr r" using assms(1) by (auto simp: event_ok_def split: sum.splits)
  have "entry_key (n, r) \<in> entry_key ` set L1 = is_insert e" by (rule base_update_inverse(1) [OF assms(2,3) r])
  with assms(1) r show ?thesis by (simp add: event_ok_def event_rule_inverse) (simp add: inverse_event_def)
qed

lemma undo_spec:
  assumes "updates_ok R W S p fs L" "distinct (map entry_key L)" "spec_project R p fs L = (us, M)"
  shows "updates_ok R W S p us M \<and> same_keys (snd (spec_project R p us M)) L"
  using assms
proof (induction fs arbitrary: L us M)
  case (Cons f fs)
  let ?n = "update_target p f" and ?e = "signed_event f"
  obtain b L1 where b: "base_update R ?n ?e L = (b, L1)" by (cases "base_update R ?n ?e L")
  obtain vs N where N: "spec_project R p fs L1 = (vs, N)" by (cases "spec_project R p fs L1")
  have vs: "spec_project R p fs L1 = (vs, M)" "us = (if b then vs @ [formula_invert_update f] else vs)"
    using Cons.prems(3) b N by (simp_all add: Let_def)
  have f: "formula_is_update f" "one_head f" "S ?n \<noteq> None" "event_ok R W S ?n ?e L" "updates_ok R W S p fs L1"
    using Cons.prems(1) b by simp_all
  have d1: "distinct (map entry_key L1)" using base_update_distinct [OF Cons.prems(2), of R ?n ?e] b by simp
  have IH: "updates_ok R W S p vs M" "same_keys (snd (spec_project R p vs M)) L1" using Cons.IH [OF f(5) d1 vs(1)] by simp_all
  show ?case
  proof (cases b)
    case False
    then have "L1 = L" using b base_delete_absent [of "(?n, _)" L] by (auto simp: base_update_def base_insert_def split: sum.splits if_splits)
    with IH vs False show ?thesis by simp
  next
    case True
    let ?g = "formula_invert_update f" and ?M = "snd (spec_project R p vs M)"
    have g: "formula_is_update ?g" "one_head ?g" "update_target p ?g = ?n" "signed_event ?g = inverse_event ?e"
      using invert_formula(1,4,5) [OF f(1,2)] signed_event_inverse [OF f(1,2)] by simp_all
    have "updates_ok R W S p [?g] L1" using g f(3) inverse_ok [OF f(4) Cons.prems(2)] b True by simp
    moreover have "same_keys (snd (spec_project R p [?g] L1)) L"
      using base_update_inverse(2) [OF Cons.prems(2)] b True g by (simp add: split_beta Let_def)
    ultimately have "updates_ok R W S p [?g] ?M" "same_keys (snd (spec_project R p [?g] ?M)) L"
      using updates_same [OF IH(2), of R W S p "[?g]"] same_keys_trans by blast+
    with IH(1) vs True show ?thesis by (simp add: updates_ok_append spec_project_append split_beta Let_def)
  qed
qed (simp add: same_keys_def)

section \<open>The projection follows the list of rules\<close>

lemma project_updates_ok:
  assumes "base_ok R W w L" "shape w (update_target p f) \<noteq> None" "formula_is_update f" "one_head f"
    "event_ok R W (shape w) (update_target p f) (signed_event f) L" "R = registry_of (datalog_env E)"
  shows "\<exists>w'. project_updates E f p w =
      (Inr (if fst (base_update R (update_target p f) (signed_event f) L) then Some (formula_invert_update f) else None), w') \<and>
    shape w' = shape w \<and> base_ok R W w' (snd (base_update R (update_target p f) (signed_event f) L))"
proof -
  let ?n = "update_target p f" and ?e = "signed_event f"
  have n: "map_of w ?n \<noteq> None" using assms(2) by (simp add: shape_known)
  obtain t where t: "formula_tablename f = Inr t" using assms(4) by (cases f) (auto simp: one_head_def)
  obtain w' where w': "update_policy R ?n [?e] w = (Inr (fst (base_updates R ?n [?e] L)), w')" "shape w' = shape w"
    "base_ok R W w' (snd (base_updates R ?n [?e] L))"
    using update_events_ok [OF assms(1) n, of "[?e]" "[]"] assms(5) by (auto simp: update_policy_def)
  have e: "?e = event_of (endswith t ''+'') (plain_formula f)" using t by (simp add: signed_event_def adds_def)
  show ?thesis
    using w' n t assms(6) unfolding e [symmetric]
    by (simp add: project_updates_def sbind_def sret_def split_beta Let_def flip: update_target_def e)
qed

definition no_update_names :: "pyval list \<Rightarrow> bool" where
  "no_update_names actions = (\<forall>t. VStr t \<in> set actions \<longrightarrow> \<not> update_tablename t)"

lemma update_no_action:
  assumes "no_update_names actions" "formula_is_update f" "formula_tablename f = Inr t"
  shows "VStr t \<notin> set actions"
proof -
  have "update_tablename (lit_tablename None l)" if "lit_is_update l" for l
    using that update_not_empty [OF that] tablename_sign [of "table l"]
    by (simp add: update_tablename_def lit_tablename_def lit_is_update_def tablename_is_update_def)
  then have "update_tablename t" using assms(2,3) by (cases f) (auto simp: rule_is_update_def rule_tablename_def)
  with assms(1) show ?thesis by (auto simp: no_update_names_def)
qed

lemma project_sequence_ok:
  assumes "base_ok R W w L" "updates_ok R W (shape w) p fs L" "no_update_names actions" "R = registry_of (datalog_env E)"
  shows "\<exists>w'. for_st (project_formula E uuid p actth actions) fs pj w =
      (Inr (pj\<lparr>pj_undos := pj_undos pj @ rev (fst (spec_project R p fs L))\<rparr>), w') \<and>
    shape w' = shape w \<and> base_ok R W w' (snd (spec_project R p fs L))"
  using assms(1,2)
proof (induction fs arbitrary: w L pj)
  case Nil
  then show ?case by (simp add: sret_def)
next
  case (Cons f fs)
  let ?n = "update_target p f" and ?e = "signed_event f"
  have f: "formula_is_update f" "one_head f" "shape w ?n \<noteq> None" "event_ok R W (shape w) ?n ?e L" using Cons.prems(2) by simp_all
  obtain t where t: "formula_tablename f = Inr t" using f(2) by (cases f) (auto simp: one_head_def)
  obtain w1 where w1: "project_updates E f p w = (Inr (if fst (base_update R ?n ?e L) then Some (formula_invert_update f) else None), w1)"
    "shape w1 = shape w" "base_ok R W w1 (snd (base_update R ?n ?e L))"
    using project_updates_ok [OF Cons.prems(1) f(3,1,2,4) assms(4)] by blast
  let ?pj = "pj\<lparr>pj_undos := pj_undos pj @ (if fst (base_update R ?n ?e L) then [formula_invert_update f] else [])\<rparr>"
  have step: "project_formula E uuid p actth actions f pj w = (Inr ?pj, w1)"
    using t f(1) update_no_action [OF assms(3) f(1) t] w1(1)
    by (auto simp: project_formula_def lift_res_def sbind_def sret_def)
  have "updates_ok R W (shape w1) p fs (snd (base_update R ?n ?e L))" using Cons.prems(2) w1(2) by simp
  from Cons.IH [OF w1(3) this, of ?pj] w1(2) show ?case by (auto simp: sbind_def step split_beta Let_def)
qed

text \<open>
  C11. A projection is undone by what it returns. For any sequence of updates of safe, local rules
  and facts (a deletion of a rule that is not there must not mention a table twice), applying the
  sequence and then the returned updates raises nothing and gives back the policies: the same facts
  and rules (up to equality of rules) in every store, and in every learned schema the same tables
  with the same counts.
\<close>

theorem projection_undone:
  assumes "base_ok R W w L" "updates_ok R W (shape w) policyth fs L" "no_update_names actions"
    "R = registry_of (datalog_env E)"
  shows "\<exists>pj w1 pj' w2 L'. for_st (project_formula E uuid policyth actth actions) fs start w = (Inr pj, w1) \<and>
    for_st (project_formula E uuid policyth actth actions) (rev (drop (length (pj_undos start)) (pj_undos pj))) start' w1 = (Inr pj', w2) \<and>
    shape w2 = shape w \<and> base_ok R W w2 L' \<and> mset (map entry_key L') = mset (map entry_key L)"
proof -
  obtain us M where M: "spec_project R policyth fs L = (us, M)" by (cases "spec_project R policyth fs L")
  obtain w1 where w1: "for_st (project_formula E uuid policyth actth actions) fs start w =
      (Inr (start\<lparr>pj_undos := pj_undos start @ rev us\<rparr>), w1)" "shape w1 = shape w" "base_ok R W w1 M"
    using project_sequence_ok [OF assms, of uuid actth start] M by auto
  have d: "distinct (map entry_key L)" using assms(1) by (simp add: base_ok_def)
  note undo = undo_spec [OF assms(2) d M]
  have ok: "updates_ok R W (shape w1) policyth us M" using undo w1(2) by simp
  obtain w2 where "for_st (project_formula E uuid policyth actth actions) us start' w1 =
      (Inr (start'\<lparr>pj_undos := pj_undos start' @ rev (fst (spec_project R policyth us M))\<rparr>), w2)"
    "shape w2 = shape w1" "base_ok R W w2 (snd (spec_project R policyth us M))"
    using project_sequence_ok [OF w1(3) ok assms(3,4), of uuid actth start'] by auto
  with w1 undo show ?thesis by (fastforce simp: same_keys_def)
qed

definition bare_env :: "unit rt_env" where
  "bare_env = \<lparr>datalog_env = \<lparr>registry_of = no_builtins, code_of = \<lambda>_ _. BNone, str_id = \<lambda>_. []\<rparr>,
     search_fuel = 20, parse_policy = \<lambda>_ _. Inr [], service_exists = \<lambda>_. True\<rparr>"

text \<open>\<open>p+(1), p+(1), p-(2)\<close> and the rule update \<open>r+(x) :- b:q(x)\<close>.\<close>

definition update_sequence :: "formula list" where
  "update_sequence = [FLit (lit ''p+'' [ObjectConstant (VInt 1)]), FLit (lit ''p+'' [ObjectConstant (VInt 1)]),
     FLit (lit ''p-'' [ObjectConstant (VInt 2)]), FRule (remote_rule\<lparr>heads := [lit ''r+'' [Variable ''x'']]\<rparr>)]"

definition pj_start :: projection where
  "pj_start = \<lparr>pj_undos = [], pj_last_results = [], pj_uuids = 0\<rparr>"

theorem projection_undone_witness:
  "\<exists>pj w1 pj' w2. for_st (project_formula bare_env (\<lambda>_. []) ''a'' ''b'' []) update_sequence pj_start two_policies = (Inr pj, w1) \<and>
    for_st (project_formula bare_env (\<lambda>_. []) ''a'' ''b'' []) (rev (pj_undos pj)) pj_start w1 = (Inr pj', w2) \<and>
    shape w2 = shape two_policies \<and> base_ok no_builtins (\<lambda>_ _. 1) w2 []"
proof -
  have new: "base_ok no_builtins (\<lambda>_ _. 1) two_policies []"
    by (rule base_ok_new) (auto simp: two_policies_def nonrecursive_theory_def new_policy_def)
  have ok: "updates_ok no_builtins (\<lambda>_ _. 1) (shape two_policies) ''a'' update_sequence []" by code_simp
  have r: "no_builtins = registry_of (datalog_env bare_env)" by (simp add: bare_env_def)
  have a: "no_update_names []" by (simp add: no_update_names_def)
  from projection_undone [OF new ok a r, of "\<lambda>_. []" "''b''" pj_start pj_start] show ?thesis
    by (auto simp: pj_start_def)
qed

section \<open>Conflicting updates\<close>

definition is_deletion :: "literal \<Rightarrow> bool" where
  "is_deletion a = endswith (tbl (table a)) ''-''"

lemma not_both_signs: "\<not> (endswith t ''+'' \<and> endswith t ''-'')"
  by (auto simp: endswith_one)

lemma resolve_fold:
  assumes "\<forall>a \<in> set neg. is_deletion a"
  shows "set (fold (\<lambda>a result. if lit_invert_update a \<notin> set result then set_add a result else result) neg result) =
    set result \<union> {a \<in> set neg. lit_invert_update a \<notin> set result}"
  using assms
proof (induction neg arbitrary: result)
  case (Cons a neg)
  have "lit_is_update b \<and> \<not> is_deletion (lit_invert_update b)" if "is_deletion b" for b
    using that invert_lit(3) [of b] not_both_signs
    by (auto simp: is_deletion_def lit_is_update_def tablename_is_update_def)
  then have other: "lit_invert_update b \<noteq> a" if "b \<in> set neg" for b using Cons.prems that by auto
  show ?case
  proof (cases "lit_invert_update a \<in> set result")
    case False
    have "{b \<in> set neg. lit_invert_update b \<notin> set (set_add a result)} = {b \<in> set neg. lit_invert_update b \<notin> set result}"
      using other by auto
    with Cons.IH [of "set_add a result"] Cons.prems False show ?thesis by auto
  qed (use Cons in auto)
qed simp

lemma set_resolve_conflicts:
  "set (resolve_conflicts atoms) = {a \<in> set atoms. \<not> (is_deletion a \<and> lit_invert_update a \<in> set atoms)}"
proof -
  let ?neg = "remdups (filter (\<lambda>a. \<not> endswith (tbl (table a)) ''+'' \<and> endswith (tbl (table a)) ''-'') atoms)"
  let ?pos = "remdups (filter (\<lambda>a. endswith (tbl (table a)) ''+'' \<or> \<not> endswith (tbl (table a)) ''-'') atoms)"
  have "\<forall>a \<in> set ?neg. is_deletion a" by (simp add: is_deletion_def)
  from resolve_fold [OF this, of ?pos]
  have r: "set (resolve_conflicts atoms) = set ?pos \<union> {a \<in> set ?neg. lit_invert_update a \<notin> set ?pos}"
    by (simp only: resolve_conflicts_def Let_def)
  have "lit_invert_update a \<in> set ?pos \<longleftrightarrow> lit_invert_update a \<in> set atoms" if "is_deletion a" for a
    using that invert_lit(3) [of a] not_both_signs [of "tbl (table a)"]
    by (auto simp: is_deletion_def lit_is_update_def tablename_is_update_def)
  then show ?thesis unfolding r using not_both_signs by (auto simp: is_deletion_def)
qed

text \<open>
  C36. The updates of an action are made free of conflicts: a deletion is left out exactly when the
  insertion of the same atom is there, everything else is kept, and no atom is both inserted and
  deleted afterwards.
\<close>

theorem resolve_conflicts_correct:
  "set (resolve_conflicts atoms) = {a \<in> set atoms. \<not> (is_deletion a \<and> lit_invert_update a \<in> set atoms)} \<and>
   (\<forall>a \<in> set (resolve_conflicts atoms). lit_is_update a \<longrightarrow> lit_invert_update a \<notin> set (resolve_conflicts atoms))"
proof -
  have "is_deletion a \<or> is_deletion (lit_invert_update a)" if "lit_is_update a" for a
    using invert_lit(1,3) [OF that] that
    by (auto simp: is_deletion_def lit_is_update_def tablename_is_update_def)
  then show ?thesis unfolding set_resolve_conflicts using invert_lit(5) by auto
qed

theorem resolve_conflicts_correct_witness:
  "set (resolve_conflicts [lit ''p-'' [], lit ''p+'' [], lit ''q-'' []]) = {lit ''p+'' [], lit ''q-'' []} \<and>
   lit_is_update (lit ''q-'' []) \<and>
   lit_invert_update (lit ''q-'' []) \<notin> set (resolve_conflicts [lit ''p-'' [], lit ''p+'' [], lit ''q-'' []])"
proof -
  let ?as = "[lit ''p-'' [], lit ''p+'' [], lit ''q-'' []]"
  have i: "lit_invert_update (lit ''p-'' []) = lit ''p+'' []" "lit_invert_update (lit ''q-'' []) = lit ''q+'' []" by code_simp+
  have d: "is_deletion (lit ''p-'' [])" "is_deletion (lit ''q-'' [])" "\<not> is_deletion (lit ''p+'' [])"
    "lit_is_update (lit ''q-'' [])" by code_simp+
  have n: "lit ''p-'' [] \<noteq> lit ''p+'' []" "lit ''q+'' [] \<noteq> lit ''p+'' []" "lit ''q+'' [] \<noteq> lit ''p-'' []" "lit ''q+'' [] \<noteq> lit ''q-'' []"
    "lit ''q-'' [] \<noteq> lit ''p-'' []" "lit ''q-'' [] \<noteq> lit ''p+'' []"
    by (simp_all add: lit_def tn_def)
  have s: "set (resolve_conflicts ?as) = {lit ''p+'' [], lit ''q-'' []}"
    using resolve_conflicts_correct [of ?as] i d n by auto
  with d i resolve_conflicts_correct [of ?as] show ?thesis by blast
qed

section \<open>Where a simulation goes wrong\<close>

definition two_policy_runtime :: runtime where
  "two_policy_runtime = snd (sbind (create_policy ''a'' NonrecursiveRuleTheory None) (\<lambda>_. create_policy ''act'' ActionTheory None)
     (runtime_new False False))"

definition action_env :: "unit rt_env" where
  "action_env = bare_env\<lparr>parse_policy := \<lambda>_ _. Inr [FLit (lit ''action'' [Variable ''x''])]\<rparr>"

text \<open>
  A simulation that meets a formula that is neither an action nor an update raises; what was applied
  before stays in the policy, and the action theory goes on including the policy and the temporary
  theory.
\<close>

theorem failed_simulation_stays:
  "let (r, rt) = simulate action_env (\<lambda>_. []) (FLit (lit ''p'' [Variable ''x''])) ''a''
         [FLit (lit ''p+'' [ObjectConstant (VInt 1)]), FLit (lit ''q'' [ObjectConstant (VInt 2)])] ''act'' False two_policy_runtime
   in r = Inl PolicyException \<and>
      fst (content ''a'' None (rt_theory rt)) = Inr [\<lparr>heads = [lit ''p'' [ObjectConstant (VInt 1)]], body = []\<rparr>] \<and>
      pincludes (policy_at (rt_theory rt) ''act'') = [TEMP_KEY, ''a'']"
  by code_simp

end
