(* ===== verification/Runtime_Updates.thy ===== *)
theory Runtime_Updates
  imports Projection_Undo
begin

text \<open>
  What an update of the engine does to the dependency graph and the triggers: what the test for recursion decides,
  that a rejected batch changes nothing but the dependency graph, and that accepting a batch leaves
  the edges of the graph alone and the index of the triggers exact.
\<close>

declare map_of_eq_Some_iff [simp del] Some_eq_map_of_iff [simp del]

abbreviation rule_graph :: "runtime \<Rightarrow> dep_graph" where
  "rule_graph rt \<equiv> dep_graph_of (rt_registry rt)"

section \<open>Statements that leave the registry alone\<close>

definition keeps_registry :: "(runtime, 'a) stm \<Rightarrow> bool" where
  "keeps_registry m = (\<forall>rt. rt_registry (snd (m rt)) = rt_registry rt)"

named_theorems keeps

lemma keepsD: "keeps_registry m \<Longrightarrow> m rt = (r, rt') \<Longrightarrow> rt_registry rt' = rt_registry rt"
  unfolding keeps_registry_def by (metis snd_conv)

lemma keeps_sbind [keeps]: "keeps_registry m \<Longrightarrow> (\<And>x. keeps_registry (f x)) \<Longrightarrow> keeps_registry (sbind m f)"
  by (auto simp: keeps_registry_def sbind_def split: prod.splits sum.splits) (metis snd_conv)+

lemma keeps_sret [keeps]: "keeps_registry (sret x)" and keeps_sraise [keeps]: "keeps_registry (sraise e)"
  and keeps_lift [keeps]: "keeps_registry (lift_res r)"
  by (simp_all add: keeps_registry_def sret_def sraise_def lift_res_def)

lemma keeps_ask [keeps]: "keeps_registry (\<lambda>rt. lift_res (f rt) rt)"
  by (simp add: keeps_registry_def lift_res_def)

lemma keeps_for [keeps]: "(\<And>x b. keeps_registry (f x b)) \<Longrightarrow> keeps_registry (for_st f xs b)"
  by (induction xs arbitrary: b) (auto intro: keeps)

lemma keeps_theory [keeps]: "keeps_registry (on_theory f)" and keeps_effect [keeps]: "keeps_registry (effect x)"
  by (simp_all add: keeps_registry_def on_theory_def effect_def split: prod.splits)

lemma keeps_target: "(\<And>k. keeps_registry (f k)) \<Longrightarrow> keeps_registry (\<lambda>rt. case g rt of Inl e \<Rightarrow> (Inl e, rt) | Inr k \<Rightarrow> f k rt)"
  by (auto simp: keeps_registry_def split: sum.splits)

lemma keeps_arity [keeps]: "keeps_registry (runtime_arity t th m)"
proof -
  have "keeps_registry (\<lambda>rt. if map_of (rt_theory rt) pol = None then (Inr None, rt) else on_theory (policy_arity pol x m) rt)" for pol x
    using keeps_theory [of "policy_arity pol x m"] by (auto simp: keeps_registry_def)
  then show ?thesis unfolding runtime_arity_def [abs_def]
    by (intro keeps_target keeps) (auto intro!: keeps split: option.splits prod.splits)
qed

lemma keeps_contents [keeps]: "keeps_registry (compute_table_contents E keys)"
proof -
  have q: "keeps_registry (query_contents E pol q data)" for pol q data
    unfolding query_contents_def [abs_def] select_obj_def
    by (rule keeps_target) (auto intro: keeps split: prod.splits)
  show ?thesis unfolding compute_table_contents_def key_contents_def table_contents_queries_def
    by (intro keeps) (auto intro!: keeps q split: prod.splits)
qed

lemma keeps_execute: "keeps_registry (execute_action E srv a args)"
  unfolding execute_action_def [abs_def]
  by (auto simp: keeps_registry_def effect_def sbind_def sraise_def split: if_splits)

lemma keeps_callback [keeps]: "keeps_registry (run_callback E key old new tr)"
proof -
  have "keeps_registry (\<lambda>rt. case execute_action E srv a args rt of
      (Inl PolicyException, rt) \<Rightarrow> effect (LoggedError PolicyException) rt | r \<Rightarrow> r)" for srv a args
    using keeps_execute [of E srv a args] by (auto simp: keeps_registry_def effect_def split: prod.splits sum.splits exc.splits) (metis snd_conv)+
  then have "keeps_registry (execute_table E pol t old new)" for pol t
    unfolding execute_table_def by (auto intro: keeps split: prod.splits)
  moreover have "keeps_registry (pub_policy_result key old new)"
    by (simp add: keeps_registry_def pub_policy_result_def effect_def split: option.splits)
  ultimately show ?thesis by (auto simp: run_callback_def intro: keeps split: callback.splits)
qed

lemma keeps_with_triggers [keeps]: "keeps_registry act \<Longrightarrow> keeps_registry (with_triggers E trs act)"
  unfolding with_triggers_def run_triggers_def Let_def by (auto intro!: keeps split: prod.splits)

lemma keeps_apply [keeps]: "keeps_registry (apply_events E by_target events)"
  unfolding apply_events_def by (intro keeps) (auto intro!: keeps_target keeps split: prod.splits)

section \<open>Statements that leave the edges alone\<close>

definition keeps_edges :: "(runtime, 'a) stm \<Rightarrow> bool" where
  "keeps_edges m = (\<forall>rt r rt'. graph_wf (rule_graph rt) \<longrightarrow> m rt = (r, rt') \<longrightarrow> same_edges (rule_graph rt) (rule_graph rt'))"

lemma keeps_edgesD: "keeps_edges m \<Longrightarrow> graph_wf (rule_graph rt) \<Longrightarrow> m rt = (r, rt') \<Longrightarrow> same_edges (rule_graph rt) (rule_graph rt')"
  by (simp add: keeps_edges_def)

lemma keeps_edges_sbind:
  assumes "keeps_edges m" "\<And>x. keeps_edges (f x)" shows "keeps_edges (sbind m f)"
  unfolding keeps_edges_def
proof (intro allI impI)
  fix rt r rt' assume wf: "graph_wf (rule_graph rt)" and run: "sbind m f rt = (r, rt')"
  obtain q rt1 where m: "m rt = (q, rt1)" by (cases "m rt")
  have 1: "same_edges (rule_graph rt) (rule_graph rt1)" by (rule keeps_edgesD [OF assms(1) wf m])
  show "same_edges (rule_graph rt) (rule_graph rt')"
  proof (cases q)
    case (Inl e)
    with run m have "rt' = rt1" by (simp add: sbind_def)
    with 1 show ?thesis by simp
  next
    case (Inr x)
    with run m have "f x rt1 = (r, rt')" by (simp add: sbind_def)
    moreover have "graph_wf (rule_graph rt1)" using wf same_edges_wf [OF 1] by simp
    ultimately show ?thesis using keeps_edgesD [OF assms(2)] same_edges_trans [OF 1] by blast
  qed
qed

lemma keeps_edges_for: "(\<And>x b. keeps_edges (f x b)) \<Longrightarrow> keeps_edges (for_st f xs b)"
proof (induction xs arbitrary: b)
  case Nil
  show ?case by (simp add: keeps_edges_def sret_def)
next
  case (Cons x xs)
  then show ?case by (simp add: keeps_edges_sbind)
qed

lemma registry_edges:
  assumes "graph_wf (dep_graph_of reg)"
  shows "register_table t p cb m reg = (r, reg') \<Longrightarrow> same_edges (dep_graph_of reg) (dep_graph_of reg')"
    and "unregister tr reg = (q, reg'') \<Longrightarrow> same_edges (dep_graph_of reg) (dep_graph_of reg'')"
proof -
  assume run: "register_table t p cb m reg = (r, reg')"
  let ?tr = "\<lparr>tr_id = tfresh reg, tr_table = t, tr_policy = p, tr_callback = cb, tr_modal = m\<rparr>"
  let ?r = "reg\<lparr>triggers := set_add ?tr (triggers reg), tfresh := tfresh reg + 1\<rparr>"
  obtain reg1 where "add_indexes ?tr ?r = (Inr (), reg1)" "same_edges (dep_graph_of reg) (dep_graph_of reg1)"
    using add_indexes_ok [of ?r ?tr] assms by auto
  with run show "same_edges (dep_graph_of reg) (dep_graph_of reg')" by (simp add: register_table_def Let_def sbind_def sret_def)
next
  assume u: "unregister tr reg = (q, reg'')"
  have d: "dep_graph_of (snd (for_st (\<lambda>t _. index_discard tr t) ds () s)) = dep_graph_of s" for ds s
  proof (induction ds arbitrary: s)
    case (Cons t ds)
    then show ?case by (cases "map_of (tindex s) t") (simp_all add: sbind_def index_discard_def)
  qed (simp add: sret_def)
  obtain ds g where "trigger_deps tr (reg\<lparr>triggers := removeAll tr (triggers reg)\<rparr>) = (Inr ds, reg\<lparr>triggers := removeAll tr (triggers reg), dep_graph_of := g\<rparr>)"
    "same_edges (dep_graph_of reg) g"
    using trigger_deps_ok [of "reg\<lparr>triggers := removeAll tr (triggers reg)\<rparr>" tr] assms by auto
  moreover have "dep_graph_of reg'' = (if tr \<in> set (triggers reg) then g else dep_graph_of reg)"
    if "trigger_deps tr (reg\<lparr>triggers := removeAll tr (triggers reg)\<rparr>) = (Inr ds, reg\<lparr>triggers := removeAll tr (triggers reg), dep_graph_of := g\<rparr>)" for ds g
    using u that d [of ds "reg\<lparr>triggers := removeAll tr (triggers reg), dep_graph_of := g\<rparr>"]
    by (auto simp: unregister_def delete_indexes_def sbind_def)
  ultimately show "same_edges (dep_graph_of reg) (dep_graph_of reg'')" by simp
qed

lemma keeps_edges_maintain: "keeps_edges maintain_triggers"
proof -
  have reg: "keeps_edges (on_registry (register_table t p cb m))" and unreg: "keeps_edges (on_registry (unregister tr))" for t p cb m tr
    using registry_edges by (auto simp: keeps_edges_def on_registry_def split: prod.splits)
  have e: "keeps_edges (\<lambda>rt. (Inr (), rt\<lparr>execution_triggers := f rt\<rparr>))" for f by (simp add: keeps_edges_def)
  have r: "keeps_edges (register_execution sh t)" for sh t
    unfolding register_execution_def by (auto intro!: keeps_edges_sbind reg e split: prod.splits)
  have s: "keeps_edges (remove_stale_trigger cur t)" for cur t
    unfolding keeps_edges_def
  proof (intro allI impI)
    fix rt q rt' assume wf: "graph_wf (rule_graph rt)" and run: "remove_stale_trigger cur t rt = (q, rt')"
    show "same_edges (rule_graph rt) (rule_graph rt')"
    proof (cases "t \<in> set cur \<or> map_of (execution_triggers rt) t = None")
      case True with run show ?thesis by (auto simp: remove_stale_trigger_def split: if_splits)
    next
      case False
      then obtain tr where tr: "map_of (execution_triggers rt) t = Some tr" by auto
      obtain q1 rt1 where u: "on_registry (unregister tr) rt = (q1, rt1)" by (cases "on_registry (unregister tr) rt")
      have "rule_graph rt' = rule_graph rt1" using run u tr False
        by (auto simp: remove_stale_trigger_def split: sum.splits exc.splits)
      with keeps_edgesD [OF unreg wf u] show ?thesis by simp
    qed
  qed
  have d: "keeps_edges (\<lambda>rt. for_st (\<lambda>t _. remove_stale_trigger cur t) (dkeys (execution_triggers rt)) () rt)" for cur
    using keeps_edges_for [of "\<lambda>t _. remove_stale_trigger cur t", OF s] by (simp add: keeps_edges_def)
  have "keeps_edges (sbind (for_st (\<lambda>t _. register_execution sh t) ts ()) (\<lambda>_ rt.
      for_st (\<lambda>t _. remove_stale_trigger cur t) (dkeys (execution_triggers rt)) () rt))" for sh ts cur
    by (intro keeps_edges_sbind keeps_edges_for r d)
  then show ?thesis by (auto simp: keeps_edges_def maintain_triggers_def Let_def)
qed

section \<open>The recursion check\<close>

text \<open>A cache of cycles that is kept was computed for at least the edges that are left.\<close>

definition fresher :: "dep_graph \<Rightarrow> dep_graph \<Rightarrow> bool" where
  "fresher g g' = (cycles g' = None \<or> cycles g' = cycles g \<and> edge_rel g' \<subseteq> edge_rel g)"

lemma fresher_refl: "fresher g g"
  by (simp add: fresher_def)

lemma fresher_trans: "fresher g h \<Longrightarrow> fresher h k \<Longrightarrow> fresher g k"
  by (auto simp: fresher_def)

lemma fresher_same: "edges g' = edges g \<Longrightarrow> cycles g' = cycles g \<Longrightarrow> fresher g g'"
  using rel_edges [of g' g] by (simp add: fresher_def)

lemma fresher_less: "cycles g' = cycles g \<Longrightarrow> (\<And>u. set (edges_of g' u) \<subseteq> set (edges_of g u)) \<Longrightarrow> fresher g g'"
  by (auto simp: fresher_def edge_rel_def)

lemma fresher_add_node: "fresher g (bag_add_node v g)"
  by (rule fresher_same) (simp_all add: bag_add_node_def graph_add_node_def Let_def)

lemma fresher_add_edge: "fresher g (bag_add_edge u v l g)"
  by (simp add: fresher_def bag_add_edge_def graph_add_edge_with_def bag_add_node_def graph_add_node_def Let_def)

lemma fresher_delete_node: "bag_delete_node v g = Inr g' \<Longrightarrow> fresher g g'"
  by (rule fresher_less; auto simp: bag_delete_node_def graph_delete_node_def Let_def rbind_Inr_iff edges_of_def delete_conv'
      split: option.splits if_splits)

lemma fresher_graph_delete_edge: "fresher g (graph_delete_edge u v l g)"
  by (auto simp: fresher_def graph_delete_edge_def split: option.splits)

lemma fresher_delete_edge:
  assumes "bag_delete_edge u v l g = Inr g'" shows "fresher g g'"
proof (cases "map_of (edge_refcounts g) (u, v, l) = None")
  case False
  from assms False obtain g1 where g1: "bag_delete_node u g = Inr g1"
    by (cases "bag_delete_node u g") (simp_all add: bag_delete_edge_def)
  from assms False g1 obtain g2 where g2: "bag_delete_node v g1 = Inr g2"
    by (cases "bag_delete_node v g1") (simp_all add: bag_delete_edge_def)
  from assms False g1 g2 obtain c where c: "map_of (edge_refcounts g2) (u, v, l) = Some c"
    by (cases "map_of (edge_refcounts g2) (u, v, l)") (simp_all add: bag_delete_edge_def)
  let ?h = "g2\<lparr>edge_refcounts := AList.update (u, v, l) (c - 1) (edge_refcounts g2)\<rparr>"
  have "fresher g2 ?h" by (rule fresher_same) simp_all
  moreover have "g' = ?h \<or> (\<exists>cs. g' = (graph_delete_edge u v l ?h)\<lparr>edge_refcounts := cs\<rparr>)"
    using assms False g1 g2 c by (auto simp: bag_delete_edge_def Let_def split: if_splits)
  moreover have "fresher h (h\<lparr>edge_refcounts := cs\<rparr>)" for h cs by (rule fresher_same) simp_all
  ultimately have "fresher g2 g'" by (elim disjE exE) (simp, blast intro: fresher_trans fresher_graph_delete_edge)
  with fresher_trans fresher_delete_node [OF g1] fresher_delete_node [OF g2] show ?thesis by blast
qed (use assms in \<open>simp add: bag_delete_edge_def fresher_refl\<close>)

lemma fresher_for:
  assumes "for_res f xs g = Inr g'" "\<And>x h h'. f x h = Inr h' \<Longrightarrow> fresher h h'" shows "fresher g g'"
  by (rule for_res_invariant [OF _ fresher_refl assms(1)]) (blast intro: fresher_trans assms(2))

lemma fresher_fold:
  assumes "\<And>x h. fresher h (f x h)" shows "fresher g (fold f xs g)"
proof (induction xs arbitrary: g)
  case (Cons x xs)
  then show ?case using fresher_trans [OF assms Cons.IH] by simp
qed (simp add: fresher_refl)

lemma fresher_event:
  assumes "event_update sel ev (ch, g) = Inr (ch', g')" shows "fresher g g'"
proof -
  obtain ns es h mi where c: "formula_nodes_edges sel (formula ev) (target ev) (head_to_body g) (store g) = Inr (ns, es, h, mi)"
    using assms by (auto simp: event_update_def rbind_Inr_iff)
  let ?g = "g\<lparr>store := h\<rparr>"
  have 0: "fresher g ?g" by (rule fresher_same) simp_all
  show ?thesis
  proof (cases "is_insert ev")
    case True
    let ?g1 = "fold bag_add_node ns ?g" and ?g2 = "fold (\<lambda>(u, v, l). bag_add_edge u v l) es (fold bag_add_node ns ?g)"
    have g': "g' = dep_iadd mi ?g2" using assms True by (simp add: event_update_def c Let_def)
    have "fresher ?g ?g1" by (rule fresher_fold [OF fresher_add_node])
    moreover have "fresher ?g1 ?g2" by (rule fresher_fold) (simp add: fresher_add_edge split_def)
    moreover have "fresher ?g2 g'" unfolding g' by (rule fresher_same) (simp_all add: dep_iadd_def split_def Let_def)
    ultimately show ?thesis using 0 by (blast intro: fresher_trans)
  next
    case False
    obtain g1 g2 where g: "for_res bag_delete_node ns ?g = Inr g1" "for_res del_edge es g1 = Inr g2" "dep_isub mi g2 = Inr g'"
      using assms False by (auto simp: event_update_def c Let_def rbind_Inr_iff)
    have "fresher ?g g1" by (rule fresher_for [OF g(1) fresher_delete_node])
    moreover have "fresher g1 g2" by (rule fresher_for [OF g(2)]) (auto simp: del_edge_def intro: fresher_delete_edge)
    moreover have "fresher g2 g'" using g(3) by (auto simp: dep_isub_def rbind_Inr_iff intro: fresher_same)
    ultimately show ?thesis using 0 by (blast intro: fresher_trans)
  qed
qed

lemma fresher_update: "formula_update sel evs g = Inr (ch, g') \<Longrightarrow> fresher g g'"
  unfolding formula_update_def
  by (rule for_res_invariant [where P = "\<lambda>s. fresher g (snd s)" and s' = "(ch, g')", simplified])
    (auto intro: fresher_refl fresher_trans [OF _ fresher_event])

text \<open>The dependencies between the tables of a bag of formulas.\<close>

definition depends :: "(formula \<times> string option) multiset \<Rightarrow> (string \<times> string) set" where
  "depends FS = {(u, v). \<exists>ft n. ft \<in># FS \<and> (u, v, n) \<in> dep_edges rules_only True ft}"

definition rules_ok :: "(formula \<times> string option) multiset \<Rightarrow> bool" where
  "rules_ok FS = (\<forall>ft \<in># FS. formula_ok rules_only (fst ft))"

text \<open>A registry whose graph stands for a bag of formulas.\<close>

definition graph_rep :: "trigger_registry \<Rightarrow> (formula \<times> string option) multiset \<Rightarrow> bool" where
  "graph_rep reg FS = (dep_of rules_only (dep_graph_of reg) FS \<and> head_to_body (dep_graph_of reg) \<and> rules_ok FS)"

lemma graph_repD:
  assumes "graph_rep reg FS"
  shows "graph_wf (dep_graph_of reg)" "edge_rel (dep_graph_of reg) = depends FS"
proof -
  have d: "dep_of rules_only (dep_graph_of reg) FS" and h: "head_to_body (dep_graph_of reg)"
    and ok: "\<And>ft. ft \<in># FS \<Longrightarrow> formula_ok rules_only (fst ft)"
    using assms by (auto simp: graph_rep_def rules_ok_def)
  show "graph_wf (dep_graph_of reg)" by (rule dep_of_edges(1) [OF d ok])
  show "edge_rel (dep_graph_of reg) = depends FS"
    using dep_of_edges(2) [OF d ok] h by (auto simp: edge_rel_def depends_def)
qed

lemma graph_rep_same: "graph_rep reg FS \<Longrightarrow> same_edges (dep_graph_of reg) (dep_graph_of reg') \<Longrightarrow> graph_rep reg' FS"
  using dep_of_same_edges [of "dep_graph_of reg" "dep_graph_of reg'"] by (auto simp: graph_rep_def)

lemma rules_ok_events: "rules_ok FS \<Longrightarrow> valid_events rules_only evs FS \<Longrightarrow> rules_ok (fold spec_event evs FS)"
  unfolding rules_ok_def using valid_events_ok by blast

lemma update_graph_ok:
  assumes "graph_rep reg FS" "valid_events rules_only evs FS"
  shows "\<exists>chs g. update_graph evs reg = (Inr chs, reg\<lparr>dep_graph_of := g\<rparr>) \<and>
    graph_rep (reg\<lparr>dep_graph_of := g\<rparr>) (fold spec_event evs FS) \<and> fresher (dep_graph_of reg) g \<and> (evs \<noteq> [] \<longrightarrow> chs \<noteq> []) \<and>
    (list_all (\<lambda>ev. f_modals rules_only (event_key ev) = {#}) evs \<longrightarrow> deleted evs \<subseteq># FS \<longrightarrow>
      (\<forall>k. same_edges g k \<longrightarrow> (\<exists>g2. undo_changes chs k = Inr g2 \<and> graph_rep (reg\<lparr>dep_graph_of := g2\<rparr>) FS)))"
proof -
  have d: "dep_of rules_only (dep_graph_of reg) FS" and h: "head_to_body (dep_graph_of reg)" and ok: "rules_ok FS"
    using assms(1) by (auto simp: graph_rep_def)
  obtain ch g ixs where u: "formula_update rules_only evs (dep_graph_of reg) = Inr (ch, g)" "dep_of rules_only g (fold spec_event evs FS)"
    "head_to_body g" "length ixs = length evs" "ch = batch_changes rules_only True evs ixs"
    "list_all (\<lambda>ev. f_modals rules_only (event_key ev) = {#}) evs \<longrightarrow> list_all (\<lambda>ix. ix = []) ixs"
    using formula_update_ok [OF d assms(2), of "[]"] h by (auto simp: formula_update_def)
  have ne: "ch \<noteq> []" if "evs \<noteq> []"
    using that u(4,5) by (cases evs; cases ixs) (auto simp: event_changes_def)
  have undo: "\<exists>g2. undo_changes ch k = Inr g2 \<and> graph_rep (reg\<lparr>dep_graph_of := g2\<rparr>) FS"
    if m: "list_all (\<lambda>ev. f_modals rules_only (event_key ev) = {#}) evs" and sub: "deleted evs \<subseteq># FS" and k: "same_edges g k" for k
  proof -
    have bal: "fold spec_event evs FS = FS - deleted evs + inserted evs" by (rule spec_events_balance [OF sub])
    then have "inserted evs \<subseteq># fold spec_event evs FS" by simp
    from undo_batch [OF dep_of_same_edges(1) [OF k u(2)] this m u(4)] u(3,6) m dep_of_same_edges(2) [OF k u(2)]
    obtain g2 where "undo_changes ch k = Inr g2" "head_to_body g2" "dep_of rules_only g2 (fold spec_event evs FS - inserted evs + deleted evs)"
      by (auto simp: undo_changes_def u(5))
    with bal sub ok show ?thesis by (auto simp: graph_rep_def)
  qed
  have "update_graph evs reg = (Inr ch, reg\<lparr>dep_graph_of := g\<rparr>)" by (simp add: update_graph_def u(1))
  moreover have "graph_rep (reg\<lparr>dep_graph_of := g\<rparr>) (fold spec_event evs FS)"
    using u(2,3) rules_ok_events [OF ok assms(2)] by (simp add: graph_rep_def)
  ultimately show ?thesis using ne undo fresher_update [OF u(1)] by (intro exI [of _ ch] exI [of _ g]) blast
qed

text \<open>A search that finds no cycle is right when the graph has changed since it was last right.\<close>

lemma cycle_search:
  assumes "graph_wf g" "fresher g0 g" "acyclic (edge_rel g0)"
  shows "\<exists>b g'. has_cycle g = Inr (b, g') \<and> same_edges g g' \<and> (\<not> acyclic (edge_rel g) \<longrightarrow> b) \<and>
    (cycles g0 = None \<or> cycles g0 = Some [] \<longrightarrow> b = (\<not> acyclic (edge_rel g)))"
proof (cases "cycles g")
  case None
  then have "cache_ok g" by (simp add: cache_ok_def)
  then obtain cs g' where c: "graph_cycles g = Inr (cs, g') \<and> has_cycle g = Inr (cs \<noteq> [], g') \<and> cache_ok g' \<and>
      edges g' = edges g \<and> dkeys (nodes g') = dkeys (nodes g) \<and> graph.more g' = graph.more g \<and>
      real_cycles (edge_rel g) cs \<and> (cs \<noteq> [] \<longleftrightarrow> (\<exists>v. (v, v) \<in> (edge_rel g)\<^sup>+))"
    using graph_cycles_ok [OF assms(1)] by blast
  note g' = c [THEN conjunct2, THEN conjunct1] c [THEN conjunct2, THEN conjunct2, THEN conjunct2]
  have s: "same_edges g g'" unfolding same_edges_def using g'(2) by (elim conjE) (intro conjI)
  have "(cs \<noteq> []) = (\<not> acyclic (edge_rel g))" using g'(2) unfolding acyclic_def by blast
  with g'(1) s show ?thesis by (intro exI [of _ "cs \<noteq> []"] exI [of _ g']) blast
next
  case (Some cs)
  then have c: "cycles g0 = Some cs" "edge_rel g \<subseteq> edge_rel g0" using assms(2) by (auto simp: fresher_def)
  then have "acyclic (edge_rel g)" using assms(3) acyclic_subset by blast
  moreover have "has_cycle g = Inr (cs \<noteq> [], g)" by (simp add: has_cycle_def Some)
  ultimately show ?thesis using c(1) by (intro exI [of _ "cs \<noteq> []"] exI [of _ g]) simp
qed

text \<open>
  C9. What the engine's test for recursion decides, for a batch whose deletions are of formulas that
  the bag has when they are deleted, against rules without recursion. First, a batch that is let
  through leaves rules without recursion and the graph of exactly these rules, whatever the cache
  of cycles holds. Second, when the cache is empty or says that there is no cycle, a batch whose
  rules are free of recursion is let through, so the test is exact; after a refused batch the cache
  may be stale, and then a harmless batch can be refused (\<open>refused_rule_blocks_facts\<close>). Third, a
  batch that makes rules recursive is refused and taken back completely if all it deletes was there
  before the batch and no formula of the batch has a modal in its head. The triggers and their
  index are not touched.
\<close>

theorem recursion_check_exact:
  assumes "graph_rep reg FS" "acyclic (depends FS)" "valid_events rules_only evs FS"
  defines "FS2 \<equiv> fold spec_event evs FS"
  shows "\<exists>chs reg1. update_graph evs reg = (Inr chs, reg1) \<and>
    (\<forall>reg2. reject_recursion chs reg1 = (Inr False, reg2) \<longrightarrow>
       acyclic (depends FS2) \<and> graph_rep reg2 FS2 \<and> triggers reg2 = triggers reg \<and> tindex reg2 = tindex reg) \<and>
    (cycles (dep_graph_of reg) \<in> {None, Some []} \<and> acyclic (depends FS2) \<longrightarrow>
       (\<exists>reg2. reject_recursion chs reg1 = (Inr False, reg2))) \<and>
    (\<not> acyclic (depends FS2) \<and> deleted evs \<subseteq># FS \<and> list_all (\<lambda>ev. f_modals rules_only (event_key ev) = {#}) evs \<longrightarrow>
       (\<exists>reg2. reject_recursion chs reg1 = (Inr True, reg2) \<and> graph_rep reg2 FS \<and> triggers reg2 = triggers reg \<and> tindex reg2 = tindex reg))"
proof -
  obtain chs g where u: "update_graph evs reg = (Inr chs, reg\<lparr>dep_graph_of := g\<rparr>)" "graph_rep (reg\<lparr>dep_graph_of := g\<rparr>) FS2"
    "fresher (dep_graph_of reg) g" "evs \<noteq> [] \<longrightarrow> chs \<noteq> []"
    "list_all (\<lambda>ev. f_modals rules_only (event_key ev) = {#}) evs \<longrightarrow> deleted evs \<subseteq># FS \<longrightarrow>
      (\<forall>k. same_edges g k \<longrightarrow> (\<exists>g2. undo_changes chs k = Inr g2 \<and> graph_rep (reg\<lparr>dep_graph_of := g2\<rparr>) FS))"
    using update_graph_ok [OF assms(1,3)] unfolding FS2_def by blast
  have wf: "graph_wf g" and e: "edge_rel g = depends FS2" using graph_repD [OF u(2)] by simp_all
  have a: "acyclic (edge_rel (dep_graph_of reg))" using graph_repD(2) [OF assms(1)] assms(2) by simp
  show ?thesis
  proof (cases "chs = []")
    case True
    then have "FS2 = FS" using u(4) by (auto simp: FS2_def)
    then show ?thesis using u(1,2) True assms(1,2) by (intro exI [of _ chs] exI [of _ "reg\<lparr>dep_graph_of := g\<rparr>"]) (auto simp: reject_recursion_def)
  next
    case False
    obtain c g' where c: "has_cycle g = Inr (c, g')" "same_edges g g'" "\<not> acyclic (depends FS2) \<longrightarrow> c"
      "cycles (dep_graph_of reg) \<in> {None, Some []} \<longrightarrow> c = (\<not> acyclic (depends FS2))"
      using cycle_search [OF wf u(3) a] e by auto
    have rep: "graph_rep (reg\<lparr>dep_graph_of := g'\<rparr>) FS2" using graph_rep_same [OF u(2)] c(2) by simp
    show ?thesis
    proof (intro exI conjI, rule u(1))
      show "\<forall>reg2. reject_recursion chs (reg\<lparr>dep_graph_of := g\<rparr>) = (Inr False, reg2) \<longrightarrow>
          acyclic (depends FS2) \<and> graph_rep reg2 FS2 \<and> triggers reg2 = triggers reg \<and> tindex reg2 = tindex reg"
        using False c(1,3) rep by (cases c) (auto simp: reject_recursion_def split: sum.splits)
      show "cycles (dep_graph_of reg) \<in> {None, Some []} \<and> acyclic (depends FS2) \<longrightarrow>
          (\<exists>reg2. reject_recursion chs (reg\<lparr>dep_graph_of := g\<rparr>) = (Inr False, reg2))"
        using False c(1,4) by (auto simp: reject_recursion_def)
      show "\<not> acyclic (depends FS2) \<and> deleted evs \<subseteq># FS \<and> list_all (\<lambda>ev. f_modals rules_only (event_key ev) = {#}) evs \<longrightarrow>
          (\<exists>reg2. reject_recursion chs (reg\<lparr>dep_graph_of := g\<rparr>) = (Inr True, reg2) \<and> graph_rep reg2 FS \<and>
            triggers reg2 = triggers reg \<and> tindex reg2 = tindex reg)"
      proof
        assume cyc: "\<not> acyclic (depends FS2) \<and> deleted evs \<subseteq># FS \<and> list_all (\<lambda>ev. f_modals rules_only (event_key ev) = {#}) evs"
        then obtain g2 where "undo_changes chs g' = Inr g2" "graph_rep (reg\<lparr>dep_graph_of := g2\<rparr>) FS" using u(5) c(2) by blast
        with c(1,3) cyc False show "\<exists>reg2. reject_recursion chs (reg\<lparr>dep_graph_of := g\<rparr>) = (Inr True, reg2) \<and> graph_rep reg2 FS \<and>
            triggers reg2 = triggers reg \<and> tindex reg2 = tindex reg" by (auto simp: reject_recursion_def)
      qed
    qed
  qed
qed

text \<open>With \<open>p(x) :- q(x, 1), not r(x)\<close> in policy \<open>a\<close>, the rule \<open>q(x, y) :- p(x)\<close> is refused.\<close>

definition q_from_p :: rule where
  "q_from_p = \<lparr>heads = [lit ''q'' [Variable ''x'', Variable ''y'']], body = [lit ''p'' [Variable ''x'']]\<rparr>"

lemma depends_add: "depends (add_mset ft FS) = {(u, v). \<exists>n. (u, v, n) \<in> dep_edges rules_only True ft} \<union> depends FS"
  unfolding depends_def set_mset_add_mset_insert insert_iff by blast

lemma depends_empty [simp]: "depends {#} = {}"
  by (simp add: depends_def)

lemmas edge_simps = dep_edges_def dep_heads_def dep_body_def rules_only_def selected_def lit_def lit_complement_def tn_def
  is_atom_like_def global_tablename_def opt_pieces_def lit_tablename_def tablename_name_def or_else_def

lemma example_edge [simp]:
  "(u, v, n) \<in> dep_edges rules_only True (FRule rule_example, Some ''a'') \<longleftrightarrow>
     u = ''a:p'' \<and> (v = ''a:q'' \<and> \<not> n \<or> v = ''a:r'' \<and> n)"
  "(u, v, n) \<in> dep_edges rules_only True (FRule q_from_p, Some ''a'') \<longleftrightarrow> u = ''a:q'' \<and> v = ''a:p'' \<and> \<not> n"
  by (simp add: edge_simps rule_example_def, blast) (simp add: edge_simps q_from_p_def, blast)

lemma in_a_spec: "spec_event (in_a f) M = add_mset (f, Some ''a'') M"
  by (simp add: spec_event_def event_key_def in_a_def ins_def)

lemma graph_rep_events:
  assumes "valid_events rules_only evs {#}"
  shows "graph_rep (registry_new (graph_of_events evs)) (fold spec_event evs {#})"
proof -
  have "rules_ok (fold spec_event evs {#})" by (rule rules_ok_events [OF _ assms]) (simp add: rules_ok_def)
  with graph_of_events_ok(1,2) [OF assms] show ?thesis by (simp add: graph_rep_def registry_new_def)
qed

theorem recursion_check_exact_witness:
  "\<exists>chs reg1 reg2. update_graph [in_a (FRule q_from_p)] (registry_new (graph_of_events [in_a (FRule rule_example)])) = (Inr chs, reg1) \<and>
     reject_recursion chs reg1 = (Inr True, reg2) \<and> graph_rep reg2 {#(FRule rule_example, Some ''a'')#}"
proof -
  let ?old = "[in_a (FRule rule_example)]" and ?evs = "[in_a (FRule q_from_p)]"
  let ?reg = "registry_new (graph_of_events ?old)" and ?FS = "{#(FRule rule_example, Some ''a'')#}"
  have fs: "fold spec_event ?old {#} = ?FS" "fold spec_event ?evs ?FS = add_mset (FRule q_from_p, Some ''a'') ?FS"
    unfolding fold_simps in_a_spec by (rule refl)+
  have "valid_events rules_only ?old {#}" by code_simp
  then have r: "graph_rep ?reg ?FS" using graph_rep_events fs(1) by metis
  have e: "depends ?FS = {(''a:p'', ''a:q''), (''a:p'', ''a:r'')}" by (auto simp: depends_def)
  have a: "acyclic (depends ?FS)" unfolding e by (rule acyclicI_order [of _ "\<lambda>t. if t = ''a:p'' then 1 else (0 :: nat)"]) auto
  have "formula_ok rules_only (FRule q_from_p)" by code_simp
  then have v: "valid_events rules_only ?evs ?FS" by (simp add: in_a_def ins_def)
  have d: "deleted ?evs \<subseteq># ?FS" by (simp add: in_a_def ins_def)
  have m: "list_all (\<lambda>ev. f_modals rules_only (event_key ev) = {#}) ?evs"
    by (simp add: f_modals_def is_atom_like_def event_key_def in_a_def ins_def q_from_p_def head_modals_def lit_def tn_def)
  have n: "\<not> acyclic (depends (fold spec_event ?evs ?FS))"
  proof
    let ?D = "depends (fold spec_event ?evs ?FS)"
    assume "acyclic ?D"
    moreover have "(''a:p'', ''a:q'') \<in> ?D" "(''a:q'', ''a:p'') \<in> ?D" unfolding fs(2) depends_add by auto
    then have "(''a:p'', ''a:p'') \<in> ?D\<^sup>+" by (rule trancl_into_trancl [OF trancl.r_into_trancl])
    ultimately show False unfolding acyclic_def by blast
  qed
  from recursion_check_exact [OF r a v] d m n show ?thesis by auto
qed

section \<open>Rejected and accepted batches\<close>

definition graph_only :: "runtime \<Rightarrow> runtime \<Rightarrow> bool" where
  "graph_only rt rt' = (\<exists>g. rt' = rt\<lparr>rt_registry := (rt_registry rt)\<lparr>dep_graph_of := g\<rparr>\<rparr>)"

lemma graph_only_refl: "graph_only rt rt"
  unfolding graph_only_def by (rule exI [of _ "dep_graph_of (rt_registry rt)"]) simp

lemma accept_not_rejected: "accept_events E events rt \<noteq> (Inr (Rejected es), rt')"
  by (auto simp: accept_events_def sbind_def sret_def split: prod.splits sum.splits)

lemma reject_step:
  assumes "sbind (on_registry (update_graph evs)) (\<lambda>chs. sbind (on_registry (reject_recursion chs)) (\<lambda>recursive.
     if recursive then sret (Rejected [PolicyException]) else accept_events E evs)) rt = (Inr (Rejected es), rt')"
  shows "es = [PolicyException] \<and> graph_only rt rt'"
proof -
  obtain q reg1 where u: "update_graph evs (rt_registry rt) = (q, reg1)" by (cases "update_graph evs (rt_registry rt)")
  then obtain chs where q: "q = Inr chs" using assms by (cases q) (auto simp: sbind_def on_registry_def)
  obtain g1 where g1: "reg1 = (rt_registry rt)\<lparr>dep_graph_of := g1\<rparr>" using u q by (auto simp: update_graph_def split: sum.splits)
  obtain q2 reg2 where r: "reject_recursion chs reg1 = (q2, reg2)" by (cases "reject_recursion chs reg1")
  then obtain b where b: "q2 = Inr b" using assms u q by (cases q2) (auto simp: sbind_def on_registry_def)
  obtain g2 where g2: "reg2 = (rt_registry rt)\<lparr>dep_graph_of := g2\<rparr>"
    using r b g1 by (auto simp: reject_recursion_def split: if_splits sum.splits prod.splits bool.splits)
  have b: "b" using assms u q r b by (cases b) (auto simp: sbind_def on_registry_def accept_not_rejected)
  with assms u q r \<open>q2 = Inr b\<close> g2 show ?thesis by (auto simp: sbind_def on_registry_def sret_def graph_only_def)
qed

lemma rejected_datalog:
  assumes "update_obj_datalog E events rt = (Inr (Rejected es), rt')" shows "es \<noteq> [] \<and> graph_only rt rt'"
proof -
  obtain evs where evs: "runtime_actual_events events rt = Inr evs"
    using assms by (cases "runtime_actual_events events rt") (auto simp: update_obj_datalog_def sbind_def lift_res_def)
  with assms have ne: "evs \<noteq> []" by (auto simp: update_obj_datalog_def sbind_def lift_res_def sret_def)
  obtain errs where errs: "all_update_errors E (group_events_by_target evs) rt = Inr errs"
    using assms evs ne by (cases "all_update_errors E (group_events_by_target evs) rt") (auto simp: update_obj_datalog_def sbind_def lift_res_def)
  show ?thesis
  proof (cases "errs = []")
    case False
    then have "es = errs \<and> rt' = rt" using assms evs ne errs by (simp add: update_obj_datalog_def sbind_def lift_res_def sret_def)
    with False graph_only_refl show ?thesis by simp
  next
    case True
    then show ?thesis using reject_step [of evs E rt es rt'] assms evs ne errs
      by (simp add: update_obj_datalog_def sbind_def lift_res_def)
  qed
qed

text \<open>
  C10. A rejected update says why and changes nothing that a query, a trigger or a later schema
  could see: the policies, their schemas and attributes, the triggers and their index, the events
  that wait, and the effects are as before; only the dependency graph was worked on.
\<close>

theorem rejected_update_changes_nothing:
  assumes "update_obj E events theory persistent rt = (Inr (Rejected es), rt')"
  shows "es \<noteq> [] \<and> (\<exists>g. rt' = rt\<lparr>rt_registry := (rt_registry rt)\<lparr>dep_graph_of := g\<rparr>\<rparr>)"
proof -
  have "es \<noteq> [] \<and> graph_only rt rt'"
  proof -
    obtain errs evs where t: "resolve_targets theory events rt = (errs, evs)" by (cases "resolve_targets theory events rt")
    show ?thesis
    proof (cases "errs = []")
      case False
      with assms t have "es = errs" "rt' = rt" by (auto simp: update_obj_def)
      with False graph_only_refl show ?thesis by blast
    next
      case True
      with assms t obtain l where l: "process_limbo_events (rt_theories rt) persistent evs = Inr l"
        by (auto simp: update_obj_def split: sum.splits)
      show ?thesis
      proof (cases "concat (map snd (limbo_errors l)) = []")
        case False
        have "es = concat (map snd (limbo_errors l)) \<and> rt' = rt" using assms t True l
          by (simp add: update_obj_def Let_def False del: concat_eq_Nil_conv)
        with False graph_only_refl show ?thesis by metis
      next
        case no: True
        obtain q rt1 where d: "update_obj_datalog E (enabled l) rt = (q, rt1)" by (cases "update_obj_datalog E (enabled l) rt")
        have "q = Inr (Rejected es) \<and> rt1 = rt'"
          using assms t True l no d by (cases q) (auto simp: update_obj_def Let_def sbind_def split: update_result.splits)
        with rejected_datalog d show ?thesis by blast
      qed
    qed
  qed
  then show ?thesis unfolding graph_only_def .
qed
text \<open>A policy \<open>a\<close> refuses \<open>p(x) :- p(x)\<close>.\<close>

definition one_policy :: runtime where
  "one_policy = snd (create_policy ''a'' NonrecursiveRuleTheory None (runtime_new False False))"

definition p_from_p :: rule where
  "p_from_p = \<lparr>heads = [lit ''p'' [Variable ''x'']], body = [lit ''p'' [Variable ''x'']]\<rparr>"

theorem rejected_update_changes_nothing_witness:
  "\<exists>rt' g. insert_obj bare_env (FRule p_from_p) (Some ''a'') one_policy = (Inr (Rejected [PolicyException]), rt') \<and>
     rt' = one_policy\<lparr>rt_registry := (rt_registry one_policy)\<lparr>dep_graph_of := g\<rparr>\<rparr>"
proof -
  obtain q rt' where r: "insert_obj bare_env (FRule p_from_p) (Some ''a'') one_policy = (q, rt')" by (metis surj_pair)
  have "fst (insert_obj bare_env (FRule p_from_p) (Some ''a'') one_policy) = Inr (Rejected [PolicyException])" by code_simp
  with r have q: "q = Inr (Rejected [PolicyException])" by simp
  from rejected_update_changes_nothing [OF r [unfolded insert_obj_def q]] r q show ?thesis by blast
qed

text \<open>The parts of \<open>accept_events\<close>.\<close>

lemma accept_registry:
  assumes run: "accept_events E evs rt = (Inr q, rt')" and rep: "graph_rep (rt_registry rt) FS"
  shows "graph_rep (rt_registry rt') FS \<and> index_exact (rt_registry rt')"
proof -
  have wf: "graph_wf (rule_graph rt)" by (rule graph_repD(1) [OF rep])
  obtain m rt1 where m: "maintain_triggers rt = (m, rt1)" by (cases "maintain_triggers rt")
  have m': "m = Inr ()" using run m by (cases m) (simp_all add: accept_events_def sbind_def)
  have s: "same_edges (rule_graph rt) (rule_graph rt1)" by (rule keeps_edgesD [OF keeps_edges_maintain wf m])
  then have wf1: "graph_wf (rule_graph rt1)" and rep1: "graph_rep (rt_registry rt1) FS"
    using wf same_edges_wf [OF s] graph_rep_same [OF rep s] by simp_all
  obtain trs where t: "relevant_triggers (map ChangedBy evs) (rt_registry rt1) = Inr trs"
    using run m m' by (cases "relevant_triggers (map ChangedBy evs) (rt_registry rt1)") (simp_all add: accept_events_def sbind_def lift_res_def)
  obtain reg where u: "update_dependencies (rt_registry rt1) = (Inr (), reg)" and ex: "index_exact reg"
    and s1: "same_edges (rule_graph rt1) (dep_graph_of reg)"
    using update_dependencies_exact [OF wf1] by blast
  let ?rt = "rt1\<lparr>rt_registry := reg\<rparr>"
  obtain w rt2 where w: "with_triggers E trs (apply_events E (group_events_by_target evs) evs) ?rt = (w, rt2)"
    by (cases "with_triggers E trs (apply_events E (group_events_by_target evs) evs) ?rt")
  have "rt' = rt2" using run m m' t u w by (cases w) (simp_all add: accept_events_def sbind_def lift_res_def on_registry_def sret_def)
  moreover have "rt_registry rt2 = reg" using keepsD [OF keeps_with_triggers [OF keeps_apply] w] by simp
  ultimately show ?thesis using ex graph_rep_same [OF rep1 s1] by simp
qed

end
