(* ===== verification/Runtime_Cases.thy ===== *)
theory Runtime_Cases
  imports Runtime_Updates
begin

text \<open>
  Runs of the engine in which it departs from what its documentation says: batches with repeated
  events or several targets, the cache of cycles after a rejection, the callbacks of execution
  triggers, renamed policies, and events that a schema enables.
\<close>

definition unary :: "string \<Rightarrow> string \<Rightarrow> rule" where
  "unary h b = \<lparr>heads = [lit h [Variable ''x'']], body = [lit b [Variable ''x'']]\<rparr>"

definition fact1 :: "string \<Rightarrow> formula" where
  "fact1 t = FLit (lit t [ObjectConstant (VInt 1)])"

definition event_in :: "string \<Rightarrow> bool \<Rightarrow> formula \<Rightarrow> event" where
  "event_in th i f = \<lparr>formula = f, is_insert = i, target = Some th\<rparr>"

definition refused :: "exc + update_result \<Rightarrow> bool" where
  "refused r = (case r of Inr (Accepted _) \<Rightarrow> False | _ \<Rightarrow> True)"

section \<open>Batches\<close>

text \<open>
  A batch with the same rule twice counts the rule twice in the dependency graph, though the
  policy has it once. After the rule is deleted, its edges stay, and a rule in the other
  direction is refused as recursive.
\<close>

theorem repeated_insertion_stays_in_graph:
  "let e = event_in ''a'' True (FRule (unary ''p'' ''q''));
       rt = snd (update_obj bare_env [e, e] None False one_policy);
       rt' = snd (delete_obj bare_env (FRule (unary ''p'' ''q'')) (Some ''a'') rt)
   in fst (policy_statements ''a'' (rt_theory rt')) = Inr [] \<and> edges (rule_graph rt') = [(''a:p'', [(''a:q'', False)])] \<and>
      fst (insert_obj bare_env (FRule (unary ''q'' ''p'')) (Some ''a'') rt') = Inr (Rejected [PolicyException]) \<and>
      \<not> refused (fst (insert_obj bare_env (FRule (unary ''q'' ''p'')) (Some ''a'') one_policy))"
  by code_simp

text \<open>
  After the rule \<open>p(x) :- p(x)\<close> was refused, the cache of cycles is not empty although the graph is;
  a fact is refused as recursive.
\<close>

theorem refused_rule_blocks_facts:
  "let rt = snd (insert_obj bare_env (FRule (unary ''p'' ''p'')) (Some ''a'') one_policy)
   in edges (rule_graph rt) = [] \<and> cycles (rule_graph rt) = Some [[''a:p'', ''a:p'']] \<and>
      fst (insert_obj bare_env (fact1 ''r'') (Some ''a'') rt) = Inr (Rejected [PolicyException]) \<and>
      \<not> refused (fst (insert_obj bare_env (fact1 ''r'') (Some ''a'') one_policy))"
  by code_simp

definition policies_a_b :: runtime where
  "policies_a_b = snd (sbind (create_policy ''a'' NonrecursiveRuleTheory None) (\<lambda>_. create_policy ''b'' NonrecursiveRuleTheory None)
     (runtime_new False False))"

text \<open>A batch for two policies puts every event into both.\<close>

theorem batch_hits_every_policy:
  "let rt = snd (update_obj bare_env [event_in ''a'' True (fact1 ''p''), event_in ''b'' True (fact1 ''q'')] None False policies_a_b)
   in fst (content ''a'' None (rt_theory rt)) =
        Inr [\<lparr>heads = [lit ''p'' [ObjectConstant (VInt 1)]], body = []\<rparr>, \<lparr>heads = [lit ''q'' [ObjectConstant (VInt 1)]], body = []\<rparr>] \<and>
      fst (content ''b'' None (rt_theory rt)) = fst (content ''a'' None (rt_theory rt))"
  by code_simp

section \<open>Execution triggers\<close>

text \<open>The graph, with heads \<open>execute[nova:start(x)]\<close> and \<open>execute[nova:stop(x)]\<close> in policy \<open>a\<close>.\<close>

definition two_actions :: dep_graph where
  "two_actions = (bag_add_node ''a:nova:start'' (bag_add_node ''a:nova:stop'' (dep_empty True)))
     \<lparr>modal_index := [(EXECUTE, 0)], store := \<lparr>cell = \<lambda>_. [(''a:nova:start'', 1), (''a:nova:stop'', 1)], brk = 1\<rparr>\<rparr>"

text \<open>Two execution triggers of one batch act on the same table: the callback of the first has the table of the second.\<close>

theorem execution_callbacks_shared:
  "let rt = snd (maintain_triggers ((runtime_new True True)\<lparr>rt_registry := registry_new two_actions\<rparr>))
   in map (\<lambda>tr. (tr_table tr, tr_callback tr)) (triggers (rt_registry rt)) =
        [(''nova:start'', ExecuteTable (Some ''a'') ''nova:stop''), (''nova:stop'', ExecuteTable (Some ''a'') ''nova:stop'')]"
  by code_simp

section \<open>Names\<close>

text \<open>A renamed policy takes no updates, under neither name.\<close>

theorem renamed_policy_frozen:
  "let rt = snd (rename_policy ''a'' ''c'' one_policy)
   in policy_names rt = [''c''] \<and> fst (insert_obj bare_env (fact1 ''p'') (Some ''c'') rt) = Inl PolicyException \<and>
      fst (insert_obj bare_env (fact1 ''p'') (Some ''a'') rt) = Inr (Rejected [PolicyException])"
  by code_simp

text \<open>The documentation says that a name with another id raises \<open>KeyError\<close>.\<close>

theorem wrong_id_is_no_error:
  "policy_object (Some ''a'') (Some ''2'') (snd (create_policy ''a'' NonrecursiveRuleTheory (Some ''1'') (runtime_new False False))) = Inr None"
  by code_simp

section \<open>Events that a schema enables\<close>

definition ds_table :: "string \<Rightarrow> trm list \<Rightarrow> (colref \<times> trm) list \<Rightarrow> literal" where
  "ds_table t ts named = (lit t ts)\<lparr>table := \<lparr>tbl = t, service = Some ''ds'', modal = None\<rparr>, named_arguments := named\<rparr>"

definition waiting_rule :: rule where
  "waiting_rule = \<lparr>heads = [lit ''p'' [Variable ''x'']],
     body = [ds_table ''t'' [] [(ColName ''id'', Variable ''x'')], ds_table ''u'' [Variable ''x'', Variable ''y''] []]\<rparr>"

text \<open>
  A rule that waits for a schema and does not fit it is reported as an error and nevertheless
  handed on as enabled, so its error is recorded twice.
\<close>

theorem schema_error_recorded_twice:
  "let rt = snd (insert_obj bare_env (FRule waiting_rule) (Some ''a'') (snd (create_policy ''ds'' DatasourcePolicyTheory None one_policy)));
       rt' = snd (set_policy_schema bare_env ''ds'' [(''t'', [ColStr ''id'']), (''u'', [ColStr ''id''])] True rt)
   in length (disabled_events rt) = 1 \<and> disabled_events rt' = [] \<and> map snd (error_events rt') = [[PolicyException], [PolicyException]]"
  by code_simp

end
