(* ===== verification/Engine_Invariant.thy ===== *)
theory Engine_Invariant
  imports Runtime_Updates Policy_Update
begin

text \<open>
  The invariant of the engine, over the rules that its policies store: the dependency graph stands
  for exactly these rules, they are free of recursion, the index of the triggers is exact, and the
  stores and schemas of the policies are those of the rules. It joins what is proved of the
  graph (\<open>Runtime_Updates\<close>) with what is proved of the policies (\<open>Policy_Update\<close>).
\<close>

declare map_of_eq_Some_iff [simp del] Some_eq_map_of_iff [simp del]

section \<open>The graph of the stored rules\<close>

text \<open>The rules of all policies as formulas with the policy they are in.\<close>

definition formulas :: "rule_base \<Rightarrow> (formula \<times> string option) multiset" where
  "formulas L = image_mset (\<lambda>(n, r). (FRule r, Some n)) (mset L)"

lemma formulas_append [simp]: "formulas (L @ M) = formulas L + formulas M"
  and formulas_Cons [simp]: "formulas ((n, r) # L) = add_mset (FRule r, Some n) (formulas L)"
  and formulas_Nil [simp]: "formulas [] = {#}"
  by (simp_all add: formulas_def)

lemma rules_ok_formulas: "rules_ok (formulas L)"
  by (auto simp: rules_ok_def formulas_def formula_ok_def rules_only_def)

text \<open>Formulas that put the same into the graph.\<close>

definition same_contrib :: "formula \<times> string option \<Rightarrow> formula \<times> string option \<Rightarrow> bool" where
  "same_contrib x y = ((\<forall>b. mset (f_nodes rules_only b x) = mset (f_nodes rules_only b y) \<and>
     mset (f_edges rules_only b x) = mset (f_edges rules_only b y)) \<and> f_modals rules_only x = f_modals rules_only y)"

lemma dep_of_same_contrib: "same_contrib x y \<Longrightarrow> dep_of rules_only g (add_mset x A) = dep_of rules_only g (add_mset y A)"
  by (simp add: same_contrib_def dep_of_def bag_defs)

lemma body_literals:
  "fold (body_literal b th h) ls (ns, es, x) =
    (fold (\<lambda>l. set_add (lit_tablename th l)) ls ns,
     fold (\<lambda>l. set_add (if b then (h, lit_tablename th l, negated l) else (lit_tablename th l, h, negated l))) ls es, x)"
  by (induction ls arbitrary: ns es) (simp_all add: body_literal_def Let_def)

lemma fold_set_add: "set (fold (\<lambda>l. set_add (f l)) ls xs) = set xs \<union> f ` set ls"
  "distinct (fold (\<lambda>l. set_add (f l)) ls xs) = distinct xs"
  by (induction ls arbitrary: xs) simp_all

lemma mset_fold_set_add:
  assumes "set ls = set ms" "distinct xs"
  shows "mset (fold (\<lambda>l. set_add (f l)) ls xs) = mset (fold (\<lambda>l. set_add (f l)) ms xs)"
  using assms by (simp add: set_eq_iff_mset_eq_distinct [symmetric] fold_set_add)

lemma rule_contrib:
  assumes "heads r = [h]" "\<not> is_atom_like (FRule r)"
  shows "f_contrib rules_only b (FRule r, th) =
    (let t = global_tablename th (table h) in
     (fold (\<lambda>l. set_add (lit_tablename th l)) (body r) [t],
      fold (\<lambda>l. set_add (if b then (t, lit_tablename th l, negated l) else (lit_tablename th l, t, negated l))) (body r) []))"
proof -
  have [simp]: "selected (select_head rules_only) l" "filter (selected (select_body rules_only)) ls = ls" for l ls
    by (simp_all add: rules_only_def selected_def)
  show ?thesis using assms
    by (simp add: f_contrib_def formula_nodes_edges_def rule_head_contrib_def body_literals Let_def split_beta set_add_def)
qed

lemma same_contrib_rule:
  assumes "heads r = heads s" "length (heads r) = 1" "mset (body r) = mset (body s)"
  shows "same_contrib (FRule r, t) (FRule s, t)"
proof -
  obtain h where h: "heads r = [h]" using assms(2) by (cases "heads r") auto
  then have hs: "heads s = [h]" using assms(1) by simp
  have a: "is_atom_like (FRule r) = is_atom_like (FRule s)"
    using assms mset_eq_length [OF assms(3)] by (auto simp: is_atom_like_def)
  have m: "f_modals rules_only (FRule r, t) = f_modals rules_only (FRule s, t)" using assms(1) a by (simp add: f_modals_def)
  show ?thesis
  proof (cases "is_atom_like (FRule r)")
    case True
    then show ?thesis using a m by (simp add: same_contrib_def f_contrib_def formula_nodes_edges_def rules_only_def)
  next
    case False
    have b: "set (body r) = set (body s)" using assms(3) by (rule mset_eq_setD)
    show ?thesis using m a False
      by (simp add: same_contrib_def rule_contrib [OF h] rule_contrib [OF hs] Let_def mset_fold_set_add [OF b])
  qed
qed

lemma same_contrib_atoms:
  assumes "is_atom_like f" "is_atom_like f'" shows "same_contrib (f, t) (f', t)"
  using assms by (simp add: same_contrib_def f_contrib_def formula_nodes_edges_def f_modals_def rules_only_def)

text \<open>The formula of an event and the rule that the policy stores for it.\<close>

lemma event_contrib:
  assumes "event_rule R e = Inr r" "is_datalog (formula e)" "rule_ok_for W n r"
  shows "same_contrib (formula e, t) (FRule r, t)"
proof -
  obtain r0 where r0: "formula e = FRule r0 \<or> formula e = FLit (rule_head r0) \<and> body r0 = []"
    "rule_head r0 = rule_head r" "mset (body r0) = mset (body r)" using event_rule_cases [OF assms(1,2)] by blast
  have one: "length (heads r) = 1" "\<not> negated (rule_head r)" using assms(3) by (simp_all add: rule_ok_for_def)
  show ?thesis
  proof (cases "formula e")
    case (FRule q)
    then have q: "q = r0" using r0(1) by simp
    have "length (heads q) = 1" using assms(2) FRule by (auto simp: is_datalog_def)
    then have "heads q = heads r" using one(1) r0(2) q by (cases "heads q"; cases "heads r") auto
    then show ?thesis unfolding FRule using same_contrib_rule [of q r t] one(1) r0(3) q by simp
  next
    case (FLit l)
    then have "body r = []" using r0(1,3) by auto
    then have "is_atom_like (FRule r)" using one
      by (cases "heads r") (auto simp: is_atom_like_def lit_is_atom_def)
    moreover have "is_atom_like (formula e)" using assms(2) FLit by (simp add: is_atom_like_def is_datalog_def)
    ultimately show ?thesis by (intro same_contrib_atoms)
  next
    case (FFact x)
    then show ?thesis using r0(1) by simp
  qed
qed

lemma key_contrib:
  assumes "entry_key (n, r) = entry_key (n, s)" "rule_ok_for W n r" "rule_ok_for W n s"
  shows "same_contrib (FRule r, t) (FRule s, t)"
proof (cases "body r = []")
  case True
  then have "body s = []" using assms(1) by (auto simp: entry_key_def Let_def split: if_splits)
  moreover have "is_atom_like (FRule q)" if "rule_ok_for W n q" "body q = []" for q
    using that by (cases "heads q") (auto simp: is_atom_like_def rule_ok_for_def lit_is_atom_def)
  ultimately show ?thesis using True assms(2,3) by (intro same_contrib_atoms)
next
  case False
  then have "body s \<noteq> []" and k: "rule_key r = rule_key s" using assms(1) by (auto simp: entry_key_def Let_def split: if_splits)
  have m: "mset (heads r) = mset (heads s)" "mset (body r) = mset (body s)"
    using k unfolding rule_key_def prod.inject by (metis mset_sorted_by)+
  have one: "length (heads r) = 1" "length (heads s) = 1" using assms(2,3) by (simp_all add: rule_ok_for_def)
  then have "heads r = heads s" using m(1) by (cases "heads r"; cases "heads s") auto
  then show ?thesis using same_contrib_rule one(1) m(2) by blast
qed

section \<open>One event, and a batch\<close>

definition entries_ok :: "(string \<Rightarrow> string \<Rightarrow> nat) \<Rightarrow> rule_base \<Rightarrow> bool" where
  "entries_ok W L = (distinct (map entry_key L) \<and> (\<forall>(n, r) \<in> set L. rule_ok_for W n r))"

lemma graph_event:
  assumes dep: "dep_of rules_only g (formulas L)" and L: "entries_ok W L" and t: "target e = Some n"
    and ok: "event_ok R W S n e L" and eff: "fst (base_update R n e L)"
  shows "\<exists>ch' g'. event_update rules_only e (ch, g) = Inr (ch', g') \<and> ch' \<noteq> [] \<and> head_to_body g' = head_to_body g \<and>
    dep_of rules_only g' (formulas (snd (base_update R n e L))) \<and> entries_ok W (snd (base_update R n e L))"
proof -
  obtain r where r: "event_rule R e = Inr r" "rule_ok_for W n r" "is_datalog (formula e)"
    using ok by (auto simp: event_ok_def split: sum.splits)
  have same: "same_contrib (event_key e) (FRule r, Some n)" using event_contrib [OF r(1,3,2)] t by (simp add: event_key_def)
  have fok: "formula_ok rules_only (formula e)"
    using r(3) by (cases "formula e") (auto simp: formula_ok_def is_datalog_def is_atom_like_def rules_only_def)
  show ?thesis
  proof (cases "is_insert e")
    case True
    then have new: "snd (base_update R n e L) = L @ [(n, r)]" "entry_key (n, r) \<notin> entry_key ` set L"
      using eff r(1) by (simp_all add: base_update_def base_insert_def)
    have e: "entries_ok W (L @ [(n, r)])" using L new(2) r(2) by (auto simp: entries_ok_def)
    obtain ch' g' ix where u: "event_update rules_only e (ch, g) = Inr (ch', g')" "dep_of rules_only g' (spec_event e (formulas L))"
      "head_to_body g' = head_to_body g" "ch' = ch @ event_changes rules_only (head_to_body g) e ix"
      using event_update_ok [OF dep fok] True by blast
    have "dep_of rules_only g' (formulas (L @ [(n, r)]))"
      using u(2) True dep_of_same_contrib [OF same, of g' "formulas L"] by (simp add: spec_event_def)
    moreover have "ch' \<noteq> []" using u(4) by (simp add: event_changes_def)
    ultimately show ?thesis using u(1,3) e unfolding new(1) by (intro exI [of _ ch'] exI [of _ g']) simp
  next
    case False
    then have del: "snd (base_update R n e L) = base_delete (n, r) L" "entry_key (n, r) \<in> entry_key ` set L"
      using eff r(1) by (simp_all add: base_update_def)
    then obtain d where d: "d \<in> set L" "entry_key d = entry_key (n, r)" by auto
    obtain s where s: "d = (n, s)" using d(2) by (cases d) (auto simp: entry_key_def Let_def)
    obtain as bs where ab: "L = as @ d # bs" using d(1) by (auto simp: in_set_conv_decomp)
    have rest: "base_delete (n, r) L = as @ bs"
      using L d(2) by (auto simp: entries_ok_def base_delete_def ab filter_id_conv rev_image_eqI intro!: arg_cong2 [where f = append])
    have "rule_ok_for W n s" using L d(1) s by (auto simp: entries_ok_def)
    then have same2: "same_contrib (FRule s, Some n) (FRule r, Some n)" using key_contrib d(2) s r(2) by blast
    have "dep_of rules_only g (add_mset (FRule s, Some n) (formulas (as @ bs)))" using dep by (simp add: ab s)
    then have dep2: "dep_of rules_only g (add_mset (event_key e) (formulas (as @ bs)))"
      using dep_of_same_contrib [OF same] dep_of_same_contrib [OF same2] by blast
    have mem: "event_key e \<in># add_mset (event_key e) (formulas (as @ bs))" by simp
    obtain ch' g' ix where u: "event_update rules_only e (ch, g) = Inr (ch', g')"
      "dep_of rules_only g' (spec_event e (add_mset (event_key e) (formulas (as @ bs))))"
      "head_to_body g' = head_to_body g" "ch' = ch @ event_changes rules_only (head_to_body g) e ix"
      using event_update_ok [OF dep2 fok disjI2 [OF mem]] by blast
    have "dep_of rules_only g' (formulas (as @ bs))" using u(2) False by (simp add: spec_event_def)
    moreover have "ch' \<noteq> []" using u(4) by (simp add: event_changes_def)
    moreover have "entries_ok W (as @ bs)" using L by (auto simp: entries_ok_def ab)
    ultimately show ?thesis using u(1,3) unfolding del(1) rest by blast
  qed
qed

lemma base_updates_length: "length (fst (base_updates R n es L)) \<le> length es"
proof (induction es arbitrary: L)
  case (Cons e es)
  obtain b M where b: "base_update R n e L = (b, M)" by (cases "base_update R n e L")
  show ?case using Cons.IH [of M] by (simp add: b split_beta)
qed simp

lemma effective_Cons:
  assumes "fst (base_updates R n (e # es) L) = e # es"
  shows "fst (base_update R n e L)" "fst (base_updates R n es (snd (base_update R n e L))) = es"
proof -
  obtain b M where b: "base_update R n e L = (b, M)" by (cases "base_update R n e L")
  have "(if b then e # fst (base_updates R n es M) else fst (base_updates R n es M)) = e # es"
    using assms by (simp add: b split_beta)
  moreover have "fst (base_updates R n es M) \<noteq> e # es" using base_updates_length [of R n es M] by auto
  ultimately show "fst (base_update R n e L)" "fst (base_updates R n es (snd (base_update R n e L))) = es"
    by (simp_all add: b split: if_splits)
qed

lemma graph_batch:
  assumes "dep_of rules_only g (formulas L)" "entries_ok W L" "\<forall>e \<in> set evs. target e = Some n"
    "events_ok R W S n evs L" "fst (base_updates R n evs L) = evs"
  shows "\<exists>ch' g'. for_res (event_update rules_only) evs (ch, g) = Inr (ch', g') \<and> (ch \<noteq> [] \<or> evs \<noteq> [] \<longrightarrow> ch' \<noteq> []) \<and>
    head_to_body g' = head_to_body g \<and> dep_of rules_only g' (formulas (snd (base_updates R n evs L))) \<and>
    entries_ok W (snd (base_updates R n evs L))"
  using assms
proof (induction evs arbitrary: ch g L)
  case (Cons e es)
  note eff = effective_Cons [OF Cons.prems(5)]
  have ok: "event_ok R W S n e L" "events_ok R W S n es (snd (base_update R n e L))"
    and t: "target e = Some n" "\<forall>e \<in> set es. target e = Some n" using Cons.prems(3,4) by simp_all
  obtain ch1 g1 where 1: "event_update rules_only e (ch, g) = Inr (ch1, g1)" "ch1 \<noteq> []" "head_to_body g1 = head_to_body g"
    "dep_of rules_only g1 (formulas (snd (base_update R n e L)))" "entries_ok W (snd (base_update R n e L))"
    using graph_event [OF Cons.prems(1,2) t(1) ok(1) eff(1), of ch] by blast
  obtain ch' g' where 2: "for_res (event_update rules_only) es (ch1, g1) = Inr (ch', g')" "ch' \<noteq> []"
    "head_to_body g' = head_to_body g1" "dep_of rules_only g' (formulas (snd (base_updates R n es (snd (base_update R n e L)))))"
    "entries_ok W (snd (base_updates R n es (snd (base_update R n e L))))"
    using Cons.IH [OF 1(4,5) t(2) ok(2) eff(2), of ch1] 1(2) by blast
  then show ?case using 1(1,3) eff(1)
    by (intro exI [of _ ch'] exI [of _ g']) (simp add: split_beta Let_def)
qed simp

lemma group_fold:
  "\<forall>e \<in> set es. target e = t \<Longrightarrow> fold (\<lambda>e d. case map_of d (target e) of
      None \<Rightarrow> AList.update (target e) [e] d | Some xs \<Rightarrow> AList.update (target e) (xs @ [e]) d) es [(t, acc)] = [(t, acc @ es)]"
  by (induction es arbitrary: acc) simp_all

lemma group_one: "evs \<noteq> [] \<Longrightarrow> \<forall>e \<in> set evs. target e = t \<Longrightarrow> group_events_by_target evs = [(t, evs)]"
  by (cases evs) (simp_all add: group_events_by_target_def group_fold)

section \<open>Accepting a batch\<close>

text \<open>The tables that are heads of rules with the modal execute.\<close>

definition execute_tables :: "rule_base \<Rightarrow> string set" where
  "execute_tables L = {t. \<exists>(n, r) \<in> set L. body r \<noteq> [] \<and>
     (\<exists>h \<in> set (heads r). modal (table h) = Some EXECUTE \<and> t = global_tablename (Some n) (table h))}"

lemma execute_tables_exact:
  assumes "dep_of rules_only g (formulas L)" "entries_ok W L"
  shows "set (tables_with_modal EXECUTE g) = execute_tables L"
proof -
  have one: "(EXECUTE, t) \<in># f_modals rules_only (FRule r, Some n) \<longleftrightarrow>
      body r \<noteq> [] \<and> (\<exists>h \<in> set (heads r). modal (table h) = Some EXECUTE \<and> t = global_tablename (Some n) (table h))"
    if "rule_ok_for W n r" for n r t
  proof -
    have r: "length (heads r) = 1" "\<not> negated (rule_head r)" using that by (simp_all add: rule_ok_for_def)
    then obtain h where h: "heads r = [h]" "\<not> negated h" by (cases "heads r") simp_all
    then have "is_atom_like (FRule r) \<longleftrightarrow> body r = []" by (auto simp: is_atom_like_def lit_is_atom_def)
    then show ?thesis using h
      by (auto simp: f_modals_def head_modals_def rules_only_def selected_def EXECUTE_def split: option.splits)
  qed
  have "t \<in> set (tables_with_modal EXECUTE g) \<longleftrightarrow> (\<exists>(n, r) \<in> set L. (EXECUTE, t) \<in># f_modals rules_only (FRule r, Some n))" for t
    unfolding dep_of_modals [OF assms(1)] formulas_def by force
  moreover have "(\<exists>(n, r) \<in> set L. (EXECUTE, t) \<in># f_modals rules_only (FRule r, Some n)) \<longleftrightarrow> t \<in> execute_tables L" for t
    using assms(2) one unfolding entries_ok_def execute_tables_def by fast
  ultimately show ?thesis by blast
qed

lemma no_stale: "set ts \<subseteq> set cur \<Longrightarrow> for_st (\<lambda>t _. remove_stale_trigger cur t) ts () rt = (Inr (), rt)"
  by (induction ts) (simp_all add: sret_def sbind_def remove_stale_trigger_def)

lemma maintain_idle:
  assumes "on_dse rt \<longrightarrow> set (dkeys (execution_triggers rt)) = set (tables_with_modal EXECUTE (rule_graph rt))"
  shows "maintain_triggers rt = (Inr (), rt)"
proof (cases "on_dse rt")
  case True
  let ?cur = "remdups (tables_with_modal EXECUTE (rule_graph rt))"
  have "filter (\<lambda>t. map_of (execution_triggers rt) t = None) ?cur = []"
    using assms True by (auto simp: filter_empty_conv map_of_eq_None_iff)
  moreover have "for_st (\<lambda>t _. remove_stale_trigger ?cur t) (dkeys (execution_triggers rt)) () rt = (Inr (), rt)"
    by (rule no_stale) (use assms True in simp)
  ultimately show ?thesis by (simp add: maintain_triggers_def Let_def sbind_def sret_def)
qed (simp add: maintain_triggers_def)

text \<open>When no trigger is concerned, the batch is applied to the policies and nothing else happens to them.\<close>

lemma accept_quiet:
  assumes run: "accept_events E evs rt = (Inr (Accepted chs), rt')" and evs: "evs \<noteq> []" "\<forall>e \<in> set evs. target e = Some n"
    and quiet: "maintain_triggers rt = (Inr (), rt)" "relevant_triggers (map ChangedBy evs) (rt_registry rt) = Inr []"
    and upd: "map_of (rt_theory rt) n \<noteq> None \<Longrightarrow> update_policy (registry_of (datalog_env E)) n evs (rt_theory rt) = (Inr changes, w')"
  shows "chs = changes \<and> rt_theory rt' = w'"
proof -
  obtain q reg where u: "update_dependencies (rt_registry rt) = (q, reg)" by (cases "update_dependencies (rt_registry rt)")
  have q: "q = Inr ()" using run quiet u by (cases q) (simp_all add: accept_events_def sbind_def lift_res_def on_registry_def)
  let ?rt = "rt\<lparr>rt_registry := reg\<rparr>"
  have wt: "with_triggers E [] act = sbind act sret" for act :: "(runtime, event list) stm"
    by (simp add: with_triggers_def triggers_by_table_def compute_table_contents_def run_triggers_def sbind_def sret_def fun_eq_iff
        split: prod.splits sum.splits)
  obtain c rt2 where a: "apply_events E [(Some n, evs)] evs ?rt = (c, rt2)" by (cases "apply_events E [(Some n, evs)] evs ?rt")
  have c: "c = Inr chs" "rt2 = rt'"
    using run quiet u q a wt by (cases c; simp add: accept_events_def sbind_def lift_res_def on_registry_def sret_def group_one [OF evs])+
  then have known: "map_of (rt_theory rt) n \<noteq> None"
    using a by (cases "map_of (rt_theory rt) n = None") (simp_all add: apply_events_def get_target_def sbind_def)
  then show ?thesis using a c upd [OF known]
    by (auto simp: apply_events_def get_target_def sbind_def sret_def on_theory_def)
qed

text \<open>
  C3. The invariant of the engine. Before: the dependency graph stands for the rules \<open>L\<close> of the policies,
  they are free of recursion, the index of the triggers is exact, and \<open>L\<close> is what the stores and schemas of the
  policies hold. A batch is accepted; its events (without those that the policies ignore, taken one
  by one) are all for one policy \<open>n\<close>, their rules are safe and have heads of that policy, and each event changes the
  rules when its turn comes: nothing is inserted that is there by then, and what is deleted is there. Then the
  graph stands for the changed rules, which are still free of recursion, and the index is exact for them. If
  moreover no trigger depends on a table of the batch and the triggers for executed actions need not change, so
  that no query runs in between, the engine reports exactly these events and the policies hold exactly the changed
  rules. Batches for several policies, and batches that insert a rule twice, break this
  (\<open>batch_hits_every_policy\<close>, \<open>repeated_insertion_stays_in_graph\<close>).
\<close>

theorem accepted_update_keeps_invariant:
  fixes E rt L evs n
  defines "R \<equiv> registry_of (datalog_env E)" and "L2 \<equiv> snd (base_updates (registry_of (datalog_env E)) n evs L)"
  assumes "graph_rep (rt_registry rt) (formulas L)" "acyclic (depends (formulas L))" "index_exact (rt_registry rt)"
    "base_ok R W (rt_theory rt) L"
    "runtime_actual_events events rt = Inr evs" "\<forall>e \<in> set evs. target e = Some n"
    "events_ok R W (shape (rt_theory rt)) n evs L" "fst (base_updates R n evs L) = evs"
    "update_obj_datalog E events rt = (Inr (Accepted chs), rt')"
  shows "graph_rep (rt_registry rt') (formulas L2) \<and> acyclic (depends (formulas L2)) \<and> index_exact (rt_registry rt') \<and>
    (relevant_triggers (map ChangedBy evs) (rt_registry rt) = Inr [] \<and>
     (on_dse rt \<longrightarrow> set (dkeys (execution_triggers rt)) = execute_tables L2) \<longrightarrow>
       chs = evs \<and> base_ok R W (rt_theory rt') L2)"
proof (cases "evs = []")
  case True
  then have "rt' = rt" "chs = []" "L2 = L" using assms(7,11) by (simp_all add: update_obj_datalog_def sbind_def lift_res_def sret_def L2_def)
  with True assms(3-6) show ?thesis by simp
next
  case ne: False
  have L2: "L2 = snd (base_updates R n evs L)" by (simp add: L2_def R_def)
  have ok: "entries_ok W L" using assms(6) by (simp add: entries_ok_def base_ok_def)
  have d: "dep_of rules_only (rule_graph rt) (formulas L)" and h: "head_to_body (rule_graph rt)" using assms(3) by (simp_all add: graph_rep_def)
  obtain ch g where u: "formula_update rules_only evs (rule_graph rt) = Inr (ch, g)" "ch \<noteq> []" "head_to_body g"
    "dep_of rules_only g (formulas L2)" "entries_ok W L2"
    using graph_batch [OF d ok assms(8-10), of "[]"] ne h by (auto simp: formula_update_def L2)
  let ?reg = "\<lambda>g. (rt_registry rt)\<lparr>dep_graph_of := g\<rparr>"
  have rep: "graph_rep (?reg g) (formulas L2)" using u(3,4) rules_ok_formulas by (simp add: graph_rep_def)
  have wf: "graph_wf g" and e: "edge_rel g = depends (formulas L2)" using graph_repD [OF rep] by simp_all
  have a: "acyclic (edge_rel (rule_graph rt))" using graph_repD(2) [OF assms(3)] assms(4) by simp
  obtain b g' where c: "has_cycle g = Inr (b, g')" "same_edges g g'" "\<not> acyclic (edge_rel g) \<longrightarrow> b"
    using cycle_search [OF wf fresher_update [OF u(1)] a] by blast
  let ?rt = "rt\<lparr>rt_registry := ?reg g'\<rparr>"
  obtain errs where errs: "all_update_errors E (group_events_by_target evs) rt = Inr errs"
    using assms(7,11) ne by (cases "all_update_errors E (group_events_by_target evs) rt") (auto simp: update_obj_datalog_def sbind_def lift_res_def)
  have none: "errs = []" using assms(7,11) ne errs by (auto simp: update_obj_datalog_def sbind_def lift_res_def sret_def split: if_splits)
  have "\<not> b \<and> accept_events E evs ?rt = (Inr (Accepted chs), rt')"
    using assms(7,11) ne errs none u(1,2) c(1)
    by (cases b; cases "undo_changes ch g'")
      (auto simp: update_obj_datalog_def update_graph_def sbind_def lift_res_def sret_def on_registry_def reject_recursion_def)
  then have nb: "\<not> b" and run: "accept_events E evs ?rt = (Inr (Accepted chs), rt')" by simp_all
  have rep2: "graph_rep (rt_registry ?rt) (formulas L2)" using graph_rep_same [OF rep] c(2) by simp
  have "chs = evs \<and> base_ok R W (rt_theory rt') L2"
    if q: "relevant_triggers (map ChangedBy evs) (rt_registry rt) = Inr []" "on_dse rt \<longrightarrow> set (dkeys (execution_triggers rt)) = execute_tables L2"
  proof -
    have m: "maintain_triggers ?rt = (Inr (), ?rt)"
      using execute_tables_exact [of g' L2 W] u(5) rep2 q(2) by (intro maintain_idle) (simp add: graph_rep_def)
    have r: "relevant_triggers (map ChangedBy evs) (rt_registry ?rt) = Inr []"
      using q(1) by (simp add: relevant_triggers_def index_of_table_def)
    obtain w' where w': "map_of (rt_theory rt) n \<noteq> None \<Longrightarrow> update_policy R n evs (rt_theory rt) = (Inr evs, w') \<and> base_ok R W w' L2"
      using update_events_ok [OF assms(6) _ assms(9), of "[]"] assms(10) L2 by (auto simp: update_policy_def)
    have known: "map_of (rt_theory rt) n \<noteq> None"
    proof
      assume "map_of (rt_theory rt) n = None"
      then have "all_update_errors E (group_events_by_target evs) rt = Inl PolicyException"
        by (simp add: all_update_errors_def group_one [OF ne assms(8)] get_target_def)
      with errs show False by simp
    qed
    have "chs = evs \<and> rt_theory rt' = w'"
      by (rule accept_quiet [OF run ne assms(8) m r]) (use w' [OF known] in \<open>simp add: R_def\<close>)
    then show ?thesis using w' [OF known] by simp
  qed
  then show ?thesis using accept_registry [OF run rep2] c(3) e nb by auto
qed

text \<open>The rule \<open>p(x) :- q(x, 1), not r(x)\<close> is inserted into a policy without rules.\<close>

theorem accepted_update_keeps_invariant_witness:
  "let rt = snd (update_obj_datalog bare_env [in_a (FRule rule_example)] one_policy) in
   graph_rep (rt_registry rt) (formulas [(''a'', rule_example)]) \<and>
   base_ok (registry_of (datalog_env bare_env)) (\<lambda>_ _. 1) (rt_theory rt) [(''a'', rule_example)]"
proof -
  let ?evs = "[in_a (FRule rule_example)]" and ?R = "registry_of (datalog_env bare_env)" and ?W = "\<lambda>_ _. 1"
  have reg: "rt_registry one_policy = registry_new (dep_empty True)"
    by (simp add: one_policy_def create_policy_def add_policy_obj_to_runtime_def runtime_new_def)
  have g: "graph_rep (rt_registry one_policy) (formulas [])"
    by (simp add: graph_rep_def reg registry_new_def dep_of_empty rules_ok_def)
  have ix: "index_exact (rt_registry one_policy)"
    unfolding reg by (rule index_exact_new) (use graph_repD(1) [OF g] in \<open>simp add: reg registry_new_def\<close>)
  have a: "acyclic (depends (formulas []))" by (simp add: acyclic_def)
  have b: "base_ok ?R ?W (rt_theory one_policy) []"
    by (rule base_ok_new) (simp add: one_policy_def create_policy_def add_policy_obj_to_runtime_def runtime_new_def
        policy_of_class_def nonrecursive_theory_def new_policy_def, blast)
  have ev: "runtime_actual_events ?evs one_policy = Inr ?evs" by code_simp
  have t: "\<forall>e \<in> set ?evs. target e = Some ''a''" by (simp add: in_a_def ins_def)
  have ok: "events_ok ?R ?W (shape (rt_theory one_policy)) ''a'' ?evs []" by code_simp
  have upd: "base_updates ?R ''a'' ?evs [] = (?evs, [(''a'', rule_example)])" by code_simp
  obtain q rt' where r: "update_obj_datalog bare_env ?evs one_policy = (q, rt')" by (metis surj_pair)
  have "fst (update_obj_datalog bare_env ?evs one_policy) = Inr (Accepted ?evs)" by code_simp
  with r have q: "q = Inr (Accepted ?evs)" by simp
  have quiet: "relevant_triggers (map ChangedBy ?evs) (rt_registry one_policy) = Inr []" "\<not> on_dse one_policy" by code_simp+
  from accepted_update_keeps_invariant [OF g a ix b ev t ok _ r [unfolded q]] upd quiet show ?thesis by (simp add: r)
qed

end
