(* ===== verification/Data_Service.thy ===== *)
theory Data_Service
  imports Prelude
begin

text \<open>
  \<open>dse2/data_service.py\<close>: how a service publishes its tables and how a subscriber receives them.

  A publisher numbers the messages of a table and sends the difference to what it published last; a
  subscriber starts from a snapshot with a number and applies the messages in the order of their
  numbers, keeping those that come early in a queue. Rows are of any type; a set of rows is a list.
  The bus may lose, repeat and reorder messages: it is not modelled, the theorems hold for every
  list of messages received.
\<close>

declare map_of_eq_Some_iff [simp del] Some_eq_map_of_iff [simp del]

section \<open>State\<close>

text \<open>The argument \<open>data\<close> with the flag \<open>is_snapshot\<close>: a whole table, or rows to add and rows to delete.\<close>

datatype 'r payload = Full "'r list" | Delta "'r list" "'r list"

fun is_snapshot :: "'r payload \<Rightarrow> bool" where
  "is_snapshot (Full _) = True"
| "is_snapshot (Delta _ _) = False"

record 'r item =
  it_seq :: "nat option"
  it_payload :: "'r payload"
  it_time :: int

type_synonym channel = "string \<times> string"

text \<open>The dictionaries by publisher and table have pairs as keys; \<open>received\<close> is \<open>receive_data_history\<close>.\<close>

record 'r service =
  msg_queues :: "(channel, 'r item list) dict"
  oldest_queue_times :: "(channel, int option) dict"
  receiver_seqnums :: "(channel, nat) dict"
  sender_seqnums :: "(string, nat) dict"
  last_published_data :: "(string, 'r list) dict"
  received :: "(channel \<times> 'r payload) list"
  outbox :: "(string \<times> nat \<times> 'r payload) list"

definition service_new :: "'r service" where
  "service_new = \<lparr>msg_queues = [], oldest_queue_times = [], receiver_seqnums = [], sender_seqnums = [],
     last_published_data = [], received = [], outbox = []\<rparr>"

section \<open>Publishing\<close>

definition increment_get_seqnum :: "string \<Rightarrow> 'r service \<Rightarrow> nat \<times> 'r service" where
  "increment_get_seqnum t st =
     (let n = (case map_of (sender_seqnums st) t of None \<Rightarrow> 0 | Some n \<Rightarrow> n + 1)
      in (n, st\<lparr>sender_seqnums := AList.update t n (sender_seqnums st)\<rparr>))"

definition get_differential :: "string \<Rightarrow> 'r list \<Rightarrow> 'r service \<Rightarrow> 'r list \<times> 'r list" where
  "get_differential t data st =
     (case map_of (last_published_data st) t of
        None \<Rightarrow> (data, [])
      | Some old \<Rightarrow> (set_minus data old, set_minus old data))"

definition publish :: "string \<Rightarrow> 'r list \<Rightarrow> bool \<Rightarrow> 'r service \<Rightarrow> 'r service" where
  "publish t rows use_snapshot st =
     (let data = remdups rows in
      if use_snapshot then
        (let (n, st) = increment_get_seqnum t st in st\<lparr>outbox := outbox st @ [(t, n, Full data)]\<rparr>)
      else
        (let (to_add, to_del) = get_differential t data st;
             st = st\<lparr>last_published_data := AList.update t data (last_published_data st)\<rparr> in
         if to_add = [] \<and> to_del = [] then st
         else (let (n, st) = increment_get_seqnum t st in st\<lparr>outbox := outbox st @ [(t, n, Delta to_add to_del)]\<rparr>)))"

text \<open>The answer to a subscriber; \<open>snapshot\<close> is the value of \<open>get_snapshot\<close>, which the service provides.\<close>

definition get_last_published_data_with_seqnum ::
    "(string \<Rightarrow> 'r list) \<Rightarrow> string \<Rightarrow> 'r service \<Rightarrow> (nat \<times> 'r list) res \<times> 'r service" where
  "get_last_published_data_with_seqnum snapshot t st =
     (case map_of (sender_seqnums st) t of
        None \<Rightarrow> (Inr (0, remdups (snapshot t)),
                 st\<lparr>sender_seqnums := AList.update t 0 (sender_seqnums st),
                    last_published_data := AList.update t (remdups (snapshot t)) (last_published_data st)\<rparr>)
      | Some n \<Rightarrow> (case map_of (last_published_data st) t of
          None \<Rightarrow> (Inl KeyError, st)
        | Some data \<Rightarrow> (Inr (n, data), st)))"

section \<open>Receiving\<close>

definition queue_of :: "'r service \<Rightarrow> channel \<Rightarrow> 'r item list" where
  "queue_of st ch = (case map_of (msg_queues st) ch of None \<Rightarrow> [] | Some q \<Rightarrow> q)"

definition clear_msg_queue :: "channel \<Rightarrow> 'r service \<Rightarrow> 'r service" where
  "clear_msg_queue ch st =
     st\<lparr>msg_queues := AList.delete ch (msg_queues st), oldest_queue_times := AList.delete ch (oldest_queue_times st)\<rparr>"

definition clear_receiver_seqnum :: "channel \<Rightarrow> 'r service \<Rightarrow> 'r service" where
  "clear_receiver_seqnum ch st = st\<lparr>receiver_seqnums := AList.delete ch (receiver_seqnums st)\<rparr>"

definition set_seqnum :: "channel \<Rightarrow> nat \<Rightarrow> 'r service \<Rightarrow> 'r service" where
  "set_seqnum ch n st = st\<lparr>receiver_seqnums := AList.update ch n (receiver_seqnums st)\<rparr>"

text \<open>The time is kept for the first message of a queue only.\<close>

definition add_to_msg_queue :: "channel \<Rightarrow> 'r item \<Rightarrow> 'r service \<Rightarrow> 'r service" where
  "add_to_msg_queue ch m st =
     (case map_of (msg_queues st) ch of
        None \<Rightarrow> st\<lparr>msg_queues := AList.update ch [m] (msg_queues st),
                   oldest_queue_times := AList.update ch (Some (it_time m)) (oldest_queue_times st)\<rparr>
      | Some q \<Rightarrow> st\<lparr>msg_queues := AList.update ch (q @ [m]) (msg_queues st)\<rparr>)"

text \<open>
  The priority queue gives back a message with the least number, a difference before a snapshot. Messages that
  agree in both are compared by their rows and the time they came; they are repetitions of the same
  message, and which of them is first makes no difference to the rows.
\<close>

definition item_lt :: "'r item \<Rightarrow> 'r item \<Rightarrow> bool" where
  "item_lt a b = (the (it_seq a) < the (it_seq b) \<or>
     the (it_seq a) = the (it_seq b) \<and> \<not> is_snapshot (it_payload a) \<and> is_snapshot (it_payload b))"

definition next_item :: "'r item list \<Rightarrow> 'r item" where
  "next_item q = hd (sorted_by item_lt q)"

definition receive_data :: "channel \<Rightarrow> 'r payload \<Rightarrow> 'r service \<Rightarrow> 'r service" where
  "receive_data ch p st = st\<lparr>received := received st @ [(ch, p)]\<rparr>"

text \<open>Taking a message out sets the time to that of the next one.\<close>

definition take_item :: "channel \<Rightarrow> 'r service \<Rightarrow> 'r service" where
  "take_item ch st =
     (let q = remove1 (next_item (queue_of st ch)) (queue_of st ch)
      in st\<lparr>msg_queues := AList.update ch q (msg_queues st),
            oldest_queue_times := AList.update ch (if q = [] then None else Some (it_time (next_item q))) (oldest_queue_times st)\<rparr>)"

lemma next_item_in: "q \<noteq> [] \<Longrightarrow> next_item q \<in> set q"
  unfolding next_item_def by (metis list.set_sel(1) set_empty set_sorted_by)

lemma queue_take [simp]: "queue_of (take_item ch st) ch = remove1 (next_item (queue_of st ch)) (queue_of st ch)"
  by (simp add: take_item_def queue_of_def Let_def)

lemma queue_frame [simp]:
  "queue_of (set_seqnum ch n st) ch' = queue_of st ch'" "queue_of (receive_data ch p st) ch' = queue_of st ch'"
  by (simp_all add: queue_of_def set_seqnum_def receive_data_def)

lemma take_shorter: "queue_of st ch \<noteq> [] \<Longrightarrow> length (queue_of (take_item ch st) ch) < length (queue_of st ch)"
  by (simp add: length_remove1 next_item_in)

text \<open>\<open>process_queued_msg\<close> is the argument of the recursion; each call has one message less in the queue.\<close>

function receive_data_sequenced :: "channel \<Rightarrow> 'r item \<Rightarrow> 'r service \<Rightarrow> 'r service" where
  "receive_data_sequenced ch m st =
     (case it_seq m of
        None \<Rightarrow> receive_data ch (it_payload m) st
      | Some n \<Rightarrow>
          (case map_of (receiver_seqnums st) ch of
             None \<Rightarrow>
               if is_snapshot (it_payload m) then
                 (let st = receive_data ch (it_payload m) (set_seqnum ch n st)
                  in if queue_of st ch = [] then st
                     else receive_data_sequenced ch (next_item (queue_of st ch)) (take_item ch st))
               else add_to_msg_queue ch m st
           | Some r \<Rightarrow>
               if n = 0 then receive_data ch (it_payload m) (clear_msg_queue ch (set_seqnum ch n st))
               else if n \<le> r then
                 (if queue_of st ch = [] then st
                  else receive_data_sequenced ch (next_item (queue_of st ch)) (take_item ch st))
               else if n = r + 1 then
                 (let st = receive_data ch (it_payload m) (set_seqnum ch n st)
                  in if queue_of st ch = [] then st
                     else receive_data_sequenced ch (next_item (queue_of st ch)) (take_item ch st))
               else add_to_msg_queue ch m st))"
  by pat_completeness auto

termination
  by (relation "measure (\<lambda>(ch, m, st). length (queue_of st ch))")
    (use take_shorter in \<open>auto simp: length_remove1 next_item_in\<close>)

declare receive_data_sequenced.simps [simp del]

text \<open>A message from the bus has no receipt time yet.\<close>

definition handle_message :: "int \<Rightarrow> channel \<Rightarrow> nat option \<Rightarrow> 'r payload \<Rightarrow> 'r service \<Rightarrow> 'r service" where
  "handle_message now ch n p = receive_data_sequenced ch \<lparr>it_seq = n, it_payload = p, it_time = now\<rparr>"

section \<open>Subscriptions\<close>

text \<open>\<open>answer\<close>: what the publisher returns, or \<open>None\<close> when it does not respond.\<close>

definition subscribe :: "int \<Rightarrow> (channel \<Rightarrow> (nat \<times> 'r list) option) \<Rightarrow> channel \<Rightarrow> 'r service \<Rightarrow> 'r service" where
  "subscribe now answer ch st =
     (case answer ch of None \<Rightarrow> st | Some (n, data) \<Rightarrow> handle_message now ch (Some n) (Full data) st)"

definition unsubscribe :: "channel \<Rightarrow> 'r service \<Rightarrow> 'r service" where
  "unsubscribe ch st = clear_receiver_seqnum ch (clear_msg_queue ch st)"

definition check_resub :: "int \<Rightarrow> int \<Rightarrow> (channel \<Rightarrow> (nat \<times> 'r list) option) \<Rightarrow> channel \<Rightarrow> 'r service \<Rightarrow> 'r service" where
  "check_resub time_to_resub now answer ch st =
     (case map_of (oldest_queue_times st) ch of
        Some (Some t) \<Rightarrow> if now - t > time_to_resub then subscribe now answer ch (unsubscribe ch st) else st
      | _ \<Rightarrow> st)"

definition check_resub_all :: "int \<Rightarrow> int \<Rightarrow> (channel \<Rightarrow> (nat \<times> 'r list) option) \<Rightarrow> 'r service \<Rightarrow> 'r service" where
  "check_resub_all time_to_resub now answer st =
     fold (check_resub time_to_resub now answer) (dkeys (oldest_queue_times st)) st"

end
