(* ===== verification/Data_Service_Correct.thy ===== *)
theory Data_Service_Correct
  imports Data_Service
begin

text \<open>
  What the numbering of messages achieves: the rows that a subscriber has are those the publisher
  had when it sent the last message that was processed, and that message is as late as the
  messages received allow. The last section has the runs in which this fails.
\<close>

declare map_of_eq_Some_iff [simp del] Some_eq_map_of_iff [simp del]

section \<open>What a subscriber has\<close>

fun apply_payload :: "'r payload \<Rightarrow> 'r set \<Rightarrow> 'r set" where
  "apply_payload (Full xs) V = set xs"
| "apply_payload (Delta to_add to_del) V = (V - set to_del) \<union> set to_add"

definition view :: "channel \<Rightarrow> 'r service \<Rightarrow> 'r set" where
  "view ch st = fold (\<lambda>(c, p) V. if c = ch then apply_payload p V else V) (received st) {}"

abbreviation seqnum :: "channel \<Rightarrow> 'r service \<Rightarrow> nat option" where
  "seqnum ch st \<equiv> map_of (receiver_seqnums st) ch"

lemma view_receive [simp]: "view ch (receive_data ch p st) = apply_payload p (view ch st)"
  by (simp add: view_def receive_data_def)

lemma view_frame [simp]:
  "view ch (set_seqnum c n st) = view ch st" "view ch (take_item c st) = view ch st"
  "view ch (add_to_msg_queue c m st) = view ch st" "view ch (clear_msg_queue c st) = view ch st"
  by (simp_all add: view_def set_seqnum_def take_item_def add_to_msg_queue_def clear_msg_queue_def Let_def split: option.splits)

lemma seqnum_frame [simp]:
  "seqnum ch (set_seqnum ch n st) = Some n" "seqnum ch (take_item c st) = seqnum ch st" "seqnum ch (receive_data c p st) = seqnum ch st"
  "seqnum ch (add_to_msg_queue c m st) = seqnum ch st" "seqnum ch (clear_msg_queue c st) = seqnum ch st"
  by (simp_all add: set_seqnum_def take_item_def receive_data_def add_to_msg_queue_def clear_msg_queue_def Let_def split: option.splits)

lemma queue_add [simp]: "queue_of (add_to_msg_queue ch m st) ch = queue_of st ch @ [m]"
  by (simp add: queue_of_def add_to_msg_queue_def split: option.splits)

lemma queue_clear [simp]: "queue_of (clear_msg_queue ch st) ch = []"
  by (simp add: queue_of_def clear_msg_queue_def)

text \<open>A message of a publisher whose table held \<open>D n\<close> when it sent the message number \<open>n\<close>.\<close>

definition message_of :: "(nat \<Rightarrow> 'r set) \<Rightarrow> 'r item \<Rightarrow> bool" where
  "message_of D m = (\<exists>n. it_seq m = Some n \<and>
     (case it_payload m of Full xs \<Rightarrow> set xs = D n
      | Delta to_add to_del \<Rightarrow> n > 0 \<and> D n = (D (n - 1) - set to_del) \<union> set to_add))"

definition in_step :: "(nat \<Rightarrow> 'r set) \<Rightarrow> channel \<Rightarrow> 'r service \<Rightarrow> bool" where
  "in_step D ch st = ((\<forall>m \<in> set (queue_of st ch). message_of D m) \<and> (\<forall>r. seqnum ch st = Some r \<longrightarrow> view ch st = D r))"

lemma in_step_process:
  assumes "\<And>st'. queue_of st ch \<noteq> [] \<Longrightarrow> message_of D (next_item (queue_of st ch)) \<Longrightarrow> in_step D ch (take_item ch st) \<Longrightarrow> in_step D ch (f st)"
    and "in_step D ch st"
  shows "in_step D ch (if queue_of st ch = [] then st else f st)"
proof (cases "queue_of st ch = []")
  case False
  have "message_of D (next_item (queue_of st ch))" using assms(2) next_item_in [OF False] by (simp add: in_step_def)
  moreover have "in_step D ch (take_item ch st)" using assms(2) set_remove1_subset by (fastforce simp: in_step_def)
  ultimately show ?thesis using assms(1) False by simp
qed (use assms(2) in simp)

lemma receive_in_step:
  "in_step D ch st \<Longrightarrow> message_of D m \<Longrightarrow> in_step D ch (receive_data_sequenced ch m st)"
proof (induction ch m st rule: receive_data_sequenced.induct)
  case (1 ch m st)
  obtain n where n: "it_seq m = Some n" using "1.prems"(2) by (auto simp: message_of_def)
  have applied: "in_step D ch (receive_data ch (it_payload m) (set_seqnum ch n st))"
    if "is_snapshot (it_payload m) \<or> (\<exists>r. seqnum ch st = Some r \<and> n = r + 1)"
    using that "1.prems" n by (cases "it_payload m") (auto simp: in_step_def message_of_def)
  show ?case
  proof (cases "seqnum ch st")
    case None
    show ?thesis
    proof (cases "is_snapshot (it_payload m)")
      case True
      let ?st = "receive_data ch (it_payload m) (set_seqnum ch n st)"
      have "in_step D ch (if queue_of ?st ch = [] then ?st else receive_data_sequenced ch (next_item (queue_of ?st ch)) (take_item ch ?st))"
        by (rule in_step_process) (use "1.IH"(1) [OF n None True refl] applied True in blast)+
      then show ?thesis using n None True by (simp add: receive_data_sequenced.simps [of ch m st] Let_def)
    next
      case False
      then show ?thesis using n None "1.prems" by (simp add: receive_data_sequenced.simps [of ch m st] in_step_def)
    qed
  next
    case (Some r)
    consider (zero) "n = 0" | (old) "n \<noteq> 0" "n \<le> r" | (nxt) "n \<noteq> 0" "\<not> n \<le> r" "n = r + 1" | (future) "n \<noteq> 0" "\<not> n \<le> r" "n \<noteq> r + 1" by blast
    then show ?thesis
    proof cases
      case zero
      then show ?thesis using n Some "1.prems"(2)
        by (cases "it_payload m") (simp_all add: receive_data_sequenced.simps [of ch m st] in_step_def message_of_def)
    next
      case old
      have "in_step D ch (if queue_of st ch = [] then st else receive_data_sequenced ch (next_item (queue_of st ch)) (take_item ch st))"
        by (rule in_step_process) (use "1.IH"(2) [OF n Some old] "1.prems" in blast)+
      then show ?thesis using n Some old by (simp add: receive_data_sequenced.simps [of ch m st])
    next
      case nxt
      let ?st = "receive_data ch (it_payload m) (set_seqnum ch n st)"
      have "in_step D ch (if queue_of ?st ch = [] then ?st else receive_data_sequenced ch (next_item (queue_of ?st ch)) (take_item ch ?st))"
        by (rule in_step_process) (use "1.IH"(3) [OF n Some nxt refl] applied Some nxt in blast)+
      moreover have "receive_data_sequenced ch m st =
          (if queue_of ?st ch = [] then ?st else receive_data_sequenced ch (next_item (queue_of ?st ch)) (take_item ch ?st))"
        using n Some nxt by (simp add: receive_data_sequenced.simps [of ch m st] Let_def)
      ultimately show ?thesis by simp
    next
      case future
      then show ?thesis using n Some "1.prems" by (simp add: receive_data_sequenced.simps [of ch m st] in_step_def)
    qed
  qed
qed

section \<open>How far a subscriber gets\<close>

definition seqs :: "'r item list \<Rightarrow> nat set" where
  "seqs ms = {n. Some n \<in> it_seq ` set ms}"

lemma seqs_simps [simp]:
  "seqs [] = {}" "seqs (ms @ ms') = seqs ms \<union> seqs ms'"
  "seqs (m # ms) = (case it_seq m of None \<Rightarrow> seqs ms | Some n \<Rightarrow> insert n (seqs ms))"
  by (auto simp: seqs_def split: option.splits)

definition numbered :: "'r item list \<Rightarrow> bool" where
  "numbered ms = (\<forall>m \<in> set ms. \<exists>n > 0. it_seq m = Some n)"

lemma numbered_simps [simp]:
  "numbered []" "numbered (ms @ ms') = (numbered ms \<and> numbered ms')" "numbered (m # ms) = ((\<exists>n > 0. it_seq m = Some n) \<and> numbered ms)"
  by (auto simp: numbered_def)

lemma seqs_remove: "m \<in> set q \<Longrightarrow> it_seq m = Some n \<Longrightarrow> insert n (seqs (remove1 m q)) = seqs q"
proof -
  assume m: "m \<in> set q" and n: "it_seq m = Some n"
  have "insert m (set (remove1 m q)) = set q" using m by (induction q) auto
  then have "it_seq ` set q = insert (Some n) (it_seq ` set (remove1 m q))" using n by (metis image_insert)
  then show ?thesis unfolding seqs_def by auto
qed

lemma numbered_remove: "numbered q \<Longrightarrow> numbered (remove1 m q)"
  using set_remove1_subset [of m q] unfolding numbered_def by blast

lemma hd_insort_least:
  "(\<And>y. y \<in> set ys \<Longrightarrow> f (hd ys) \<le> (f y :: nat)) \<Longrightarrow> (\<And>a b. lt a b \<Longrightarrow> f a \<le> f b) \<Longrightarrow> (\<And>a b. \<not> lt a b \<Longrightarrow> f b \<le> f a) \<Longrightarrow>
   y \<in> set (insort_by lt x ys) \<Longrightarrow> f (hd (insort_by lt x ys)) \<le> f y"
proof (cases ys)
  case (Cons a zs)
  assume least: "\<And>y. y \<in> set ys \<Longrightarrow> f (hd ys) \<le> f y" and lt: "\<And>a b. lt a b \<Longrightarrow> f a \<le> f b" "\<And>a b. \<not> lt a b \<Longrightarrow> f b \<le> f a"
    and y: "y \<in> set (insort_by lt x ys)"
  have "set (insort_by lt x zs) = insert x (set zs)" by (metis mset_insort_by set_mset_add_mset_insert set_mset_mset)
  then have "y = x \<or> y \<in> set ys" using y Cons by (auto split: if_splits)
  then show ?thesis
  proof (cases "lt a x")
    case True
    with lt(1) least \<open>y = x \<or> y \<in> set ys\<close> Cons show ?thesis by auto
  next
    case False
    with lt(2) [OF False] least [of y] \<open>y = x \<or> y \<in> set ys\<close> Cons show ?thesis by (auto intro: order_trans)
  qed
qed simp

lemma hd_sorted_least:
  assumes "\<And>a b. lt a b \<Longrightarrow> f a \<le> (f b :: nat)" "\<And>a b. \<not> lt a b \<Longrightarrow> f b \<le> f a"
  shows "y \<in> set (sorted_by lt xs) \<Longrightarrow> f (hd (sorted_by lt xs)) \<le> f y"
proof (induction xs arbitrary: y)
  case (Cons x xs)
  show ?case using hd_insort_least [of "sorted_by lt xs" f lt y x] Cons assms by auto
qed simp

lemma next_item_least:
  assumes "numbered q" "q \<noteq> []"
  shows "\<exists>n > 0. it_seq (next_item q) = Some n \<and> (\<forall>k \<in> seqs q. n \<le> k)"
proof -
  obtain n where n: "n > 0" "it_seq (next_item q) = Some n" using assms next_item_in [OF assms(2)] by (auto simp: numbered_def)
  have least: "the (it_seq (hd (sorted_by item_lt q))) \<le> the (it_seq y)" if "y \<in> set q" for y
    by (rule hd_sorted_least) (use that in \<open>auto simp: item_lt_def\<close>)
  have "n \<le> k" if "k \<in> seqs q" for k
  proof -
    have "Some k \<in> it_seq ` set q" using that by (simp add: seqs_def)
    then obtain y where "y \<in> set q" "it_seq y = Some k" by (metis imageE)
    with least [of y] n(2) show ?thesis by (simp add: next_item_def)
  qed
  with n show ?thesis by blast
qed

text \<open>
  The state after a message: everything up to some number \<open>r'\<close> has been processed, and what is in
  the queue is beyond the next one.
\<close>

definition settled :: "channel \<Rightarrow> nat \<Rightarrow> nat set \<Rightarrow> 'r service \<Rightarrow> bool" where
  "settled ch r S st = (\<exists>r'. seqnum ch st = Some r' \<and> r \<le> r' \<and> {r<..r'} \<subseteq> S \<and> numbered (queue_of st ch) \<and>
     seqs (queue_of st ch) = {k \<in> S. r' < k} \<and> r' + 1 \<notin> S)"

lemma settled_process:
  assumes "seqnum ch st = Some r" "numbered (queue_of st ch)"
    and "\<And>n. queue_of st ch \<noteq> [] \<Longrightarrow> it_seq (next_item (queue_of st ch)) = Some n \<Longrightarrow> n > 0 \<Longrightarrow>
      \<forall>k \<in> seqs (queue_of (take_item ch st) ch). n \<le> k \<Longrightarrow> numbered (queue_of (take_item ch st) ch) \<Longrightarrow>
      settled ch r (insert n (seqs (queue_of (take_item ch st) ch))) (f st)"
  shows "settled ch r (seqs (queue_of st ch)) (if queue_of st ch = [] then st else f st)"
proof (cases "queue_of st ch = []")
  case True
  then show ?thesis using assms(1) by (auto simp: settled_def)
next
  case False
  obtain n where n: "n > 0" "it_seq (next_item (queue_of st ch)) = Some n" "\<forall>k \<in> seqs (queue_of st ch). n \<le> k"
    using next_item_least [OF assms(2) False] by blast
  have s: "insert n (seqs (queue_of (take_item ch st) ch)) = seqs (queue_of st ch)"
    using seqs_remove [OF next_item_in [OF False] n(2)] by simp
  with n(3) have "\<forall>k \<in> seqs (queue_of (take_item ch st) ch). n \<le> k" by blast
  with assms(3) [OF False n(2,1)] numbered_remove [OF assms(2)] s False show ?thesis by simp
qed
lemma settled_old: "n \<le> r \<Longrightarrow> settled ch r S st \<Longrightarrow> settled ch r (insert n S) st"
  by (auto simp: settled_def)

lemma settled_next: "settled ch (Suc r) S st \<Longrightarrow> settled ch r (insert (Suc r) S) st"
  unfolding settled_def by (elim exE conjE, rule exI, intro conjI) (auto simp: subset_iff Suc_le_eq)

lemma receive_settled:
  "seqnum ch st = Some r \<Longrightarrow> it_seq m = Some n \<Longrightarrow> n > 0 \<Longrightarrow> numbered (queue_of st ch) \<Longrightarrow>
   (\<forall>k \<in> seqs (queue_of st ch). r + 1 < k) \<or> (\<forall>k \<in> seqs (queue_of st ch). n \<le> k) \<Longrightarrow>
   settled ch r (insert n (seqs (queue_of st ch))) (receive_data_sequenced ch m st)"
proof (induction ch m st arbitrary: r n rule: receive_data_sequenced.induct)
  case (1 ch m st)
  note Some = "1.prems"(1) and n = "1.prems"(2) and pos = "1.prems"(3) and num = "1.prems"(4)
  have nz: "n \<noteq> 0" using pos by simp
  consider (old) "n \<le> r" | (nxt) "\<not> n \<le> r" "n = r + 1" | (future) "\<not> n \<le> r" "n \<noteq> r + 1" by blast
  then show ?case
  proof cases
    case old
    let ?f = "\<lambda>st. receive_data_sequenced ch (next_item (queue_of st ch)) (take_item ch st)"
    have "settled ch r (seqs (queue_of st ch)) (if queue_of st ch = [] then st else ?f st)"
    proof (rule settled_process [OF Some num])
      fix k assume ne: "queue_of st ch \<noteq> []" and k: "it_seq (next_item (queue_of st ch)) = Some k" "0 < k"
        "\<forall>j \<in> seqs (queue_of (take_item ch st) ch). k \<le> j" "numbered (queue_of (take_item ch st) ch)"
      show "settled ch r (insert k (seqs (queue_of (take_item ch st) ch))) (?f st)"
        by (rule "1.IH"(2) [OF n Some nz old ne]) (use Some k in auto)
    qed
    from settled_old [OF old this] n Some nz old show ?thesis by (simp add: receive_data_sequenced.simps [of ch m st])
  next
    case nxt
    let ?st = "receive_data ch (it_payload m) (set_seqnum ch n st)"
    let ?f = "\<lambda>st. receive_data_sequenced ch (next_item (queue_of st ch)) (take_item ch st)"
    have st: "seqnum ch ?st = Some (Suc r)" "numbered (queue_of ?st ch)" using nxt num by simp_all
    have "settled ch (Suc r) (seqs (queue_of ?st ch)) (if queue_of ?st ch = [] then ?st else ?f ?st)"
    proof (rule settled_process [OF st])
      fix k assume ne: "queue_of ?st ch \<noteq> []" and k: "it_seq (next_item (queue_of ?st ch)) = Some k" "0 < k"
        "\<forall>j \<in> seqs (queue_of (take_item ch ?st) ch). k \<le> j" "numbered (queue_of (take_item ch ?st) ch)"
      show "settled ch (Suc r) (insert k (seqs (queue_of (take_item ch ?st) ch))) (?f ?st)"
        by (rule "1.IH"(3) [OF n Some nz nxt refl ne]) (use st k in auto)
    qed
    from settled_next [OF this] have "settled ch r (insert n (seqs (queue_of st ch))) (if queue_of ?st ch = [] then ?st else ?f ?st)"
      using nxt by simp
    moreover have "receive_data_sequenced ch m st = (if queue_of ?st ch = [] then ?st else ?f ?st)"
      using n Some nz nxt by (simp add: receive_data_sequenced.simps [of ch m st] Let_def)
    ultimately show ?thesis by simp
  next
    case future
    have far: "\<forall>k \<in> seqs (queue_of st ch). r + 1 < k" using "1.prems"(5) future by fastforce
    then have "r + 1 \<notin> insert n (seqs (queue_of st ch))" "{k \<in> insert n (seqs (queue_of st ch)). r < k} = insert n (seqs (queue_of st ch))"
      using future by fastforce+
    moreover have "receive_data_sequenced ch m st = add_to_msg_queue ch m st"
      using n Some nz future by (simp add: receive_data_sequenced.simps [of ch m st])
    ultimately show ?thesis using Some n num pos unfolding settled_def by (intro exI [of _ r]) simp
  qed
qed

text \<open>Messages before the snapshot are queued; the snapshot and the messages after it settle.\<close>

lemma receive_before:
  "seqnum ch st = None \<Longrightarrow> \<forall>m \<in> set ms. (\<exists>n. it_seq m = Some n) \<and> \<not> is_snapshot (it_payload m) \<Longrightarrow>
   seqnum ch (fold (receive_data_sequenced ch) ms st) = None \<and>
   queue_of (fold (receive_data_sequenced ch) ms st) ch = queue_of st ch @ ms"
proof (induction ms arbitrary: st)
  case (Cons m ms)
  then obtain n where "it_seq m = Some n" "\<not> is_snapshot (it_payload m)" by auto
  with Cons.prems(1) have r: "receive_data_sequenced ch m st = add_to_msg_queue ch m st"
    by (simp add: receive_data_sequenced.simps [of ch m st])
  have "seqnum ch (add_to_msg_queue ch m st) = None" using Cons.prems(1) by simp
  from Cons.IH [OF this] Cons.prems(2) show ?case by (simp add: r)
qed simp

lemma receive_snapshot:
  assumes "seqnum ch st = None" "it_seq s = Some n" "is_snapshot (it_payload s)" "numbered (queue_of st ch)"
  shows "settled ch n (seqs (queue_of st ch)) (receive_data_sequenced ch s st)"
proof -
  let ?st = "receive_data ch (it_payload s) (set_seqnum ch n st)"
  let ?f = "\<lambda>st. receive_data_sequenced ch (next_item (queue_of st ch)) (take_item ch st)"
  have st: "seqnum ch ?st = Some n" "numbered (queue_of ?st ch)" using assms(4) by simp_all
  have "settled ch n (seqs (queue_of ?st ch)) (if queue_of ?st ch = [] then ?st else ?f ?st)"
  proof (rule settled_process [OF st])
    fix k assume k: "it_seq (next_item (queue_of ?st ch)) = Some k" "0 < k"
      "\<forall>j \<in> seqs (queue_of (take_item ch ?st) ch). k \<le> j" "numbered (queue_of (take_item ch ?st) ch)"
    show "settled ch n (insert k (seqs (queue_of (take_item ch ?st) ch))) (?f ?st)"
      by (rule receive_settled) (use st k in auto)
  qed
  moreover have "receive_data_sequenced ch s st = (if queue_of ?st ch = [] then ?st else ?f ?st)"
    using assms(1-3) by (simp add: receive_data_sequenced.simps [of ch s st] Let_def)
  ultimately show ?thesis by simp
qed

lemma receive_after:
  "settled ch r S st \<Longrightarrow> numbered ms \<Longrightarrow> settled ch r (S \<union> seqs ms) (fold (receive_data_sequenced ch) ms st)"
proof (induction ms arbitrary: S st)
  case (Cons m ms)
  obtain n where n: "it_seq m = Some n" "n > 0" using Cons.prems(2) by auto
  obtain r1 where r1: "seqnum ch st = Some r1" "r \<le> r1" "{r<..r1} \<subseteq> S" "numbered (queue_of st ch)"
    "seqs (queue_of st ch) = {k \<in> S. r1 < k}" "r1 + 1 \<notin> S" using Cons.prems(1) by (auto simp: settled_def)
  have "\<forall>k \<in> seqs (queue_of st ch). r1 + 1 < k" 
  proof
    fix k assume "k \<in> seqs (queue_of st ch)"
    then have "k \<in> S" "r1 < k" unfolding r1(5) by simp_all
    moreover from this r1(6) have "k \<noteq> r1 + 1" by metis
    ultimately show "r1 + 1 < k" by linarith
  qed
  then have "settled ch r1 (insert n (seqs (queue_of st ch))) (receive_data_sequenced ch m st)"
    using receive_settled [OF r1(1) n r1(4)] by blast
  then obtain r2 where r2: "seqnum ch (receive_data_sequenced ch m st) = Some r2" "r1 \<le> r2"
    "{r1<..r2} \<subseteq> insert n (seqs (queue_of st ch))" "numbered (queue_of (receive_data_sequenced ch m st) ch)"
    "seqs (queue_of (receive_data_sequenced ch m st) ch) = {k \<in> insert n (seqs (queue_of st ch)). r2 < k}"
    "r2 + 1 \<notin> insert n (seqs (queue_of st ch))" by (auto simp: settled_def)
  have "settled ch r (insert n S) (receive_data_sequenced ch m st)"
    unfolding settled_def
  proof (intro exI conjI)
    show "{r<..r2} \<subseteq> insert n S"
    proof
      fix k assume k: "k \<in> {r<..r2}"
      show "k \<in> insert n S"
      proof (cases "k \<le> r1")
        case True with k r1(3) show ?thesis by auto
      next
        case False
        with k have "k \<in> {r1<..r2}" by auto
        with r2(3) have "k \<in> insert n (seqs (queue_of st ch))" by blast
        with r1(5) show ?thesis by auto
      qed
    qed
    show "seqs (queue_of (receive_data_sequenced ch m st) ch) = {k \<in> insert n S. r2 < k}" unfolding r2(5) r1(5) using r2(2) by auto
    show "r2 + 1 \<notin> insert n S" using r2(2,6) unfolding r1(5) by auto
  qed (use r1(2) r2(1,2,4) in auto)
  from Cons.IH [OF this] Cons.prems(2) n show ?case by simp
qed simp

section \<open>A subscriber and a publisher\<close>

lemma in_step_fold:
  "in_step D ch st \<Longrightarrow> \<forall>m \<in> set ms. message_of D m \<Longrightarrow> in_step D ch (fold (receive_data_sequenced ch) ms st)"
  by (induction ms arbitrary: st) (simp_all add: receive_in_step)

lemma message_numbered: "\<forall>m \<in> set ms. message_of D m \<and> \<not> is_snapshot (it_payload m) \<Longrightarrow> numbered ms"
proof -
  have "\<exists>n > 0. it_seq m = Some n" if "message_of D m \<and> \<not> is_snapshot (it_payload m)" for m
    using that by (cases "it_payload m") (auto simp: message_of_def)
  then show "\<forall>m \<in> set ms. message_of D m \<and> \<not> is_snapshot (it_payload m) \<Longrightarrow> numbered ms" unfolding numbered_def by blast
qed

lemma subscriber_lemma:
  assumes "\<forall>m \<in> set (before @ after). message_of D m \<and> \<not> is_snapshot (it_payload m)"
    "message_of D s" "is_snapshot (it_payload s)" "it_seq s = Some n"
    "map_of (receiver_seqnums st) ch = None" "queue_of st ch = []"
  shows "\<exists>r \<ge> n. map_of (receiver_seqnums (fold (receive_data_sequenced ch) (before @ s # after) st)) ch = Some r \<and>
    view ch (fold (receive_data_sequenced ch) (before @ s # after) st) = D r \<and>
    (\<forall>k. n < k \<and> k \<le> r \<longrightarrow> (\<exists>m \<in> set (before @ after). it_seq m = Some k)) \<and>
    (\<forall>m \<in> set (before @ after). it_seq m \<noteq> Some (r + 1))"
proof -
  let ?st1 = "fold (receive_data_sequenced ch) before st"
  let ?st3 = "fold (receive_data_sequenced ch) (before @ s # after) st"
  have num: "numbered before" "numbered after" using message_numbered assms(1) by (metis Un_iff set_append)+
  have "\<forall>m \<in> set before. (\<exists>n. it_seq m = Some n) \<and> \<not> is_snapshot (it_payload m)"
    using assms(1) by (auto simp: message_of_def)
  then have 1: "seqnum ch ?st1 = None" "queue_of ?st1 ch = before"
    using receive_before [OF assms(5), of before] assms(6) by simp_all
  have "settled ch n (seqs before) (receive_data_sequenced ch s ?st1)"
    using receive_snapshot [OF 1(1) assms(4,3)] 1(2) num(1) by simp
  from receive_after [OF this num(2)] have "settled ch n (seqs (before @ after)) ?st3" by simp
  then obtain r where r: "seqnum ch ?st3 = Some r" "n \<le> r" "{n<..r} \<subseteq> seqs (before @ after)" "r + 1 \<notin> seqs (before @ after)"
    unfolding settled_def by blast
  have "in_step D ch st" using assms(5,6) by (simp add: in_step_def)
  then have "in_step D ch ?st3" by (rule in_step_fold) (use assms(1,2) in auto)
  with r(1) have v: "view ch ?st3 = D r" by (simp add: in_step_def)
  have mem: "k \<in> seqs (before @ after) \<longleftrightarrow> (\<exists>m \<in> set (before @ after). it_seq m = Some k)" for k
    unfolding seqs_def mem_Collect_eq image_iff by metis
  show ?thesis
  proof (intro exI [of _ r] conjI allI impI ballI)
    fix k assume "n < k \<and> k \<le> r"
    then have "k \<in> seqs (before @ after)" using r(3) by auto
    then show "\<exists>m \<in> set (before @ after). it_seq m = Some k" unfolding mem .
  next
    fix m assume "m \<in> set (before @ after)"
    then show "it_seq m \<noteq> Some (r + 1)" using r(4) unfolding mem by blast
  qed (use r v in simp_all)
qed

text \<open>
  What the number of a message promises: a snapshot numbered \<open>n\<close> has the rows at \<open>n\<close>, a
  difference numbered \<open>n + 1\<close> leads from the rows at \<open>n\<close> to those at \<open>n + 1\<close>. A difference
  numbered 0 promises nothing: there are no rows before it.
\<close>

definition sent_as :: "(nat \<Rightarrow> 'r set) \<Rightarrow> 'r item \<Rightarrow> bool" where
  "sent_as D m = (\<exists>n. it_seq m = Some n \<and>
     (case it_payload m of
        Full xs \<Rightarrow> set xs = D n
      | Delta to_add to_del \<Rightarrow> \<forall>k. n = Suc k \<longrightarrow> (D k - set to_del) \<union> set to_add = D n))"

lemma sent_message: "sent_as D m \<Longrightarrow> is_snapshot (it_payload m) \<or> it_seq m \<noteq> Some 0 \<Longrightarrow> message_of D m"
  by (cases "it_payload m") (auto simp: sent_as_def message_of_def gr0_conv_Suc)

text \<open>
  C5. The bus may lose, repeat and reorder the messages of a table. A subscriber that receives one
  snapshot, with the number \<open>n\<close>, and any list of differences numbered from 1 on around it has, afterwards, exactly the rows
  that the publisher had when it sent some message \<open>r\<close>; all messages after \<open>n\<close> up to \<open>r\<close> were
  received, and the next one was not. A difference numbered 0 is left out: the subscriber takes that number
  for a fresh start, and a publisher that nobody has asked yet gives it to its first difference
  (\<open>first_difference_resets\<close>).
\<close>

theorem subscriber_exact:
  assumes "\<forall>m \<in> set (before @ after). sent_as D m \<and> \<not> is_snapshot (it_payload m) \<and> it_seq m \<noteq> Some 0"
    "sent_as D s" "is_snapshot (it_payload s)" "it_seq s = Some n"
    "map_of (receiver_seqnums st) ch = None" "queue_of st ch = []"
  shows "\<exists>r \<ge> n. map_of (receiver_seqnums (fold (receive_data_sequenced ch) (before @ s # after) st)) ch = Some r \<and>
    view ch (fold (receive_data_sequenced ch) (before @ s # after) st) = D r \<and>
    (\<forall>k. n < k \<and> k \<le> r \<longrightarrow> (\<exists>m \<in> set (before @ after). it_seq m = Some k)) \<and>
    (\<forall>m \<in> set (before @ after). it_seq m \<noteq> Some (r + 1))"
proof -
  have "\<forall>m \<in> set (before @ after). message_of D m \<and> \<not> is_snapshot (it_payload m)" using assms(1) sent_message by blast
  moreover have "message_of D s" using assms(2,3) sent_message by blast
  ultimately show ?thesis by (rule subscriber_lemma [OF _ _ assms(3-6)])
qed

text \<open>Number 2 arrives first, then the snapshot with number 0, then number 4, then number 1, twice.\<close>

definition example_data :: "nat \<Rightarrow> nat set" where
  "example_data n = {n, n + 1}"

definition difference :: "nat \<Rightarrow> nat item" where
  "difference n = \<lparr>it_seq = Some n, it_payload = Delta [n + 1] [n - 1], it_time = 0\<rparr>"

theorem subscriber_exact_witness:
  "\<exists>r. map_of (receiver_seqnums (fold (receive_data_sequenced (''a'', ''p''))
        ([difference 2] @ \<lparr>it_seq = Some 0, it_payload = Full [0, 1], it_time = 0\<rparr> # [difference 4, difference 1, difference 1])
        service_new)) (''a'', ''p'') = Some r \<and>
     view (''a'', ''p'') (fold (receive_data_sequenced (''a'', ''p''))
        ([difference 2] @ \<lparr>it_seq = Some 0, it_payload = Full [0, 1], it_time = 0\<rparr> # [difference 4, difference 1, difference 1])
        service_new) = example_data r \<and> r \<noteq> 3"
proof -
  let ?s = "\<lparr>it_seq = Some 0, it_payload = Full [0, 1], it_time = 0\<rparr> :: nat item"
  have d: "sent_as example_data (difference n) \<and> \<not> is_snapshot (it_payload (difference n)) \<and> it_seq (difference n) \<noteq> Some 0" if "n > 0" for n
    using that by (auto simp: sent_as_def difference_def example_data_def)
  have a: "\<forall>m \<in> set ([difference 2] @ [difference 4, difference 1, difference 1]).
      sent_as example_data m \<and> \<not> is_snapshot (it_payload m) \<and> it_seq m \<noteq> Some 0"
    using d by simp
  have s: "sent_as example_data ?s" "is_snapshot (it_payload ?s)" "it_seq ?s = Some 0"
    by (auto simp: sent_as_def example_data_def)
  have n: "map_of (receiver_seqnums service_new) (''a'', ''p'') = None" "queue_of (service_new :: nat service) (''a'', ''p'') = []"
    by (simp_all add: service_new_def queue_of_def)
  from subscriber_exact [OF a s n] obtain r where r: "seqnum (''a'', ''p'') (fold (receive_data_sequenced (''a'', ''p''))
        ([difference 2] @ ?s # [difference 4, difference 1, difference 1]) service_new) = Some r"
      "view (''a'', ''p'') (fold (receive_data_sequenced (''a'', ''p'')) ([difference 2] @ ?s # [difference 4, difference 1, difference 1]) service_new) = example_data r"
      "\<forall>m \<in> set ([difference 2] @ [difference 4, difference 1, difference 1]). it_seq m \<noteq> Some (r + 1)" by blast
  have "r \<noteq> 3" using r(3) by (auto simp: difference_def)
  with r(1,2) show ?thesis by blast
qed

section \<open>The publisher\<close>
















section \<open>Where it fails\<close>

definition msg :: "nat \<Rightarrow> int \<Rightarrow> 'r payload \<Rightarrow> 'r item" where
  "msg n t p = \<lparr>it_seq = Some n, it_payload = p, it_time = t\<rparr>"

text \<open>
  A publisher that publishes before it is asked numbers its first difference 0. When the first
  two differences reach a new subscriber before the answer to its request, the first of them counts as a
  reset: it is applied to rows that already include it, the queue is dropped, and the subscriber
  waits for message 1, which it has lost.
\<close>

theorem first_difference_resets:
  "let ch = (''a'', ''p'');
       pub = publish ''p'' [1] False (publish ''p'' [1, 2 :: nat] False service_new);
       (answer, _) = get_last_published_data_with_seqnum (\<lambda>_. []) ''p'' pub;
       sub = fold (receive_data_sequenced ch) [msg 0 0 (Delta [1, 2] []), msg 1 0 (Delta [] [2]), msg 1 1 (Full [1 :: nat]), msg 2 2 (Delta [3] [])] service_new
   in outbox pub = [(''p'', 0, Delta [1, 2] []), (''p'', 1, Delta [] [2])] \<and> answer = Inr (1, [1]) \<and>
      map snd (received sub) = [Full [1], Delta [1, 2] []] \<and> receiver_seqnums sub = [(ch, 0)] \<and> length (queue_of sub ch) = 1"
  by code_simp

text \<open>
  A subscription that misses a message is renewed only while the time of its queue is set. When a
  message is processed and the next one in the queue is still early, it is put back without
  its time; if what is missing was lost, the subscriber never asks again.
\<close>

theorem lost_message_never_asked_for:
  "let ch = (''a'', ''p'');
       sub = fold (receive_data_sequenced ch) [msg 0 0 (Full [1 :: nat]), msg 3 5 (Delta [4] []), msg 1 6 (Delta [2] [])] service_new
   in receiver_seqnums sub = [(ch, 1)] \<and> map it_seq (queue_of sub ch) = [Some 3] \<and> oldest_queue_times sub = [(ch, None)] \<and>
      received (check_resub_all 10 1000 (\<lambda>_. Some (3, [1, 2, 3, 4])) sub) = received sub"
  by code_simp

text \<open>A whole table is published without remembering it: the next difference is against the rows before it.\<close>

theorem snapshot_not_remembered:
  "let pub = publish ''p'' [2] False (publish ''p'' [1, 3] True (publish ''p'' [1, 2 :: nat] False service_new))
   in map snd (outbox pub) = [(0, Delta [1, 2] []), (1, Full [1, 3]), (2, Delta [] [1])]"
  by code_simp

end
