(* ===== verification/Dse_Node.thy ===== *)
theory Dse_Node
  imports Data_Service_Correct
begin

text \<open>
  \<open>dse2/dse_node.py\<close> and the directory of \<open>dse2/control_bus.py\<close>: the services of a node, who of them
  subscribes to which table, the subscriptions other nodes report in their heartbeats, and the calls
  that tell a service which of its tables have gained or lost all subscribers.
\<close>

declare map_of_eq_Some_iff [simp del] Some_eq_map_of_iff [simp del]

section \<open>Subscriptions\<close>

type_synonym subscriptions = "(string, (string, string list) dict) dict"

definition tables_of :: "string \<Rightarrow> subscriptions \<Rightarrow> (string, string list) dict" where
  "tables_of pub subs = (case map_of subs pub of None \<Rightarrow> [] | Some ts \<Rightarrow> ts)"

definition table_subscribers :: "string \<Rightarrow> string \<Rightarrow> subscriptions \<Rightarrow> string list" where
  "table_subscribers pub t subs = (case map_of (tables_of pub subs) t of None \<Rightarrow> [] | Some ss \<Rightarrow> ss)"

definition subscribe_table :: "string \<Rightarrow> string \<Rightarrow> string \<Rightarrow> subscriptions \<Rightarrow> subscriptions" where
  "subscribe_table s pub t subs =
     AList.update pub (AList.update t (set_add s (table_subscribers pub t subs)) (tables_of pub subs)) subs"

definition unsubscribe_table :: "string \<Rightarrow> string \<Rightarrow> string \<Rightarrow> subscriptions \<Rightarrow> subscriptions" where
  "unsubscribe_table s pub t subs =
     (case map_of subs pub of
        None \<Rightarrow> subs
      | Some ts \<Rightarrow> (case map_of ts t of
          None \<Rightarrow> subs
        | Some ss \<Rightarrow>
            (let ss = removeAll s ss;
                 ts = (if ss = [] then AList.delete t ts else AList.update t ss ts)
             in if ts = [] then AList.delete pub subs else AList.update pub ts subs)))"

definition get_subscription :: "string \<Rightarrow> subscriptions \<Rightarrow> (string, string list) dict" where
  "get_subscription s subs =
     fold (\<lambda>(pub, ts) result. fold (\<lambda>(t, ss) result.
         if s \<in> set ss then
           AList.update pub (case map_of result pub of None \<Rightarrow> [t] | Some us \<Rightarrow> set_add t us) result
         else result) ts result) subs []"

definition get_subscribers :: "string \<Rightarrow> subscriptions \<Rightarrow> string list" where
  "get_subscribers pub subs = fold (\<lambda>(t, ss) result. set_union result ss) (tables_of pub subs) []"

text \<open>What the dictionaries stand for.\<close>

definition subscribed :: "subscriptions \<Rightarrow> (string \<times> string \<times> string) set" where
  "subscribed subs = {(s, pub, t). s \<in> set (table_subscribers pub t subs)}"

definition subs_ok :: "subscriptions \<Rightarrow> bool" where
  "subs_ok subs = (dict_ok subs \<and> (\<forall>pub ts. map_of subs pub = Some ts \<longrightarrow> ts \<noteq> [] \<and> dict_ok ts \<and>
     (\<forall>t ss. map_of ts t = Some ss \<longrightarrow> ss \<noteq> [] \<and> distinct ss)))"

lemma subscribers_update:
  "table_subscribers pub' t' (AList.update pub (AList.update t ss (tables_of pub subs)) subs) =
     (if pub' = pub \<and> t' = t then ss else table_subscribers pub' t' subs)"
  by (simp add: table_subscribers_def tables_of_def)

lemma update_not_Nil [simp]: "AList.update k v d \<noteq> []"
  by (cases d) simp_all

lemma subs_okD:
  assumes "subs_ok subs"
  shows "dict_ok subs" "dict_ok (tables_of pub subs)" "distinct (table_subscribers pub t subs)"
    "map_of (tables_of pub subs) t \<noteq> Some []"
proof -
  show ok: "dict_ok subs" using assms unfolding subs_ok_def by blast
  have "dict_ok (tables_of pub subs) \<and> distinct (table_subscribers pub t subs) \<and> map_of (tables_of pub subs) t \<noteq> Some []"
  proof (cases "map_of subs pub")
    case None
    then show ?thesis by (simp add: tables_of_def table_subscribers_def)
  next
    case (Some ts)
    have "tables_of pub subs = ts" by (simp add: tables_of_def Some)
    moreover have "dict_ok ts" using assms Some unfolding subs_ok_def by blast
    moreover have "case map_of ts t of None \<Rightarrow> True | Some ss \<Rightarrow> ss \<noteq> [] \<and> distinct ss"
    proof (cases "map_of ts t")
      case (Some ss)
      then have "ss \<noteq> [] \<and> distinct ss" using assms \<open>map_of subs pub = Some ts\<close> unfolding subs_ok_def by blast
      then show ?thesis unfolding Some option.case .
    qed simp
    ultimately show ?thesis unfolding table_subscribers_def by (cases "map_of ts t") auto
  qed
  then show "dict_ok (tables_of pub subs)" "distinct (table_subscribers pub t subs)" "map_of (tables_of pub subs) t \<noteq> Some []"
    by blast+
qed

lemma subs_okI:
  assumes "dict_ok subs" "\<And>pub. map_of subs pub \<noteq> Some []" "\<And>pub. dict_ok (tables_of pub subs)"
    "\<And>pub t. map_of (tables_of pub subs) t \<noteq> Some []" "\<And>pub t. distinct (table_subscribers pub t subs)"
  shows "subs_ok subs"
  unfolding subs_ok_def
proof (intro conjI allI impI)
  fix pub ts t ss assume m: "map_of subs pub = Some ts"
  show "ts \<noteq> []" using assms(2) [of pub] m by auto
  show "dict_ok ts" using assms(3) [of pub] m by (simp add: tables_of_def)
  assume n: "map_of ts t = Some ss"
  show "ss \<noteq> []" using assms(4) [of pub t] m n by (auto simp: tables_of_def)
  show "distinct ss" using assms(5) [of pub t] m n by (simp add: tables_of_def table_subscribers_def)
qed (rule assms(1))

lemma tables_of_update [simp]: "tables_of pub' (AList.update pub ts subs) = (if pub' = pub then ts else tables_of pub' subs)"
  by (simp add: tables_of_def)

lemma tables_of_delete [simp]: "dict_ok subs \<Longrightarrow> tables_of pub' (AList.delete pub subs) = (if pub' = pub then [] else tables_of pub' subs)"
  by (simp add: tables_of_def)

lemma table_subscribers_tables: "table_subscribers pub t subs = (case map_of (tables_of pub subs) t of None \<Rightarrow> [] | Some ss \<Rightarrow> ss)"
  by (simp add: table_subscribers_def)

lemma subscribe_ok:
  assumes "subs_ok subs"
  shows "subs_ok (subscribe_table s pub t subs)" "subscribed (subscribe_table s pub t subs) = insert (s, pub, t) (subscribed subs)"
proof -
  show "subscribed (subscribe_table s pub t subs) = insert (s, pub, t) (subscribed subs)"
    by (auto simp: subscribed_def subscribe_table_def subscribers_update split: if_splits)
  have ne: "set_add s xs \<noteq> []" for xs :: "string list" by (simp add: set_add_def) (metis list.set_intros(1) list.set(1) empty_iff)
  show "subs_ok (subscribe_table s pub t subs)"
    unfolding subscribe_table_def
  proof (rule subs_okI)
    show "map_of (AList.update pub (AList.update t (set_add s (table_subscribers pub t subs)) (tables_of pub subs)) subs) pub' \<noteq> Some []" for pub'
      using assms by (auto simp: subs_ok_def)
  qed (use assms ne in \<open>simp_all add: subs_okD dict_ok_update subscribers_update del: distinct_map\<close>)
qed

lemma unsubscribe_ok:
  assumes ok: "subs_ok subs"
  shows "subs_ok (unsubscribe_table s pub t subs)" "subscribed (unsubscribe_table s pub t subs) = subscribed subs - {(s, pub, t)}"
proof -
  have "subs_ok (unsubscribe_table s pub t subs) \<and> subscribed (unsubscribe_table s pub t subs) = subscribed subs - {(s, pub, t)}"
  proof (cases "\<exists>ts ss. map_of subs pub = Some ts \<and> map_of ts t = Some ss")
    case False
    then have "unsubscribe_table s pub t subs = subs" "table_subscribers pub t subs = []"
      by (auto simp: unsubscribe_table_def table_subscribers_def tables_of_def split: option.splits)
    then show ?thesis using assms by (auto simp: subscribed_def)
  next
    case True
    then obtain ts ss where m: "map_of subs pub = Some ts" "map_of ts t = Some ss" by blast
    define ss' where "ss' = removeAll s ss"
    define ts' where "ts' = (if ss' = [] then AList.delete t ts else AList.update t ss' ts)"
    define u where "u = (if ts' = [] then AList.delete pub subs else AList.update pub ts' subs)"
    have u: "unsubscribe_table s pub t subs = u"
      by (simp add: unsubscribe_table_def m ts'_def ss'_def u_def Let_def)
    have ts: "tables_of pub subs = ts" "dict_ok ts" using m subs_okD(2) [OF ok, of pub] by (simp_all add: tables_of_def)
    have ss: "table_subscribers pub t subs = ss" "distinct ss"
      using m ts subs_okD(3) [OF ok, of pub t] by (simp_all add: table_subscribers_def)
    have tab: "tables_of pub' u = (if pub' = pub then ts' else tables_of pub' subs)" for pub'
      using subs_okD(1) [OF ok] by (simp add: u_def)
    have m': "map_of ts' t' = (if t' = t then if ss' = [] then None else Some ss' else map_of ts t')" for t'
      using ts(2) by (simp add: ts'_def)
    have sub: "table_subscribers pub' t' u = (if pub' = pub \<and> t' = t then ss' else table_subscribers pub' t' subs)" for pub' t'
      using m by (simp add: table_subscribers_tables tab m' ts)
    have "subs_ok u"
    proof (rule subs_okI)
      show "dict_ok u" using subs_okD(1) [OF ok] by (auto simp: u_def intro: dict_ok_delete dict_ok_update simp del: distinct_map)
      show "map_of u pub' \<noteq> Some []" for pub' using ok by (auto simp: u_def subs_ok_def)
      show "dict_ok (tables_of pub' u)" for pub'
        using ts subs_okD(2) [OF ok, of pub'] by (auto simp: tab ts'_def intro: dict_ok_delete dict_ok_update simp del: distinct_map)
      show "map_of (tables_of pub' u) t' \<noteq> Some []" for pub' t'
        using subs_okD(4) [OF ok, of pub' t'] ts by (auto simp: tab m')
      show "distinct (table_subscribers pub' t' u)" for pub' t'
        using ss subs_okD(3) [OF ok, of pub' t'] by (simp add: sub ss'_def distinct_removeAll)
    qed
    moreover have "subscribed u = subscribed subs - {(s, pub, t)}"
      by (auto simp: subscribed_def sub ss(1) ss'_def split: if_splits)
    ultimately show ?thesis by (simp add: u)
  qed
  then show "subs_ok (unsubscribe_table s pub t subs)" "subscribed (unsubscribe_table s pub t subs) = subscribed subs - {(s, pub, t)}"
    by blast+
qed

text \<open>\<open>get_subscription\<close> and \<open>get_subscribers\<close> read the relation.\<close>

definition subscription_step :: "string \<Rightarrow> string \<Rightarrow> string \<times> string list \<Rightarrow> (string, string list) dict \<Rightarrow> (string, string list) dict" where
  "subscription_step s pub = (\<lambda>(t, ss) result.
     if s \<in> set ss then AList.update pub (case map_of result pub of None \<Rightarrow> [t] | Some us \<Rightarrow> set_add t us) result else result)"

definition picked :: "(string, string list) dict \<Rightarrow> string \<Rightarrow> string set" where
  "picked result pub = (case map_of result pub of None \<Rightarrow> {} | Some ts \<Rightarrow> set ts)"

lemma subscription_steps:
  assumes "\<And>pub. map_of result pub \<noteq> Some []"
  shows "map_of (fold (subscription_step s pub) ts result) pub' \<noteq> Some [] \<and>
    picked (fold (subscription_step s pub) ts result) pub' =
      picked result pub' \<union> (if pub' = pub then {t. \<exists>ss. (t, ss) \<in> set ts \<and> s \<in> set ss} else {})"
  using assms
proof (induction ts arbitrary: result)
  case (Cons x ts)
  obtain t ss where x: "x = (t, ss)" by force
  have "map_of (subscription_step s pub x result) q \<noteq> Some []" for q
    using Cons.prems [of q] by (auto simp: subscription_step_def x set_add_def split: option.splits)
  from Cons.IH [OF this] show ?case
    by (auto simp: subscription_step_def x picked_def split: option.splits if_splits)
qed simp

lemma get_subscription_steps:
  "get_subscription s subs = fold (\<lambda>(pub, ts). fold (subscription_step s pub) ts) subs []"
  by (simp add: get_subscription_def subscription_step_def)

lemma get_subscription_exact:
  assumes "subs_ok subs"
  shows "map_of (get_subscription s subs) pub \<noteq> Some []"
    "picked (get_subscription s subs) pub = {t. (s, pub, t) \<in> subscribed subs}"
proof -
  have "map_of (fold (\<lambda>(pub, ts). fold (subscription_step s pub) ts) xs result) pub' \<noteq> Some [] \<and>
      picked (fold (\<lambda>(pub, ts). fold (subscription_step s pub) ts) xs result) pub' =
        picked result pub' \<union> {t. \<exists>ts ss. (pub', ts) \<in> set xs \<and> (t, ss) \<in> set ts \<and> s \<in> set ss}"
    if "\<And>pub. map_of result pub \<noteq> Some []" for xs result pub'
    using that
  proof (induction xs arbitrary: result)
    case (Cons x xs)
    obtain p ts where x: "x = (p, ts)" by force
    note one = subscription_steps [OF Cons.prems, where s = s and pub = p and ts = ts]
    then have "map_of (fold (subscription_step s p) ts result) q \<noteq> Some []" for q by blast
    from Cons.IH [OF this] one [of pub'] show ?case by (auto simp: x)
  qed simp
  from this [of "[]" subs pub] have 1: "map_of (get_subscription s subs) pub \<noteq> Some []"
    "picked (get_subscription s subs) pub = {t. \<exists>ts ss. (pub, ts) \<in> set subs \<and> (t, ss) \<in> set ts \<and> s \<in> set ss}"
    by (simp_all add: get_subscription_steps picked_def)
  show "map_of (get_subscription s subs) pub \<noteq> Some []" by (rule 1)
  have "(\<exists>ts ss. (pub, ts) \<in> set subs \<and> (t, ss) \<in> set ts \<and> s \<in> set ss) \<longleftrightarrow> (s, pub, t) \<in> subscribed subs" for t
  proof -
    have "(\<exists>ts ss. (pub, ts) \<in> set subs \<and> (t, ss) \<in> set ts \<and> s \<in> set ss) \<longleftrightarrow>
        (\<exists>ss. (t, ss) \<in> set (tables_of pub subs) \<and> s \<in> set ss)"
      using dict_mem_iff [OF subs_okD(1) [OF assms], of pub] by (cases "map_of subs pub") (auto simp: tables_of_def)
    also have "\<dots> \<longleftrightarrow> s \<in> set (table_subscribers pub t subs)"
      using dict_mem_iff [OF subs_okD(2) [OF assms, of pub], of t] by (cases "map_of (tables_of pub subs) t") (auto simp: table_subscribers_def)
    finally show ?thesis by (simp add: subscribed_def)
  qed
  then show "picked (get_subscription s subs) pub = {t. (s, pub, t) \<in> subscribed subs}" by (simp add: 1)
qed

lemma in_table_subscribers:
  "s \<in> set (table_subscribers pub t subs) \<longleftrightarrow> (\<exists>ss. map_of (tables_of pub subs) t = Some ss \<and> s \<in> set ss)"
  by (cases "map_of (tables_of pub subs) t") (auto simp: table_subscribers_def)

lemma get_subscribers_exact:
  assumes "subs_ok subs"
  shows "set (get_subscribers pub subs) = {s. \<exists>t. (s, pub, t) \<in> subscribed subs}"
proof -
  have "set (fold (\<lambda>(t, ss) result. set_union result ss) ts xs) = set xs \<union> {s. \<exists>t ss. (t, ss) \<in> set ts \<and> s \<in> set ss}"
    for ts :: "(string, string list) dict" and xs
    by (induction ts arbitrary: xs) (auto, blast+)
  then have "set (get_subscribers pub subs) = {s. \<exists>t ss. (t, ss) \<in> set (tables_of pub subs) \<and> s \<in> set ss}"
    by (simp add: get_subscribers_def)
  also have "\<dots> = {s. \<exists>t. s \<in> set (table_subscribers pub t subs)}"
    by (simp add: in_table_subscribers dict_mem_iff [OF subs_okD(2) [OF assms, of pub]])
  finally show ?thesis by (simp add: subscribed_def)
qed

section \<open>Subscriptions as a relation\<close>

datatype sub_op = Subscribe string string string | Unsubscribe string string string

fun sub_step :: "sub_op \<Rightarrow> subscriptions \<Rightarrow> subscriptions" where
  "sub_step (Subscribe s pub t) subs = subscribe_table s pub t subs"
| "sub_step (Unsubscribe s pub t) subs = unsubscribe_table s pub t subs"

fun rel_step :: "sub_op \<Rightarrow> (string \<times> string \<times> string) set \<Rightarrow> (string \<times> string \<times> string) set" where
  "rel_step (Subscribe s pub t) R = insert (s, pub, t) R"
| "rel_step (Unsubscribe s pub t) R = R - {(s, pub, t)}"

lemma subs_ok_empty: "subs_ok []" "subscribed [] = {}"
  by (simp_all add: subs_ok_def subscribed_def table_subscribers_def tables_of_def)

lemma sub_steps:
  assumes "subs_ok subs"
  shows "subs_ok (fold sub_step ops subs) \<and> subscribed (fold sub_step ops subs) = fold rel_step ops (subscribed subs)"
  using assms
proof (induction ops arbitrary: subs)
  case (Cons x ops)
  have "subs_ok (sub_step x subs)" "subscribed (sub_step x subs) = rel_step x (subscribed subs)"
    by (cases x; simp add: subscribe_ok unsubscribe_ok Cons.prems)+
  with Cons.IH [of "sub_step x subs"] show ?case by simp
qed simp

lemma dict_entry:
  assumes "d \<noteq> []"
  obtains k v where "map_of d k = Some v"
proof -
  from assms obtain k v xs where "d = (k, v) # xs" by (metis list.exhaust surj_pair)
  then have "map_of d k = Some v" by simp
  then show ?thesis by (rule that)
qed

text \<open>
  C37. The nested dictionaries of a node implement a relation between subscribers, publishers and
  tables: after any subscriptions and cancellations, the subscribers of a table, the
  subscriptions of a service and the subscribers of a service are read off the relation, and no empty
  entry is left behind.
\<close>

theorem subscriptions_refine_relation:
  "let subs = fold sub_step ops []; R = fold rel_step ops {}
   in set (table_subscribers pub t subs) = {s. (s, pub, t) \<in> R} \<and> distinct (table_subscribers pub t subs) \<and>
      (case map_of (get_subscription s subs) pub of None \<Rightarrow> {} | Some ts \<Rightarrow> set ts) = {t. (s, pub, t) \<in> R} \<and>
      map_of (get_subscription s subs) pub \<noteq> Some [] \<and>
      set (get_subscribers pub subs) = {s. \<exists>t. (s, pub, t) \<in> R} \<and> (subs = [] \<longleftrightarrow> R = {})"
proof -
  define subs where "subs = fold sub_step ops []"
  have ok: "subs_ok subs" and R: "fold rel_step ops {} = subscribed subs"
    using sub_steps [OF subs_ok_empty(1), of ops] by (simp_all add: subs_def subs_ok_empty)
  have "subs = []" if e: "subscribed subs = {}"
  proof (rule ccontr)
    assume "subs \<noteq> []"
    then obtain pub ts where p: "map_of subs pub = Some ts" by (rule dict_entry)
    then have "ts \<noteq> []" using ok unfolding subs_ok_def by blast
    then obtain t ss where t: "map_of ts t = Some ss" by (rule dict_entry)
    then have "ss \<noteq> []" using ok p unfolding subs_ok_def by blast
    then have "(hd ss, pub, t) \<in> subscribed subs" using p t by (simp add: subscribed_def table_subscribers_def tables_of_def)
    with e show False by simp
  qed
  then have "subs = [] \<longleftrightarrow> subscribed subs = {}" using subs_ok_empty by auto
  with ok show ?thesis
    using get_subscription_exact [OF ok, of s pub] get_subscribers_exact [OF ok, of pub] subs_okD(3) [OF ok, of pub t]
    unfolding Let_def subs_def [symmetric] R picked_def by (simp add: subscribed_def)
qed

section \<open>The node\<close>

text \<open>
  A service of the node, with the attribute \<open>_published_tables_with_subscriber\<close>. Two flags say whether it has
  the methods \<open>on_first_subs\<close> and \<open>on_no_subs\<close>, which of the services of the package only the
  policy engine does; \<open>mb_calls\<close> records the calls of the two.
\<close>

datatype hook = First_Subs "string list" | No_Subs "string list"

record 'r member =
  mb_id :: string
  mb_service :: "'r service"
  mb_first :: bool
  mb_none :: bool
  mb_published :: "string list"
  mb_calls :: "hook list"

text \<open>\<open>peers\<close>: what the last heartbeat of each other node said of the tables it subscribes to.\<close>

record 'r node =
  node_id :: string
  members :: "'r member list"
  subscriptions_of :: subscriptions
  peers :: "(string, (string, string list) dict) dict"

definition service_object :: "string \<Rightarrow> 'r node \<Rightarrow> 'r member option" where
  "service_object sid n = find (\<lambda>m. mb_id m = sid) (members n)"

definition register_service :: "'r member \<Rightarrow> 'r node \<Rightarrow> 'r node res" where
  "register_service m n =
     (case service_object (mb_id m) n of
        Some _ \<Rightarrow> Inl DataServiceError
      | None \<Rightarrow> Inr (n\<lparr>members := members n @ [m]\<rparr>))"

definition unregister_service :: "string \<Rightarrow> 'r node \<Rightarrow> 'r node" where
  "unregister_service sid n =
     (case service_object sid n of
        None \<Rightarrow> n
      | Some m \<Rightarrow> n\<lparr>members := remove1 m (members n)\<rparr>)"

text \<open>Services whose name starts with an underscore are hidden. (On an empty name the code raises; services are not given one.)\<close>

definition hidden :: "'r member \<Rightarrow> bool" where
  "hidden m = startswith (mb_id m) ''_''"

definition get_services :: "bool \<Rightarrow> 'r node \<Rightarrow> 'r member list" where
  "get_services with_hidden n = (if with_hidden then members n else filter (\<lambda>m. \<not> hidden m) (members n))"

text \<open>The object found is changed in place.\<close>

fun change_first :: "('a \<Rightarrow> bool) \<Rightarrow> ('a \<Rightarrow> 'a) \<Rightarrow> 'a list \<Rightarrow> 'a list" where
  "change_first P f [] = []"
| "change_first P f (x # xs) = (if P x then f x # xs else x # change_first P f xs)"

definition on_service :: "string \<Rightarrow> ('r service \<Rightarrow> 'r service) \<Rightarrow> 'r node \<Rightarrow> exc option \<times> 'r node" where
  "on_service sid f n =
     (case service_object sid n of
        None \<Rightarrow> (Some AttributeError, n)
      | Some _ \<Rightarrow> (None, n\<lparr>members := change_first (\<lambda>m. mb_id m = sid) (\<lambda>m. m\<lparr>mb_service := f (mb_service m)\<rparr>) (members n)\<rparr>))"

definition handle_publish_sequenced ::
    "int \<Rightarrow> string \<Rightarrow> string \<Rightarrow> 'r payload \<Rightarrow> nat option \<Rightarrow> 'r node \<Rightarrow> exc option \<times> 'r node" where
  "handle_publish_sequenced now pub t p k n =
     for_keep (\<lambda>s. on_service s (handle_message now (pub, t) k p)) (table_subscribers pub t (subscriptions_of n)) n"

definition handle_publish :: "string \<Rightarrow> string \<Rightarrow> 'r list \<Rightarrow> 'r node \<Rightarrow> exc option \<times> 'r node" where
  "handle_publish pub t data n =
     for_keep (\<lambda>s. on_service s (receive_data (pub, t) (Full data))) (table_subscribers pub t (subscriptions_of n)) n"

text \<open>
  A heartbeat carries the subscriptions of its sender; of the subscribers only the tables are
  kept. The node's own heartbeat comes back and is dropped.
\<close>

definition accept_heartbeat :: "string \<Rightarrow> subscriptions \<Rightarrow> 'r node \<Rightarrow> 'r node" where
  "accept_heartbeat peer subs n =
     (if peer = node_id n then n
      else n\<lparr>peers := AList.update peer (map (\<lambda>(target, ts). (target, dkeys ts)) subs) (peers n)\<rparr>)"

definition tables_with_subs :: "string \<Rightarrow> 'r node \<Rightarrow> string list" where
  "tables_with_subs sid n =
     fold (\<lambda>(peer, subscribed_tables) ts. case map_of subscribed_tables sid of None \<Rightarrow> ts | Some us \<Rightarrow> set_union ts us)
       (peers n) (dkeys (tables_of sid (subscriptions_of n)))"

definition update_member :: "string list \<Rightarrow> 'r member \<Rightarrow> 'r member" where
  "update_member ts m =
     (let added = set_minus ts (mb_published m); removed = set_minus (mb_published m) ts;
          m = (if mb_first m \<and> added \<noteq> [] then m\<lparr>mb_calls := mb_calls m @ [First_Subs added]\<rparr> else m);
          m = (if mb_none m \<and> removed \<noteq> [] then m\<lparr>mb_calls := mb_calls m @ [No_Subs removed]\<rparr> else m)
      in m\<lparr>mb_published := ts\<rparr>)"

definition update_tables_with_subscriber :: "'r node \<Rightarrow> 'r node" where
  "update_tables_with_subscriber n =
     n\<lparr>members := map (\<lambda>m. if hidden m then m else update_member (tables_with_subs (mb_id m) n) m) (members n)\<rparr>"

section \<open>What happens at a node\<close>

text \<open>
  A new node has one service, its control bus. Then services come and go, subscribe and cancel,
  heartbeats and publications arrive in any order; \<open>Tick\<close> is the call in the loop of the control bus.
\<close>

definition member_new :: "string \<Rightarrow> 'r service \<Rightarrow> bool \<Rightarrow> bool \<Rightarrow> 'r member" where
  "member_new sid s first none =
     \<lparr>mb_id = sid, mb_service = s, mb_first = first, mb_none = none, mb_published = [], mb_calls = []\<rparr>"

definition node_new :: "string \<Rightarrow> 'r node" where
  "node_new nid = \<lparr>node_id = nid, members = [member_new ''_control_bus'' service_new False False],
     subscriptions_of = [], peers = []\<rparr>"

datatype 'r node_op =
    Register string "'r service" bool bool
  | Unregister string
  | Local sub_op
  | Heartbeat string subscriptions
  | Message int string string "'r payload" "nat option"
  | Rows string string "'r list"
  | Tick

fun node_step :: "'r node_op \<Rightarrow> 'r node \<Rightarrow> 'r node" where
  "node_step (Register sid s first none) n =
     (case register_service (member_new sid s first none) n of Inl _ \<Rightarrow> n | Inr n' \<Rightarrow> n')"
| "node_step (Unregister sid) n = unregister_service sid n"
| "node_step (Local x) n = n\<lparr>subscriptions_of := sub_step x (subscriptions_of n)\<rparr>"
| "node_step (Heartbeat peer subs) n = accept_heartbeat peer subs n"
| "node_step (Message now pub t p k) n = snd (handle_publish_sequenced now pub t p k n)"
| "node_step (Rows pub t data) n = snd (handle_publish pub t data n)"
| "node_step Tick n = update_tables_with_subscriber n"

abbreviation run_node :: "'r node_op list \<Rightarrow> string \<Rightarrow> 'r node" where
  "run_node ops nid \<equiv> fold node_step ops (node_new nid)"

text \<open>What a service learns from the calls: the tables it counts as having subscribers.\<close>

fun hook_step :: "hook \<Rightarrow> string set \<Rightarrow> string set" where
  "hook_step (First_Subs ts) S = S \<union> set ts"
| "hook_step (No_Subs ts) S = S - set ts"

fun hooks_alternate :: "hook list \<Rightarrow> string set \<Rightarrow> bool" where
  "hooks_alternate [] S = True"
| "hooks_alternate (First_Subs ts # hs) S = (ts \<noteq> [] \<and> set ts \<inter> S = {} \<and> hooks_alternate hs (S \<union> set ts))"
| "hooks_alternate (No_Subs ts # hs) S = (ts \<noteq> [] \<and> set ts \<subseteq> S \<and> hooks_alternate hs (S - set ts))"

definition has_subscriber :: "'r node \<Rightarrow> string \<Rightarrow> string \<Rightarrow> bool" where
  "has_subscriber n sid t = ((\<exists>s. (s, sid, t) \<in> subscribed (subscriptions_of n)) \<or>
     (\<exists>peer ts us. map_of (peers n) peer = Some ts \<and> map_of ts sid = Some us \<and> t \<in> set us))"

definition told :: "'r member \<Rightarrow> bool" where
  "told m = ((hidden m \<longrightarrow> mb_calls m = []) \<and> (mb_first m \<and> mb_none m \<longrightarrow>
     hooks_alternate (mb_calls m) {} \<and> fold hook_step (mb_calls m) {} = set (mb_published m)))"

text \<open>The invariant of a node.\<close>

definition node_ok :: "'r node \<Rightarrow> bool" where
  "node_ok n = (subs_ok (subscriptions_of n) \<and> dict_ok (peers n) \<and> distinct (map mb_id (members n)) \<and>
     (\<forall>m \<in> set (members n). told m))"

lemma told_new: "told (member_new sid s first none)"
  by (simp add: told_def member_new_def)

lemma told_service: "told (m\<lparr>mb_service := s\<rparr>) = told m"
  by (simp add: told_def hidden_def)

section \<open>Publications\<close>

lemma change_first_map:
  "distinct (map mb_id ms) \<Longrightarrow> change_first (\<lambda>m. mb_id m = sid) f ms = map (\<lambda>m. if mb_id m = sid then f m else m) ms"
  by (induction ms) (auto intro!: map_idI [symmetric], metis imageI)

lemma service_object_Some: "sid \<in> mb_id ` set (members n) \<Longrightarrow> \<exists>m. service_object sid n = Some m"
  by (cases "service_object sid n") (auto simp: service_object_def find_None_iff)

lemma service_object_None: "service_object sid n = None \<longleftrightarrow> sid \<notin> mb_id ` set (members n)"
  by (auto simp: service_object_def find_None_iff)

text \<open>The services are told in turn, up to the first one that is not there.\<close>

definition reached :: "string list \<Rightarrow> 'r node \<Rightarrow> string list" where
  "reached ss n = takeWhile (\<lambda>s. s \<in> mb_id ` set (members n)) ss"

lemma for_services:
  assumes "distinct (map mb_id (members n))" "distinct ss"
  shows "for_keep (\<lambda>s. on_service s f) ss n =
    (if set ss \<subseteq> mb_id ` set (members n) then None else Some AttributeError,
     n\<lparr>members := map (\<lambda>m. if mb_id m \<in> set (reached ss n) then m\<lparr>mb_service := f (mb_service m)\<rparr> else m) (members n)\<rparr>)"
  using assms
proof (induction ss arbitrary: n)
  case (Cons s ss)
  show ?case
  proof (cases "s \<in> mb_id ` set (members n)")
    case False
    then show ?thesis by (simp add: reached_def on_service_def service_object_None [THEN iffD2])
  next
    case True
    define n1 where "n1 = n\<lparr>members := map (\<lambda>m. if mb_id m = s then m\<lparr>mb_service := f (mb_service m)\<rparr> else m) (members n)\<rparr>"
    have step: "on_service s f n = (None, n1)"
      using service_object_Some [OF True] Cons.prems(1) by (auto simp: on_service_def n1_def change_first_map simp del: distinct_map)
    have ids: "map mb_id (members n1) = map mb_id (members n)" by (simp add: n1_def)
    then have ids': "mb_id ` set (members n1) = mb_id ` set (members n)" by (metis set_map)
    then have r: "reached ss n1 = reached ss n" "set (reached (s # ss) n) = insert s (set (reached ss n))"
      using True by (simp_all add: reached_def)
    have "s \<notin> set (reached ss n)" using Cons.prems(2) by (auto simp: reached_def dest: set_takeWhileD)
    then have "map (\<lambda>m. if mb_id m \<in> set (reached ss n) then m\<lparr>mb_service := f (mb_service m)\<rparr> else m) (members n1) =
        map (\<lambda>m. if mb_id m \<in> insert s (set (reached ss n)) then m\<lparr>mb_service := f (mb_service m)\<rparr> else m) (members n)"
      by (auto simp: n1_def)
    moreover have "n1\<lparr>members := ms\<rparr> = n\<lparr>members := ms\<rparr>" for ms by (simp add: n1_def)
    moreover have "distinct (map mb_id (members n1))" "distinct ss" using Cons.prems ids by simp_all
    note Cons.IH [OF this]
    ultimately show ?thesis unfolding for_keep.simps step prod.case option.case r(2) using True ids' r(1) by simp
  qed
qed (simp add: reached_def)

lemma delivered_ok:
  assumes "node_ok n" "distinct ss" shows "node_ok (snd (for_keep (\<lambda>s. on_service s f) ss n))"
proof -
  let ?ms = "map (\<lambda>m. if mb_id m \<in> set (reached ss n) then m\<lparr>mb_service := f (mb_service m)\<rparr> else m) (members n)"
  have ids: "map mb_id (map (\<lambda>m. if P m then m\<lparr>mb_service := g m\<rparr> else m) ms) = map mb_id ms"
    for P g and ms :: "'a member list"
    by (induction ms) auto
  have "distinct (map mb_id ?ms)" unfolding ids using assms(1) by (simp add: node_ok_def)
  moreover have "\<forall>m \<in> set ?ms. told m" using assms(1) by (auto simp: node_ok_def told_service)
  moreover have "snd (for_keep (\<lambda>s. on_service s f) ss n) = n\<lparr>members := ?ms\<rparr>"
    using for_services [of n ss f] assms by (simp add: node_ok_def)
  ultimately show ?thesis using assms(1) by (simp add: node_ok_def del: map_map distinct_map)
qed

lemma hooks_alternate_append:
  "hooks_alternate (hs @ gs) S \<longleftrightarrow> hooks_alternate hs S \<and> hooks_alternate gs (fold hook_step hs S)"
proof (induction hs arbitrary: S)
  case (Cons h hs)
  then show ?case by (cases h) auto
qed simp

lemma update_member_id: "mb_id (update_member ts m) = mb_id m" "hidden (update_member ts m) = hidden m"
  by (simp_all add: update_member_def Let_def hidden_def)

lemma update_member_told:
  assumes "told m" "\<not> hidden m"
  shows "told (update_member ts m)" "mb_published (update_member ts m) = ts"
proof -
  show p: "mb_published (update_member ts m) = ts" by (simp add: update_member_def Let_def)
  have nh: "\<not> hidden (update_member ts m)" using assms(2) update_member_id by metis
  let ?added = "set_minus ts (mb_published m)" and ?removed = "set_minus (mb_published m) ts"
  show "told (update_member ts m)"
  proof (cases "mb_first m \<and> mb_none m")
    case True
    define gs where "gs = (if ?added = [] then [] else [First_Subs ?added]) @ (if ?removed = [] then [] else [No_Subs ?removed])"
    have c: "mb_calls (update_member ts m) = mb_calls m @ gs"
      using True by (simp add: update_member_def Let_def gs_def)
    have e: "?added = [] \<longleftrightarrow> set ts \<subseteq> set (mb_published m)" "?removed = [] \<longleftrightarrow> set (mb_published m) \<subseteq> set ts"
      by (auto simp: set_minus_def filter_empty_conv)
    have "hooks_alternate gs (set (mb_published m)) \<and> fold hook_step gs (set (mb_published m)) = set ts"
      unfolding gs_def using e by auto
    then show ?thesis using True assms nh unfolding told_def c hooks_alternate_append p by simp
  next
    case False
    then show ?thesis using nh by (auto simp: told_def update_member_def Let_def)
  qed
qed

lemma tables_with_subs_exact:
  assumes "node_ok n"
  shows "set (tables_with_subs sid n) = {t. has_subscriber n sid t}"
proof -
  have ok: "subs_ok (subscriptions_of n)" "dict_ok (peers n)" using assms by (simp_all add: node_ok_def)
  have "set (fold (\<lambda>(peer, d) ts. case map_of d sid of None \<Rightarrow> ts | Some us \<Rightarrow> set_union ts us) ps ts) =
      set ts \<union> {t. \<exists>peer d us. (peer, d) \<in> set ps \<and> map_of d sid = Some us \<and> t \<in> set us}"
    for ps :: "(string, (string, string list) dict) dict" and ts
  proof (induction ps arbitrary: ts)
    case (Cons p ps)
    obtain peer d where p: "p = (peer, d)" by force
    show ?case unfolding p by (cases "map_of d sid") (auto simp: Cons.IH)
  qed simp
  then have 1: "set (tables_with_subs sid n) = set (dkeys (tables_of sid (subscriptions_of n))) \<union>
      {t. \<exists>peer d us. map_of (peers n) peer = Some d \<and> map_of d sid = Some us \<and> t \<in> set us}"
    by (simp add: tables_with_subs_def dict_mem_iff [OF ok(2)] del: set_map)
  have "t \<in> set (dkeys (tables_of sid (subscriptions_of n))) \<longleftrightarrow> (\<exists>s. (s, sid, t) \<in> subscribed (subscriptions_of n))" for t
  proof (cases "map_of (tables_of sid (subscriptions_of n)) t")
    case None
    moreover from None have "t \<notin> set (dkeys (tables_of sid (subscriptions_of n)))" by (simp add: map_of_eq_None_iff)
    ultimately show ?thesis by (simp add: subscribed_def in_table_subscribers)
  next
    case (Some ss)
    then have "ss \<noteq> []" using subs_okD(4) [OF ok(1), of sid t] by simp
    moreover have "t \<in> set (dkeys (tables_of sid (subscriptions_of n)))"
      using Some map_of_SomeD by force
    ultimately show ?thesis using Some by (auto simp: subscribed_def in_table_subscribers neq_Nil_conv)
  qed
  then show ?thesis unfolding 1 has_subscriber_def by blast
qed

lemma node_step_ok:
  fixes n :: "'r node"
  assumes "node_ok n"
  shows "node_ok (node_step x n)"
proof (cases x)
  case (Register sid s f o')
  then show ?thesis using assms told_new
    by (auto simp: register_service_def node_ok_def service_object_None member_new_def split: option.splits)
next
  case (Unregister sid)
  have "distinct (map mb_id (remove1 m ms))" if "distinct (map mb_id ms)" for m and ms :: "'r member list"
    using that set_remove1_subset [of m] by (induction ms) auto
  then show ?thesis using assms Unregister
    by (auto simp: unregister_service_def node_ok_def simp del: distinct_map split: option.splits dest: notin_set_remove1)
next
  case (Local y)
  have "subs_ok (sub_step y (subscriptions_of n))" using assms sub_steps [of "subscriptions_of n" "[y]"] by (simp add: node_ok_def)
  then show ?thesis using assms by (simp add: Local node_ok_def)
next
  case (Heartbeat peer subs)
  then show ?thesis using assms by (auto simp: node_ok_def accept_heartbeat_def AList.distinct_update simp del: distinct_map)
next
  case (Message now pub t p k)
  have "distinct (table_subscribers pub t (subscriptions_of n))" using assms subs_okD(3) by (auto simp: node_ok_def)
  then show ?thesis using delivered_ok [OF assms] Message by (simp add: handle_publish_sequenced_def)
next
  case (Rows pub t d)
  have "distinct (table_subscribers pub t (subscriptions_of n))" using assms subs_okD(3) by (auto simp: node_ok_def)
  then show ?thesis using delivered_ok [OF assms] Rows by (simp add: handle_publish_def)
next
  case Tick
  have "map mb_id (members (update_tables_with_subscriber n)) = map mb_id (members n)"
    by (simp add: update_tables_with_subscriber_def update_member_id)
  moreover have "\<forall>m \<in> set (members (update_tables_with_subscriber n)). told m"
    using assms by (auto simp: node_ok_def update_tables_with_subscriber_def intro: update_member_told(1))
  ultimately show ?thesis using assms Tick
    by (simp add: node_ok_def del: distinct_map) (simp add: update_tables_with_subscriber_def)
qed

lemma run_node_ok:
  fixes ops :: "'r node_op list" shows "node_ok (run_node ops nid)"
proof -
  have "node_ok (fold node_step ops n)" if "node_ok n" for n :: "'r node"
    using that by (induction ops arbitrary: n) (auto intro: node_step_ok)
  moreover have "node_ok (node_new nid :: 'r node)"
    using told_new by (auto simp: node_ok_def node_new_def subs_ok_empty)
  ultimately show ?thesis by blast
qed

text \<open>
  C7. A publication that comes to a node, after services, subscriptions and messages have come
  and gone in any way, is given to the subscribers of the table in turn, each once and to no other service,
  up to the first subscriber that is not (or no longer) a service of the node; there
  \<open>AttributeError\<close> is raised. So it reaches exactly the subscribers when all of them
  are services of the node.
\<close>

theorem publication_reaches_subscribers:
  fixes ops :: "'r node_op list" and nid pub t :: string
  defines "n \<equiv> run_node ops nid"
  defines "ids \<equiv> mb_id ` set (members n)" and "subscribers \<equiv> {s. (s, pub, t) \<in> subscribed (subscriptions_of n)}"
  shows "\<exists>told. set told \<subseteq> subscribers \<and> told = takeWhile (\<lambda>s. s \<in> ids) (table_subscribers pub t (subscriptions_of n)) \<and>
    (subscribers \<subseteq> ids \<longrightarrow> set told = subscribers) \<and>
    handle_publish_sequenced now pub t p k n =
      (if subscribers \<subseteq> ids then None else Some AttributeError,
       n\<lparr>members := map (\<lambda>m. if mb_id m \<in> set told
          then m\<lparr>mb_service := handle_message now (pub, t) k p (mb_service m)\<rparr> else m) (members n)\<rparr>)"
proof -
  let ?ss = "table_subscribers pub t (subscriptions_of n)"
  have ok: "distinct (map mb_id (members n))" "subs_ok (subscriptions_of n)"
    using run_node_ok [of ops nid] by (simp_all add: node_ok_def n_def)
  have ss: "set ?ss = subscribers" by (simp add: subscribers_def subscribed_def)
  have "set ?ss \<subseteq> ids \<longrightarrow> takeWhile (\<lambda>s. s \<in> ids) ?ss = ?ss"
    unfolding takeWhile_eq_all_conv by blast
  then have "subscribers \<subseteq> ids \<longrightarrow> set (takeWhile (\<lambda>s. s \<in> ids) ?ss) = subscribers" unfolding ss [symmetric] by metis
  moreover have "set (takeWhile (\<lambda>s. s \<in> ids) ?ss) \<subseteq> subscribers" using ss by (auto dest: set_takeWhileD)
  ultimately show ?thesis
    using for_services [OF ok(1) subs_okD(3) [OF ok(2)], of "handle_message now (pub, t) k p"] ss
    unfolding handle_publish_sequenced_def reached_def ids_def [symmetric]
    by (intro exI [of _ "takeWhile (\<lambda>s. s \<in> ids) ?ss"] conjI) simp_all
qed

text \<open>\<open>b\<close> subscribes to the servers, \<open>a\<close> to another table.\<close>

definition example_services :: "nat node_op list" where
  "example_services = map (\<lambda>sid. Register sid service_new True True) [''nova'', ''a'', ''b'']"

theorem publication_reaches_subscribers_witness:
  "map (\<lambda>m. map snd (received (mb_service m))) (members (snd (handle_publish_sequenced 0 ''nova'' ''servers'' (Full [7]) (Some 0)
     (run_node (example_services @ [Local (Subscribe ''b'' ''nova'' ''servers''), Local (Subscribe ''a'' ''nova'' ''flavors'')]) ''n''))))
   = [[], [], [], [Full [7]]]"
proof -
  let ?ops = "example_services @ [Local (Subscribe ''b'' ''nova'' ''servers''), Local (Subscribe ''a'' ''nova'' ''flavors'')]"
  let ?n = "run_node ?ops ''n''"
  have t: "table_subscribers ''nova'' ''servers'' (subscriptions_of ?n) = [''b'']"
    and i: "map mb_id (members ?n) = [''_control_bus'', ''nova'', ''a'', ''b'']" by code_simp+
  have "mb_id ` set (members ?n) = set (map mb_id (members ?n))" by (rule list.set_map [symmetric])
  then have "mb_id ` set (members ?n) = {''_control_bus'', ''nova'', ''a'', ''b''}" unfolding i by simp
  with publication_reaches_subscribers [of "''nova''" "''servers''" ?ops "''n''" 0 "Full [7]" "Some 0"] t
  have m: "members (snd (handle_publish_sequenced 0 ''nova'' ''servers'' (Full [7]) (Some 0) ?n)) =
      map (\<lambda>m. if mb_id m = ''b'' then m\<lparr>mb_service := handle_message 0 (''nova'', ''servers'') (Some 0) (Full [7]) (mb_service m)\<rparr> else m)
        (members ?n)"
    by (auto simp del: fold_append)
  show ?thesis unfolding m by code_simp
qed

text \<open>
  Unregistering a service leaves its subscriptions. The next publication of the table raises when
  it comes to the service that is gone, and the subscribers after it miss the message.
\<close>

theorem unregistered_subscriber_blocks:
  "let n = run_node (example_services @ [Local (Subscribe ''a'' ''nova'' ''servers''), Local (Subscribe ''b'' ''nova'' ''servers''),
         Unregister ''a'']) ''n'';
       (r, n') = handle_publish_sequenced 0 ''nova'' ''servers'' (Full [7]) (Some 0) n
   in r = Some AttributeError \<and> map (\<lambda>m. (mb_id m, received (mb_service m))) (members n') =
        [(''_control_bus'', []), (''nova'', []), (''b'', [])]"
  by code_simp

section \<open>First and last subscribers\<close>

text \<open>
  C6. After the next tick, whatever services, subscriptions, publications and heartbeats a node has seen, the
  calls of \<open>on_first_subs\<close> and \<open>on_no_subs\<close> that a service with both methods got
  add up to the tables with a subscriber on this or another node, if the name of the service does not start with an
  underscore. A call of the first names only tables without a subscriber before, a call of the second
  only tables that had one. Services whose names start with an underscore are never called; the policy
  engine is one of them (\<open>engine_never_told\<close>).
\<close>

theorem first_and_last_subscribers_told:
  fixes ops :: "'r node_op list" and nid :: string
  defines "n \<equiv> run_node (ops @ [Tick]) nid"
  assumes "m \<in> set (members n)"
  shows "if startswith (mb_id m) ''_'' then mb_calls m = []
    else mb_first m \<and> mb_none m \<longrightarrow>
      fold hook_step (mb_calls m) {} = {t. has_subscriber n (mb_id m) t} \<and> hooks_alternate (mb_calls m) {}"
proof -
  define k where "k = run_node ops nid"
  have n: "n = update_tables_with_subscriber k" by (simp add: n_def k_def)
  have ok: "node_ok k" unfolding k_def by (rule run_node_ok)
  from assms(2) obtain m0 where m0: "m0 \<in> set (members k)" "m = (if hidden m0 then m0 else update_member (tables_with_subs (mb_id m0) k) m0)"
    unfolding n by (auto simp: update_tables_with_subscriber_def)
  have id: "mb_id m = mb_id m0" "hidden m = hidden m0" unfolding m0(2) by (simp_all add: update_member_id)
  have t0: "told m0" using ok m0(1) by (simp add: node_ok_def)
  have same: "has_subscriber n = has_subscriber k"
    by (simp add: fun_eq_iff has_subscriber_def n update_tables_with_subscriber_def)
  show ?thesis
  proof (cases "hidden m0")
    case True
    then show ?thesis using t0 m0(2) by (simp add: told_def hidden_def)
  next
    case False
    then have m: "m = update_member (tables_with_subs (mb_id m0) k) m0" using m0(2) by simp
    from update_member_told [OF t0 False] have "told m" "mb_published m = tables_with_subs (mb_id m0) k" by (simp_all add: m)
    then show ?thesis using tables_with_subs_exact [OF ok] False id same by (simp add: told_def hidden_def)
  qed
qed

text \<open>A table gains a subscriber on another node, then one here, and loses both.\<close>

definition example_node_ops :: "nat node_op list" where
  "example_node_ops = [Register ''p'' service_new True True, Heartbeat ''m'' [(''p'', [(''t'', [''x''])])], Tick,
     Local (Subscribe ''a'' ''p'' ''t''), Tick, Heartbeat ''m'' [], Tick, Local (Unsubscribe ''a'' ''p'' ''t'')]"

theorem first_and_last_subscribers_told_witness:
  "let n = run_node (example_node_ops @ [Tick]) ''n'' in
   map mb_calls (members n) = [[], [First_Subs [''t''], No_Subs [''t'']]] \<and>
   {t. has_subscriber n ''p'' t} = fold hook_step [First_Subs [''t''], No_Subs [''t'']] {}"
proof -
  let ?n = "run_node (example_node_ops @ [Tick]) ''n''"
  have l: "map (\<lambda>m. (mb_calls m, mb_id m, mb_first m, mb_none m)) (members ?n) =
      [([], ''_control_bus'', False, False), ([First_Subs [''t''], No_Subs [''t'']], ''p'', True, True)]"
    by code_simp
  then obtain c m where m: "members ?n = [c, m]" "mb_calls c = []" "mb_calls m = [First_Subs [''t''], No_Subs [''t'']]"
    "mb_id m = ''p''" "mb_first m" "mb_none m"
    by (cases "members ?n"; cases "tl (members ?n)") auto
  from first_and_last_subscribers_told [of m example_node_ops "''n''"] m show ?thesis by (simp add: startswith_def)
qed

text \<open>
  The policy engine is the only service of the package with the two methods. It is started
  under the name \<open>__engine\<close>, so it is hidden and neither of them is ever called.
\<close>

theorem engine_never_told:
  "\<forall>m \<in> set (members (run_node ops nid)). mb_id m = ''__engine'' \<longrightarrow> mb_calls m = []"
  using run_node_ok [of ops nid] by (auto simp: node_ok_def told_def hidden_def startswith_def)

end
