(* ===== verification/Spec2Isabelle.thy ===== *)
theory Spec2Isabelle
  imports Column_Refs Rule_Analysis Select_Correct Materialized_Runs Runtime_Cases
    Engine_Invariant Dse_Node
begin

text \<open>
  A verification development of OpenStack Congress: the datalog policy engine
  (\<open>congress/datalog\<close>), the runtime around it (\<open>congress/policy_engines/agnostic.py\<close>) and the
  numbered publications by which services exchange tables (\<open>congress/dse2/data_service.py\<close>).

  \<^bold>\<open>The program.\<close> A policy is a set of datalog rules and facts. \<open>compile.py\<close> has the formulas, the
  checks a formula must pass, and the dependency graph of the rules; \<open>nonrecursive.py\<close> stores the rules
  (\<open>ruleset.py\<close>, \<open>factset.py\<close>) and answers queries by the top-down search of \<open>topdown.py\<close> with the
  unifiers of \<open>unify.py\<close>; \<open>database.py\<close> and \<open>materialized.py\<close> are policies that store tuples with
  their proofs. \<open>agnostic.py\<close> keeps a dictionary of policies, applies batches of updates to them
  when they introduce no recursion, runs triggers on the tables that changed, and simulates sequences of
  updates. Every data service publishes tables as numbered differences.

  \<^bold>\<open>Theories and files.\<close>
  \<^item> Prelude: exceptions as values, loops that raise, dictionaries, sets, sorting, strings.
  \<^item> Ordered_Set, Graph, Graph_Reach, Stratify, Bag_Graph: \<open>utility.py\<close> (\<open>OrderedSet\<close>, \<open>Graph\<close>,
    \<open>BagGraph\<close>). The linked representation implements a list; depth-first search, cycles and
    reachability are correct; \<open>stratification\<close> is the least one; a bag graph implements a
    multiset of edges.
  \<^item> Modal_Index, Dep_Graph, Rule_Analysis: \<open>analysis.py\<close>, and \<open>RuleDependencyGraph\<close>,
    \<open>is_recursive\<close>, \<open>is_stratified\<close>, \<open>find_subpolicy\<close> of \<open>compile.py\<close>. The graph kept by increments
    equals the dependencies of the formulas present, and changes can be undone.
  \<^item> Syntax, Builtins, Schema, Safety, Column_Refs: terms, literals, rules and events of
    \<open>compile.py\<close>, the registry of \<open>builtin.py\<close>, schemas, reordering for safety, the errors of
    facts and rules, named arguments.
  \<^item> Fact_Set, Rule_Set, Policy, Policy_Update: \<open>factset.py\<close>, \<open>ruleset.py\<close>, \<open>base.py\<close>,
    \<open>nonrecursive.py\<close>. Policy_Update relates all policies to one list of rules and facts and proves
    that \<open>update\<close> follows it, with the schemas the policies learn.
  \<^item> Unify, Top_Down, Top_Down_Correct, Query_Answers, Select_Correct: \<open>unify.py\<close> (unifiers are
    objects on a heap, changed in place and undone) and \<open>topdown.py\<close>. The last three prove that
    \<open>select\<close> returns exactly the true instances of a query.
  \<^item> Database, Materialized, Delta_Rules, Materialized_Runs: \<open>database.py\<close>, \<open>materialized.py\<close>. The
    tuples with their sets of proofs, the delta rules and the queue of events; the last theory has
    single runs in which an update raises, uses up its fuel or leaves a view wrong.
  \<^item> Trigger_Registry, Runtime, Runtime_Updates, Engine_Invariant, Runtime_Cases: \<open>Trigger\<close>,
    \<open>TriggerRegistry\<close> and \<open>Runtime\<close> of \<open>agnostic.py\<close>. A batch that is let through closes no cycle, a
    refused one changes nothing; Engine_Invariant joins this to Policy_Update: after an accepted update
    the graph of the engine is the graph of the rules that its policies store. Runtime_Cases has the
    runs in which that fails: a batch over several policies, a rule inserted twice, a cycle found
    earlier that still counts.
  \<^item> Projection, Projection_Undo: \<open>project\<close>, \<open>simulate\<close> and what they call; a projection can be undone.
  \<^item> Data_Service, Data_Service_Correct: \<open>DataService\<close>. Whatever the bus loses, repeats and reorders,
    a subscriber has the rows the publisher had at one of its messages.
  \<^item> Dse_Node: \<open>dse_node.py\<close> and \<open>accept_heartbeat\<close> of \<open>control_bus.py\<close>. The subscriptions of a node
    are a relation; in every node that operations reach, services coming and going, a publication is
    delivered to the subscribers of its table up to the first that is no longer a service of the node;
    a service is told of its first and last subscribers unless its identifier is one of the hidden
    ones, as that of the policy engine is.

  \<^bold>\<open>How the code is written here.\<close> Objects are records; a method takes and returns the object. A method
  that raises returns a sum, and where it keeps what it changed before raising, a pair of the
  result and the state. Dictionaries are association lists in insertion order, sets are lists
  without repetition whose order the theorems do not rely on. What the code does with the
  identity of objects is modelled where it matters: the unifiers live on a heap, the inner
  dictionaries of a modal index in a store, since lists of changes share them with the graph.
  Recursive policies can make the top-down search and the propagation of events run for ever, so these
  take fuel: \<open>select_all_correct\<close> and \<open>select_one_correct\<close> give fuel that is enough for policies
  without recursion (a bound computed from the rank of the tables, the number of rules and the
  number of values). For the queue of events no bound is given: \<open>recursive_update_diverges\<close> is a run on a
  recursive policy that uses up any number of events (with fuel 40 for each query inside). The other
  loops are total functions: those with a counter (depth-first search, stratification, the reading of a
  linked set) come with lemmas that the counter suffices on well-formed input.

  \<^bold>\<open>Parameters.\<close> The code of the builtin predicates (dates, IP addresses; mostly third-party libraries) is
  an argument of the environment; so are the callbacks of triggers, the answer of a publisher
  over the network, and the clock. Sorting and comparing terms of different types follows the order
  of Python 2, for which the comparisons of \<open>compile.py\<close> were written; Python 3 raises \<open>TypeError\<close>
  where an integer meets a string there. Python floats are rationals; the equality of \<open>1\<close> and \<open>1.0\<close> as
  dictionary keys is not modelled.

  \<^bold>\<open>Not modelled.\<close> The lexers and parsers are generated from a grammar, so formulas start as data. The
  SQL database, the web API, the message bus, authentication, configuration and the drivers of cloud
  services are calls into libraries with little logic of their own. The z3 engine and the
  engine for virtual machine placement hand their work to solvers outside of the repository. Of
  \<open>agnostic.py\<close> the persistence of policies, remediation and explanation, tracing and the RPC endpoints
  are left out; printing, hashing and logging are left out everywhere.

  The properties that departed from the documentation of the code are theorems too: each states the run.
\<close>

end
